(* ===== verification/Memora_Prelude.thy ===== *)
theory Memora_Prelude
  imports Complex_Main "HOL-Library.AList" "HOL-Library.Sublist"
begin

text \<open>
  Shared vocabulary of the development: the Python string predicates the code uses (on ASCII
  text), ordered dictionaries as association lists, first-occurrence de-duplication
  (\<open>list(dict.fromkeys(xs))\<close>), chunking of parameter lists, and the generic lemmas about
  them.  The collections \<open>text_simps\<close> and \<open>dict_simps\<close> gather what the component
  proofs hand to the simplifier.
\<close>

named_theorems text_simps "evaluation of the ASCII text predicates"
named_theorems dict_simps "facts about ordered dictionaries"

section \<open>ASCII text\<close>

text \<open>
  A Python \<open>str\<close> is a list of characters.  The predicates are exact on ASCII; a character
  with code 128 or more is none of space, letter or digit here.
\<close>

definition code_of :: "char \<Rightarrow> nat" where
  "code_of c = (of_char c :: nat)"

definition is_space :: "char \<Rightarrow> bool" where
  "is_space c \<longleftrightarrow> (let n = code_of c in n = 32 \<or> (9 \<le> n \<and> n \<le> 13) \<or> (28 \<le> n \<and> n \<le> 31))"

definition is_lower :: "char \<Rightarrow> bool" where
  "is_lower c \<longleftrightarrow> (let n = code_of c in 97 \<le> n \<and> n \<le> 122)"

definition is_upper :: "char \<Rightarrow> bool" where
  "is_upper c \<longleftrightarrow> (let n = code_of c in 65 \<le> n \<and> n \<le> 90)"

definition is_alpha :: "char \<Rightarrow> bool" where
  "is_alpha c \<longleftrightarrow> is_lower c \<or> is_upper c"

definition is_digit :: "char \<Rightarrow> bool" where
  "is_digit c \<longleftrightarrow> (let n = code_of c in 48 \<le> n \<and> n \<le> 57)"

definition is_alnum :: "char \<Rightarrow> bool" where
  "is_alnum c \<longleftrightarrow> is_alpha c \<or> is_digit c"

definition upper_char :: "char \<Rightarrow> char" where
  "upper_char c = (if is_lower c then char_of (code_of c - 32) else c)"

definition lower_char :: "char \<Rightarrow> char" where
  "lower_char c = (if is_upper c then char_of (code_of c + 32) else c)"

definition str_upper :: "string \<Rightarrow> string" where
  "str_upper s = map upper_char s"

definition str_lower :: "string \<Rightarrow> string" where
  "str_lower s = map lower_char s"

text \<open>\<open>str.strip()\<close>, and the splitting of a string at one separator character.\<close>

definition str_strip :: "string \<Rightarrow> string" where
  "str_strip s = rev (dropWhile is_space (rev (dropWhile is_space s)))"

fun split_on :: "char \<Rightarrow> string \<Rightarrow> string list" where
  "split_on c [] = [[]]"
| "split_on c (x # xs) =
     (case split_on c xs of
        [] \<Rightarrow> [[x]]
      | w # ws \<Rightarrow> if x = c then [] # w # ws else (x # w) # ws)"

text \<open>\<open>sep.join(ws)\<close>.\<close>

fun str_join :: "string \<Rightarrow> string list \<Rightarrow> string" where
  "str_join sep [] = []"
| "str_join sep [w] = w"
| "str_join sep (w # v # ws) = w @ sep @ str_join sep (v # ws)"

text \<open>\<open>s.startswith(p)\<close>.\<close>

definition starts_with :: "string \<Rightarrow> string \<Rightarrow> bool" where
  "starts_with p s \<longleftrightarrow> take (length p) s = p"

text \<open>List positions as Python reads them under a bounds test: \<open>xs[i]\<close>, or nothing past the end.\<close>

definition nth_opt :: "'a list \<Rightarrow> nat \<Rightarrow> 'a option" where
  "nth_opt xs i = (if i < length xs then Some (xs ! i) else None)"

text \<open>The identifier pattern \<open>^[A-Za-z_][A-Za-z0-9_]*$\<close> of the code, without newline quirks.\<close>

definition ident_start :: "char \<Rightarrow> bool" where
  "ident_start c \<longleftrightarrow> is_alpha c \<or> c = CHR ''_''"

definition ident_char :: "char \<Rightarrow> bool" where
  "ident_char c \<longleftrightarrow> is_alnum c \<or> c = CHR ''_''"

definition is_ident :: "string \<Rightarrow> bool" where
  "is_ident s \<longleftrightarrow> (case s of [] \<Rightarrow> False | c # cs \<Rightarrow> ident_start c \<and> list_all ident_char cs)"

lemmas char_class_defs = is_space_def is_lower_def is_upper_def is_alpha_def is_digit_def
  is_alnum_def ident_start_def ident_char_def code_of_def Let_def

declare char_class_defs [text_simps] upper_char_def [text_simps] str_upper_def [text_simps]
  lower_char_def [text_simps] str_lower_def [text_simps] starts_with_def [text_simps]

lemma starts_with_append [simp]: "starts_with p (p @ s)"
  by (simp add: starts_with_def)

lemma starts_with_iff: "starts_with p s \<longleftrightarrow> (\<exists>r. s = p @ r)"
  by (auto simp: starts_with_def) (metis append_take_drop_id)

lemma split_on_not_Nil [simp]: "split_on c s \<noteq> []"
  by (induction s) (auto split: list.splits)

lemma split_on_free: "c \<notin> set s \<Longrightarrow> split_on c s = [s]"
  by (induction s) auto

lemma split_on_append: "c \<notin> set w \<Longrightarrow> split_on c (w @ c # s) = w # split_on c s"
  by (induction w) (auto split: list.splits)

lemma is_ident_Cons [simp]: "is_ident (c # cs) \<longleftrightarrow> ident_start c \<and> list_all ident_char cs"
  by (simp add: is_ident_def)

lemma is_ident_Nil [simp]: "\<not> is_ident []"
  by (simp add: is_ident_def)

lemma ident_start_char: "ident_start c \<Longrightarrow> ident_char c"
  by (auto simp: ident_start_def ident_char_def is_alnum_def)

lemma is_ident_all: "is_ident s \<Longrightarrow> list_all ident_char s"
  by (cases s) (auto intro: ident_start_char)

section \<open>Decimal numbers\<close>

definition digit_char :: "nat \<Rightarrow> char" where
  "digit_char n = char_of (48 + n)"

definition digit_val :: "char \<Rightarrow> nat" where
  "digit_val c = code_of c - 48"

fun nat_text :: "nat \<Rightarrow> string" where
  "nat_text n = (if n < 10 then [digit_char n] else nat_text (n div 10) @ [digit_char (n mod 10)])"

declare nat_text.simps [simp del]

definition int_text :: "int \<Rightarrow> string" where
  "int_text i = (if i < 0 then CHR ''-'' # nat_text (nat (- i)) else nat_text (nat i))"

definition read_nat :: "string \<Rightarrow> nat" where
  "read_nat s = foldl (\<lambda>n c. 10 * n + digit_val c) 0 s"

lemma digit_char_class: "n < 10 \<Longrightarrow> is_digit (digit_char n) \<and> digit_val (digit_char n) = n"
  by (simp add: digit_char_def digit_val_def is_digit_def code_of_def Let_def)

lemma nat_text_digits: "list_all is_digit (nat_text n) \<and> nat_text n \<noteq> []"
proof (induction n rule: nat_text.induct)
  case (1 n)
  then show ?case by (subst (1 2) nat_text.simps) (auto simp: digit_char_class)
qed

lemma read_nat_text [simp]: "read_nat (nat_text n) = n"
proof (induction n rule: nat_text.induct)
  case (1 n)
  then show ?case by (subst nat_text.simps) (auto simp: digit_char_class read_nat_def)
qed

section \<open>Ordered dictionaries\<close>

text \<open>
  A Python \<open>dict\<close> keeps insertion order: it is an association list with distinct keys.
  Assignment is \<^const>\<open>AList.update\<close> (in place, or appended), \<open>pop\<close> is
  \<^const>\<open>AList.delete\<close>, reading is \<^const>\<open>map_of\<close>.
\<close>

type_synonym ('k, 'v) dict = "('k \<times> 'v) list"

abbreviation dict_set :: "'k \<Rightarrow> 'v \<Rightarrow> ('k, 'v) dict \<Rightarrow> ('k, 'v) dict" where
  "dict_set \<equiv> AList.update"

abbreviation dict_pop :: "'k \<Rightarrow> ('k, 'v) dict \<Rightarrow> ('k, 'v) dict" where
  "dict_pop \<equiv> AList.delete"

definition dict_keys :: "('k, 'v) dict \<Rightarrow> 'k list" where
  "dict_keys d = map fst d"

definition dict_of :: "('k \<times> 'v) list \<Rightarrow> ('k, 'v) dict" where
  "dict_of kvs = fold (\<lambda>(k, v). dict_set k v) kvs []"

abbreviation dict_wf :: "('k, 'v) dict \<Rightarrow> bool" where
  "dict_wf d \<equiv> distinct (map fst d)"

lemma map_of_dict_set [simp, dict_simps]: "map_of (dict_set k v d) = (map_of d)(k \<mapsto> v)"
  by (rule update_conv')

lemma map_of_dict_pop [simp, dict_simps]: "map_of (dict_pop k d) = (map_of d)(k := None)"
  by (rule delete_conv')

lemma fst_set_dict_set [simp, dict_simps]: "fst ` set (dict_set k v d) = insert k (fst ` set d)"
  by (simp add: dom_update)

lemma dict_set_new: "k \<notin> fst ` set d \<Longrightarrow> dict_set k v d = d @ [(k, v)]"
  by (induction d) auto

lemma fold_dict_set_new:
  "distinct (map fst kvs) \<Longrightarrow> set (map fst kvs) \<inter> fst ` set d = {} \<Longrightarrow>
     fold (\<lambda>(k, v). dict_set k v) kvs d = d @ kvs"
proof (induction kvs arbitrary: d)
  case (Cons kv kvs)
  then show ?case by (cases kv) (auto simp: dict_set_new)
qed simp

lemma dict_of_distinct: "distinct (map fst kvs) \<Longrightarrow> dict_of kvs = kvs"
  by (simp add: dict_of_def fold_dict_set_new)

section \<open>JSON values\<close>

text \<open>
  What \<open>json.loads\<close> returns.  A float is the rational number it denotes.  \<open>isinstance(v, int)\<close>
  holds of Python's booleans too.
\<close>

datatype json =
    JNull
  | JBool bool
  | JInt int
  | JFloat rat
  | JStr string
  | JList "json list"
  | JObj "(string \<times> json) list"

definition is_pyint :: "json \<Rightarrow> bool" where
  "is_pyint j = (case j of JInt _ \<Rightarrow> True | JBool _ \<Rightarrow> True | _ \<Rightarrow> False)"

definition is_pybool :: "json \<Rightarrow> bool" where
  "is_pybool j = (case j of JBool _ \<Rightarrow> True | _ \<Rightarrow> False)"

definition is_pystr :: "json \<Rightarrow> bool" where
  "is_pystr j = (case j of JStr _ \<Rightarrow> True | _ \<Rightarrow> False)"

definition pyint :: "json \<Rightarrow> int" where
  "pyint j = (case j of JInt n \<Rightarrow> n | JBool b \<Rightarrow> of_bool b | _ \<Rightarrow> 0)"

text \<open>\<open>d.get(k)\<close>: a missing key reads as \<open>None\<close>, which is \<^const>\<open>JNull\<close>.\<close>

definition json_get :: "string \<Rightarrow> (string \<times> json) list \<Rightarrow> json" where
  "json_get k d = (case map_of d k of None \<Rightarrow> JNull | Some v \<Rightarrow> v)"

section \<open>De-duplication and chunking\<close>

text \<open>\<open>list(dict.fromkeys(xs))\<close>: first occurrences, in order.\<close>

fun uniq :: "'a list \<Rightarrow> 'a list" where
  "uniq [] = []"
| "uniq (x # xs) = x # removeAll x (uniq xs)"

lemma set_uniq [simp]: "set (uniq xs) = set xs"
  by (induction xs) auto

lemma distinct_uniq [simp]: "distinct (uniq xs)"
  by (induction xs) (auto simp: distinct_removeAll)

lemma uniq_distinct: "distinct xs \<Longrightarrow> uniq xs = xs"
  by (induction xs) auto

lemma length_uniq_le: "length (uniq xs) \<le> length xs"
  by (induction xs) (auto intro: order_trans [OF length_removeAll_less_eq])

text \<open>Successive slices of at most \<open>size\<close> elements.\<close>

function chunked :: "nat \<Rightarrow> 'a list \<Rightarrow> 'a list list" where
  "chunked n xs = (if xs = [] \<or> n = 0 then [] else take n xs # chunked n (drop n xs))"
  by pat_completeness auto
termination by (relation "measure (\<lambda>(n, xs). length xs)") auto

declare chunked.simps [simp del]

lemma concat_chunked: "0 < n \<Longrightarrow> concat (chunked n xs) = xs"
proof (induction n xs rule: chunked.induct)
  case (1 n xs)
  then show ?case by (cases "xs = []") (simp_all add: chunked.simps)
qed

lemma chunked_length: "c \<in> set (chunked n xs) \<Longrightarrow> length c \<le> n \<and> c \<noteq> []"
proof (induction n xs rule: chunked.induct)
  case (1 n xs)
  show ?case
  proof (cases "xs = [] \<or> n = 0")
    case True
    with "1.prems" show ?thesis by (simp add: chunked.simps [of n xs])
  next
    case False
    with "1.prems" consider "c = take n xs" | "c \<in> set (chunked n (drop n xs))"
      by (auto simp: chunked.simps [of n xs])
    then show ?thesis using False "1.IH" by cases auto
  qed
qed

lemma set_chunked: "0 < n \<Longrightarrow> (\<Union>c \<in> set (chunked n xs). set c) = set xs"
  using concat_chunked [of n xs] by (metis set_concat)

end
