(* ===== verification/Intent_Journal.thy ===== *)
theory Intent_Journal
  imports Memora_Prelude
begin

text \<open>
  Model of \<open>memora/intent_journal.py\<close>, the write-ahead journal of mutating D1 requests.  The file
  is its complete lines (each what \<open>json.loads\<close> makes of it, \<^const>\<open>None\<close> when it does not
  decode), the number of bytes after the last newline, and how many lines an \<open>fsync\<close> has made
  durable.  Each system call that can fail takes its outcome as an argument, so one method is
  one step for every way the operating system can answer.
\<close>

section \<open>Records\<close>

definition validate_record :: "json \<Rightarrow> bool" where
  "validate_record rec =
     (case rec of
        JObj d \<Rightarrow>
          (case json_get ''type'' d of
             JStr kind \<Rightarrow>
               (if kind = ''meta'' then
                  is_pyint (json_get ''next_id'' d) \<and> 1 \<le> pyint (json_get ''next_id'' d)
                else if kind = ''intent'' \<or> kind = ''resolved'' then
                  is_pyint (json_get ''id'' d) \<and> \<not> is_pybool (json_get ''id'' d) \<and>
                  1 \<le> pyint (json_get ''id'' d) \<and>
                  (kind = ''intent'' \<longrightarrow> is_pystr (json_get ''sql'' d)) \<and>
                  (kind = ''resolved'' \<longrightarrow> is_pystr (json_get ''outcome'' d))
                else False)
           | _ \<Rightarrow> False)
      | _ \<Rightarrow> False)"

record jmem =
  m_open :: "(int, json) dict"
  m_next :: int

definition rec_fields :: "json \<Rightarrow> (string \<times> json) list" where
  "rec_fields r = (case r of JObj d \<Rightarrow> d | _ \<Rightarrow> [])"

definition apply_record :: "json \<Rightarrow> jmem \<Rightarrow> jmem" where
  "apply_record rec m =
     (let d = rec_fields rec in
      if json_get ''type'' d = JStr ''meta'' then m\<lparr>m_next := max (m_next m) (pyint (json_get ''next_id'' d))\<rparr>
      else if json_get ''type'' d = JStr ''intent'' then
        (let iid = pyint (json_get ''id'' d)
         in m\<lparr>m_open := dict_set iid rec (m_open m), m_next := max (m_next m) (iid + 1)\<rparr>)
      else m\<lparr>m_open := dict_pop (pyint (json_get ''id'' d)) (m_open m)\<rparr>)"

text \<open>The records the journal writes.\<close>

definition intent_rec :: "int \<Rightarrow> string \<Rightarrow> string \<Rightarrow> json \<Rightarrow> json \<Rightarrow> json \<Rightarrow> json \<Rightarrow> json" where
  "intent_rec iid sql digest target keys post sent_at =
     JObj [(''type'', JStr ''intent''), (''id'', JInt iid), (''sql'', JStr sql),
           (''params_sha256'', JStr digest), (''target'', target), (''keys'', keys),
           (''post_state'', post), (''sent_at'', sent_at)]"

definition resolved_rec :: "int \<Rightarrow> string \<Rightarrow> json \<Rightarrow> (string \<times> json) list \<Rightarrow> json" where
  "resolved_rec iid outcome ts extra =
     JObj (fold (\<lambda>(k, v). dict_set k v) extra
       [(''type'', JStr ''resolved''), (''id'', JInt iid), (''outcome'', JStr outcome), (''at'', ts)])"

definition meta_rec :: "int \<Rightarrow> json" where
  "meta_rec n = JObj [(''type'', JStr ''meta''), (''next_id'', JInt n)]"

section \<open>The file and the journal object\<close>

text \<open>
  \<open>dk_alt\<close> is the content (and its durable length) that a crash may bring back after a rename
  whose directory \<open>fsync\<close> failed.
\<close>

record jdisk =
  dk_lines :: "json option list"
  dk_tail :: nat
  dk_synced :: nat
  dk_alt :: "(json option list \<times> nat) option"

datatype jreason =
    LockHeld | Malformed nat | CannotOpen | NotOpen | InodeMismatch
  | AppendFailed | RepairFailed | CompactionFailed | NotSent jreason

record journal =
  j_opened :: bool
  j_fd :: bool
  j_lock :: bool
  j_mem :: jmem
  j_dirty :: bool
  j_fatal :: "jreason option"
  j_broken :: "jreason option"
  j_evidence :: "(int, json) dict"

definition new_journal :: journal where
  "new_journal = \<lparr>j_opened = False, j_fd = False, j_lock = False, j_mem = \<lparr>m_open = [], m_next = 1\<rparr>,
     j_dirty = False, j_fatal = None, j_broken = None, j_evidence = []\<rparr>"

text \<open>\<open>self.fatal or self.broken\<close>.\<close>

definition unusable :: "journal \<Rightarrow> jreason option" where
  "unusable j = (case j_fatal j of Some r \<Rightarrow> Some r | None \<Rightarrow> j_broken j)"

definition journal_status :: "journal \<Rightarrow> int list \<times> jreason option" where
  "journal_status j = (map fst (m_open (j_mem j)), unusable j)"

section \<open>Opening and replay\<close>

text \<open>
  Complete lines are replayed in order; the first that does not parse or validate refuses the
  store (its position is reported).  A torn final line is cut off and the cut is synced.
\<close>

fun replay_lines :: "nat \<Rightarrow> json option list \<Rightarrow> jmem \<Rightarrow> jmem \<times> nat option" where
  "replay_lines n [] m = (m, None)"
| "replay_lines n (raw # rest) m =
     (case raw of
        None \<Rightarrow> (m, Some n)
      | Some rec \<Rightarrow>
          if validate_record rec then replay_lines (Suc n) rest (apply_record rec m) else (m, Some n))"

text \<open>
  \<open>open\<close>: the fields say whether the directory and lock file could be opened, the \<open>flock\<close> was
  free, a torn tail could be cut, and the journal file could be opened for appending.
\<close>

record open_io =
  oio_dir :: bool
  oio_lock_free :: bool
  oio_cut :: bool
  oio_fd :: bool

definition open_journal :: "open_io \<Rightarrow> journal \<Rightarrow> jdisk \<Rightarrow> journal \<times> jdisk" where
  "open_journal io j d =
     (if j_opened j then (j, d)
      else (let j1 = j\<lparr>j_opened := True\<rparr> in
        if \<not> oio_dir io then (j1\<lparr>j_fatal := Some CannotOpen\<rparr>, d)
        else if \<not> oio_lock_free io then (j1\<lparr>j_fatal := Some LockHeld\<rparr>, d)
        else
          (let mr = replay_lines 0 (dk_lines d) (j_mem j1); j2 = j1\<lparr>j_lock := True, j_mem := fst mr\<rparr> in
           case snd mr of
             Some n \<Rightarrow> (j2\<lparr>j_fatal := Some (Malformed n)\<rparr>, d)
           | None \<Rightarrow>
               if dk_tail d \<noteq> 0 \<and> \<not> oio_cut io then (j2\<lparr>j_fatal := Some CannotOpen\<rparr>, d)
               else (let d' = (if dk_tail d \<noteq> 0 then d\<lparr>dk_tail := 0, dk_synced := length (dk_lines d)\<rparr> else d)
                     in if oio_fd io then (j2\<lparr>j_fd := True\<rparr>, d') else (j2\<lparr>j_fatal := Some CannotOpen\<rparr>, d')))))"

section \<open>Appends, repair and compaction\<close>

text \<open>
  The outcomes: a write is complete or stops after some bytes of the line; the repair either
  succeeds or fails, with or without the truncation done; a compaction is skipped (its
  temporary file failed), done, or fails in one of the three calls after it.
\<close>

datatype write_out = WriteDone | WriteTorn nat

datatype repair_out = RepairDone | RepairFails bool

datatype compact_out = CompactSkipped | CompactDone | ReplaceFails | DirFsyncFails | ReopenFails

record append_io =
  io_inode_ok :: bool
  io_write :: write_out
  io_fsync_ok :: bool
  io_repair :: repair_out
  io_big :: bool
  io_compact :: compact_out

definition disk_append :: "json \<Rightarrow> jdisk \<Rightarrow> jdisk" where
  "disk_append rec d = d\<lparr>dk_lines := dk_lines d @ [Some rec]\<rparr>"

definition disk_sync :: "jdisk \<Rightarrow> jdisk" where
  "disk_sync d = d\<lparr>dk_synced := length (dk_lines d)\<rparr>"

definition repair_journal :: "repair_out \<Rightarrow> journal \<Rightarrow> jdisk \<Rightarrow> journal \<times> jdisk" where
  "repair_journal out j d =
     (case out of
        RepairDone \<Rightarrow> (j, disk_sync (d\<lparr>dk_tail := 0\<rparr>))
      | RepairFails was_cut \<Rightarrow>
          (j\<lparr>j_broken := Some RepairFailed\<rparr>, if was_cut then d\<lparr>dk_tail := 0\<rparr> else d))"

definition compact_lines :: "jmem \<Rightarrow> json option list" where
  "compact_lines m = Some (meta_rec (m_next m)) # map (\<lambda>(i, r). Some r) (m_open m)"

definition compacted :: "jmem \<Rightarrow> jdisk" where
  "compacted m = \<lparr>dk_lines = compact_lines m, dk_tail = 0, dk_synced = length (compact_lines m), dk_alt = None\<rparr>"

definition compact :: "compact_out \<Rightarrow> journal \<Rightarrow> jdisk \<Rightarrow> journal \<times> jdisk" where
  "compact out j d =
     (if \<not> j_fd j \<or> j_broken j \<noteq> None \<or> j_fatal j \<noteq> None then (j, d)
      else (case out of
          CompactSkipped \<Rightarrow> (j, d)
        | CompactDone \<Rightarrow> (j\<lparr>j_dirty := False\<rparr>, compacted (j_mem j))
        | ReplaceFails \<Rightarrow> (j\<lparr>j_broken := Some CompactionFailed\<rparr>, d)
        | DirFsyncFails \<Rightarrow>
            (j\<lparr>j_broken := Some CompactionFailed\<rparr>,
             (compacted (j_mem j))\<lparr>dk_alt := Some (dk_lines d, dk_synced d)\<rparr>)
        | ReopenFails \<Rightarrow> (j\<lparr>j_broken := Some CompactionFailed, j_fd := False\<rparr>, compacted (j_mem j))))"

definition drop_intent :: "int \<Rightarrow> journal \<Rightarrow> journal" where
  "drop_intent iid j =
     j\<lparr>j_mem := (j_mem j)\<lparr>m_open := dict_pop iid (m_open (j_mem j))\<rparr>, j_evidence := dict_pop iid (j_evidence j)\<rparr>"

definition abandon :: "write_out \<Rightarrow> repair_out \<Rightarrow> int \<Rightarrow> string \<Rightarrow> json \<Rightarrow> journal \<Rightarrow> jdisk \<Rightarrow> journal \<times> jdisk" where
  "abandon wout rout iid outcome ts j d =
     (let j1 = drop_intent iid j in
      if \<not> j_fd j1 \<or> unusable j1 \<noteq> None then (j1, d)
      else (case wout of
          WriteDone \<Rightarrow> (j1\<lparr>j_dirty := True\<rparr>, disk_append (resolved_rec iid outcome ts []) d)
        | WriteTorn n \<Rightarrow> repair_journal rout j1 (d\<lparr>dk_tail := n\<rparr>)))"

text \<open>
  \<open>append_intent\<close>: \<open>mk\<close> makes the record of the new id.  A result \<^const>\<open>Inr\<close> means the request
  may now be sent.
\<close>

definition append_intent :: "append_io \<Rightarrow> (int \<Rightarrow> json) \<Rightarrow> json \<Rightarrow> journal \<Rightarrow> jdisk \<Rightarrow>
    (jreason + int) \<times> journal \<times> jdisk" where
  "append_intent io mk ts j d =
     (case unusable j of
        Some r \<Rightarrow> (Inl r, j, d)
      | None \<Rightarrow>
          if \<not> j_fd j then (Inl NotOpen, j, d)
          else if \<not> io_inode_ok io then (Inl InodeMismatch, j\<lparr>j_broken := Some InodeMismatch\<rparr>, d)
          else
            (let iid = m_next (j_mem j); rec = mk iid in
             case io_write io of
               WriteTorn n \<Rightarrow>
                 (let jd = repair_journal (io_repair io) j (d\<lparr>dk_tail := n\<rparr>) in (Inl AppendFailed, jd))
             | WriteDone \<Rightarrow>
                 (let d1 = disk_append rec d in
                  if \<not> io_fsync_ok io then (Inl AppendFailed, repair_journal (io_repair io) j d1)
                  else
                    (let j2 = j\<lparr>j_mem := \<lparr>m_open = dict_set iid rec (m_open (j_mem j)), m_next = iid + 1\<rparr>,
                                j_dirty := False\<rparr>;
                         jd3 = (if io_big io then compact (io_compact io) j2 (disk_sync d1)
                                else (j2, disk_sync d1))
                     in case j_broken (fst jd3) of
                          Some r \<Rightarrow>
                            (Inl (NotSent r),
                             abandon WriteDone RepairDone iid ''not-sent'' ts (fst jd3) (snd jd3))
                        | None \<Rightarrow> (Inr iid, jd3)))))"

text \<open>\<open>resolve\<close>: \<^const>\<open>True\<close> when the resolution was recorded; it never raises for I/O.\<close>

record resolve_io =
  rio_write :: write_out
  rio_fsync_ok :: bool
  rio_repair :: repair_out

definition resolve :: "resolve_io \<Rightarrow> int \<Rightarrow> json \<Rightarrow> bool \<Rightarrow> journal \<Rightarrow> jdisk \<Rightarrow> bool \<times> journal \<times> jdisk" where
  "resolve io iid rec durable j d =
     (if map_of (m_open (j_mem j)) iid = None then (False, j, d)
      else if \<not> j_fd j \<or> unusable j \<noteq> None then (False, j, d)
      else (case rio_write io of
          WriteTorn n \<Rightarrow> (False, repair_journal (rio_repair io) j (d\<lparr>dk_tail := n\<rparr>))
        | WriteDone \<Rightarrow>
            (let d1 = disk_append rec d in
             if durable \<and> \<not> rio_fsync_ok io then (False, repair_journal (rio_repair io) j d1)
             else (True, drop_intent iid (if durable then j else j\<lparr>j_dirty := True\<rparr>),
                   if durable then disk_sync d1 else d1))))"

text \<open>One tick of the lazy \<open>fsync\<close> timer, and \<open>close\<close>.\<close>

definition fsync_tick :: "bool \<Rightarrow> repair_out \<Rightarrow> journal \<Rightarrow> jdisk \<Rightarrow> journal \<times> jdisk" where
  "fsync_tick ok rout j d =
     (if j_dirty j \<and> j_fd j \<and> j_broken j = None then
        (if ok then (j\<lparr>j_dirty := False\<rparr>, disk_sync d) else repair_journal rout j d)
      else (j, d))"

definition close_journal :: "bool \<Rightarrow> journal \<Rightarrow> jdisk \<Rightarrow> journal \<times> jdisk" where
  "close_journal ok j d =
     (j\<lparr>j_fd := False, j_lock := False\<rparr>, if j_fd j \<and> ok then disk_sync d else d)"

text \<open>What a crash can leave of the file: any prefix with the durable lines, and torn bytes.\<close>

definition survives :: "jdisk \<Rightarrow> jdisk \<Rightarrow> bool" where
  "survives d d' \<longleftrightarrow>
     (\<exists>k. dk_synced d \<le> k \<and> k \<le> length (dk_lines d) \<and> dk_lines d' = take k (dk_lines d)) \<or>
     (\<exists>ls s k. dk_alt d = Some (ls, s) \<and> s \<le> k \<and> k \<le> length ls \<and> dk_lines d' = take k ls)"

end
