(* ===== verification/Journal_Safety.thy ===== *)
theory Journal_Safety
  imports Intent_Journal
begin

text \<open>
  The contract of the write-ahead journal: an intent whose request may have been sent, and whose
  outcome was never learned, is still open after any crash at any moment, and the next process
  never refuses a file this one wrote and never reuses the id of a surviving open intent.
  The contract is the locale \<open>write_ahead_log\<close>; the invariant of the journal and its file is
  proved operation by operation.
\<close>

section \<open>Replay as a fold\<close>

definition rep :: "json option list \<Rightarrow> jmem" where
  "rep ls = fold (apply_record \<circ> the) ls \<lparr>m_open = [], m_next = 1\<rparr>"

definition good_lines :: "json option list \<Rightarrow> bool" where
  "good_lines ls \<longleftrightarrow> (\<forall>l \<in> set ls. \<exists>r. l = Some r \<and> validate_record r)"

lemma replay_good: "good_lines ls \<Longrightarrow> replay_lines n ls m = (fold (apply_record \<circ> the) ls m, None)"
  by (induction ls arbitrary: n m) (auto simp: good_lines_def)

lemma replay_rep: "good_lines ls \<Longrightarrow> replay_lines n ls \<lparr>m_open = [], m_next = 1\<rparr> = (rep ls, None)"
  by (simp add: replay_good rep_def)

lemma rep_snoc: "rep (ls @ [Some r]) = apply_record r (rep ls)"
  by (simp add: rep_def)

section \<open>The records the journal writes\<close>

definition intent_for :: "int \<Rightarrow> json \<Rightarrow> bool" where
  "intent_for i r \<longleftrightarrow> validate_record r \<and> json_get ''type'' (rec_fields r) = JStr ''intent'' \<and>
     json_get ''id'' (rec_fields r) = JInt i"

definition resolution_for :: "int \<Rightarrow> json \<Rightarrow> bool" where
  "resolution_for i r \<longleftrightarrow> validate_record r \<and> json_get ''type'' (rec_fields r) = JStr ''resolved'' \<and>
     json_get ''id'' (rec_fields r) = JInt i"

lemma intent_for_rec: "1 \<le> i \<Longrightarrow> intent_for i (intent_rec i sql digest target keys post sent)"
  by (simp add: intent_for_def intent_rec_def validate_record_def rec_fields_def json_get_def
      is_pyint_def is_pybool_def is_pystr_def pyint_def)

lemma map_of_fold_dict_set: "k \<notin> fst ` set kvs \<Longrightarrow> map_of (fold (\<lambda>(k, v). dict_set k v) kvs d) k = map_of d k"
  by (induction kvs arbitrary: d) auto

lemma resolution_for_rec:
  assumes "1 \<le> i" and "{''type'', ''id'', ''outcome''} \<inter> fst ` set extra = {}"
  shows "resolution_for i (resolved_rec i outcome ts extra)"
  using assms map_of_fold_dict_set [of "''type''" extra] map_of_fold_dict_set [of "''id''" extra]
    map_of_fold_dict_set [of "''outcome''" extra]
  by (auto simp: resolution_for_def resolved_rec_def validate_record_def rec_fields_def json_get_def
      is_pyint_def is_pybool_def is_pystr_def pyint_def)

lemma apply_intent: "intent_for i r \<Longrightarrow> apply_record r m =
    \<lparr>m_open = dict_set i r (m_open m), m_next = max (m_next m) (i + 1)\<rparr>"
  by (simp add: intent_for_def apply_record_def Let_def pyint_def)

lemma apply_resolution: "resolution_for i r \<Longrightarrow> apply_record r m = m\<lparr>m_open := dict_pop i (m_open m)\<rparr>"
  by (simp add: resolution_for_def apply_record_def Let_def pyint_def)

lemma valid_meta: "1 \<le> n \<Longrightarrow> validate_record (meta_rec n)"
  by (simp add: meta_rec_def validate_record_def json_get_def is_pyint_def pyint_def)

lemma apply_meta: "apply_record (meta_rec n) m = m\<lparr>m_next := max (m_next m) n\<rparr>"
  by (simp add: meta_rec_def apply_record_def rec_fields_def json_get_def pyint_def)

section \<open>What memory and file content must satisfy\<close>

text \<open>Every open intent has its own valid record and an id below the next one.\<close>

definition mem_ok :: "jmem \<Rightarrow> bool" where
  "mem_ok m \<longleftrightarrow> 1 \<le> m_next m \<and> (\<forall>i r. map_of (m_open m) i = Some r \<longrightarrow> intent_for i r \<and> i < m_next m)
     \<and> dict_wf (m_open m)"

text \<open>A content is good for a set of pending ids when it replays with all of them open.\<close>

definition content_ok :: "int set \<Rightarrow> json option list \<Rightarrow> bool" where
  "content_ok P ls \<longleftrightarrow> good_lines ls \<and> P \<subseteq> dom (map_of (m_open (rep ls)))"

lemma mem_ok_empty: "mem_ok \<lparr>m_open = [], m_next = 1\<rparr>"
  by (simp add: mem_ok_def)

lemma validate_cases:
  assumes "validate_record r"
  obtains (meta) n where "1 \<le> n" "apply_record r = (\<lambda>m. m\<lparr>m_next := max (m_next m) n\<rparr>)"
    | (intent) i where "intent_for i r" "1 \<le> i"
    | (resolved) i where "resolution_for i r"
proof -
  from assms obtain d where r: "r = JObj d" by (auto simp: validate_record_def split: json.splits)
  from assms r obtain kind where kind: "json_get ''type'' d = JStr kind"
    by (auto simp: validate_record_def split: json.splits)
  have id: "is_pyint v \<Longrightarrow> \<not> is_pybool v \<Longrightarrow> v = JInt (pyint v)" for v
    by (auto simp: is_pyint_def is_pybool_def pyint_def split: json.splits)
  consider "kind = ''meta''" | "kind = ''intent''" | "kind = ''resolved''"
    using assms r kind by (auto simp: validate_record_def split: if_splits)
  then show thesis
  proof cases
    case 1
    with assms r kind show thesis
      by (intro meta [of "pyint (json_get ''next_id'' d)"])
         (auto simp: validate_record_def apply_record_def rec_fields_def fun_eq_iff)
  next
    case 2
    with assms r kind id show thesis
      by (intro intent [of "pyint (json_get ''id'' d)"])
         (auto simp: validate_record_def intent_for_def rec_fields_def)
  next
    case 3
    with assms r kind id show thesis
      by (intro resolved [of "pyint (json_get ''id'' d)"])
         (auto simp: validate_record_def resolution_for_def rec_fields_def)
  qed
qed

lemma dict_wf_set: "dict_wf d \<Longrightarrow> dict_wf (dict_set k v d)"
  by (rule distinct_update)

lemma dict_wf_pop: "dict_wf d \<Longrightarrow> dict_wf (dict_pop k d)"
  by (rule distinct_delete)

lemma mem_ok_apply: "validate_record r \<Longrightarrow> mem_ok m \<Longrightarrow> mem_ok (apply_record r m)"
proof (erule validate_cases)
  fix i assume "intent_for i r" "1 \<le> i" "mem_ok m"
  then show "mem_ok (apply_record r m)"
    by (fastforce simp: mem_ok_def apply_intent dict_wf_set split: if_splits)
next
  fix i assume "resolution_for i r" "mem_ok m"
  then show "mem_ok (apply_record r m)"
    by (auto simp: mem_ok_def apply_resolution dict_wf_pop split: if_splits)
qed (fastforce simp: mem_ok_def)

lemma mem_ok_rep: "good_lines ls \<Longrightarrow> mem_ok (rep ls)"
proof (induction ls rule: rev_induct)
  case Nil
  then show ?case by (simp add: rep_def mem_ok_empty)
next
  case (snoc l ls)
  then obtain r where "l = Some r" "validate_record r" "good_lines ls" by (auto simp: good_lines_def)
  with snoc.IH show ?case by (simp add: rep_snoc mem_ok_apply)
qed

lemma content_intent: "content_ok P ls \<Longrightarrow> intent_for i r \<Longrightarrow> content_ok (insert i P) (ls @ [Some r])"
  by (auto simp: content_ok_def rep_snoc apply_intent good_lines_def intent_for_def)

lemma content_resolution: "content_ok P ls \<Longrightarrow> resolution_for i r \<Longrightarrow> content_ok (P - {i}) (ls @ [Some r])"
  by (auto simp: content_ok_def rep_snoc apply_resolution good_lines_def resolution_for_def)

lemma content_mono: "content_ok P ls \<Longrightarrow> Q \<subseteq> P \<Longrightarrow> content_ok Q ls"
  by (auto simp: content_ok_def)

lemma rep_compact_aux:
  "(\<forall>(i, r) \<in> set d. intent_for i r) \<Longrightarrow>
     dom (map_of (m_open (fold (apply_record \<circ> the) (map (\<lambda>(i, r). Some r) d) m))) =
     dom (map_of (m_open m)) \<union> fst ` set d"
proof (induction d arbitrary: m)
  case (Cons ir d)
  then show ?case by (cases ir) (auto simp: apply_intent)
qed simp

lemma content_compact:
  assumes "mem_ok m"
  shows "content_ok (dom (map_of (m_open m))) (compact_lines m)"
proof -
  have recs: "\<forall>(i, r) \<in> set (m_open m). intent_for i r"
    using assms by (auto simp: mem_ok_def)
  have "good_lines (compact_lines m)"
    using assms recs valid_meta by (fastforce simp: good_lines_def compact_lines_def mem_ok_def intent_for_def)
  moreover have "dom (map_of (m_open (rep (compact_lines m)))) = fst ` set (m_open m)"
    using rep_compact_aux [OF recs] by (simp add: rep_def compact_lines_def apply_meta)
  ultimately show ?thesis by (simp add: content_ok_def dom_map_of_conv_image_fst)
qed

section \<open>Every content a crash can leave\<close>

definition survivor_ok :: "int set \<Rightarrow> jdisk \<Rightarrow> bool" where
  "survivor_ok P d \<longleftrightarrow>
     dk_synced d \<le> length (dk_lines d) \<and>
     (\<forall>k. dk_synced d \<le> k \<and> k \<le> length (dk_lines d) \<longrightarrow> content_ok P (take k (dk_lines d))) \<and>
     (\<forall>ls s k. dk_alt d = Some (ls, s) \<and> s \<le> k \<and> k \<le> length ls \<longrightarrow> content_ok P (take k ls))"

lemma survivor_full: "survivor_ok P d \<Longrightarrow> content_ok P (dk_lines d)"
  by (auto simp: survivor_ok_def dest: spec [of _ "length (dk_lines d)"])

lemma survivor_mono: "survivor_ok P d \<Longrightarrow> Q \<subseteq> P \<Longrightarrow> survivor_ok Q d"
  by (simp add: survivor_ok_def) (meson content_mono)

lemma survivor_tail [simp]: "survivor_ok P (d\<lparr>dk_tail := n\<rparr>) = survivor_ok P d"
  by (simp add: survivor_ok_def)

lemma survivor_sync: "survivor_ok P d \<Longrightarrow> survivor_ok P (disk_sync d)"
  using survivor_full [of P d] by (auto simp: survivor_ok_def disk_sync_def)

lemma survivor_append:
  assumes "survivor_ok P d" and "content_ok P (dk_lines d @ [Some r])"
  shows "survivor_ok P (disk_append r d)"
  using assms by (auto simp: survivor_ok_def disk_append_def le_Suc_eq)

lemma survivor_append_sync:
  assumes "survivor_ok P d" and "content_ok Q (dk_lines d @ [Some r])" and "Q \<subseteq> insert i P" and "dk_alt d = None"
  shows "survivor_ok Q (disk_sync (disk_append r d))"
  using assms by (auto simp: survivor_ok_def disk_append_def disk_sync_def)

lemma survivor_repair:
  assumes "survivor_ok P d" and "repair_journal out j d = (j', d')"
  shows "survivor_ok P d'"
  using assms by (auto simp: repair_journal_def survivor_sync split: repair_out.splits)

lemma survivor_compacted: "mem_ok m \<Longrightarrow> P \<subseteq> dom (map_of (m_open m)) \<Longrightarrow> survivor_ok P (compacted m)"
  using content_compact [of m] by (auto simp: survivor_ok_def compacted_def intro: content_mono)

section \<open>The contract, and a client of it\<close>

text \<open>
  A client appends before it sends, settles after a known outcome, and may lose the process at
  any moment; \<open>background\<close> is everything else that touches the log.
\<close>

locale write_ahead_log =
  fixes append :: "'a \<Rightarrow> 's \<Rightarrow> int option \<times> 's"
    and settle :: "'r \<Rightarrow> int \<Rightarrow> 's \<Rightarrow> 's"
    and settle_ok :: "'r \<Rightarrow> int \<Rightarrow> bool"
    and background :: "'s \<Rightarrow> 's \<Rightarrow> bool"
    and crash :: "'s \<Rightarrow> 's \<Rightarrow> bool"
    and in_service :: "'s \<Rightarrow> bool"
    and open_ids :: "'s \<Rightarrow> int set"
    and inv :: "int set \<Rightarrow> 's \<Rightarrow> bool"
  assumes append_sent: "inv P s \<Longrightarrow> append a s = (Some i, s') \<Longrightarrow> i \<notin> P \<and> inv (insert i P) s'"
    and append_refused: "inv P s \<Longrightarrow> append a s = (None, s') \<Longrightarrow> inv P s'"
    and settled: "inv P s \<Longrightarrow> settle_ok r i \<Longrightarrow> inv (P - {i}) (settle r i s)"
    and background_inv: "inv P s \<Longrightarrow> background s s' \<Longrightarrow> inv P s'"
    and crash_inv: "inv P s \<Longrightarrow> crash s s' \<Longrightarrow> inv P s'"
    and open_in_service: "inv P s \<Longrightarrow> in_service s \<Longrightarrow> P \<subseteq> open_ids s"
begin

text \<open>Runs of one log, with the set of requests whose outcome is in doubt.\<close>

inductive run :: "int set \<times> 's \<Rightarrow> int set \<times> 's \<Rightarrow> bool" where
  run_refl: "run c c"
| run_send: "run c (P, s) \<Longrightarrow> append a s = (Some i, s') \<Longrightarrow> run c (insert i P, s')"
| run_refuse: "run c (P, s) \<Longrightarrow> append a s = (None, s') \<Longrightarrow> run c (P, s')"
| run_settle: "run c (P, s) \<Longrightarrow> settle_ok r i \<Longrightarrow> run c (P - {i}, settle r i s)"
| run_background: "run c (P, s) \<Longrightarrow> background s s' \<Longrightarrow> run c (P, s')"
| run_crash: "run c (P, s) \<Longrightarrow> crash s s' \<Longrightarrow> run c (P, s')"

lemma run_inv: "run c c' \<Longrightarrow> inv (fst c) (snd c) \<Longrightarrow> inv (fst c') (snd c')"
  by (induction rule: run.induct)
     (auto dest: append_sent append_refused intro: settled background_inv crash_inv)

lemma run_in_doubt_open: "run ({}, s0) (P, s) \<Longrightarrow> inv {} s0 \<Longrightarrow> in_service s \<Longrightarrow> P \<subseteq> open_ids s"
  using run_inv [of "({}, s0)" "(P, s)"] open_in_service by simp

lemma run_send_fresh: "run ({}, s0) (P, s) \<Longrightarrow> inv {} s0 \<Longrightarrow> append a s = (Some i, s') \<Longrightarrow> i \<notin> P"
  using run_inv [of "({}, s0)" "(P, s)"] append_sent by simp

end

section \<open>The journal fulfils the contract\<close>

definition journal_inv :: "int set \<Rightarrow> journal \<times> jdisk \<Rightarrow> bool" where
  "journal_inv P jd \<longleftrightarrow>
     (let j = fst jd; d = snd jd in
      survivor_ok P d \<and>
      (j_lock j \<longrightarrow> mem_ok (j_mem j) \<and> P \<subseteq> dom (map_of (m_open (j_mem j)))) \<and>
      (j_fd j \<longrightarrow> j_lock j) \<and> (j_lock j \<longrightarrow> j_opened j) \<and>
      (j_lock j \<and> unusable j = None \<longrightarrow> dk_alt d = None) \<and>
      (\<not> j_opened j \<longrightarrow> j_mem j = \<lparr>m_open = [], m_next = 1\<rparr> \<and> dk_alt d = None))"

text \<open>The arguments of a logged request, and the three ways to settle one.\<close>

record request =
  rq_sql :: string
  rq_digest :: string
  rq_target :: json
  rq_keys :: json
  rq_post :: json
  rq_sent :: json

definition request_rec :: "request \<Rightarrow> int \<Rightarrow> json" where
  "request_rec r iid = intent_rec iid (rq_sql r) (rq_digest r) (rq_target r) (rq_keys r) (rq_post r) (rq_sent r)"

definition log_request :: "append_io \<times> request \<times> json \<Rightarrow> journal \<times> jdisk \<Rightarrow> int option \<times> journal \<times> jdisk" where
  "log_request a jd =
     (case append_intent (fst a) (request_rec (fst (snd a))) (snd (snd a)) (fst jd) (snd jd) of
        (Inl _, r) \<Rightarrow> (None, r) | (Inr i, r) \<Rightarrow> (Some i, r))"

datatype settlement =
    Resolution resolve_io string json "(string \<times> json) list" bool
  | NeverSent write_out repair_out string json

definition settlement_ok :: "settlement \<Rightarrow> int \<Rightarrow> bool" where
  "settlement_ok st i =
     (case st of Resolution io outcome ts extra durable \<Rightarrow> {''type'', ''id'', ''outcome''} \<inter> fst ` set extra = {}
      | NeverSent _ _ _ _ \<Rightarrow> 1 \<le> i)"

definition settle_request :: "settlement \<Rightarrow> int \<Rightarrow> journal \<times> jdisk \<Rightarrow> journal \<times> jdisk" where
  "settle_request st i jd =
     (case st of
        Resolution io outcome ts extra durable \<Rightarrow>
          snd (resolve io i (resolved_rec i outcome ts extra) durable (fst jd) (snd jd))
      | NeverSent wout rout outcome ts \<Rightarrow> abandon wout rout i outcome ts (fst jd) (snd jd))"

text \<open>
  The timer, a shutdown, a start (of the same or of the next process), and a refresh of the evidence
  kept for the operator.
\<close>

inductive journal_background :: "journal \<times> jdisk \<Rightarrow> journal \<times> jdisk \<Rightarrow> bool" where
  tick: "journal_background (j, d) (fsync_tick ok rout j d)"
| shut: "journal_background (j, d) (close_journal ok j d)"
| start: "journal_background (j, d) (open_journal io j d)"
| gather: "journal_background (j, d) (j\<lparr>j_evidence := ev\<rparr>, d)"

definition journal_crash :: "journal \<times> jdisk \<Rightarrow> journal \<times> jdisk \<Rightarrow> bool" where
  "journal_crash jd jd' \<longleftrightarrow> fst jd' = new_journal \<and> survives (snd jd) (snd jd') \<and>
     dk_synced (snd jd') = length (dk_lines (snd jd')) \<and> dk_alt (snd jd') = None"

definition journal_in_service :: "journal \<times> jdisk \<Rightarrow> bool" where
  "journal_in_service jd \<longleftrightarrow> j_lock (fst jd)"

definition journal_open_ids :: "journal \<times> jdisk \<Rightarrow> int set" where
  "journal_open_ids jd = set (fst (journal_status (fst jd)))"

lemma open_ids_dom: "journal_open_ids jd = dom (map_of (m_open (j_mem (fst jd))))"
  by (simp add: journal_open_ids_def journal_status_def dom_map_of_conv_image_fst)

lemmas journal_inv_unfold = journal_inv_def Let_def fst_conv snd_conv

lemma journal_inv_mono: "journal_inv P jd \<Longrightarrow> Q \<subseteq> P \<Longrightarrow> journal_inv Q jd"
  unfolding journal_inv_unfold by (blast intro: survivor_mono)

lemma unusable_broken [simp]: "unusable (j\<lparr>j_broken := Some r\<rparr>) \<noteq> None"
  "\<exists>y. unusable (j\<lparr>j_broken := Some r\<rparr>) = Some y"
  by (cases "j_fatal j"; simp add: unusable_def)+

lemma unusable_mem [simp]: "unusable (j\<lparr>j_mem := m\<rparr>) = unusable j" "unusable (j\<lparr>j_evidence := e\<rparr>) = unusable j"
  "unusable (j\<lparr>j_dirty := b\<rparr>) = unusable j" "unusable (j\<lparr>j_mem := m, j_dirty := b\<rparr>) = unusable j"
  by (cases "j_fatal j"; simp add: unusable_def)+

lemma sync_alt [simp]: "dk_alt (disk_sync d) = dk_alt d" "dk_alt (disk_append r d) = dk_alt d"
  by (simp_all add: disk_sync_def disk_append_def)

lemma repair_inv:
  assumes inv: "journal_inv P (j, d0)" and surv: "survivor_ok P d" and alt: "dk_alt d = dk_alt d0"
  shows "journal_inv P (repair_journal out j d)"
proof (cases out)
  case RepairDone
  have "survivor_ok P (disk_sync (d\<lparr>dk_tail := 0\<rparr>))" using surv by (intro survivor_sync) simp
  then show ?thesis using inv alt RepairDone
    by (auto simp: journal_inv_unfold repair_journal_def)
next
  case (RepairFails b)
  then show ?thesis using inv surv alt
    by (auto simp: journal_inv_unfold repair_journal_def)
qed

lemma request_intent: "1 \<le> i \<Longrightarrow> intent_for i (request_rec r i)"
  by (simp add: request_rec_def intent_for_rec)

lemma mem_ok_drop: "mem_ok m \<Longrightarrow> mem_ok (m\<lparr>m_open := dict_pop i (m_open m)\<rparr>)"
  by (auto simp: mem_ok_def dict_wf_pop split: if_splits)

lemma drop_unusable [simp]: "unusable (drop_intent i j) = unusable j" "j_fd (drop_intent i j) = j_fd j"
  "j_lock (drop_intent i j) = j_lock j" "j_mem (drop_intent i j) = (j_mem j)\<lparr>m_open := dict_pop i (m_open (j_mem j))\<rparr>"
  "j_opened (drop_intent i j) = j_opened j"
  by (simp_all add: drop_intent_def)

lemma drop_inv: "journal_inv P (j, d) \<Longrightarrow> i \<notin> P \<Longrightarrow> journal_inv P (drop_intent i j, d)"
  by (auto simp: journal_inv_unfold mem_ok_drop)

lemma append_mem_ok:
  assumes "mem_ok m" and "intent_for (m_next m) r"
  shows "mem_ok \<lparr>m_open = dict_set (m_next m) r (m_open m), m_next = m_next m + 1\<rparr>"
  using assms by (force simp: mem_ok_def dict_wf_set split: if_splits)

lemma next_fresh: "mem_ok m \<Longrightarrow> m_next m \<notin> dom (map_of (m_open m))"
  by (auto simp: mem_ok_def)

text \<open>Each operation keeps the invariant.\<close>

lemma abandon_inv:
  assumes inv: "journal_inv P (j, d)" and i: "i \<notin> P" "1 \<le> i"
  shows "journal_inv P (abandon wout rout i outcome ts j d)"
proof -
  note dropped = drop_inv [OF inv i(1)]
  have surv: "survivor_ok P d" using inv by (simp add: journal_inv_unfold)
  have "resolution_for i (resolved_rec i outcome ts [])" by (rule resolution_for_rec) (use i in auto)
  from content_resolution [OF survivor_full [OF surv] this]
  have "survivor_ok P (disk_append (resolved_rec i outcome ts []) d)"
    using i(1) by (intro survivor_append [OF surv]) simp
  with dropped surv show ?thesis
    by (auto simp: abandon_def Let_def journal_inv_unfold split: write_out.splits
        intro!: repair_inv [OF dropped, unfolded journal_inv_unfold])
qed

lemma resolve_inv:
  assumes inv: "journal_inv P (j, d)" and res: "resolution_for i r"
  shows "journal_inv (P - {i}) (snd (resolve io i r durable j d))"
proof -
  have inv': "journal_inv (P - {i}) (j, d)" using inv by (rule journal_inv_mono) blast
  then have surv: "survivor_ok (P - {i}) d" by (simp add: journal_inv_unfold)
  from content_resolution [OF survivor_full [OF surv] res]
  have surv1: "survivor_ok (P - {i}) (disk_append r d)"
    by (intro survivor_append [OF surv]) (simp add: content_mono)
  note dropped = drop_inv [OF inv', of i, simplified]
  have ok: "journal_inv (P - {i}) (drop_intent i (if durable then j else j\<lparr>j_dirty := True\<rparr>),
      if durable then disk_sync (disk_append r d) else disk_append r d)"
    using dropped surv1 survivor_sync [OF surv1] by (auto simp: journal_inv_unfold)
  show ?thesis
    using inv' ok surv surv1
    by (auto simp: resolve_def Let_def split: write_out.splits intro!: repair_inv [OF inv'])
qed

lemma compact_inv:
  assumes inv: "journal_inv P (j, d)"
  shows "journal_inv P (compact out j d)"
proof (cases "\<not> j_fd j \<or> j_broken j \<noteq> None \<or> j_fatal j \<noteq> None")
  case True
  then show ?thesis using inv by (auto simp: compact_def)
next
  case False
  then have fd: "j_fd j" "unusable j = None" by (auto simp: unusable_def)
  with inv have mem: "mem_ok (j_mem j)" "P \<subseteq> dom (map_of (m_open (j_mem j)))" and surv: "survivor_ok P d"
    and lock: "j_lock j" and opened: "j_opened j" and alt: "dk_alt d = None"
    by (auto simp: journal_inv_unfold mem_ok_def)
  note new = survivor_compacted [OF mem]
  have old_new: "survivor_ok P ((compacted (j_mem j))\<lparr>dk_alt := Some (dk_lines d, dk_synced d)\<rparr>)"
    using new surv by (auto simp: survivor_ok_def)
  have alt': "dk_alt (compacted m) = None" for m by (simp add: compacted_def)
  show ?thesis
    using False mem surv new old_new lock opened alt alt'
    by (cases out) (auto simp: compact_def journal_inv_unfold)
qed

lemma opened_of_lock: "journal_inv P (j, d) \<Longrightarrow> j_fd j \<Longrightarrow> unusable j = None \<Longrightarrow>
    mem_ok (j_mem j) \<and> P \<subseteq> dom (map_of (m_open (j_mem j))) \<and> survivor_ok P d \<and> dk_alt d = None \<and> j_lock j"
  by (auto simp: journal_inv_unfold)

lemma appended_inv:
  assumes inv: "journal_inv P (j, d)" and fd: "j_fd j" and ok: "unusable j = None"
    and i: "i = m_next (j_mem j)" and r: "intent_for i r"
  shows "i \<notin> P \<and> 1 \<le> i \<and> survivor_ok P (disk_append r d) \<and>
    journal_inv (insert i P)
      (j\<lparr>j_mem := \<lparr>m_open = dict_set i r (m_open (j_mem j)), m_next = i + 1\<rparr>, j_dirty := False\<rparr>,
       disk_sync (disk_append r d))"
proof -
  from opened_of_lock [OF inv fd ok] have mem: "mem_ok (j_mem j)" "P \<subseteq> dom (map_of (m_open (j_mem j)))"
    and surv: "survivor_ok P d" and alt: "dk_alt d = None" and lock: "j_lock j" by auto
  have fresh: "i \<notin> P" using next_fresh [OF mem(1)] mem(2) i by blast
  have one: "1 \<le> i" using mem(1) i by (simp add: mem_ok_def)
  note content = content_intent [OF survivor_full [OF surv] r]
  have kept: "survivor_ok P (disk_append r d)"
    by (rule survivor_append [OF surv]) (use content in \<open>auto intro: content_mono\<close>)
  have synced: "survivor_ok (insert i P) (disk_sync (disk_append r d))"
    by (rule survivor_append_sync [OF surv content _ alt]) blast
  have "mem_ok \<lparr>m_open = dict_set i r (m_open (j_mem j)), m_next = i + 1\<rparr>"
    using append_mem_ok [OF mem(1)] r i by simp
  then show ?thesis
    using fresh one kept synced inv mem alt lock fd by (auto simp: journal_inv_unfold)
qed

lemma log_request_inv:
  assumes inv: "journal_inv P jd" and run: "log_request a jd = (res, jd')"
  shows "case res of None \<Rightarrow> journal_inv P jd' | Some i \<Rightarrow> i \<notin> P \<and> journal_inv (insert i P) jd'"
proof -
  obtain j d where jd: "jd = (j, d)" by (cases jd)
  obtain io rq ts where a: "a = (io, rq, ts)" by (cases a)
  let ?i = "m_next (j_mem j)" and ?r = "request_rec rq (m_next (j_mem j))"
  show ?thesis
  proof (cases "unusable j = None \<and> j_fd j \<and> io_inode_ok io")
    case False
    then have "res = None" "jd' = (j, d) \<or> jd' = (j\<lparr>j_broken := Some InodeMismatch\<rparr>, d)"
      using run by (auto simp: log_request_def append_intent_def jd a split: option.splits if_splits)
    then show ?thesis using inv by (auto simp: jd journal_inv_unfold)
  next
    case True
    then have fd: "j_fd j" and ok: "unusable j = None" and inode: "io_inode_ok io" by auto
    have one: "1 \<le> ?i" using opened_of_lock [OF inv [unfolded jd] fd ok] by (simp add: mem_ok_def)
    note app = appended_inv [OF inv [unfolded jd] fd ok refl request_intent [OF one, of rq]]
    have surv: "survivor_ok P d" using inv by (simp add: jd journal_inv_unfold)
    note unfold_run = log_request_def append_intent_def Let_def
    show ?thesis
    proof (cases "io_write io")
      case (WriteTorn n)
      then have "res = None" "jd' = repair_journal (io_repair io) j (d\<lparr>dk_tail := n\<rparr>)"
        using run fd ok inode by (auto simp: unfold_run jd a)
      then show ?thesis using repair_inv [OF inv [unfolded jd], of "d\<lparr>dk_tail := n\<rparr>"] surv by simp
    next
      case WriteDone
      show ?thesis
      proof (cases "io_fsync_ok io")
        case False
        then have "res = None" "jd' = repair_journal (io_repair io) j (disk_append ?r d)"
          using run fd ok inode WriteDone by (auto simp: unfold_run jd a)
        then show ?thesis using repair_inv [OF inv [unfolded jd]] app by simp
      next
        case True
        let ?j2 = "j\<lparr>j_mem := \<lparr>m_open = dict_set ?i ?r (m_open (j_mem j)), m_next = ?i + 1\<rparr>, j_dirty := False\<rparr>"
        let ?d2 = "disk_sync (disk_append ?r d)"
        obtain j3 d3 where c: "(if io_big io then compact (io_compact io) ?j2 ?d2 else (?j2, ?d2)) = (j3, d3)"
          by fastforce
        then have inv3: "journal_inv (insert ?i P) (j3, d3)"
          using app compact_inv [of "insert ?i P" ?j2 ?d2 "io_compact io"] by (auto split: if_splits)
        show ?thesis
        proof (cases "j_broken j3")
          case None
          then have "res = Some ?i" "jd' = (j3, d3)"
            using run fd ok inode WriteDone True c by (auto simp: unfold_run jd a)
          then show ?thesis using inv3 app by simp
        next
          case (Some r)
          then have "res = None" "jd' = abandon WriteDone RepairDone ?i ''not-sent'' ts j3 d3"
            using run fd ok inode WriteDone True c by (auto simp: unfold_run jd a)
          moreover have "journal_inv P (j3, d3)" using inv3 by (rule journal_inv_mono) blast
          ultimately show ?thesis using abandon_inv app one by simp
        qed
      qed
    qed
  qed
qed

lemma intent_for_pos: "intent_for i r \<Longrightarrow> 1 \<le> i"
  by (auto simp: intent_for_def validate_record_def rec_fields_def pyint_def split: json.splits if_splits)

lemma settle_inv:
  assumes inv: "journal_inv P jd" and ok: "settlement_ok st i"
  shows "journal_inv (P - {i}) (settle_request st i jd)"
proof -
  obtain j d where jd: "jd = (j, d)" by (cases jd)
  have weaker: "journal_inv (P - {i}) (j, d)" using inv jd by (auto intro: journal_inv_mono)
  show ?thesis
  proof (cases st)
    case (Resolution io outcome ts extra durable)
    let ?r = "resolved_rec i outcome ts extra"
    show ?thesis
    proof (cases "map_of (m_open (j_mem j)) i = None \<or> \<not> j_fd j")
      case True
      then show ?thesis using weaker Resolution by (auto simp: settle_request_def jd resolve_def)
    next
      case False
      then obtain r where r: "map_of (m_open (j_mem j)) i = Some r" and "j_fd j" by auto
      then have "mem_ok (j_mem j)" using inv by (simp add: jd journal_inv_unfold)
      with r have "intent_for i r" by (simp add: mem_ok_def)
      then have "1 \<le> i" by (rule intent_for_pos)
      then have "resolution_for i ?r"
        using ok Resolution by (intro resolution_for_rec) (auto simp: settlement_ok_def)
      then show ?thesis using resolve_inv [OF inv [unfolded jd]] Resolution by (simp add: settle_request_def jd)
    qed
  next
    case (NeverSent wout rout outcome ts)
    then show ?thesis using abandon_inv [OF weaker] ok by (simp add: settle_request_def jd settlement_ok_def)
  qed
qed

lemma open_inv:
  assumes inv: "journal_inv P (j, d)"
  shows "journal_inv P (open_journal io j d)"
proof (cases "j_opened j")
  case True
  then show ?thesis using inv by (simp add: open_journal_def)
next
  case False
  with inv have mem: "j_mem j = \<lparr>m_open = [], m_next = 1\<rparr>" and alt: "dk_alt d = None"
    and surv: "survivor_ok P d" and lock: "\<not> j_lock j" "\<not> j_fd j"
    by (auto simp: journal_inv_unfold)
  have content: "content_ok P (dk_lines d)" by (rule survivor_full [OF surv])
  then have replayed: "replay_lines 0 (dk_lines d) \<lparr>m_open = [], m_next = 1\<rparr> = (rep (dk_lines d), None)"
    by (simp add: replay_rep content_ok_def)
  have good: "mem_ok (rep (dk_lines d))" "P \<subseteq> dom (map_of (m_open (rep (dk_lines d))))"
    using content by (auto simp: content_ok_def mem_ok_rep)
  have cut: "survivor_ok P (d\<lparr>dk_tail := 0, dk_synced := length (dk_lines d)\<rparr>)"
    using survivor_sync [of P "d\<lparr>dk_tail := 0\<rparr>"] surv by (simp add: disk_sync_def)
  show ?thesis
    using False mem alt surv lock good cut
    by (auto simp: open_journal_def Let_def journal_inv_unfold replayed)
qed

lemma background_step_inv: "journal_background jd jd' \<Longrightarrow> journal_inv P jd \<Longrightarrow> journal_inv P jd'"
proof (induction rule: journal_background.induct)
  case (tick j d ok rout)
  then have "survivor_ok P d" by (simp add: journal_inv_unfold)
  then show ?case
    using tick survivor_sync [of P d] repair_inv [OF tick, of d]
    by (auto simp: fsync_tick_def journal_inv_unfold)
next
  case (shut j d ok)
  then have "survivor_ok P d" by (simp add: journal_inv_unfold)
  then show ?case using shut survivor_sync [of P d] by (auto simp: close_journal_def journal_inv_unfold)
next
  case (start j d io)
  then show ?case by (rule open_inv)
next
  case (gather j d ev)
  then show ?case by (simp add: journal_inv_unfold)
qed

lemma crash_step_inv:
  assumes inv: "journal_inv P jd" and crash: "journal_crash jd jd'"
  shows "journal_inv P jd'"
proof -
  have surv: "survivor_ok P (snd jd)" using inv by (simp add: journal_inv_def Let_def)
  have "content_ok P (dk_lines (snd jd'))"
    using surv crash by (auto simp: journal_crash_def survives_def survivor_ok_def)
  then show ?thesis
    using crash by (auto simp: journal_inv_def Let_def journal_crash_def survivor_ok_def new_journal_def)
qed

definition fresh_log :: "journal \<times> jdisk" where
  "fresh_log = (new_journal, \<lparr>dk_lines = [], dk_tail = 0, dk_synced = 0, dk_alt = None\<rparr>)"

lemma fresh_log_inv: "journal_inv {} fresh_log"
  by (simp add: fresh_log_def journal_inv_def new_journal_def survivor_ok_def content_ok_def good_lines_def)

interpretation journal_log: write_ahead_log log_request settle_request settlement_ok journal_background
  journal_crash journal_in_service journal_open_ids journal_inv
proof (unfold_locales, goal_cases)
  case (1 P s a i s')
  then show ?case using log_request_inv [of P s a "Some i" s'] by simp
next
  case (2 P s a s')
  then show ?case using log_request_inv [of P s a None s'] by simp
next
  case (3 P s r i)
  then show ?case by (rule settle_inv)
next
  case (4 P s s')
  then show ?case by (blast intro: background_step_inv)
next
  case (5 P s s')
  then show ?case by (rule crash_step_inv)
next
  case (6 P s)
  then show ?case by (cases s) (simp add: open_ids_dom journal_in_service_def journal_inv_unfold)
qed

end
