(* ===== verification/Sql_Classify.thy ===== *)
theory Sql_Classify
  imports Memora_Prelude
begin

text \<open>
  Model of \<open>memora/sql_classify.py\<close>: the tokenizer, the splitter of top-level statements, the
  classifier that decides whether one SQL text is a read, a mutation, DDL or transaction
  control, the SELECT-only test of the frozen reader, and the derivation of a statement's
  effect (primary key and post-state) that the write journal records.  A position in the token
  list is the suffix that starts there; Python's \<open>None\<close> and \<open>ValueError\<close> are \<^const>\<open>None\<close>.
\<close>

section \<open>Tokens\<close>

datatype tok_kind = TWord | TStr | TIdent | TPunct | TParam | TNum

record tok =
  t_kind :: tok_kind
  t_text :: string

abbreviation mk_tok :: "tok_kind \<Rightarrow> string \<Rightarrow> tok" where
  "mk_tok k s \<equiv> \<lparr>t_kind = k, t_text = s\<rparr>"

text \<open>The character tests of the tokenizer's loops.\<close>

definition word_char :: "char \<Rightarrow> bool" where
  "word_char c \<longleftrightarrow> is_alnum c \<or> c \<in> {CHR ''_'', CHR ''$''}"

definition num_char :: "char \<Rightarrow> bool" where
  "num_char c \<longleftrightarrow> is_alnum c \<or> c = CHR ''.''"

definition param_char :: "char \<Rightarrow> bool" where
  "param_char c \<longleftrightarrow> is_alnum c \<or> c = CHR ''_''"

definition quote_chars :: "char set" where
  "quote_chars = {CHR 0x27, CHR 0x22, CHR 0x60, CHR ''[''}"

definition two_char_punct :: "string list" where
  "two_char_punct = [''<='', ''>='', ''<>'', ''!='', ''=='', ''||'']"

text \<open>\<open>--\<close> comments run to the newline, \<open>/* */\<close> comments to the first closing mark.\<close>

definition skip_line :: "string \<Rightarrow> string" where
  "skip_line s = drop 1 (dropWhile (\<lambda>c. c \<noteq> CHR 0x0A) s)"

fun skip_block :: "string \<Rightarrow> string option" where
  "skip_block (a # b # s) =
     (if a = CHR ''*'' \<and> b = CHR ''/'' then Some s else skip_block (b # s))"
| "skip_block _ = None"

text \<open>
  The inner loop of a quoted token: the text up to the closing quote (a doubled quote stands
  for itself, except in brackets) and what follows; \<^const>\<open>None\<close> when it is unterminated.
\<close>

fun read_quoted :: "char \<Rightarrow> string \<Rightarrow> (string \<times> string) option" where
  "read_quoted q [] = None"
| "read_quoted q (x # s) =
     (if x = q
      then (if q \<noteq> CHR '']'' \<and> s \<noteq> [] \<and> hd s = q
            then map_option (\<lambda>(b, r). (q # b, r)) (read_quoted q (tl s))
            else Some ([], s))
      else map_option (\<lambda>(b, r). (x # b, r)) (read_quoted q s))"

lemma skip_line_length: "length (skip_line s) \<le> length s"
  by (simp add: skip_line_def) (meson diff_le_self length_dropWhile_le order_trans)

lemma skip_block_length: "skip_block s = Some r \<Longrightarrow> length r < length s"
  by (induction s rule: skip_block.induct) (auto split: if_splits)

lemma read_quoted_length: "read_quoted q s = Some (b, r) \<Longrightarrow> length r < length s"
proof (induction q s arbitrary: b r rule: read_quoted.induct)
  case (2 q x s)
  then show ?case
    by (cases s) (fastforce split: if_splits option.splits)+
qed simp

function tokenize :: "string \<Rightarrow> tok list option" where
  "tokenize [] = Some []"
| "tokenize (c # s) =
     (if is_space c then tokenize s
      else if starts_with ''--'' (c # s) then tokenize (skip_line s)
      else if starts_with ''/*'' (c # s) then
        (case skip_block (drop 1 s) of None \<Rightarrow> None | Some r \<Rightarrow> tokenize r)
      else if c \<in> quote_chars then
        (case read_quoted (if c = CHR ''['' then CHR '']'' else c) s of
           None \<Rightarrow> None
         | Some br \<Rightarrow> map_option ((#) (mk_tok (if c = CHR 0x27 then TStr else TIdent) (fst br)))
                        (tokenize (snd br)))
      else if is_alpha c \<or> c = CHR ''_'' then
        map_option ((#) (mk_tok TWord (c # takeWhile word_char s))) (tokenize (dropWhile word_char s))
      else if is_digit c then
        map_option ((#) (mk_tok TNum (c # takeWhile num_char s))) (tokenize (dropWhile num_char s))
      else if c \<in> {CHR ''?'', CHR '':'', CHR ''@'', CHR ''$''} then
        map_option ((#) (mk_tok TParam (c # takeWhile param_char s))) (tokenize (dropWhile param_char s))
      else if s \<noteq> [] \<and> [c, hd s] \<in> set two_char_punct then
        map_option ((#) (mk_tok TPunct [c, hd s])) (tokenize (tl s))
      else map_option ((#) (mk_tok TPunct [c])) (tokenize s))"
  by pat_completeness auto
termination
proof (relation "measure length", goal_cases)
  case (4 c s r)
  then show ?case using skip_block_length [of "drop 1 s" r] by auto
next
  case (5 c s br)
  then show ?case by (cases br) (auto dest: read_quoted_length)
qed (auto simp: skip_line_length le_imp_less_Suc length_dropWhile_le)

declare tokenize.simps(2) [simp del]

section \<open>Views of a token\<close>

text \<open>\<open>_upper\<close> and \<open>_name\<close>; a missing token (\<open>None\<close>) is the empty suffix.\<close>

definition upper_tok :: "tok option \<Rightarrow> string" where
  "upper_tok t = (case t of None \<Rightarrow> '''' | Some x \<Rightarrow> if t_kind x = TWord then str_upper (t_text x) else '''')"

definition name_tok :: "tok option \<Rightarrow> string option" where
  "name_tok t =
     (case t of None \<Rightarrow> None
      | Some x \<Rightarrow> if t_kind x \<in> {TWord, TIdent} then Some (t_text x) else None)"

definition first_tok :: "tok list \<Rightarrow> tok option" where
  "first_tok ts = (case ts of [] \<Rightarrow> None | t # _ \<Rightarrow> Some t)"

definition is_punct :: "string \<Rightarrow> tok \<Rightarrow> bool" where
  "is_punct p t \<longleftrightarrow> t_kind t = TPunct \<and> t_text t = p"

abbreviation head_upper :: "tok list \<Rightarrow> string" where
  "head_upper ts \<equiv> upper_tok (first_tok ts)"

abbreviation head_name :: "tok list \<Rightarrow> string option" where
  "head_name ts \<equiv> name_tok (first_tok ts)"

abbreviation head_punct :: "string \<Rightarrow> tok list \<Rightarrow> bool" where
  "head_punct p ts \<equiv> ts \<noteq> [] \<and> is_punct p (hd ts)"

lemma first_tok_simps [simp]: "first_tok [] = None" "first_tok (t # ts) = Some t"
  by (simp_all add: first_tok_def)

section \<open>Top-level statements\<close>

text \<open>
  One token of \<open>_split_statements\<close>' loop: parenthesis depth, whether the scan is inside a
  \<open>CREATE TRIGGER ... BEGIN ... END\<close> body, and the open \<open>CASE\<close>s in that body.
\<close>

record split_state =
  sp_stmts :: "tok list list"
  sp_cur :: "tok list"
  sp_depth :: int
  sp_body :: bool
  sp_cases :: nat

definition split_init :: split_state where
  "split_init = \<lparr>sp_stmts = [], sp_cur = [], sp_depth = 0, sp_body = False, sp_cases = 0\<rparr>"

definition split_depth :: "tok \<Rightarrow> int \<Rightarrow> int" where
  "split_depth t d = (if is_punct ''('' t then d + 1 else if is_punct '')'' t then d - 1 else d)"

definition opens_body :: "tok list \<Rightarrow> string \<Rightarrow> bool" where
  "opens_body cur w \<longleftrightarrow> w = ''BEGIN'' \<and> cur \<noteq> [] \<and> upper_tok (Some (hd cur)) = ''CREATE'' \<and>
     (\<exists>x \<in> set cur. upper_tok (Some x) = ''TRIGGER'')"

definition split_step :: "tok \<Rightarrow> split_state \<Rightarrow> split_state" where
  "split_step t st =
     (let w = upper_tok (Some t);
          d = split_depth t (sp_depth st);
          st1 = (if opens_body (sp_cur st) w then st\<lparr>sp_depth := d, sp_body := True\<rparr>
                 else if w = ''CASE'' \<and> sp_body st then st\<lparr>sp_depth := d, sp_cases := sp_cases st + 1\<rparr>
                 else if w = ''END'' \<and> sp_body st
                      then (if sp_cases st \<noteq> 0 then st\<lparr>sp_depth := d, sp_cases := sp_cases st - 1\<rparr>
                            else st\<lparr>sp_depth := d, sp_body := False\<rparr>)
                 else st\<lparr>sp_depth := d\<rparr>)
      in if is_punct '';'' t \<and> sp_depth st1 = 0 \<and> \<not> sp_body st1
         then st1\<lparr>sp_stmts := (if sp_cur st1 \<noteq> [] then sp_stmts st1 @ [sp_cur st1] else sp_stmts st1),
                  sp_cur := []\<rparr>
         else st1\<lparr>sp_cur := sp_cur st1 @ [t]\<rparr>)"

definition split_statements :: "tok list \<Rightarrow> tok list list" where
  "split_statements toks =
     (let st = fold split_step toks split_init
      in if sp_cur st \<noteq> [] then sp_stmts st @ [sp_cur st] else sp_stmts st)"

section \<open>Parentheses and the WITH prefix\<close>

text \<open>
  \<open>_skip_parens\<close>: the tokens up to and including the parenthesis that brings the depth back to
  zero, and the suffix after it.
\<close>

fun skip_parens_from :: "int \<Rightarrow> tok list \<Rightarrow> (tok list \<times> tok list) option" where
  "skip_parens_from d [] = None"
| "skip_parens_from d (t # ts) =
     (if is_punct ''('' t then map_option (\<lambda>(a, r). (t # a, r)) (skip_parens_from (d + 1) ts)
      else if is_punct '')'' t
           then (if d - 1 = 0 then Some ([t], ts)
                 else map_option (\<lambda>(a, r). (t # a, r)) (skip_parens_from (d - 1) ts))
      else map_option (\<lambda>(a, r). (t # a, r)) (skip_parens_from d ts))"

definition skip_parens :: "tok list \<Rightarrow> (tok list \<times> tok list) option" where
  "skip_parens ts = skip_parens_from 0 ts"

lemma skip_parens_from_append: "skip_parens_from d ts = Some (a, r) \<Longrightarrow> ts = a @ r \<and> a \<noteq> []"
  by (induction d ts arbitrary: a r rule: skip_parens_from.induct) (auto split: if_splits)

lemma skip_parens_append: "skip_parens ts = Some (a, r) \<Longrightarrow> ts = a @ r \<and> a \<noteq> []"
  by (auto simp: skip_parens_def dest: skip_parens_from_append)

lemma skip_parens_length: "skip_parens ts = Some ar \<Longrightarrow> length (snd ar) < length ts"
  by (cases ar) (auto dest: skip_parens_append)

text \<open>The optional column list of a common table expression.\<close>

definition skip_cols :: "tok list \<Rightarrow> tok list option" where
  "skip_cols ts = (if head_punct ''('' ts then map_option snd (skip_parens ts) else Some ts)"

lemma skip_cols_length: "skip_cols ts = Some r \<Longrightarrow> length r \<le> length ts"
  by (auto simp: skip_cols_def split: if_splits dest!: skip_parens_length)

abbreviation drop_kw :: "string \<Rightarrow> tok list \<Rightarrow> tok list" where
  "drop_kw w ts \<equiv> (if head_upper ts = w then tl ts else ts)"

text \<open>One \<open>name [(cols)] AS [NOT] [MATERIALIZED] ( ... )\<close> per round of the loop.\<close>

function skip_ctes :: "tok list \<Rightarrow> tok list option" where
  "skip_ctes ts =
     (if head_name ts = None then None
      else (case skip_cols (tl ts) of
         None \<Rightarrow> None
       | Some r1 \<Rightarrow>
           (if head_upper r1 \<noteq> ''AS'' then None
            else let r2 = drop_kw ''MATERIALIZED'' (drop_kw ''NOT'' (tl r1)) in
              (if \<not> head_punct ''('' r2 then None
               else (case skip_parens r2 of
                  None \<Rightarrow> None
                | Some ar \<Rightarrow>
                    (if head_punct '','' (snd ar) then skip_ctes (tl (snd ar)) else Some (snd ar)))))))"
  by pat_completeness auto
termination
proof (relation "measure length", goal_cases)
  case (2 ts r1 r2 ar)
  then have "length (snd ar) < length r2" "length r1 \<le> length ts"
    by (auto dest!: skip_parens_length skip_cols_length)
  moreover have "length r2 \<le> length r1" using 2 by auto
  ultimately show ?case by simp
qed simp

declare skip_ctes.simps [simp del]

definition skip_with :: "tok list \<Rightarrow> tok list option" where
  "skip_with stmt = skip_ctes (drop_kw ''RECURSIVE'' (tl stmt))"

section \<open>Classification\<close>

datatype sql_kind = Read | Mutation | Ddl | Txn | Unknown

record classified =
  c_kind :: sql_kind
  c_main :: string
  c_target :: "string option"
  c_txn_end :: bool

abbreviation mk_class :: "sql_kind \<Rightarrow> string \<Rightarrow> classified" where
  "mk_class k m \<equiv> \<lparr>c_kind = k, c_main = m, c_target = None, c_txn_end = False\<rparr>"

definition pragma_read_with_arg :: "string list" where
  "pragma_read_with_arg =
     [''table_info'', ''table_xinfo'', ''index_list'', ''index_info'', ''foreign_key_list'']"

definition pragma_read_bare :: "string list" where
  "pragma_read_bare =
     [''database_list'', ''integrity_check'', ''quick_check'', ''journal_mode'', ''user_version'',
      ''schema_version'']"

definition pragma_kind :: "tok list \<Rightarrow> sql_kind" where
  "pragma_kind stmt =
     (let r0 = tl stmt in
      case head_name r0 of None \<Rightarrow> Unknown
      | Some n0 \<Rightarrow>
          (let r1 = tl r0;
               nr = (if head_punct ''.'' r1 then (head_name (tl r1), drop 2 r1) else (Some n0, r1))
           in case fst nr of None \<Rightarrow> Unknown
              | Some n \<Rightarrow>
                  (let name = str_lower n; rest = snd nr in
                   if rest = [] then (if name \<in> set pragma_read_bare then Read else Ddl)
                   else if head_punct ''('' rest \<and> name \<in> set pragma_read_with_arg then Read
                   else Ddl)))"

definition target_after :: "tok list \<Rightarrow> string option" where
  "target_after s =
     (case head_name s of None \<Rightarrow> None
      | Some n \<Rightarrow> if 2 < length s \<and> is_punct ''.'' (s ! 1) then name_tok (Some (s ! 2)) else Some n)"

definition mutation_on :: "string \<Rightarrow> string option \<Rightarrow> classified" where
  "mutation_on main target =
     \<lparr>c_kind = (if target \<in> {None, Some ''''} then Unknown else Mutation),
      c_main = main, c_target = target, c_txn_end = False\<rparr>"

definition ddl_words :: "string list" where
  "ddl_words = [''CREATE'', ''ALTER'', ''DROP'', ''REINDEX'', ''VACUUM'', ''ANALYZE'', ''ATTACH'', ''DETACH'']"

definition txn_end_words :: "string list" where
  "txn_end_words = [''COMMIT'', ''END'', ''ROLLBACK'', ''RELEASE'']"

text \<open>
  The decision on one statement: \<open>stmt\<close> is the statement, \<open>rest\<close> its suffix from the main
  keyword on (after a WITH prefix).
\<close>

definition classify_main :: "tok list \<Rightarrow> tok list \<Rightarrow> classified" where
  "classify_main stmt rest =
     (let first = head_upper stmt; main = head_upper rest in
      if main \<in> {''SELECT'', ''VALUES''} then mk_class Read main
      else if main = ''EXPLAIN'' \<and> first \<noteq> ''WITH'' then mk_class Read main
      else if main = ''PRAGMA'' \<and> first \<noteq> ''WITH'' then mk_class (pragma_kind stmt) main
      else if main \<in> {''INSERT'', ''REPLACE''} then
        (let r = (if main = ''INSERT'' \<and> head_upper (drop 1 rest) = ''OR'' then drop 3 rest else drop 1 rest)
         in if head_upper r \<noteq> ''INTO'' then mk_class Unknown main
            else mutation_on main (target_after (drop 1 r)))
      else if main = ''UPDATE'' then
        (let r = (if head_upper (drop 1 rest) = ''OR'' then drop 3 rest else drop 1 rest)
         in mutation_on main (target_after r))
      else if main = ''DELETE'' then
        (if head_upper (drop 1 rest) \<noteq> ''FROM'' then mk_class Unknown main
         else mutation_on main (target_after (drop 2 rest)))
      else if first \<noteq> ''WITH'' \<and> main \<in> set ddl_words then mk_class Ddl main
      else if first \<noteq> ''WITH'' \<and> main \<in> {''BEGIN'', ''SAVEPOINT''} then mk_class Txn main
      else if first \<noteq> ''WITH'' \<and> main \<in> set txn_end_words
           then \<lparr>c_kind = Txn, c_main = main, c_target = None, c_txn_end = True\<rparr>
      else mk_class Unknown main)"

definition classify_single :: "tok list \<Rightarrow> classified" where
  "classify_single stmt =
     (if head_upper stmt = ''WITH'' then
        (case skip_with stmt of
           None \<Rightarrow> mk_class Unknown ''WITH''
         | Some rest \<Rightarrow> if rest = [] then mk_class Unknown ''WITH'' else classify_main stmt rest)
      else classify_main stmt stmt)"

definition classify_tokens :: "tok list \<Rightarrow> classified" where
  "classify_tokens toks =
     (case split_statements toks of
        [] \<Rightarrow> mk_class Read ''''
      | [stmt] \<Rightarrow> classify_single stmt
      | _ \<Rightarrow> mk_class Unknown ''MULTI'')"

definition classify_statement :: "string \<Rightarrow> classified" where
  "classify_statement sql =
     (case tokenize sql of None \<Rightarrow> mk_class Unknown '''' | Some toks \<Rightarrow> classify_tokens toks)"

definition is_select_only :: "string \<Rightarrow> bool" where
  "is_select_only sql =
     (let c = classify_statement sql in
      c_kind c = Read \<and> c_main c = ''SELECT'' \<and>
      (case tokenize sql of None \<Rightarrow> False
       | Some toks \<Rightarrow> \<not> (\<exists>t \<in> set toks. upper_tok (Some t) = ''RETURNING'')))"

end
