(* ===== verification/Sql_Render.thy ===== *)
theory Sql_Render
  imports Sql_Classify
begin

text \<open>
  A printer for token lists and the facts that connect it to the tokenizer of
  \<open>memora/sql_classify.py\<close>: what the tokenizer returns is always well formed, and printing a
  well-formed token list and reading it back gives the same list.  Classification therefore
  depends on the tokens alone, never on comments, spacing or the quoting style.
\<close>

section \<open>Printing tokens\<close>

fun escape_quote :: "char \<Rightarrow> string \<Rightarrow> string" where
  "escape_quote q [] = []"
| "escape_quote q (x # s) = (if x = q then q # q # escape_quote q s else x # escape_quote q s)"

definition print_tok :: "tok \<Rightarrow> string" where
  "print_tok t =
     (case t_kind t of
        TStr \<Rightarrow> CHR 0x27 # escape_quote (CHR 0x27) (t_text t) @ [CHR 0x27]
      | TIdent \<Rightarrow> CHR 0x22 # escape_quote (CHR 0x22) (t_text t) @ [CHR 0x22]
      | _ \<Rightarrow> t_text t)"

definition print_toks :: "tok list \<Rightarrow> string" where
  "print_toks ts = concat (map (\<lambda>t. print_tok t @ '' '') ts)"

definition plain_punct :: "char \<Rightarrow> bool" where
  "plain_punct c \<longleftrightarrow> \<not> is_space c \<and> c \<notin> quote_chars \<and> \<not> is_alpha c \<and> \<not> is_digit c \<and>
     c \<notin> {CHR ''_'', CHR ''?'', CHR '':'', CHR ''@'', CHR ''$''}"

definition wf_tok :: "tok \<Rightarrow> bool" where
  "wf_tok t \<longleftrightarrow>
     (case t_kind t of
        TStr \<Rightarrow> True
      | TIdent \<Rightarrow> True
      | TWord \<Rightarrow> (case t_text t of [] \<Rightarrow> False
          | c # s \<Rightarrow> (is_alpha c \<or> c = CHR ''_'') \<and> list_all word_char s)
      | TNum \<Rightarrow> (case t_text t of [] \<Rightarrow> False | c # s \<Rightarrow> is_digit c \<and> list_all num_char s)
      | TParam \<Rightarrow> (case t_text t of [] \<Rightarrow> False
          | c # s \<Rightarrow> c \<in> {CHR ''?'', CHR '':'', CHR ''@'', CHR ''$''} \<and> list_all param_char s)
      | TPunct \<Rightarrow> (\<exists>c. t_text t = [c] \<and> plain_punct c) \<or> t_text t \<in> set two_char_punct)"

section \<open>Character facts\<close>

lemma space_not_class [simp]:
  "\<not> is_alpha (CHR '' '')" "\<not> is_digit (CHR '' '')" "\<not> is_alnum (CHR '' '')"
  "\<not> word_char (CHR '' '')" "\<not> num_char (CHR '' '')" "\<not> param_char (CHR '' '')"
  "is_space (CHR '' '')"
  by (simp_all add: text_simps word_char_def num_char_def param_char_def)

lemma alpha_not: "is_alpha c \<Longrightarrow> \<not> is_space c \<and> c \<notin> quote_chars \<and> c \<noteq> CHR ''-'' \<and> c \<noteq> CHR ''/''"
  by (auto simp: text_simps quote_chars_def)

lemma digit_not: "is_digit c \<Longrightarrow>
    \<not> is_space c \<and> c \<notin> quote_chars \<and> c \<noteq> CHR ''-'' \<and> c \<noteq> CHR ''/'' \<and> \<not> is_alpha c \<and> c \<noteq> CHR ''_''"
  by (auto simp: text_simps quote_chars_def)

lemma quote_not: "c \<in> quote_chars \<Longrightarrow> \<not> is_space c \<and> c \<noteq> CHR ''-'' \<and> c \<noteq> CHR ''/''"
  by (auto simp: text_simps quote_chars_def)

lemma sigil_not: "c \<in> {CHR ''?'', CHR '':'', CHR ''@'', CHR ''$''} \<Longrightarrow>
    \<not> is_space c \<and> c \<notin> quote_chars \<and> c \<noteq> CHR ''-'' \<and> c \<noteq> CHR ''/'' \<and> \<not> is_alpha c \<and> c \<noteq> CHR ''_''
    \<and> \<not> is_digit c"
  by (auto simp: text_simps quote_chars_def)

lemma underscore_not:
  "\<not> is_space (CHR ''_'')" "CHR ''_'' \<notin> quote_chars"
  by (auto simp: text_simps quote_chars_def)

lemma starts_dashes: "starts_with ''--'' (c # s) \<Longrightarrow> c = CHR ''-''"
  by (auto simp: starts_with_iff)

lemma starts_slash: "starts_with ''/*'' (c # s) \<Longrightarrow> c = CHR ''/''"
  by (auto simp: starts_with_iff)

section \<open>One printed token\<close>

lemma takeWhile_stop: "list_all P s \<Longrightarrow> \<not> P x \<Longrightarrow> takeWhile P (s @ x # r) = s \<and> dropWhile P (s @ x # r) = x # r"
  by (induction s) auto

lemma tokenize_space [simp]: "tokenize (CHR '' '' # s) = tokenize s"
  by (subst tokenize.simps(2)) simp

lemma tokenize_word:
  assumes "is_alpha c \<or> c = CHR ''_''" and "list_all word_char w" and "\<not> word_char x"
  shows "tokenize ((c # w) @ x # r) = map_option ((#) (mk_tok TWord (c # w))) (tokenize (x # r))"
proof -
  have "\<not> is_space c \<and> c \<notin> quote_chars \<and> c \<noteq> CHR ''-'' \<and> c \<noteq> CHR ''/''"
    using assms(1) underscore_not by (auto dest: alpha_not)
  then show ?thesis
    using assms takeWhile_stop [OF assms(2,3), of r]
    by (subst append_Cons, subst tokenize.simps(2)) (auto dest: starts_dashes starts_slash)
qed

lemma tokenize_num:
  assumes "is_digit c" and "list_all num_char w" and "\<not> num_char x"
  shows "tokenize ((c # w) @ x # r) = map_option ((#) (mk_tok TNum (c # w))) (tokenize (x # r))"
  using digit_not [OF assms(1)] assms takeWhile_stop [OF assms(2,3), of r]
  by (subst append_Cons, subst tokenize.simps(2)) (auto dest: starts_dashes starts_slash)

lemma tokenize_param:
  assumes "c \<in> {CHR ''?'', CHR '':'', CHR ''@'', CHR ''$''}" and "list_all param_char w" and "\<not> param_char x"
  shows "tokenize ((c # w) @ x # r) = map_option ((#) (mk_tok TParam (c # w))) (tokenize (x # r))"
proof -
  note n = sigil_not [OF assms(1)]
  have "\<not> starts_with ''--'' (c # (w @ x # r))" "\<not> starts_with ''/*'' (c # (w @ x # r))"
    using n starts_dashes starts_slash by blast+
  then show ?thesis
    using n assms takeWhile_stop [OF assms(2,3), of r]
    by (subst append_Cons, subst tokenize.simps(2)) simp
qed

lemma tokenize_punct:
  assumes "plain_punct c" and "[c, x] \<notin> set two_char_punct"
    and "\<not> (c = CHR ''-'' \<and> x = CHR ''-'')" and "\<not> (c = CHR ''/'' \<and> x = CHR ''*'')"
  shows "tokenize (c # x # r) = map_option ((#) (mk_tok TPunct [c])) (tokenize (x # r))"
proof -
  have "\<not> starts_with ''--'' (c # x # r)" "\<not> starts_with ''/*'' (c # x # r)"
    using assms(3,4) by (auto simp: starts_with_def)
  then show ?thesis using assms(1,2) by (subst tokenize.simps(2)) (simp add: plain_punct_def)
qed

lemma tokenize_punct2:
  assumes "[c, d] \<in> set two_char_punct"
  shows "tokenize (c # d # r) = map_option ((#) (mk_tok TPunct [c, d])) (tokenize r)"
proof -
  have c: "c \<in> {CHR ''<'', CHR ''>'', CHR ''!'', CHR ''='', CHR ''|''}"
    using assms by (auto simp: two_char_punct_def)
  then have p: "plain_punct c" and n: "c \<noteq> CHR ''-'' \<and> c \<noteq> CHR ''/''"
    by (auto simp: plain_punct_def text_simps quote_chars_def)
  have "\<not> starts_with ''--'' (c # d # r)" "\<not> starts_with ''/*'' (c # d # r)"
    using n starts_dashes starts_slash by blast+
  then show ?thesis using p assms by (subst tokenize.simps(2)) (simp add: plain_punct_def)
qed

lemma read_quoted_escape:
  assumes "q \<noteq> CHR '']''" and "r = [] \<or> hd r \<noteq> q"
  shows "read_quoted q (escape_quote q s @ q # r) = Some (s, r)"
  using assms by (induction s) auto

lemma tokenize_quoted:
  assumes "q \<in> {CHR 0x27, CHR 0x22}" and "r = [] \<or> hd r \<noteq> q"
  shows "tokenize (q # escape_quote q s @ q # r) =
    map_option ((#) (mk_tok (if q = CHR 0x27 then TStr else TIdent) s)) (tokenize r)"
proof -
  have q: "q \<in> quote_chars" "q \<noteq> CHR ''[''" "q \<noteq> CHR '']''" using assms(1) by (auto simp: quote_chars_def)
  note n = quote_not [OF q(1)]
  have "\<not> starts_with ''--'' (q # escape_quote q s @ q # r)" "\<not> starts_with ''/*'' (q # escape_quote q s @ q # r)"
    using n starts_dashes starts_slash by blast+
  then show ?thesis
    using n q read_quoted_escape [OF q(3) assms(2), of s] by (subst tokenize.simps(2)) simp
qed

lemma tokenize_print_tok:
  assumes "wf_tok t"
  shows "tokenize (print_tok t @ CHR '' '' # r) = map_option ((#) t) (tokenize r)"
proof (cases "t_kind t")
  case TWord
  with assms obtain c s where "t_text t = c # s" "is_alpha c \<or> c = CHR ''_''" "list_all word_char s"
    by (auto simp: wf_tok_def split: list.splits)
  with TWord tokenize_word [of c s "CHR '' ''" r] show ?thesis by (cases t) (simp add: print_tok_def)
next
  case TNum
  with assms obtain c s where "t_text t = c # s" "is_digit c" "list_all num_char s"
    by (auto simp: wf_tok_def split: list.splits)
  with TNum tokenize_num [of c s "CHR '' ''" r] show ?thesis by (cases t) (simp add: print_tok_def)
next
  case TParam
  with assms obtain c s where "t_text t = c # s" "list_all param_char s"
    "c \<in> {CHR ''?'', CHR '':'', CHR ''@'', CHR ''$''}"
    by (auto simp: wf_tok_def split: list.splits)
  with TParam tokenize_param [of c s "CHR '' ''" r] show ?thesis by (cases t) (simp add: print_tok_def)
next
  case TStr
  then show ?thesis
    using tokenize_quoted [of "CHR 0x27" "CHR '' '' # r" "t_text t"] by (cases t) (simp add: print_tok_def)
next
  case TIdent
  then show ?thesis
    using tokenize_quoted [of "CHR 0x22" "CHR '' '' # r" "t_text t"] by (cases t) (simp add: print_tok_def)
next
  case TPunct
  with assms consider c where "t_text t = [c]" "plain_punct c" | "t_text t \<in> set two_char_punct"
    by (auto simp: wf_tok_def)
  then show ?thesis
  proof cases
    case 1
    then show ?thesis using TPunct tokenize_punct [of c "CHR '' ''" r]
      by (cases t) (simp add: print_tok_def two_char_punct_def)
  next
    case 2
    then obtain c d where cd: "t_text t = [c, d]" by (auto simp: two_char_punct_def)
    show ?thesis using TPunct 2 cd tokenize_punct2 [of c d "CHR '' '' # r"]
      by (cases t) (simp add: print_tok_def)
  qed
qed

lemma tokenize_print_append:
  "list_all wf_tok ts \<Longrightarrow> tokenize (print_toks ts @ r) = map_option ((@) ts) (tokenize r)"
proof (induction ts)
  case (Cons t ts)
  then show ?case
    using tokenize_print_tok [of t "print_toks ts @ r"]
    by (simp add: print_toks_def option.map_comp o_def)
qed (cases "tokenize r"; simp add: print_toks_def)

lemma tokenize_print: "list_all wf_tok ts \<Longrightarrow> tokenize (print_toks ts) = Some ts"
  using tokenize_print_append [of ts "[]"] by simp

section \<open>What the tokenizer returns is well formed\<close>

lemma takeWhile_all: "list_all P (takeWhile P s)"
  by (induction s) auto

lemma tokenize_wf: "tokenize s = Some ts \<Longrightarrow> list_all wf_tok ts"
proof (induction s arbitrary: ts rule: tokenize.induct)
  case (2 c s)
  note [simp] = tokenize.simps(2) [of c s]
  consider (space) "is_space c" | (dash) "\<not> is_space c" "starts_with ''--'' (c # s)"
    | (block) "\<not> is_space c" "\<not> starts_with ''--'' (c # s)" "starts_with ''/*'' (c # s)"
    | (rest) "\<not> is_space c" "\<not> starts_with ''--'' (c # s)" "\<not> starts_with ''/*'' (c # s)" by blast
  then show ?case
  proof cases
    case space then show ?thesis using "2.IH"(1) "2.prems" by simp
  next
    case dash then show ?thesis using "2.IH"(2) "2.prems" by simp
  next
    case block then show ?thesis using "2.IH"(3) "2.prems" by (auto split: option.splits)
  next
    case rest
    note n = rest(1) rest(2) rest(3)
    consider (q) "c \<in> quote_chars" | (w) "c \<notin> quote_chars" "is_alpha c \<or> c = CHR ''_''"
      | (d) "c \<notin> quote_chars" "\<not> (is_alpha c \<or> c = CHR ''_'')" "is_digit c"
      | (p) "c \<notin> quote_chars" "\<not> (is_alpha c \<or> c = CHR ''_'')" "\<not> is_digit c"
          "c \<in> {CHR ''?'', CHR '':'', CHR ''@'', CHR ''$''}"
      | (two) "c \<notin> quote_chars" "\<not> (is_alpha c \<or> c = CHR ''_'')" "\<not> is_digit c"
          "c \<notin> {CHR ''?'', CHR '':'', CHR ''@'', CHR ''$''}" "s \<noteq> [] \<and> [c, hd s] \<in> set two_char_punct"
      | (one) "c \<notin> quote_chars" "\<not> (is_alpha c \<or> c = CHR ''_'')" "\<not> is_digit c"
          "c \<notin> {CHR ''?'', CHR '':'', CHR ''@'', CHR ''$''}" "\<not> (s \<noteq> [] \<and> [c, hd s] \<in> set two_char_punct)"
      by blast
    then show ?thesis
    proof cases
      case q
      then show ?thesis using n "2.IH"(4) [OF n q] "2.prems" by (auto split: option.splits simp: wf_tok_def)
    next
      case w
      then show ?thesis using n "2.IH"(5) [OF n w] "2.prems" by (auto simp: wf_tok_def takeWhile_all)
    next
      case d
      then show ?thesis using n "2.IH"(6) [OF n d] "2.prems" by (auto simp: wf_tok_def takeWhile_all)
    next
      case p
      then show ?thesis using n "2.IH"(7) [OF n p] "2.prems" by (auto simp: wf_tok_def takeWhile_all)
    next
      case two
      then show ?thesis using n "2.IH"(8) [OF n two] "2.prems" by (auto simp: wf_tok_def)
    next
      case one
      then show ?thesis using n "2.IH"(9) [OF n one] "2.prems" by (auto simp: wf_tok_def plain_punct_def)
    qed
  qed
qed simp

end
