(* ===== verification/Sql_Effect.thy ===== *)
theory Sql_Effect
  imports Sql_Render
begin

text \<open>
  The effect derivation of \<open>memora/sql_classify.py\<close> (\<open>derive_effect\<close>, \<open>_where_keys\<close>): the target,
  the primary-key values and the written columns of the simple statement shapes, read off the
  tokens and the positional parameters.  An \<open>IndexError\<close>, \<open>StopIteration\<close>, \<open>ValueError\<close> or
  \<open>TypeError\<close> of the Python ends in the same \<open>(target, None, None)\<close>, so every one of them is
  \<^const>\<open>None\<close> of the inner computation.
\<close>

type_synonym 'v effect = "string option \<times> (string, 'v) dict option \<times> (string, 'v) dict option"

definition primary_keys :: "(string, string list) dict" where
  "primary_keys =
     [(''memories'', [''id'']),
      (''memories_embeddings'', [''memory_id'']),
      (''memories_crossrefs'', [''memory_id'']),
      (''tombstones'', [''content_hash'', ''memory_id'']),
      (''tombstone_components'', [''memory_id'']),
      (''memories_actions'', [''id'']),
      (''memories_meta'', [''key''])]"

definition is_qmark :: "tok \<Rightarrow> bool" where
  "is_qmark t \<longleftrightarrow> t_kind t = TParam \<and> t_text t = ''?''"

text \<open>\<open>{k: d[k] for k in pk} if pk and all(k in d for k in pk) else None\<close>.\<close>

definition pick_keys :: "string list option \<Rightarrow> (string, 'v) dict \<Rightarrow> (string, 'v) dict option" where
  "pick_keys pk d =
     (case pk of None \<Rightarrow> None
      | Some ks \<Rightarrow>
          if ks \<noteq> [] \<and> list_all (\<lambda>k. map_of d k \<noteq> None) ks
          then Some (map (\<lambda>k. (k, the (map_of d k))) ks) else None)"

text \<open>
  \<open>_where_keys\<close>: the leading \<open>col = ?\<close> conjuncts after position \<open>k\<close>; \<^const>\<open>None\<close> when the
  parameters run out.
\<close>

function where_loop :: "tok list \<Rightarrow> 'v list \<Rightarrow> nat \<Rightarrow> nat \<Rightarrow> (string, 'v) dict \<Rightarrow> (string, 'v) dict option" where
  "where_loop toks params k pos keys =
     (if k + 2 < length toks then
        (case name_tok (Some (toks ! k)) of
           None \<Rightarrow> Some keys
         | Some col \<Rightarrow>
             if \<not> is_punct ''='' (toks ! (k + 1)) \<or> \<not> is_qmark (toks ! (k + 2)) then Some keys
             else if length params \<le> pos then None
             else (let keys' = dict_set col (params ! pos) keys in
               if head_upper (drop (k + 3) toks) = ''AND''
               then where_loop toks params (k + 4) (pos + 1) keys' else Some keys'))
      else Some keys)"
  by pat_completeness auto
termination by (relation "measure (\<lambda>(toks, _, k, _, _). length toks - k)") auto

declare where_loop.simps [simp del]

definition where_keys :: "tok list \<Rightarrow> nat option \<Rightarrow> 'v list \<Rightarrow> nat \<Rightarrow> string list option \<Rightarrow>
    (string, 'v) dict option" where
  "where_keys toks w params pos pk =
     (case (pk, w) of
        (Some ks, Some i) \<Rightarrow>
          (if ks = [] then None
           else (case where_loop toks params (i + 1) pos [] of
                   None \<Rightarrow> None | Some keys \<Rightarrow> pick_keys pk keys))
      | _ \<Rightarrow> None)"

text \<open>\<open>words.index(w)\<close> over the upper-cased words.\<close>

fun word_index :: "string \<Rightarrow> tok list \<Rightarrow> nat option" where
  "word_index w [] = None"
| "word_index w (t # ts) = (if upper_tok (Some t) = w then Some 0 else map_option Suc (word_index w ts))"

text \<open>The column list and the value list of an INSERT or REPLACE.\<close>

definition insert_effect :: "tok list \<Rightarrow> 'v list \<Rightarrow> string list option \<Rightarrow>
    ((string, 'v) dict option \<times> (string, 'v) dict option) option" where
  "insert_effect toks params pk =
     (case skip_parens (dropWhile (\<lambda>t. \<not> is_punct ''('' t) toks) of
        None \<Rightarrow> None
      | Some (colpart, rest) \<Rightarrow>
          (let cols = map t_text (filter (\<lambda>t. t_kind t \<in> {TWord, TIdent}) (butlast (tl colpart)));
               vrest = dropWhile (\<lambda>t. upper_tok (Some t) \<noteq> ''VALUES'') rest
           in if vrest = [] then None
              else (case skip_parens (tl vrest) of
                 None \<Rightarrow> None
               | Some (valpart, _) \<Rightarrow>
                   (let vals = filter (\<lambda>t. \<not> is_punct '','' t) (butlast (tl valpart)) in
                    if length vals \<noteq> length cols \<or> \<not> list_all is_qmark vals then Some (None, None)
                    else if length params < length cols then Some (None, None)
                    else (let post = dict_of (zip cols (take (length cols) params))
                          in Some (pick_keys pk post, Some post))))))"

text \<open>The \<open>SET\<close> list of an UPDATE, up to position \<open>w\<close>.\<close>

function set_loop :: "tok list \<Rightarrow> 'v list \<Rightarrow> nat \<Rightarrow> nat \<Rightarrow> nat \<Rightarrow> (string, 'v) dict \<Rightarrow>
    ((string, 'v) dict \<times> nat) option" where
  "set_loop toks params w k pos post =
     (if k < w then
        (case Option.bind (nth_opt toks k) (\<lambda>t. name_tok (Some t)) of
           None \<Rightarrow> None
         | Some col \<Rightarrow>
             (case (nth_opt toks (k + 1), nth_opt toks (k + 2)) of
                (Some eq, Some val) \<Rightarrow>
                  if is_punct ''='' eq \<and> is_qmark val \<and> pos < length params then
                    (let k' = (if k + 3 < w \<and> head_punct '','' (drop (k + 3) toks) then k + 4 else k + 3)
                     in set_loop toks params w k' (pos + 1) (dict_set col (params ! pos) post))
                  else None
              | _ \<Rightarrow> None))
      else Some (post, pos))"
  by pat_completeness auto
termination by (relation "measure (\<lambda>(_, _, w, k, _, _). w - k)") auto

declare set_loop.simps [simp del]

definition update_effect :: "tok list \<Rightarrow> 'v list \<Rightarrow> string list option \<Rightarrow>
    ((string, 'v) dict option \<times> (string, 'v) dict option) option" where
  "update_effect toks params pk =
     (case word_index ''SET'' toks of
        None \<Rightarrow> None
      | Some s \<Rightarrow>
          (let w = (case word_index ''WHERE'' toks of None \<Rightarrow> length toks | Some i \<Rightarrow> i) in
           case set_loop toks params w (s + 1) 0 [] of
             None \<Rightarrow> None
           | Some (post, pos) \<Rightarrow> Some (where_keys toks (Some w) params pos pk, Some post)))"

definition delete_effect :: "tok list \<Rightarrow> 'v list \<Rightarrow> string list option \<Rightarrow>
    ((string, 'v) dict option \<times> (string, 'v) dict option) option" where
  "delete_effect toks params pk =
     (case word_index ''WHERE'' toks of
        None \<Rightarrow> None
      | Some w \<Rightarrow> Some (where_keys toks (Some w) params 0 pk, None))"

definition effect_of_tokens :: "classified \<Rightarrow> tok list \<Rightarrow> 'v list \<Rightarrow> 'v effect" where
  "effect_of_tokens c toks params =
     (let pk = map_of primary_keys (str_lower (case c_target c of None \<Rightarrow> '''' | Some t \<Rightarrow> t));
          r = (if c_main c \<in> {''INSERT'', ''REPLACE''} then insert_effect toks params pk
               else if c_main c = ''UPDATE'' then update_effect toks params pk
               else if c_main c = ''DELETE'' then delete_effect toks params pk
               else None)
      in case r of None \<Rightarrow> (c_target c, None, None) | Some (keys, post) \<Rightarrow> (c_target c, keys, post))"

definition derive_effect :: "string \<Rightarrow> 'v list \<Rightarrow> 'v effect" where
  "derive_effect sql params =
     (let c = classify_statement sql in
      if c_kind c \<noteq> Mutation then (c_target c, None, None)
      else (case map_option split_statements (tokenize sql) of
              Some (toks # _) \<Rightarrow> effect_of_tokens c toks params
            | _ \<Rightarrow> (c_target c, None, None)))"

section \<open>Keys and post-state come from the parameters\<close>

lemma pick_keys_Some: "pick_keys pk d = Some ks \<Longrightarrow>
    pk = Some (map fst ks) \<and> ks \<noteq> [] \<and> (\<forall>(k, v) \<in> set ks. map_of d k = Some v)"
  by (auto simp: pick_keys_def list_all_iff o_def split: option.splits if_splits)

lemma snd_set_dict_set: "snd ` set (dict_set k v d) \<subseteq> insert v (snd ` set d)"
  by (induction d) auto

lemma dict_set_values:
  assumes "i < length params"
  shows "snd ` set (dict_set k (params ! i) d) \<subseteq> snd ` set d \<union> set params"
  using nth_mem [OF assms] by (intro order_trans [OF snd_set_dict_set]) simp

lemma subset_Un_trans: "A \<subseteq> B \<union> P \<Longrightarrow> B \<subseteq> K \<union> P \<Longrightarrow> A \<subseteq> K \<union> P"
  by blast

lemma where_loop_values:
  "where_loop toks params k pos keys = Some ks \<Longrightarrow> snd ` set ks \<subseteq> snd ` set keys \<union> set params"
proof (induction toks params k pos keys rule: where_loop.induct)
  case (1 toks params k pos keys)
  let ?keys' = "\<lambda>col. dict_set col (params ! pos) keys"
  from "1.prems" consider (stop) "ks = keys"
    | (last) col where "pos < length params" "ks = ?keys' col"
    | (more) col where "k + 2 < length toks" "name_tok (Some (toks ! k)) = Some col"
        "\<not> (\<not> is_punct ''='' (toks ! (k + 1)) \<or> \<not> is_qmark (toks ! (k + 2)))" "\<not> length params \<le> pos"
        "head_upper (drop (k + 3) toks) = ''AND''"
        "where_loop toks params (k + 4) (pos + 1) (?keys' col) = Some ks"
    by (subst (asm) where_loop.simps) (auto simp: Let_def split: if_splits option.splits)
  then show ?case
  proof cases
    case stop
    then show ?thesis by simp
  next
    case last
    then show ?thesis by (simp add: dict_set_values)
  next
    case (more col)
    then have "snd ` set ks \<subseteq> snd ` set (?keys' col) \<union> set params"
      using "1.IH" [OF more(1-4) refl more(5) more(6)] by simp
    then show ?thesis by (rule subset_Un_trans) (use more(4) in \<open>simp add: dict_set_values\<close>)
  qed
qed

lemma where_keys_values: "where_keys toks w params pos pk = Some ks \<Longrightarrow>
    pk = Some (map fst ks) \<and> snd ` set ks \<subseteq> set params"
  by (fastforce simp: where_keys_def split: option.splits if_splits
        dest!: pick_keys_Some where_loop_values map_of_SomeD)

lemma set_loop_values:
  "set_loop toks params w k pos post = Some (post', pos') \<Longrightarrow> snd ` set post' \<subseteq> snd ` set post \<union> set params"
proof (induction toks params w k pos post rule: set_loop.induct)
  case (1 toks params w k pos post)
  let ?post' = "\<lambda>col. dict_set col (params ! pos) post"
  let ?k' = "if k + 3 < w \<and> head_punct '','' (drop (k + 3) toks) then k + 4 else k + 3"
  from "1.prems" consider (stop) "post' = post"
    | (more) col eq val where "k < w" "Option.bind (nth_opt toks k) (\<lambda>t. name_tok (Some t)) = Some col"
        "nth_opt toks (k + 1) = Some eq" "nth_opt toks (k + 2) = Some val"
        "is_punct ''='' eq \<and> is_qmark val \<and> pos < length params"
        "set_loop toks params w ?k' (pos + 1) (?post' col) = Some (post', pos')"
    by (subst (asm) set_loop.simps) (auto simp: Let_def split: if_splits option.splits)
  then show ?case
  proof cases
    case stop
    then show ?thesis by simp
  next
    case (more col eq val)
    from "1.IH" [OF more(1,2) refl more(3,4,5) refl more(6)]
    have "snd ` set post' \<subseteq> snd ` set (?post' col) \<union> set params" .
    then show ?thesis by (rule subset_Un_trans) (use more(5) in \<open>simp add: dict_set_values\<close>)
  qed
qed

section \<open>Properties\<close>

text \<open>C13: the layout of a text means nothing: a text that tokenizes is classified, and has the effect, of its
  canonical printing (one space between tokens, no comments, quotes doubled), which tokenizes to the same
  tokens.\<close>

theorem layout_means_nothing:
  assumes "tokenize s = Some ts"
  shows "tokenize (print_toks ts) = Some ts \<and> classify_statement (print_toks ts) = classify_statement s \<and>
    is_select_only (print_toks ts) = is_select_only s \<and> derive_effect (print_toks ts) params = derive_effect s params"
proof -
  have p: "tokenize (print_toks ts) = Some ts" by (rule tokenize_print [OF tokenize_wf [OF assms]])
  then have c: "classify_statement (print_toks ts) = classify_statement s" by (simp add: classify_statement_def assms)
  have "is_select_only (print_toks ts) = is_select_only s" "derive_effect (print_toks ts) params = derive_effect s params"
    unfolding is_select_only_def derive_effect_def p c assms by simp_all
  with p c show ?thesis by blast
qed

theorem layout_means_nothing_witness:
  "derive_effect ''DELETE /* x */  FROM memories -- y'' [] =
   derive_effect (print_toks [mk_tok TWord ''DELETE'', mk_tok TWord ''FROM'', mk_tok TWord ''memories'']) ([] :: nat list)"
proof -
  have "tokenize ''DELETE /* x */  FROM memories -- y''
      = Some [mk_tok TWord ''DELETE'', mk_tok TWord ''FROM'', mk_tok TWord ''memories'']"
    by code_simp
  from layout_means_nothing [OF this, of "[] :: nat list"] show ?thesis by simp
qed

lemma snd_fold_dict_set:
  "snd ` set (fold (\<lambda>(k, v). dict_set k v) kvs d) \<subseteq> snd ` set kvs \<union> snd ` set d"
proof (induction kvs arbitrary: d)
  case (Cons kv kvs)
  obtain k v where kv: "kv = (k, v)" by (cases kv)
  have "snd ` set (fold (\<lambda>(k, v). dict_set k v) kvs (dict_set k v d)) \<subseteq> snd ` set kvs \<union> snd ` set (dict_set k v d)"
    by (rule Cons.IH)
  with snd_set_dict_set [of k v d] show ?case unfolding kv by (simp, blast)
qed simp

lemma dict_of_params: "snd ` set (dict_of (zip cols (take n params))) \<subseteq> set params"
proof -
  have "snd ` set (dict_of (zip cols (take n params))) \<subseteq> snd ` set (zip cols (take n params))"
    using snd_fold_dict_set [of "zip cols (take n params)" "[]"] by (simp add: dict_of_def)
  also have "\<dots> \<subseteq> set params" by (auto dest!: set_zip_rightD in_set_takeD)
  finally show ?thesis .
qed

lemma insert_effect_values:
  assumes "insert_effect toks params pk = Some (keys, post)"
  shows "(case post of None \<Rightarrow> keys = None
     | Some p \<Rightarrow> snd ` set p \<subseteq> set params \<and> keys = pick_keys pk p)"
  using assms
  by (auto simp: insert_effect_def Let_def simp del: image_subset_iff
        intro: subsetD [OF dict_of_params] split: option.splits if_splits prod.splits)

lemma pick_keys_values: "pick_keys pk d = Some ks \<Longrightarrow>
    pk = Some (map fst ks) \<and> snd ` set ks \<subseteq> snd ` set d"
  by (fastforce dest!: pick_keys_Some map_of_SomeD)

lemma effect_values:
  assumes "effect_of_tokens c toks params = (target, keys, post)"
  shows "target = c_target c \<and>
    (\<forall>ks. keys = Some ks \<longrightarrow>
       map_of primary_keys (str_lower (case c_target c of None \<Rightarrow> '''' | Some t \<Rightarrow> t)) = Some (map fst ks) \<and>
       snd ` set ks \<subseteq> set params) \<and>
    (\<forall>p. post = Some p \<longrightarrow> snd ` set p \<subseteq> set params)"
proof -
  let ?pk = "map_of primary_keys (str_lower (case c_target c of None \<Rightarrow> '''' | Some t \<Rightarrow> t))"
  have t: "c_target c = target" using assms by (auto simp: effect_of_tokens_def Let_def split: option.splits)
  consider (none) "keys = None \<and> post = None" | (ins) "insert_effect toks params ?pk = Some (keys, post)"
    | (upd) "update_effect toks params ?pk = Some (keys, post)" | (del) "delete_effect toks params ?pk = Some (keys, post)"
    using assms by (auto simp: effect_of_tokens_def Let_def split: option.splits if_splits)
  then show ?thesis
  proof cases
    case none
    then show ?thesis using t by simp
  next
    case ins
    note from_params = insert_effect_values [OF ins]
    show ?thesis
    proof (cases keys)
      case None
      with from_params t show ?thesis by (cases post) auto
    next
      case (Some ks)
      with from_params obtain p where p: "post = Some p" "snd ` set p \<subseteq> set params" "pick_keys ?pk p = Some ks"
        by (cases post) auto
      from pick_keys_values [OF p(3)] p Some t show ?thesis by (blast intro: order_trans)
    qed
  next
    case upd
    then show ?thesis using t
      by (cases keys; cases post) (auto simp: update_effect_def Let_def split: option.splits prod.splits
          dest!: where_keys_values set_loop_values)
  next
    case del
    then show ?thesis using t
      by (cases keys) (auto simp: delete_effect_def split: option.splits dest!: where_keys_values)
  qed
qed

lemma derive_effect_cases:
  assumes "derive_effect sql params = (target, keys, post)"
  obtains (nothing) "target = c_target (classify_statement sql)" "keys = None" "post = None"
    | (mutation) toks where "c_kind (classify_statement sql) = Mutation"
        "effect_of_tokens (classify_statement sql) toks params = (target, keys, post)"
proof -
  from assms have "target = c_target (classify_statement sql) \<and> keys = None \<and> post = None \<or>
      c_kind (classify_statement sql) = Mutation \<and>
      (\<exists>toks. effect_of_tokens (classify_statement sql) toks params = (target, keys, post))"
    unfolding derive_effect_def Let_def by (auto split: if_splits option.splits list.splits)
  then show thesis using that by blast
qed

text \<open>evidence is never made up: the keys derived for a statement are the primary key of its target
  table, bound to values among the statement's parameters, only a mutation has any, and every value of the
  derived post-state is a parameter too.\<close>

theorem evidence_from_params:
  assumes "derive_effect sql params = (target, keys, post)" and "keys \<noteq> None \<or> post \<noteq> None"
  shows "c_kind (classify_statement sql) = Mutation \<and> c_target (classify_statement sql) = target \<and>
    (case keys of None \<Rightarrow> True
     | Some ks \<Rightarrow> map_of primary_keys (str_lower (the target)) = Some (map fst ks) \<and> snd ` set ks \<subseteq> set params) \<and>
    (case post of None \<Rightarrow> True | Some p \<Rightarrow> snd ` set p \<subseteq> set params)"
  using assms(1)
proof (cases rule: derive_effect_cases)
  case (mutation toks)
  note v = effect_values [OF mutation(2)]
  have "map_of primary_keys (str_lower '''') = None" by code_simp
  then have "\<exists>x. target = Some x" if "keys = Some ks" for ks
    using that v by (cases "c_target (classify_statement sql)") auto
  then show ?thesis using mutation(1) v by (cases target) (auto split: option.splits)
qed (use assms(2) in simp)

theorem evidence_from_params_witness:
  "(\<lambda>(target, keys, post).
      c_kind (classify_statement ''UPDATE memories SET tags = ?, metadata = ? WHERE id = ?'') = Mutation \<and>
      target = Some ''memories'' \<and> keys = Some [(''id'', 7)] \<and>
      post = Some [(''tags'', 1), (''metadata'', 2)])
     (derive_effect ''UPDATE memories SET tags = ?, metadata = ? WHERE id = ?'' [1, 2, 7 :: int])"
proof -
  let ?q = "''UPDATE memories SET tags = ?, metadata = ? WHERE id = ?''"
  have e: "derive_effect ?q [1, 2, 7 :: int]
      = (Some ''memories'', Some [(''id'', 7)], Some [(''tags'', 1), (''metadata'', 2)])"
    by code_simp
  from evidence_from_params [OF e] show ?thesis by (simp add: e)
qed


end
