(* ===== verification/Write_Gate.thy ===== *)
theory Write_Gate
  imports Memora_Prelude
begin

text \<open>
  Model of \<open>memora/write_gate.py\<close>: the per-store write gate (admission, draining freeze, thaw,
  reported state), the registry of gates, the persisted freeze intent, and the start-up checks
  of the store registry.  Every method runs under the gate's condition variable, so one
  operation is one step; \<open>freeze\<close> releases the lock only inside \<open>wait\<close>, so it is a first
  step and a step per wake-up.
\<close>

section \<open>Tokens and the gate\<close>

record gate_token =
  tk_id :: nat
  tk_desc :: string
  tk_thread :: nat
  tk_released :: bool

text \<open>
  \<open>g_journal\<close> is what the store's \<open>journal_status\<close> callback returns now: the ids of the open
  intents and the reason the journal is unusable, or \<^const>\<open>None\<close> when the store has no journal.
  \<open>g_in_flight\<close> is keyed by the token's identity.
\<close>

record gate =
  g_key :: string
  g_name :: "string option"
  g_frozen :: bool
  g_draining :: bool
  g_thaw_generation :: nat
  g_in_flight :: "(nat, gate_token) dict"
  g_journal :: "(int list \<times> string option) option"

datatype gate_state = Open | Draining | Frozen | FrozenUnsafe

datatype gate_error =
    PermissionError "string option"
  | StoreReadOnly gate_state
  | JournalUnusable string

definition new_gate :: "string \<Rightarrow> string option \<Rightarrow> gate" where
  "new_gate key name =
     \<lparr>g_key = key, g_name = name, g_frozen = False, g_draining = False, g_thaw_generation = 0,
      g_in_flight = [], g_journal = None\<rparr>"

definition exempt_callers :: "string list" where
  "exempt_callers = [''memora.replicator'']"

text \<open>An empty reason is falsy in Python, like no reason.\<close>

definition journal_broken :: "gate \<Rightarrow> string option" where
  "journal_broken g = (case g_journal g of None \<Rightarrow> None | Some st \<Rightarrow> snd st)"

definition truthy :: "string option \<Rightarrow> bool" where
  "truthy r \<longleftrightarrow> r \<noteq> None \<and> r \<noteq> Some ''''"

definition open_intents :: "gate \<Rightarrow> int list" where
  "open_intents g = (case g_journal g of None \<Rightarrow> [] | Some st \<Rightarrow> fst st)"

definition state_locked :: "gate \<Rightarrow> gate_state" where
  "state_locked g =
     (if truthy (journal_broken g) then FrozenUnsafe
      else if g_draining g then Draining
      else if g_frozen g then
        (if open_intents g \<noteq> [] \<or> truthy (journal_broken g) then FrozenUnsafe else Frozen)
      else Open)"

definition admit :: "string \<Rightarrow> nat \<Rightarrow> nat \<Rightarrow> gate \<Rightarrow> gate_token \<times> gate" where
  "admit desc thread tid g =
     (let tok = \<lparr>tk_id = tid, tk_desc = desc, tk_thread = thread, tk_released = False\<rparr>
      in (tok, g\<lparr>g_in_flight := dict_set tid tok (g_in_flight g)\<rparr>))"

text \<open>\<open>enter\<close>: \<open>caller\<close> is the calling module, \<open>tid\<close> the identity of the new token.\<close>

definition enter :: "string option \<Rightarrow> nat \<Rightarrow> nat \<Rightarrow> string \<Rightarrow> bool \<Rightarrow> gate \<Rightarrow> gate_error + gate_token \<times> gate" where
  "enter caller thread tid desc exempt g =
     (if exempt \<and> caller \<notin> Some ` set exempt_callers then Inl (PermissionError caller)
      else if exempt then Inr (admit desc thread tid g)
      else if g_frozen g \<or> g_draining g then Inl (StoreReadOnly (state_locked g))
      else if truthy (journal_broken g) then Inl (JournalUnusable (the (journal_broken g)))
      else Inr (admit desc thread tid g))"

definition leave :: "gate_token \<Rightarrow> gate \<Rightarrow> gate_token \<times> gate" where
  "leave tok g =
     (if tk_released tok then (tok, g)
      else (tok\<lparr>tk_released := True\<rparr>, g\<lparr>g_in_flight := dict_pop (tk_id tok) (g_in_flight g)\<rparr>))"

section \<open>Freeze and thaw\<close>

text \<open>
  What one pass of \<open>freeze\<close> ends in: it returned with the gate frozen, it waits for a wake-up
  with the lock released, or it raised \<open>FreezeTimeout\<close> with the writes still in flight.
\<close>

datatype freeze_result = FreezeDone | FreezeWaiting | FreezeTimedOut "gate_token list"

definition freeze_check :: "int \<Rightarrow> gate \<Rightarrow> freeze_result \<times> gate" where
  "freeze_check remaining g =
     (if g_in_flight g = [] then (FreezeDone, g\<lparr>g_draining := False, g_frozen := True\<rparr>)
      else if remaining \<le> 0 then
        (FreezeTimedOut (map snd (g_in_flight g)), g\<lparr>g_draining := False\<rparr>)
      else (FreezeWaiting, g))"

definition freeze_start :: "int \<Rightarrow> gate \<Rightarrow> freeze_result \<times> gate" where
  "freeze_start remaining g =
     (if g_frozen g then (FreezeDone, g) else freeze_check remaining (g\<lparr>g_draining := True\<rparr>))"

definition freeze_at_start :: "gate \<Rightarrow> gate" where
  "freeze_at_start g = g\<lparr>g_frozen := True\<rparr>"

definition thaw :: "gate \<Rightarrow> gate" where
  "thaw g = g\<lparr>g_frozen := False, g_draining := False, g_thaw_generation := g_thaw_generation g + 1\<rparr>"

record gate_status =
  gs_state :: gate_state
  gs_in_flight :: nat
  gs_open_intents :: "int list option"
  gs_journal_error :: "string option"

definition gate_status_of :: "gate \<Rightarrow> gate_status" where
  "gate_status_of g =
     \<lparr>gs_state = state_locked g, gs_in_flight = length (g_in_flight g),
      gs_open_intents = map_option (\<lambda>st. sort (fst st)) (g_journal g),
      gs_journal_error = (if truthy (journal_broken g) then journal_broken g else None)\<rparr>"

section \<open>The registry of gates and the persisted freeze\<close>

text \<open>\<open>MEMORA_READONLY_DBS\<close> is a comma-separated list; blank entries are dropped.\<close>

definition readonly_names :: "string \<Rightarrow> string list" where
  "readonly_names raw = filter (\<lambda>n. n \<noteq> []) (map str_strip (split_on (CHR '','') raw))"

record freeze_env =
  fe_readonly :: string
  fe_files :: "string list"

definition persist_freeze :: "string \<Rightarrow> freeze_env \<Rightarrow> freeze_env" where
  "persist_freeze name e = e\<lparr>fe_files := List.insert name (fe_files e)\<rparr>"

definition remove_freeze :: "string \<Rightarrow> freeze_env \<Rightarrow> freeze_env" where
  "remove_freeze name e = e\<lparr>fe_files := removeAll name (fe_files e)\<rparr>"

definition starts_frozen :: "freeze_env \<Rightarrow> string \<Rightarrow> bool" where
  "starts_frozen e name \<longleftrightarrow> name \<in> set (readonly_names (fe_readonly e)) \<or> name \<in> set (fe_files e)"

definition apply_start_state :: "freeze_env \<Rightarrow> string \<Rightarrow> gate \<Rightarrow> gate" where
  "apply_start_state e name g = (if starts_frozen e name then freeze_at_start g else g)"

type_synonym gates = "(string, gate) dict"

definition gate_for_key :: "freeze_env \<Rightarrow> string \<Rightarrow> string option \<Rightarrow> gates \<Rightarrow> gate \<times> gates" where
  "gate_for_key e key name gs =
     (case map_of gs key of
        None \<Rightarrow>
          (let g = new_gate key name;
               g' = (case name of None \<Rightarrow> g | Some n \<Rightarrow> apply_start_state e n g)
           in (g', dict_set key g' gs))
      | Some g \<Rightarrow>
          (case name of
             Some n \<Rightarrow>
               (if g_name g = None then
                  (let g' = apply_start_state e n (g\<lparr>g_name := Some n\<rparr>) in (g', dict_set key g' gs))
                else (g, gs))
           | None \<Rightarrow> (g, gs)))"

section \<open>Start-up checks of the registry\<close>

text \<open>
  \<open>check_registry_aliases\<close>.  \<open>local_path\<close> stands for \<open>parse_backend_uri\<close> followed by
  \<open>os.path.realpath\<close>: the canonical path of a local store, or \<^const>\<open>None\<close> for a URI that is
  not a local store.
\<close>

definition d1_ident :: "string \<Rightarrow> string" where
  "d1_ident uri =
     (let r = drop 5 uri in
      if CHR ''/'' \<in> set r then drop 1 (dropWhile (\<lambda>c. c \<noteq> CHR ''/'') r) else r)"

definition store_ident :: "(string \<Rightarrow> string option) \<Rightarrow> string \<Rightarrow> string option" where
  "store_ident local_path uri =
     (if starts_with ''d1://'' uri then Some (''d1:'' @ d1_ident uri)
      else if starts_with ''s3://'' uri then None
      else map_option ((@) ''sqlite:'') (local_path uri))"

fun alias_scan :: "(string \<Rightarrow> string option) \<Rightarrow> (string, string) dict \<Rightarrow> (string, string) dict \<Rightarrow>
    (string \<times> string \<times> string) option" where
  "alias_scan local_path seen [] = None"
| "alias_scan local_path seen ((name, uri) # rest) =
     (case store_ident local_path uri of
        None \<Rightarrow> alias_scan local_path seen rest
      | Some ident \<Rightarrow>
          (case map_of seen ident of
             Some other \<Rightarrow> Some (other, name, drop 1 (dropWhile (\<lambda>c. c \<noteq> CHR '':'') ident))
           | None \<Rightarrow> alias_scan local_path (dict_set ident name seen) rest))"

definition check_registry_aliases :: "(string \<Rightarrow> string option) \<Rightarrow> (string, string) dict \<Rightarrow>
    (string \<times> string \<times> string) option" where
  "check_registry_aliases local_path registry = alias_scan local_path [] registry"

text \<open>
  A registry store as the start-up functions see it: the refusal of the data-volume check, then
  what \<open>backend_for\<close> gives (an exception, or a backend with or without a gate).
\<close>

record backend_view =
  bv_has_gate :: bool
  bv_refused_reason :: "string option"
  bv_live_primary :: bool
  bv_fence_error :: "string option"
  bv_gate :: gate

datatype gate_summary =
    SumRefused string
  | SumStatus gate_status
  | SumUnknown string

fun fence_live_primaries :: "(string, string) dict \<Rightarrow> (string \<times> backend_view) list \<Rightarrow>
    (string, string option) dict" where
  "fence_live_primaries refusals [] = []"
| "fence_live_primaries refusals ((name, b) # rest) =
     (if map_of refusals name \<noteq> None \<or> \<not> bv_live_primary b then fence_live_primaries refusals rest
      else (name, bv_fence_error b) # fence_live_primaries refusals rest)"

fun initialize_registry_gates :: "(string, string) dict \<Rightarrow> (string \<times> (string + backend_view)) list \<Rightarrow>
    (string, gate_summary) dict" where
  "initialize_registry_gates refusals [] = []"
| "initialize_registry_gates refusals ((name, r) # rest) =
     (case map_of refusals name of
        Some why \<Rightarrow> (name, SumRefused why) # initialize_registry_gates refusals rest
      | None \<Rightarrow>
          (case r of
             Inl exc \<Rightarrow> (name, SumUnknown exc) # initialize_registry_gates refusals rest
           | Inr b \<Rightarrow>
               (if \<not> bv_has_gate b then initialize_registry_gates refusals rest
                else if truthy (bv_refused_reason b)
                     then (name, SumRefused (the (bv_refused_reason b))) # initialize_registry_gates refusals rest
                else (name, SumStatus (gate_status_of (bv_gate b))) # initialize_registry_gates refusals rest)))"

section \<open>Facts about single operations\<close>

lemmas gate_defs = enter_def admit_def leave_def freeze_check_def freeze_start_def freeze_at_start_def
  thaw_def state_locked_def journal_broken_def open_intents_def truthy_def Let_def

lemma state_Open_iff: "state_locked g = Open \<longleftrightarrow>
    \<not> g_frozen g \<and> \<not> g_draining g \<and> \<not> truthy (journal_broken g)"
  by (simp add: state_locked_def)

lemma enter_plain_iff: "(\<exists>r. enter caller thread tid desc False g = Inr r) \<longleftrightarrow> state_locked g = Open"
  by (auto simp: state_Open_iff enter_def)

lemma enter_exempt_iff:
  "(\<exists>r. enter caller thread tid desc True g = Inr r) \<longleftrightarrow> caller \<in> Some ` set exempt_callers"
  by (auto simp: enter_def)

lemma enter_in_flight: "enter caller thread tid desc ex g = Inr (tok, g') \<Longrightarrow>
    tk_id tok = tid \<and> \<not> tk_released tok \<and> g_in_flight g' = dict_set tid tok (g_in_flight g) \<and>
    g_frozen g' = g_frozen g \<and> g_draining g' = g_draining g \<and> g_journal g' = g_journal g"
  by (auto simp: enter_def admit_def Let_def split: if_splits)

section \<open>The gate among its clients\<close>

text \<open>
  The processes around one gate: the tokens the writers hold (each with whether it was an
  exempt entry, which the gate itself does not record), how many \<open>freeze\<close> calls are waiting,
  and the next token identity.
\<close>

record gate_world =
  w_gate :: gate
  w_held :: "(gate_token \<times> bool) list"
  w_freezers :: nat
  w_next :: nat

definition init_world :: "string \<Rightarrow> string option \<Rightarrow> gate_world" where
  "init_world key name = \<lparr>w_gate = new_gate key name, w_held = [], w_freezers = 0, w_next = 0\<rparr>"

text \<open>Start-up freezes a gate only before its first connection, hence with nothing in flight.\<close>

inductive gate_step :: "gate_world \<Rightarrow> gate_world \<Rightarrow> bool" where
  enter_step: "enter caller thread (w_next w) desc ex (w_gate w) = Inr (tok, g') \<Longrightarrow>
     gate_step w (w\<lparr>w_gate := g', w_held := (tok, ex) # w_held w, w_next := w_next w + 1\<rparr>)"
| leave_step: "(tok, ex) \<in> set (w_held w) \<Longrightarrow> leave tok (w_gate w) = (tok', g') \<Longrightarrow>
     gate_step w (w\<lparr>w_gate := g', w_held := removeAll (tok, ex) (w_held w)\<rparr>)"
| freeze_call: "freeze_start r (w_gate w) = (res, g') \<Longrightarrow>
     gate_step w (w\<lparr>w_gate := g',
       w_freezers := (if res = FreezeWaiting then w_freezers w + 1 else w_freezers w)\<rparr>)"
| freeze_wake: "0 < w_freezers w \<Longrightarrow> freeze_check r (w_gate w) = (res, g') \<Longrightarrow>
     gate_step w (w\<lparr>w_gate := g',
       w_freezers := (if res = FreezeWaiting then w_freezers w else w_freezers w - 1)\<rparr>)"
| thaw_step: "gate_step w (w\<lparr>w_gate := thaw (w_gate w)\<rparr>)"
| start_step: "g_in_flight (w_gate w) = [] \<Longrightarrow> gate_step w (w\<lparr>w_gate := freeze_at_start (w_gate w)\<rparr>)"
| journal_step: "gate_step w (w\<lparr>w_gate := (w_gate w)\<lparr>g_journal := j\<rparr>\<rparr>)"

inductive gate_reachable :: "gate_world \<Rightarrow> bool" where
  start: "gate_reachable (init_world key name)"
| step: "gate_reachable w \<Longrightarrow> gate_step w w' \<Longrightarrow> gate_reachable w'"

text \<open>
  The invariant: the in-flight table is exactly the unreleased tokens the writers hold, and
  while the gate is frozen only exempt entries are among them.
\<close>

definition gate_inv :: "gate_world \<Rightarrow> bool" where
  "gate_inv w \<longleftrightarrow>
     distinct (map (tk_id \<circ> fst) (w_held w)) \<and>
     (\<forall>(t, ex) \<in> set (w_held w). \<not> tk_released t \<and> tk_id t < w_next w) \<and>
     (\<forall>k t. map_of (g_in_flight (w_gate w)) k = Some t \<longleftrightarrow> tk_id t = k \<and> t \<in> fst ` set (w_held w)) \<and>
     (g_frozen (w_gate w) \<longrightarrow> (\<forall>(t, ex) \<in> set (w_held w). ex))"

lemma gate_inv_cong: "gate_inv w \<Longrightarrow> w_held w' = w_held w \<Longrightarrow> w_next w' = w_next w \<Longrightarrow>
    g_in_flight (w_gate w') = g_in_flight (w_gate w) \<Longrightarrow>
    (g_frozen (w_gate w') \<Longrightarrow> w_held w = [] \<or> g_frozen (w_gate w)) \<Longrightarrow> gate_inv w'"
  by (auto simp: gate_inv_def)

lemma in_flight_empty_held: assumes "gate_inv w" shows "g_in_flight (w_gate w) = [] \<longleftrightarrow> w_held w = []"
proof -
  have "g_in_flight (w_gate w) = [] \<longleftrightarrow> (\<forall>k. map_of (g_in_flight (w_gate w)) k = None)"
    using map_of_eq_empty_iff [of "g_in_flight (w_gate w)"] by (simp add: fun_eq_iff)
  also have "\<dots> \<longleftrightarrow> (\<forall>k t. map_of (g_in_flight (w_gate w)) k \<noteq> Some t)" by auto
  also have "\<dots> \<longleftrightarrow> w_held w = []" using assms unfolding gate_inv_def by (cases "w_held w") auto
  finally show ?thesis .
qed

lemma enter_inv:
  assumes inv: "gate_inv w" and e: "enter caller thread (w_next w) desc ex (w_gate w) = Inr (tok, g')"
  shows "gate_inv (w\<lparr>w_gate := g', w_held := (tok, ex) # w_held w, w_next := w_next w + 1\<rparr>)"
proof -
  note r = enter_in_flight [OF e]
  have bound: "\<forall>(t, e) \<in> set (w_held w). tk_id t < w_next w"
    using inv by (auto simp: gate_inv_def)
  then have fresh: "t \<in> fst ` set (w_held w) \<Longrightarrow> tk_id t \<noteq> w_next w" for t by auto
  have ex: "g_frozen g' \<Longrightarrow> ex" using e r by (auto simp: enter_def split: if_splits)
  have "map_of (g_in_flight g') k = Some t \<longleftrightarrow> tk_id t = k \<and> (t = tok \<or> t \<in> fst ` set (w_held w))" for k t
    using inv r fresh by (auto simp: gate_inv_def)
  then show ?thesis using inv r fresh bound ex by (fastforce simp: gate_inv_def)
qed

lemma leave_inv:
  assumes inv: "gate_inv w" and held: "(tok, ex) \<in> set (w_held w)" and l: "leave tok (w_gate w) = (tok', g')"
  shows "gate_inv (w\<lparr>w_gate := g', w_held := removeAll (tok, ex) (w_held w)\<rparr>)"
proof -
  have unrel: "\<not> tk_released tok" using inv held by (auto simp: gate_inv_def)
  have g': "g' = (w_gate w)\<lparr>g_in_flight := dict_pop (tk_id tok) (g_in_flight (w_gate w))\<rparr>"
    using l unrel by (auto simp: leave_def)
  have "inj_on (tk_id \<circ> fst) (set (w_held w))" using inv by (simp add: gate_inv_def distinct_map)
  then have inj: "p \<in> set (w_held w) \<Longrightarrow> tk_id (fst p) = tk_id tok \<Longrightarrow> p = (tok, ex)" for p
    using held by (force simp only: inj_on_def comp_def fst_conv)
  have "distinct (map (tk_id \<circ> fst) (removeAll (tok, ex) (w_held w)))"
    using inv by (simp add: gate_inv_def distinct_map removeAll_filter_not_eq inj_on_def)
  moreover have mem: "t \<in> fst ` set (removeAll (tok, ex) (w_held w)) \<longleftrightarrow>
      t \<in> fst ` set (w_held w) \<and> tk_id t \<noteq> tk_id tok" for t
  proof
    assume "t \<in> fst ` set (removeAll (tok, ex) (w_held w))"
    then obtain p where p: "p \<in> set (w_held w)" "p \<noteq> (tok, ex)" "fst p = t" by auto
    then show "t \<in> fst ` set (w_held w) \<and> tk_id t \<noteq> tk_id tok" using inj [of p] by blast
  qed force
  moreover have "map_of (g_in_flight g') k = Some t \<longleftrightarrow>
      tk_id t = k \<and> t \<in> fst ` set (removeAll (tok, ex) (w_held w))" for k t
    unfolding mem using inv by (auto simp: gate_inv_def g')
  ultimately show ?thesis using inv g' by (auto simp: gate_inv_def)
qed

lemma freeze_check_inv:
  assumes "gate_inv w" and "freeze_check r (w_gate w) = (res, g')"
  shows "gate_inv (w\<lparr>w_gate := g', w_freezers := n\<rparr>)"
  using assms in_flight_empty_held [OF assms(1)]
  by (auto intro!: gate_inv_cong [OF assms(1)] simp: freeze_check_def split: if_splits)

lemma freeze_start_inv:
  assumes "gate_inv w" and "freeze_start r (w_gate w) = (res, g')"
  shows "gate_inv (w\<lparr>w_gate := g', w_freezers := n\<rparr>)"
proof (cases "g_frozen (w_gate w)")
  case True
  with assms show ?thesis by (auto intro!: gate_inv_cong [OF assms(1)] simp: freeze_start_def)
next
  case False
  have "gate_inv (w\<lparr>w_gate := (w_gate w)\<lparr>g_draining := True\<rparr>\<rparr>)"
    by (rule gate_inv_cong [OF assms(1)]) (use False in auto)
  from freeze_check_inv [OF this] assms(2) False show ?thesis by (simp add: freeze_start_def)
qed

lemma gate_step_inv: "gate_step w w' \<Longrightarrow> gate_inv w \<Longrightarrow> gate_inv w'"
proof (induction rule: gate_step.induct)
  case (start_step w)
  then show ?case
    using in_flight_empty_held by (auto intro!: gate_inv_cong [OF start_step(2)] simp: freeze_at_start_def)
next
  case (thaw_step w)
  then show ?case by (auto intro: gate_inv_cong simp: thaw_def)
next
  case (journal_step w j)
  then show ?case by (auto intro: gate_inv_cong)
qed (blast intro: enter_inv leave_inv freeze_start_inv freeze_check_inv)+

lemma gate_inv_init: "gate_inv (init_world key name)"
  by (simp add: gate_inv_def init_world_def new_gate_def)

lemma gate_reachable_inv: "gate_reachable w \<Longrightarrow> gate_inv w"
  by (induction rule: gate_reachable.induct) (blast intro: gate_inv_init gate_step_inv)+

section \<open>Properties\<close>


text \<open>A store whose replicator is draining while its ingress is frozen.\<close>

definition ex_draining :: gate_world where
  "ex_draining =
     (let w = init_world ''k'' None;
          w1 = w\<lparr>w_gate := snd (freeze_start 30 (w_gate w))\<rparr>;
          (tok, g) = projr (enter (Some ''memora.replicator'') 1 0 ''send'' True (w_gate w1))
      in w1\<lparr>w_gate := g, w_held := [(tok, True)], w_next := 1\<rparr>)"

lemma ex_draining_reachable: "gate_reachable ex_draining"
proof -
  let ?w = "init_world ''k'' None"
  let ?w1 = "?w\<lparr>w_gate := snd (freeze_start 30 (w_gate ?w))\<rparr>"
  have "gate_step ?w ?w1"
    using freeze_call [of 30 ?w "fst (freeze_start 30 (w_gate ?w))" "snd (freeze_start 30 (w_gate ?w))"]
    by (simp add: init_world_def new_gate_def freeze_start_def freeze_check_def)
  then have r1: "gate_reachable ?w1" by (rule gate_reachable.step [OF gate_reachable.start])
  have "gate_step ?w1 ex_draining"
    using enter_step [of "Some ''memora.replicator''" 1 ?w1 "''send''" True]
    by (simp add: ex_draining_def init_world_def new_gate_def freeze_start_def freeze_check_def
        enter_def admit_def exempt_callers_def Let_def)
  with r1 show ?thesis by (rule gate_reachable.step)
qed


definition registry_idents :: "(string \<Rightarrow> string option) \<Rightarrow> (string, string) dict \<Rightarrow> string list" where
  "registry_idents local_path registry = List.map_filter (\<lambda>(name, uri). store_ident local_path uri) registry"

lemma alias_scan_None: "alias_scan local_path seen reg = None \<longleftrightarrow>
    distinct (registry_idents local_path reg) \<and> set (registry_idents local_path reg) \<inter> fst ` set seen = {}"
proof (induction local_path seen reg rule: alias_scan.induct)
  case (2 local_path seen name uri rest)
  then show ?case
    by (cases "store_ident local_path uri")
      (auto simp: registry_idents_def map_filter_simps map_of_eq_None_iff
        dest: map_of_SomeD intro: rev_image_eqI split: option.splits)
qed (simp add: registry_idents_def map_filter_simps)

text \<open>The alias check refuses exactly the registries in which two names are one store (the same
  canonical local path, or the same D1 database).\<close>

theorem alias_check_exact:
  "check_registry_aliases local_path registry = None \<longleftrightarrow> distinct (registry_idents local_path registry)"
  by (simp add: check_registry_aliases_def alias_scan_None)

end
