(* ===== verification/D1_Write.thy ===== *)
theory D1_Write
  imports Sql_Effect Write_Gate Journal_Safety
begin

text \<open>
  The write path of one D1 statement (\<open>D1Connection._execute_api\<close> of \<open>memora/backends.py\<close>): it
  classifies the statement, enters the store's gate, journals the intent, sends, settles the
  intent after a known outcome and leaves the gate.  The HTTP request itself is an input: it
  answers, fails definitely, or its outcome stays unknown.
\<close>

datatype send_out = SendOk | SendDefiniteError | SendUnknown

datatype api_result =
    ApiOk
  | ApiReadOnlyConnection
  | ApiGateRefused gate_error
  | ApiNotSent jreason
  | ApiRaised

text \<open>The text of a journal's reason is never empty, so it is true in Python.\<close>

definition reason_text :: "jreason \<Rightarrow> string" where
  "reason_text r =
     (case r of LockHeld \<Rightarrow> ''held by another process'' | Malformed _ \<Rightarrow> ''malformed record''
      | CannotOpen \<Rightarrow> ''cannot open'' | NotOpen \<Rightarrow> ''journal is not open''
      | InodeMismatch \<Rightarrow> ''inode mismatch'' | AppendFailed \<Rightarrow> ''could not record the write intent''
      | RepairFailed \<Rightarrow> ''repair failed'' | CompactionFailed \<Rightarrow> ''compaction failed''
      | NotSent _ \<Rightarrow> ''not sent'')"

lemma reason_text_nonempty [simp]: "reason_text r \<noteq> ''''"
  by (cases r) (simp_all add: reason_text_def)

text \<open>\<open>gate.journal_status = journal.status\<close>: the gate reads the journal's status when asked.\<close>

definition with_status :: "journal \<Rightarrow> gate \<Rightarrow> gate" where
  "with_status j g =
     g\<lparr>g_journal := Some (fst (journal_status j), map_option reason_text (snd (journal_status j)))\<rparr>"

record api_io =
  aio_append :: append_io
  aio_broken :: "jreason option"
  aio_send :: send_out
  aio_resolve :: resolve_io
  aio_abandon :: "write_out \<times> repair_out"
  aio_time :: json

definition opt_str :: "string option \<Rightarrow> json" where
  "opt_str s = (case s of None \<Rightarrow> JNull | Some x \<Rightarrow> JStr x)"

definition opt_obj :: "(string, json) dict option \<Rightarrow> json" where
  "opt_obj d = (case d of None \<Rightarrow> JNull | Some x \<Rightarrow> JObj x)"

definition request_of :: "(json list \<Rightarrow> string) \<Rightarrow> json \<Rightarrow> string \<Rightarrow> json list \<Rightarrow> request" where
  "request_of digest now sql params =
     (let c = classify_statement sql; (target, keys, post) = derive_effect sql params in
      \<lparr>rq_sql = sql, rq_digest = digest params,
       rq_target = opt_str (if truthy target then target else c_target c),
       rq_keys = opt_obj keys, rq_post = opt_obj post, rq_sent = now\<rparr>)"

text \<open>
  What happened: the result, the id the request was sent under (\<^const>\<open>None\<close> when it was not
  sent as a mutation), the journal at that moment, and the state afterwards.  \<open>aio_broken\<close> is a
  concurrent failure that breaks the journal between the append and the re-check.
\<close>

record api_outcome =
  ao_result :: api_result
  ao_sent :: "(int \<times> journal \<times> jdisk) option"
  ao_gate :: gate
  ao_log :: "journal \<times> jdisk"

definition break_with :: "jreason option \<Rightarrow> journal \<Rightarrow> journal" where
  "break_with r j = (case r of None \<Rightarrow> j | Some x \<Rightarrow> j\<lparr>j_broken := Some x\<rparr>)"

definition send_logged :: "api_io \<Rightarrow> int \<Rightarrow> gate_token \<Rightarrow> gate \<Rightarrow> journal \<times> jdisk \<Rightarrow> api_outcome" where
  "send_logged io iid tok g jd =
     (let j = break_with (aio_broken io) (fst jd); d = snd jd; g' = snd (leave tok g) in
      case unusable j of
        Some r \<Rightarrow>
          \<lparr>ao_result = ApiNotSent r, ao_sent = None, ao_gate = g',
           ao_log = settle_request (NeverSent (fst (aio_abandon io)) (snd (aio_abandon io)) ''not-sent'' (aio_time io)) iid (j, d)\<rparr>
      | None \<Rightarrow>
          (case aio_send io of
             SendDefiniteError \<Rightarrow>
               \<lparr>ao_result = ApiRaised, ao_sent = Some (iid, j, d), ao_gate = g',
                ao_log = settle_request (Resolution (aio_resolve io) ''failed'' (aio_time io) [] False) iid (j, d)\<rparr>
           | SendUnknown \<Rightarrow>
               \<lparr>ao_result = ApiRaised, ao_sent = Some (iid, j, d), ao_gate = g', ao_log = (j, d)\<rparr>
           | SendOk \<Rightarrow>
               \<lparr>ao_result = ApiOk, ao_sent = Some (iid, j, d), ao_gate = g',
                ao_log = settle_request (Resolution (aio_resolve io) ''ok'' (aio_time io) [] False) iid (j, d)\<rparr>))"

text \<open>\<open>c.main or c.kind\<close>, the description of the gate entry.\<close>

definition kind_text :: "sql_kind \<Rightarrow> string" where
  "kind_text k = (case k of Read \<Rightarrow> ''read'' | Mutation \<Rightarrow> ''mutation'' | Ddl \<Rightarrow> ''ddl'' | Txn \<Rightarrow> ''txn''
     | Unknown \<Rightarrow> ''unknown'')"

definition entry_desc :: "classified \<Rightarrow> string" where
  "entry_desc c = (if c_main c \<noteq> '''' then c_main c else kind_text (c_kind c))"

definition execute_api :: "(json list \<Rightarrow> string) \<Rightarrow> api_io \<Rightarrow> bool \<Rightarrow> string option \<Rightarrow> nat \<Rightarrow> nat \<Rightarrow>
    string \<Rightarrow> json list \<Rightarrow> gate \<Rightarrow> journal \<times> jdisk \<Rightarrow> api_outcome" where
  "execute_api digest io read_only caller thread tid sql params g jd =
     (let c = classify_statement sql; stop = (\<lambda>r gx jx. \<lparr>ao_result = r, ao_sent = None, ao_gate = gx, ao_log = jx\<rparr>) in
      if c_kind c = Read then stop (if aio_send io = SendOk then ApiOk else ApiRaised) g jd
      else if read_only then stop ApiReadOnlyConnection g jd
      else (case enter caller thread tid (entry_desc c) False (with_status (fst jd) g) of
          Inl e \<Rightarrow> stop (ApiGateRefused e) g jd
        | Inr (tok, g1) \<Rightarrow>
            (case append_intent (aio_append io) (request_rec (request_of digest (aio_time io) sql params))
                    (aio_time io) (fst jd) (snd jd) of
               (Inl r, jd') \<Rightarrow> stop (ApiNotSent r) (snd (leave tok g1)) jd'
             | (Inr iid, jd') \<Rightarrow> send_logged io iid tok g1 jd')))"

section \<open>Before the send, and after it\<close>

lemma send_logged_gate: "ao_gate (send_logged io iid tok g jd) = snd (leave tok g)"
  by (simp add: send_logged_def Let_def split: option.splits send_out.splits)

lemma break_inv: "journal_inv P (j, d) \<Longrightarrow> journal_inv P (break_with r j, d)"
  by (cases r) (auto simp: break_with_def journal_inv_unfold)

lemma execute_api_cases:
  assumes "execute_api digest io ro caller thread tid sql params g jd = out" and "ao_sent out = Some (iid, j, d)"
  obtains tok g1 jd' where
    "c_kind (classify_statement sql) \<noteq> Read" "\<not> ro"
    "enter caller thread tid (entry_desc (classify_statement sql)) False (with_status (fst jd) g) = Inr (tok, g1)"
    "log_request (aio_append io, request_of digest (aio_time io) sql params, aio_time io) jd = (Some iid, jd')"
    "out = send_logged io iid tok g1 jd'" "j = break_with (aio_broken io) (fst jd')" "d = snd jd'"
    "unusable j = None"
  using assms
  by (auto simp: execute_api_def Let_def log_request_def send_logged_def split: if_splits sum.splits prod.splits
      option.splits send_out.splits)

section \<open>Histories of one store's journal\<close>

text \<open>
  \<open>journal_history P jd\<close>: starting from an empty file, the journal can be in state \<open>jd\<close> with
  the requests \<open>P\<close> in doubt: sent, and no outcome learned.
\<close>

inductive journal_history :: "int set \<Rightarrow> journal \<times> jdisk \<Rightarrow> bool" where
  history_start: "journal_history {} fresh_log"
| history_log: "journal_history P jd \<Longrightarrow> log_request a jd = (Some i, jd') \<Longrightarrow> journal_history (insert i P) jd'"
| history_refused: "journal_history P jd \<Longrightarrow> log_request a jd = (None, jd') \<Longrightarrow> journal_history P jd'"
| history_settle: "journal_history P jd \<Longrightarrow> settlement_ok st i \<Longrightarrow> journal_history (P - {i}) (settle_request st i jd)"
| history_background: "journal_history P jd \<Longrightarrow> journal_background jd jd' \<Longrightarrow> journal_history P jd'"
| history_crash: "journal_history P jd \<Longrightarrow> journal_crash jd jd' \<Longrightarrow> journal_history P jd'"

lemma history_run: "journal_history P jd \<Longrightarrow> journal_log.run ({}, fresh_log) (P, jd)"
  by (induction rule: journal_history.induct) (blast intro: journal_log.run.intros)+

lemma history_inv: "journal_history P jd \<Longrightarrow> journal_inv P jd"
  using journal_log.run_inv [OF history_run, of P jd] fresh_log_inv by simp

lemma log_request_history: "journal_history P jd \<Longrightarrow> log_request a jd = (Some i, jd') \<Longrightarrow>
    i \<notin> P \<and> journal_inv (insert i P) jd'"
  using journal_log.append_sent [OF history_inv] by blast

lemma sent_inv:
  assumes "journal_history P jd" and "execute_api digest io ro caller thread tid sql params g jd = out"
    and "ao_sent out = Some (iid, j, d)"
  shows "iid \<notin> P \<and> journal_inv (insert iid P) (j, d) \<and>
    (aio_send io = SendUnknown \<longrightarrow> ao_log out = (j, d)) \<and>
    (aio_send io \<noteq> SendUnknown \<longrightarrow> journal_inv P (ao_log out))"
proof -
  from assms(2,3) obtain tok g1 jd' where
    log: "log_request (aio_append io, request_of digest (aio_time io) sql params, aio_time io) jd = (Some iid, jd')"
    and out: "out = send_logged io iid tok g1 jd'"
    and j: "j = break_with (aio_broken io) (fst jd')" "d = snd jd'" "unusable j = None"
    by (rule execute_api_cases)
  from log_request_history [OF assms(1) log] have new: "iid \<notin> P" "journal_inv (insert iid P) jd'" by auto
  then have inv: "journal_inv (insert iid P) (j, d)" using break_inv [of "insert iid P" "fst jd'" "snd jd'"] j by simp
  have "insert iid P - {iid} = P" using new(1) by blast
  with settle_inv [OF inv, of "Resolution (aio_resolve io) _ (aio_time io) [] False" iid]
  have settled: "journal_inv P (settle_request (Resolution (aio_resolve io) o1 (aio_time io) [] False) iid (j, d))" for o1
    by (simp add: settlement_ok_def)
  show ?thesis
    using new inv settled j by (auto simp: out send_logged_def Let_def split: send_out.splits)
qed

section \<open>Properties\<close>

text \<open>C1: a mutating request goes out only through an open gate and only after its intent is recorded:
  at the moment of the send the intent is open, its id is new, and after any crash at that moment
  the next process that takes the journal over reports it open, with every other request in doubt.\<close>

theorem mutation_journaled_before_send:
  assumes "journal_history P jd"
    and "execute_api digest io ro caller thread tid sql params g jd = out" and "ao_sent out = Some (iid, j, d)"
    and "journal_crash (j, d) jd1" and "open_journal oio (fst jd1) (snd jd1) = (j2, d2)" and "j_lock j2"
  shows "state_locked (with_status (fst jd) g) = Open \<and> \<not> ro \<and> iid \<notin> P \<and>
    insert iid P \<subseteq> set (fst (journal_status j2)) \<and> j_fatal j2 \<notin> range (\<lambda>n. Some (Malformed n))"
proof -
  note sent = sent_inv [OF assms(1-3)]
  have gate: "state_locked (with_status (fst jd) g) = Open \<and> \<not> ro"
    using assms(2,3) by (rule execute_api_cases) (use enter_plain_iff in blast)
  have crashed: "journal_inv (insert iid P) jd1" using sent crash_step_inv assms(4) by blast
  then have "journal_inv (insert iid P) (j2, d2)" using open_inv assms(5) by (metis prod.collapse)
  then have ids: "insert iid P \<subseteq> set (fst (journal_status j2))"
    using journal_log.open_in_service [of "insert iid P" "(j2, d2)"] assms(6)
    by (simp add: journal_in_service_def journal_open_ids_def)
  have "fst jd1 = new_journal" using assms(4) by (simp add: journal_crash_def)
  moreover have "good_lines (dk_lines (snd jd1))"
    using crashed survivor_full by (fastforce simp: journal_inv_def Let_def content_ok_def)
  ultimately have "j_fatal j2 \<notin> range (\<lambda>n. Some (Malformed n))"
    using assms(5) replay_rep by (auto simp: open_journal_def new_journal_def Let_def split: if_splits)
  with gate sent ids show ?thesis by blast
qed

definition good_append :: append_io where
  "good_append = \<lparr>io_inode_ok = True, io_write = WriteDone, io_fsync_ok = True, io_repair = RepairDone,
     io_big = False, io_compact = CompactSkipped\<rparr>"

definition lost_reply :: api_io where
  "lost_reply = \<lparr>aio_append = good_append, aio_broken = None, aio_send = SendUnknown,
     aio_resolve = \<lparr>rio_write = WriteDone, rio_fsync_ok = True, rio_repair = RepairDone\<rparr>,
     aio_abandon = (WriteDone, RepairDone), aio_time = JInt 0\<rparr>"

definition good_open :: open_io where
  "good_open = \<lparr>oio_dir = True, oio_lock_free = True, oio_cut = True, oio_fd = True\<rparr>"

definition ex_log :: "journal \<times> jdisk" where
  "ex_log = open_journal good_open (fst fresh_log) (snd fresh_log)"

definition ex_out :: api_outcome where
  "ex_out = execute_api (\<lambda>_. ''digest'') lost_reply False None 1 7 ''DELETE FROM t'' []
     (new_gate ''k'' None) ex_log"

definition ex_rec :: json where
  "ex_rec = intent_rec 1 ''DELETE FROM t'' ''digest'' (JStr ''t'') JNull JNull (JInt 0)"

definition ex_journal :: journal where
  "ex_journal = \<lparr>j_opened = True, j_fd = True, j_lock = True, j_mem = \<lparr>m_open = [(1, ex_rec)], m_next = 2\<rparr>,
     j_dirty = False, j_fatal = None, j_broken = None, j_evidence = []\<rparr>"

definition ex_disk :: jdisk where
  "ex_disk = \<lparr>dk_lines = [Some ex_rec], dk_tail = 0, dk_synced = 1, dk_alt = None\<rparr>"

lemma ex_out_sent: "ao_result ex_out = ApiRaised \<and> ao_sent ex_out = Some (1, ex_journal, ex_disk)"
  by code_simp

definition ex_restart :: "journal \<times> jdisk" where
  "ex_restart = open_journal good_open new_journal ex_disk"

lemma ex_log_history: "journal_history {} ex_log"
  unfolding ex_log_def
  by (rule history_background [OF history_start]) (simp add: fresh_log_def journal_background.start)

theorem mutation_journaled_before_send_witness:
  "1 \<in> set (fst (journal_status (fst ex_restart))) \<and> ao_result ex_out = ApiRaised"
proof -
  have sent: "ao_sent ex_out = Some (1, ex_journal, ex_disk)" and res: "ao_result ex_out = ApiRaised"
    using ex_out_sent by simp_all
  have crash: "journal_crash (ex_journal, ex_disk) (new_journal, ex_disk)"
    by (auto simp: journal_crash_def survives_def ex_disk_def)
  have locked: "j_lock (fst ex_restart)" by code_simp
  have "insert 1 {} \<subseteq> set (fst (journal_status (fst ex_restart)))"
    using mutation_journaled_before_send [OF ex_log_history ex_out_def [symmetric] sent crash _ locked,
        of good_open "snd ex_restart"] by (simp add: ex_restart_def)
  with res show ?thesis by simp
qed

text \<open>a request whose outcome is unknown leaves its intent open: the state after the call still
  holds it in doubt, so a gate frozen now reports unsafe; after a known outcome nothing is added.\<close>

theorem unknown_outcome_stays_open:
  assumes "journal_history P jd" and "execute_api digest io ro caller thread tid sql params g jd = out"
    and "ao_sent out = Some (iid, j, d)" and "aio_send io = SendUnknown"
  shows "insert iid P \<subseteq> set (fst (journal_status (fst (ao_log out)))) \<and>
    state_locked (with_status (fst (ao_log out)) (freeze_at_start g')) \<noteq> Frozen \<and>
    state_locked (with_status (fst (ao_log out)) (freeze_at_start g')) \<noteq> Open"
proof -
  from sent_inv [OF assms(1-3)] assms(4) have log: "ao_log out = (j, d)" "journal_inv (insert iid P) (j, d)" by auto
  have "j_lock j"
  proof (rule execute_api_cases [OF assms(2,3)])
    fix tok g1 jd'
    assume l: "log_request (aio_append io, request_of digest (aio_time io) sql params, aio_time io) jd = (Some iid, jd')"
      and j: "j = break_with (aio_broken io) (fst jd')"
    have "j_lock (fst jd)" using l history_inv [OF assms(1)]
      by (auto simp: log_request_def append_intent_def journal_inv_def Let_def split: option.splits if_splits)
    then have "j_lock (fst jd')" using l
      by (auto simp: log_request_def append_intent_def compact_def repair_journal_def Let_def
          split: option.splits if_splits write_out.splits compact_out.splits repair_out.splits)
    then show "j_lock j" by (cases "aio_broken io") (simp_all add: j break_with_def)
  qed
  then have ids: "insert iid P \<subseteq> set (fst (journal_status j))"
    using journal_log.open_in_service [OF log(2)] by (simp add: journal_in_service_def journal_open_ids_def)
  then have "fst (journal_status j) \<noteq> []" by auto
  then show ?thesis using ids log(1)
    by (auto simp: state_locked_def with_status_def freeze_at_start_def open_intents_def)
qed

theorem unknown_outcome_stays_open_witness:
  "1 \<in> set (fst (journal_status (fst (ao_log ex_out))))"
proof -
  have sent: "ao_sent ex_out = Some (1, ex_journal, ex_disk)" using ex_out_sent by simp
  have "aio_send lost_reply = SendUnknown" by code_simp
  then show ?thesis using unknown_outcome_stays_open [OF ex_log_history ex_out_def [symmetric] sent] by simp
qed

text \<open>The gate is left as it was entered: whatever the call does, its own token is gone from the
  in-flight table and no other write's token is touched, so a freeze never waits for a call that returned;
  and when the gate is not open, a mutating call sends nothing and records nothing.\<close>

theorem write_leaves_no_token:
  assumes "execute_api digest io ro caller thread tid sql params g jd = out" and "map_of (g_in_flight g) tid = None"
  shows "map_of (g_in_flight (ao_gate out)) = map_of (g_in_flight g) \<and> g_frozen (ao_gate out) = g_frozen g \<and>
    (c_kind (classify_statement sql) \<noteq> Read \<and> state_locked (with_status (fst jd) g) \<noteq> Open \<longrightarrow>
       ao_sent out = None \<and> ao_log out = jd)"
proof (cases "enter caller thread tid (entry_desc (classify_statement sql)) False (with_status (fst jd) g)")
  case (Inl e)
  note [simp] = Inl
  have "out = (if c_kind (classify_statement sql) = Read
      then \<lparr>ao_result = if aio_send io = SendOk then ApiOk else ApiRaised, ao_sent = None, ao_gate = g, ao_log = jd\<rparr>
      else if ro then \<lparr>ao_result = ApiReadOnlyConnection, ao_sent = None, ao_gate = g, ao_log = jd\<rparr>
      else \<lparr>ao_result = ApiGateRefused e, ao_sent = None, ao_gate = g, ao_log = jd\<rparr>)"
    unfolding assms(1) [symmetric] execute_api_def Let_def Inl by simp
  then show ?thesis by simp
next
  case (Inr r)
  obtain tok g1 where r: "r = (tok, g1)" by (cases r)
  note e = enter_in_flight [OF Inr [unfolded r]]
  have open_gate: "state_locked (with_status (fst jd) g) = Open" using Inr enter_plain_iff by blast
  have "map_of (g_in_flight (snd (leave tok g1))) = map_of (g_in_flight g) \<and> g_frozen (snd (leave tok g1)) = g_frozen g"
    using e assms(2) by (auto simp: leave_def with_status_def fun_eq_iff)
  moreover have "ao_gate out = g \<or> ao_gate out = snd (leave tok g1)"
    unfolding assms(1) [symmetric] execute_api_def Let_def Inr r
    by (auto simp: send_logged_gate split: sum.splits prod.splits)
  ultimately show ?thesis using open_gate by auto
qed

theorem write_leaves_no_token_witness: "map_of (g_in_flight (ao_gate ex_out)) = map_of []"
  using write_leaves_no_token [OF ex_out_def [symmetric]] by (simp add: new_gate_def)

end
