(* ===== verification/Intent_Evidence.thy ===== *)
theory Intent_Evidence
  imports D1_Write
begin

text \<open>
  What an operator decides on: the evidence read back for the open write intents
  (\<open>memora/reconcile.py\<close>), the SELECT-only D1 reader (\<open>D1SelectOnlyConnection\<close> of
  \<open>memora/backends.py\<close>) and the acceptance of one intent (\<open>accept_intent\<close> of
  \<open>memora/admin.py\<close>).  Records and evidence are the JSON values of the code; the answer of each
  HTTP request, the receipt file and SHA-256 are arguments.  An exception that leaves
  \<open>gather_evidence\<close> is \<^const>\<open>None\<close>; the messages of Python's own type errors are shortened to the
  name they complain about.
\<close>

section \<open>JSON values as Python reads them\<close>

definition json_true :: "json \<Rightarrow> bool" where
  "json_true v =
     (case v of JNull \<Rightarrow> False | JBool b \<Rightarrow> b | JInt n \<Rightarrow> n \<noteq> 0 | JFloat q \<Rightarrow> q \<noteq> 0
      | JStr s \<Rightarrow> s \<noteq> '''' | JList xs \<Rightarrow> xs \<noteq> [] | JObj d \<Rightarrow> d \<noteq> [])"

text \<open>\<open>v == n\<close> for an integer \<open>n\<close>: Python compares numbers across their types.\<close>

definition json_equals_int :: "json \<Rightarrow> int \<Rightarrow> bool" where
  "json_equals_int v n =
     (case v of JInt m \<Rightarrow> m = n | JBool b \<Rightarrow> of_bool b = n | JFloat q \<Rightarrow> q = of_int n | _ \<Rightarrow> False)"

definition json_float :: "json \<Rightarrow> rat option" where
  "json_float v =
     (case v of JInt n \<Rightarrow> Some (of_int n) | JFloat q \<Rightarrow> Some q | JBool b \<Rightarrow> Some (of_bool b) | _ \<Rightarrow> None)"

text \<open>\<open>_IDENT.match\<close>: the \<open>$\<close> of the pattern also matches before a final newline.\<close>

definition ident_or_line :: "string \<Rightarrow> bool" where
  "ident_or_line k \<longleftrightarrow> is_ident k \<or> k \<noteq> [] \<and> last k = CHR 0x0A \<and> is_ident (butlast k)"

section \<open>The read-back query\<close>

datatype read_query = Query string "json list" | NoQuery string | QueryRaises

definition column_test :: "string \<Rightarrow> string \<Rightarrow> string" where
  "column_test rel k = k @ '' '' @ rel @ '' ?''"

definition select_where :: "string \<Rightarrow> string list \<Rightarrow> string" where
  "select_where target tests = ''SELECT * FROM '' @ target @ '' WHERE '' @ str_join '' AND '' tests"

definition bindable :: "json \<Rightarrow> bool" where
  "bindable v = (case v of JList _ \<Rightarrow> False | JObj _ \<Rightarrow> False | _ \<Rightarrow> True)"

definition no_derivation :: read_query where
  "no_derivation = NoQuery ''no keys or values could be derived from the statement''"

text \<open>The second half: the written values of an INSERT, when there are any.\<close>

definition insert_query :: "string \<Rightarrow> json \<Rightarrow> json \<Rightarrow> read_query" where
  "insert_query target sql post =
     (let text = (case sql of JStr s \<Rightarrow> s | _ \<Rightarrow> '''') in
      if starts_with ''INSERT'' (str_upper (dropWhile is_space text)) \<and> json_true post then
        (case post of
           JObj d \<Rightarrow>
             (let cols = filter (\<lambda>cv. ident_or_line (fst cv) \<and> bindable (snd cv)) d in
              if cols = [] then no_derivation
              else Query (select_where target (map (column_test ''IS'' \<circ> fst) cols) @ '' LIMIT 5'') (map snd cols))
         | _ \<Rightarrow> QueryRaises)
      else no_derivation)"

text \<open>
  The test \<open>all(_IDENT.match(k) for k in keys)\<close> on a list that is not an object: it raises at the
  first element that is no text, and a list that passes it has no \<open>values()\<close>.
\<close>

fun list_keys_raise :: "json list \<Rightarrow> bool" where
  "list_keys_raise [] = True"
| "list_keys_raise (v # vs) =
     (case v of JStr s \<Rightarrow> if ident_or_line s then list_keys_raise vs else False | _ \<Rightarrow> True)"

definition evidence_query :: "json \<Rightarrow> read_query" where
  "evidence_query rec =
     (let d = rec_fields rec; keys = json_get ''keys'' d;
          from_post = (\<lambda>t. insert_query t (json_get ''sql'' d) (json_get ''post_state'' d)) in
      case json_get ''target'' d of
        JStr t \<Rightarrow>
          (if map_of primary_keys t = None then NoQuery ''the target table is not one reconciliation reads''
           else if \<not> json_true keys then from_post t
           else (case keys of
               JObj ks \<Rightarrow>
                 (if list_all (ident_or_line \<circ> fst) ks
                  then Query (select_where t (map (column_test ''='' \<circ> fst) ks)) (map snd ks)
                  else from_post t)
             | JStr s \<Rightarrow> if list_keys_raise (map (\<lambda>c. JStr [c]) s) then QueryRaises else from_post t
             | JList vs \<Rightarrow> if list_keys_raise vs then QueryRaises else from_post t
             | _ \<Rightarrow> QueryRaises))
      | JList _ \<Rightarrow> QueryRaises
      | JObj _ \<Rightarrow> QueryRaises
      | _ \<Rightarrow> NoQuery ''the target table is not one reconciliation reads'')"

section \<open>The SELECT-only reader\<close>

text \<open>An exception is its type name and its message.\<close>

type_synonym py_error = "string \<times> string"

datatype http_answer =
    PostRaises py_error
  | Answer nat string "json option"

definition no_attr :: "string \<Rightarrow> py_error" where
  "no_attr a = (''AttributeError'', a)"

text \<open>\<open>(result.get("result") or [{}])[0]\<close> with its \<open>results\<close> and \<open>meta\<close>.\<close>

definition first_result :: "json \<Rightarrow> py_error + (json \<times> json)" where
  "first_result r =
     (case (if json_true r then r else JList [JObj []]) of
        JList (JObj f # _) \<Rightarrow>
          Inr (case map_of f ''results'' of None \<Rightarrow> JList [] | Some v \<Rightarrow> v,
               case map_of f ''meta'' of None \<Rightarrow> JObj [] | Some v \<Rightarrow> v)
      | _ \<Rightarrow> Inl (no_attr ''get''))"

definition query_error :: "json \<Rightarrow> py_error" where
  "query_error errors =
     (if \<not> json_true errors then (''RuntimeError'', ''D1 query failed: Unknown error'')
      else (case errors of
          JList (JObj e # _) \<Rightarrow>
            (''RuntimeError'', ''D1 query failed: '' @ (case json_get ''message'' e of JStr m \<Rightarrow> m | _ \<Rightarrow> ''None''))
        | _ \<Rightarrow> no_attr ''get''))"

definition reader_execute :: "http_answer \<Rightarrow> string \<Rightarrow> json list \<Rightarrow> py_error + (json \<times> json)" where
  "reader_execute answer sql params =
     (if \<not> is_select_only sql then Inl (''ValueError'', ''D1SelectOnlyConnection runs a single SELECT only'')
      else (case answer of
          PostRaises e \<Rightarrow> Inl e
        | Answer status raw body \<Rightarrow>
            (if 400 \<le> status then Inl (''RuntimeError'', ''D1 API error ('' @ nat_text status @ ''): '' @ raw)
             else (case body of
                 None \<Rightarrow> Inl (''JSONDecodeError'', raw)
               | Some (JObj res) \<Rightarrow>
                   (if \<not> json_true (json_get ''success'' res)
                    then Inl (query_error (case map_of res ''errors'' of None \<Rightarrow> JList [] | Some v \<Rightarrow> v))
                    else first_result (json_get ''result'' res))
               | Some _ \<Rightarrow> Inl (no_attr ''get'')))))"

section \<open>Gathering\<close>

definition reconcile_min_age :: rat where
  "reconcile_min_age = 60"

definition primary_retries :: nat where
  "primary_retries = 5"

text \<open>\<open>round(x, 1)\<close>: to the nearest tenth, ties to the even one.\<close>

definition round_tenth :: "rat \<Rightarrow> rat" where
  "round_tenth x =
     (let y = 10 * x; f = \<lfloor>y\<rfloor>; r = y - of_int f
      in of_int (if r < 1 / 2 \<or> r = 1 / 2 \<and> even f then f else f + 1) / 10)"

text \<open>
  Up to five reads until one was served by the primary; the answers are numbered by the attempt.
  The last rows and whether they came from the primary are the result.
\<close>

definition by_primary :: "json \<Rightarrow> bool option" where
  "by_primary meta =
     (if \<not> json_true meta then Some False
      else (case meta of JObj m \<Rightarrow> Some (json_true (json_get ''served_by_primary'' m)) | _ \<Rightarrow> None))"

fun read_attempts :: "(nat \<Rightarrow> http_answer) \<Rightarrow> string \<Rightarrow> json list \<Rightarrow> nat \<Rightarrow> nat \<Rightarrow> json \<times> bool \<Rightarrow>
    py_error + (json \<times> bool)" where
  "read_attempts answers sql params k 0 got = Inr got"
| "read_attempts answers sql params k (Suc n) got =
     (case reader_execute (answers k) sql params of
        Inl e \<Rightarrow> Inl e
      | Inr (rows, meta) \<Rightarrow>
          (case by_primary meta of
             None \<Rightarrow> Inl (no_attr ''get'')
           | Some True \<Rightarrow> Inr (rows, True)
           | Some False \<Rightarrow> read_attempts answers sql params (Suc k) n (rows, False)))"

definition error_evidence :: "py_error \<Rightarrow> json" where
  "error_evidence e =
     JObj [(''status'', JStr ''error''), (''error'', JStr (fst e @ '': '' @ take 200 (snd e)))]"

definition read_evidence :: "(nat \<Rightarrow> http_answer) \<Rightarrow> rat \<Rightarrow> string \<Rightarrow> json list \<Rightarrow> json" where
  "read_evidence answers now sql params =
     (case read_attempts answers sql params 0 primary_retries (JList [], False) of
        Inl e \<Rightarrow> error_evidence e
      | Inr (JList rows, primary) \<Rightarrow>
          JObj [(''status'', JStr ''read''), (''query'', JStr sql), (''rows'', JList (take 5 rows)),
                (''row_count'', JInt (int (length rows))), (''served_by_primary'', JBool primary),
                (''read_at'', JFloat now)]
      | Inr _ \<Rightarrow> error_evidence (''TypeError'', ''rows''))"

text \<open>
  The evidence of one intent; \<open>token\<close> is whether the read credential is configured (or a reader was
  passed in).  \<open>float(rec.get("sent_at") or now)\<close> raises on a value that is no number.
\<close>

definition evidence_of :: "bool \<Rightarrow> (nat \<Rightarrow> http_answer) \<Rightarrow> rat \<Rightarrow> json \<Rightarrow> json option" where
  "evidence_of token answers now rec =
     (let sent = json_get ''sent_at'' (rec_fields rec) in
      case (if json_true sent then json_float sent else Some now) of
        None \<Rightarrow> None
      | Some t \<Rightarrow>
          (if now - t < reconcile_min_age
           then Some (JObj [(''status'', JStr ''waiting''),
                            (''eligible_in_s'', JFloat (round_tenth (reconcile_min_age - (now - t))))])
           else (case evidence_query rec of
               QueryRaises \<Rightarrow> None
             | NoQuery why \<Rightarrow> Some (JObj [(''status'', JStr ''no-evidence''), (''reason'', JStr why)])
             | Query sql params \<Rightarrow>
                 Some (if \<not> token
                       then error_evidence
                         (''RuntimeError'', ''MEMORA_D1_READ_TOKEN(_FILE) is not set: no D1 read credential'')
                       else read_evidence answers now sql params))))"

fun evidence_loop :: "bool \<Rightarrow> (int \<Rightarrow> nat \<Rightarrow> http_answer) \<Rightarrow> rat \<Rightarrow> json list \<Rightarrow> (int, json) dict \<Rightarrow>
    (int, json) dict option" where
  "evidence_loop token http now [] out = Some out"
| "evidence_loop token http now (rec # recs) out =
     (let iid = pyint (json_get ''id'' (rec_fields rec)) in
      case evidence_of token (http iid) now rec of
        None \<Rightarrow> None
      | Some ev \<Rightarrow> evidence_loop token http now recs (dict_set iid ev out))"

definition gather_evidence :: "bool \<Rightarrow> (int \<Rightarrow> nat \<Rightarrow> http_answer) \<Rightarrow> rat \<Rightarrow> journal \<Rightarrow>
    ((int, json) dict \<times> journal) option" where
  "gather_evidence token http now j =
     map_option (\<lambda>out. (out, j\<lparr>j_evidence := out\<rparr>))
       (evidence_loop token http now (map snd (m_open (j_mem j))) [])"

section \<open>Acceptance by an operator\<close>

definition timing_keys :: "string list" where
  "timing_keys = [''read_at'', ''eligible_in_s'']"

definition evidence_content :: "json \<Rightarrow> json" where
  "evidence_content ev =
     (case ev of JObj d \<Rightarrow> JObj (filter (\<lambda>kv. fst kv \<notin> set timing_keys) d) | _ \<Rightarrow> ev)"

text \<open>\<open>sha\<close> is the digest of the canonical JSON text of its argument.\<close>

definition evidence_sha256 :: "(json \<Rightarrow> string) \<Rightarrow> json \<Rightarrow> string" where
  "evidence_sha256 sha ev = sha (JObj [(''rule'', JInt 1), (''evidence'', evidence_content ev)])"

text \<open>The receipt file: its path as text, the digest of its bytes and what they decode to.\<close>

type_synonym receipt_file = "string \<times> string \<times> json"

definition load_receipt :: "(string \<Rightarrow> receipt_file option) \<Rightarrow> string \<Rightarrow> json \<Rightarrow>
    (nat \<times> string) + (string \<times> json) list" where
  "load_receipt files name receipt =
     (case receipt of
        JStr p \<Rightarrow>
          (if p = '''' then Inl (400, ''receipt_required'')
           else (case files p of
               None \<Rightarrow> Inl (400, ''receipt_unreadable'')
             | Some (path, digest, JObj d) \<Rightarrow>
                 (if json_get ''db'' d \<noteq> JStr name \<or> \<not> json_true (json_get ''verified_at'' d)
                  then Inl (400, ''receipt_invalid'')
                  else Inr [(''receipt'', JStr path), (''receipt_sha256'', JStr digest)])
             | Some _ \<Rightarrow> Inl (400, ''receipt_invalid'')))
      | _ \<Rightarrow> Inl (400, ''receipt_required''))"

definition decisions :: "string list" where
  "decisions = [''applied'', ''not-applied'']"

record accept_body =
  ab_receipt :: json
  ab_operator :: json
  ab_intent_id :: json
  ab_decision :: json
  ab_digest :: json

text \<open>The store \<open>_backend\<close> finds: an error answer, or a backend with or without a journal.\<close>

datatype store_lookup = LookupFails nat string | NotD1Store | D1Store

text \<open>The evidence that refuses an acceptance: an error, or a read the primary did not serve.\<close>

definition unusable_evidence :: "json \<Rightarrow> bool" where
  "unusable_evidence ev \<longleftrightarrow>
     (let d = rec_fields ev; st = json_get ''status'' d in
      st = JStr ''error'' \<or> st = JStr ''read'' \<and> json_get ''served_by_primary'' d \<noteq> JBool True)"

record accept_env =
  ae_sha :: "json \<Rightarrow> string"
  ae_files :: "string \<Rightarrow> receipt_file option"
  ae_token :: bool
  ae_http :: "int \<Rightarrow> nat \<Rightarrow> http_answer"
  ae_now :: rat
  ae_resolve :: resolve_io
  ae_time :: json

definition accept_checks :: "accept_env \<Rightarrow> store_lookup \<Rightarrow> string \<Rightarrow> int \<Rightarrow> accept_body \<Rightarrow>
    (nat \<times> string) + (string \<times> json) list" where
  "accept_checks env store name iid body =
     (case store of
        LookupFails status e \<Rightarrow> Inl (status, e)
      | NotD1Store \<Rightarrow> Inl (400, ''not_a_d1_store'')
      | D1Store \<Rightarrow>
          (case load_receipt (ae_files env) name (ab_receipt body) of
             Inl err \<Rightarrow> Inl err
           | Inr extra \<Rightarrow>
               (case ab_operator body of
                  JStr who \<Rightarrow>
                    (if str_strip who = '''' then Inl (400, ''operator_required'')
                     else if \<not> json_equals_int (ab_intent_id body) iid then Inl (400, ''intent_id_mismatch'')
                     else (case ab_decision body of
                         JStr dec \<Rightarrow>
                           (if dec \<in> set decisions
                            then Inr (extra @ [(''operator'', JStr (str_strip who)), (''decision'', JStr dec)])
                            else Inl (400, ''decision_required''))
                       | _ \<Rightarrow> Inl (400, ''decision_required'')))
                | _ \<Rightarrow> Inl (400, ''operator_required''))))"

definition accept_intent :: "accept_env \<Rightarrow> store_lookup \<Rightarrow> string \<Rightarrow> int \<Rightarrow> accept_body \<Rightarrow> journal \<times> jdisk \<Rightarrow>
    ((nat \<times> string) \<times> journal \<times> jdisk) option" where
  "accept_intent env store name iid body jd =
     (case accept_checks env store name iid body of
        Inl err \<Rightarrow> Some (err, jd)
      | Inr extra \<Rightarrow>
          (if iid \<notin> set (fst (journal_status (fst jd))) then Some ((404, ''no_such_open_intent''), jd)
           else if map_of (j_evidence (fst jd)) iid = None then Some ((409, ''no_evidence_yet''), jd)
           else (case gather_evidence (ae_token env) (ae_http env) (ae_now env) (fst jd) of
               None \<Rightarrow> None
             | Some (out, j1) \<Rightarrow>
                 (case map_of out iid of
                    None \<Rightarrow> Some ((409, ''evidence_changed''), j1, snd jd)
                  | Some cur \<Rightarrow>
                      (if unusable_evidence cur then Some ((409, ''evidence_unusable''), j1, snd jd)
                       else if ab_digest body \<noteq> JStr (evidence_sha256 (ae_sha env) cur)
                            then Some ((409, ''evidence_changed''), j1, snd jd)
                       else (let rec = resolved_rec iid ''operator-accepted'' (ae_time env)
                                   (extra @ [(''evidence_sha256'', ab_digest body)]);
                                 r = resolve (ae_resolve env) iid rec True j1 (snd jd)
                             in Some ((if fst r then (200, ''operator-accepted'') else (500, ''resolution_not_recorded'')),
                                      snd r)))))))"


section \<open>The query is one SELECT\<close>

text \<open>
  \<open>reads s ts\<close>: followed by the end of the text or a space, \<open>s\<close> is tokenized as \<open>ts\<close>.
\<close>

definition gap :: "string \<Rightarrow> bool" where
  "gap r \<longleftrightarrow> (case r of [] \<Rightarrow> True | c # _ \<Rightarrow> is_space c)"

definition reads :: "string \<Rightarrow> tok list \<Rightarrow> bool" where
  "reads s ts \<longleftrightarrow> (\<forall>r. gap r \<longrightarrow> tokenize (s @ r) = map_option ((@) ts) (tokenize r))"

lemma gap_simps [simp]: "gap []" "gap (c # r) \<longleftrightarrow> is_space c"
  by (simp_all add: gap_def)

lemma tokenize_gap: "is_space c \<Longrightarrow> tokenize (c # r) = tokenize r"
  by (subst tokenize.simps(2)) simp

lemma reads_tokenize: "reads s ts \<Longrightarrow> tokenize s = Some ts"
  unfolding reads_def by (drule spec [of _ "[]"]) simp

lemma reads_append:
  assumes "reads a as" and "reads b bs" shows "reads (a @ CHR '' '' # b) (as @ bs)"
  unfolding reads_def
proof (intro allI impI)
  fix r assume "gap r"
  then have "tokenize (b @ r) = map_option ((@) bs) (tokenize r)" using assms(2) by (simp add: reads_def)
  moreover have "tokenize (a @ CHR '' '' # b @ r) = map_option ((@) as) (tokenize (CHR '' '' # b @ r))"
    using assms(1) by (simp add: reads_def)
  ultimately show "tokenize ((a @ CHR '' '' # b) @ r) = map_option ((@) (as @ bs)) (tokenize r)"
    by (cases "tokenize r") simp_all
qed

lemma append_single: "(@) [t] = (#) t"
  by auto

lemma space_not_word: "is_space c \<Longrightarrow> \<not> word_char c \<and> \<not> param_char c \<and> \<not> num_char c"
  by (auto simp: text_simps word_char_def param_char_def num_char_def)

text \<open>A token that stops before a space stops at the end of the text too.\<close>

lemma readsI:
  assumes "tokenize s = Some ts" and "\<And>c r. is_space c \<Longrightarrow> tokenize (s @ c # r) = map_option ((@) ts) (tokenize (c # r))"
  shows "reads s ts"
  unfolding reads_def
proof (intro allI impI)
  fix r assume "gap r"
  then show "tokenize (s @ r) = map_option ((@) ts) (tokenize r)" using assms by (cases r) auto
qed

lemma word_reads:
  assumes "is_ident w" shows "reads w [mk_tok TWord w]"
proof -
  from assms obtain c s where w: "w = c # s" and c: "is_alpha c \<or> c = CHR ''_''" and s: "list_all ident_char s"
    by (cases w) (auto simp: ident_start_def)
  have s': "list_all word_char s" using s by (auto simp: list_all_iff ident_char_def word_char_def)
  have n: "\<not> is_space c \<and> c \<notin> quote_chars \<and> c \<noteq> CHR ''-'' \<and> c \<noteq> CHR ''/''"
    using c underscore_not by (auto dest: alpha_not)
  have all: "takeWhile word_char s = s" "dropWhile word_char s = []" using s' by (auto simp: list_all_iff)
  show ?thesis
  proof (rule readsI)
    show "tokenize w = Some [mk_tok TWord w]"
      unfolding w using c n by (subst tokenize.simps(2)) (auto simp: all dest: starts_dashes starts_slash)
    show "tokenize (w @ x # r) = map_option ((@) [mk_tok TWord w]) (tokenize (x # r))" if "is_space x" for x r
      using tokenize_word [OF c s', of x r] space_not_word [OF that] w by (simp add: append_single)
  qed
qed

text \<open>A column name loses the final newline the pattern lets through.\<close>

definition column_word :: "string \<Rightarrow> string" where
  "column_word k = (if is_ident k then k else butlast k)"

lemma column_reads:
  assumes "ident_or_line k" shows "reads k [mk_tok TWord (column_word k)]"
proof (cases "is_ident k")
  case True
  then show ?thesis using word_reads by (simp add: column_word_def)
next
  case False
  with assms have k: "k = butlast k @ [CHR 0x0A]" "is_ident (butlast k)"
    by (auto simp: ident_or_line_def) (metis append_butlast_last_id)
  have nl: "is_space (CHR 0x0A)" by (simp add: text_simps)
  show ?thesis
    unfolding reads_def
  proof (intro allI impI)
    fix r
    have "tokenize (butlast k @ CHR 0x0A # r) = map_option ((@) [mk_tok TWord (butlast k)]) (tokenize (CHR 0x0A # r))"
      using word_reads [OF k(2)] nl by (simp add: reads_def)
    then show "tokenize (k @ r) = map_option ((@) [mk_tok TWord (column_word k)]) (tokenize r)"
      using False tokenize_gap [OF nl] by (subst k(1)) (simp add: column_word_def)
  qed
qed

lemma qmark_reads: "reads ''?'' [mk_tok TParam ''?'']"
proof (rule readsI)
  show "tokenize ''?'' = Some [mk_tok TParam ''?'']" by code_simp
  show "tokenize (''?'' @ x # r) = map_option ((@) [mk_tok TParam ''?'']) (tokenize (x # r))" if "is_space x" for x r
    using tokenize_param [of "CHR ''?''" "[]" x r] space_not_word [OF that]
    by (simp add: append_single del: append.simps)
qed

lemma punct_reads:
  assumes "plain_punct p" and "tokenize [p] = Some [mk_tok TPunct [p]]" and "p \<notin> {CHR ''-'', CHR ''/''}"
  shows "reads [p] [mk_tok TPunct [p]]"
proof (rule readsI)
  show "tokenize ([p] @ x # r) = map_option ((@) [mk_tok TPunct [p]]) (tokenize (x # r))" if "is_space x" for x r
  proof -
    have "[p, x] \<notin> set two_char_punct" using that by (auto simp: two_char_punct_def text_simps)
    then show ?thesis using tokenize_punct [OF assms(1), of x r] assms(3) by (simp add: append_single)
  qed
qed (rule assms(2))

lemma star_reads: "reads ''*'' [mk_tok TPunct ''*'']"
  by (rule punct_reads) (code_simp, code_simp, simp)

lemma equals_reads: "reads ''='' [mk_tok TPunct ''='']"
  by (rule punct_reads) (code_simp, code_simp, simp)

abbreviation word_tok :: "string \<Rightarrow> tok" where
  "word_tok w \<equiv> mk_tok TWord w"

abbreviation qmark_tok :: tok where
  "qmark_tok \<equiv> mk_tok TParam ''?''"

definition relation_tok :: "string \<Rightarrow> tok" where
  "relation_tok rel = (if rel = ''='' then mk_tok TPunct ''='' else word_tok rel)"

definition test_toks :: "string \<Rightarrow> string \<Rightarrow> tok list" where
  "test_toks rel k = [word_tok (column_word k), relation_tok rel, qmark_tok]"

fun joined_toks :: "tok list list \<Rightarrow> tok list" where
  "joined_toks [] = []"
| "joined_toks [ts] = ts"
| "joined_toks (ts # us # rest) = ts @ word_tok ''AND'' # joined_toks (us # rest)"

lemma test_reads:
  assumes "ident_or_line k" and "rel \<in> {''='', ''IS''}"
  shows "reads (column_test rel k) (test_toks rel k)"
proof -
  have rel: "reads rel [relation_tok rel]"
    using assms(2) equals_reads word_reads [of "''IS''"] by (auto simp: relation_tok_def text_simps)
  have "reads (k @ CHR '' '' # rel @ CHR '' '' # ''?'')
      ([mk_tok TWord (column_word k)] @ [relation_tok rel] @ [qmark_tok])"
    by (rule reads_append [OF column_reads [OF assms(1)] reads_append [OF rel qmark_reads]])
  then show ?thesis by (simp add: column_test_def test_toks_def)
qed

lemma joined_reads:
  assumes "ks \<noteq> []" and "\<forall>k \<in> set ks. ident_or_line k" and "rel \<in> {''='', ''IS''}"
  shows "reads (str_join '' AND '' (map (column_test rel) ks)) (joined_toks (map (test_toks rel) ks))"
  using assms
proof (induction ks rule: induct_list012)
  case (3 k l ks)
  have a: "reads ''AND'' [word_tok ''AND'']" by (rule word_reads) (simp add: text_simps)
  have "reads (column_test rel k @ CHR '' '' # ''AND'' @ CHR '' '' # str_join '' AND '' (map (column_test rel) (l # ks)))
      (test_toks rel k @ [word_tok ''AND''] @ joined_toks (map (test_toks rel) (l # ks)))"
    by (rule reads_append [OF test_reads reads_append [OF a "3.IH"(2)]]) (use 3 in auto)
  then show ?case by simp
qed (use test_reads in auto)

definition select_toks :: "string \<Rightarrow> tok list \<Rightarrow> tok list" where
  "select_toks t conds = [word_tok ''SELECT'', mk_tok TPunct ''*'', word_tok ''FROM'', word_tok t, word_tok ''WHERE''] @ conds"

lemma select_reads:
  assumes "is_ident t" and "ks \<noteq> []" and "\<forall>k \<in> set ks. ident_or_line k" and "rel \<in> {''='', ''IS''}"
  shows "reads (select_where t (map (column_test rel) ks)) (select_toks t (joined_toks (map (test_toks rel) ks)))"
proof -
  have words: "reads w [word_tok w]" if "w \<in> {''SELECT'', ''FROM'', ''WHERE''}" for w
    using that by (intro word_reads) (auto simp: text_simps)
  have "reads (''SELECT'' @ CHR '' '' # ''*'' @ CHR '' '' # ''FROM'' @ CHR '' '' # t @ CHR '' '' # ''WHERE'' @ CHR '' '' #
        str_join '' AND '' (map (column_test rel) ks))
      ([word_tok ''SELECT''] @ [mk_tok TPunct ''*''] @ [word_tok ''FROM''] @ [word_tok t] @ [word_tok ''WHERE''] @
        joined_toks (map (test_toks rel) ks))"
    by (intro reads_append words star_reads word_reads [OF assms(1)] joined_reads assms) simp_all
  then show ?thesis by (simp add: select_where_def select_toks_def)
qed

lemma five_reads: "reads ''5'' [mk_tok TNum ''5'']"
proof (rule readsI)
  show "tokenize ''5'' = Some [mk_tok TNum ''5'']" by code_simp
  show "tokenize (''5'' @ x # r) = map_option ((@) [mk_tok TNum ''5'']) (tokenize (x # r))" if "is_space x" for x r
    using tokenize_num [of "CHR ''5''" "[]" x r] space_not_word [OF that] by (simp add: append_single text_simps)
qed

lemma limited_reads:
  assumes "reads q ts" shows "reads (q @ '' LIMIT 5'') (ts @ [word_tok ''LIMIT'', mk_tok TNum ''5''])"
proof -
  have "reads ''LIMIT'' [word_tok ''LIMIT'']" by (rule word_reads) (simp add: text_simps)
  then have "reads (q @ CHR '' '' # ''LIMIT'' @ CHR '' '' # ''5'') (ts @ [word_tok ''LIMIT''] @ [mk_tok TNum ''5''])"
    by (intro reads_append assms five_reads)
  then show ?thesis by simp
qed

lemma split_plain:
  assumes "\<forall>t \<in> set ts. \<not> is_punct '';'' t"
  shows "sp_stmts (fold split_step ts st) = sp_stmts st \<and> sp_cur (fold split_step ts st) = sp_cur st @ ts"
  using assms
proof (induction ts arbitrary: st)
  case (Cons t ts)
  then have "sp_stmts (split_step t st) = sp_stmts st" "sp_cur (split_step t st) = sp_cur st @ [t]"
    by (auto simp: split_step_def Let_def)
  with Cons show ?case by simp
qed simp

lemma select_tokens_only:
  assumes "tokenize q = Some (word_tok ''SELECT'' # ts)" and "\<forall>t \<in> set ts. \<not> is_punct '';'' t"
    and "\<forall>t \<in> set ts. upper_tok (Some t) \<noteq> ''RETURNING''"
  shows "is_select_only q"
proof -
  let ?ts = "word_tok ''SELECT'' # ts"
  have sel: "upper_tok (Some (word_tok ''SELECT'')) = ''SELECT''" by code_simp
  have "\<forall>t \<in> set ?ts. \<not> is_punct '';'' t" using assms(2) by (simp add: is_punct_def)
  from split_plain [OF this, of split_init] have "split_statements ?ts = [?ts]"
    by (simp add: split_statements_def Let_def split_init_def)
  then have "classify_statement q = mk_class Read ''SELECT''"
    using assms(1) sel by (simp add: classify_statement_def classify_tokens_def classify_single_def classify_main_def Let_def)
  then show ?thesis using assms(1,3) sel by (simp add: is_select_only_def)
qed

lemma joined_toks_all: "set (joined_toks tss) \<subseteq> insert (word_tok ''AND'') (\<Union>ts \<in> set tss. set ts)"
  by (induction tss rule: joined_toks.induct) auto

definition not_returning :: "string \<Rightarrow> bool" where
  "not_returning k \<longleftrightarrow> str_upper (column_word k) \<noteq> ''RETURNING''"

lemma select_where_only:
  assumes "is_ident t" and "str_upper t \<noteq> ''RETURNING''" and "ks \<noteq> []" and "\<forall>k \<in> set ks. ident_or_line k \<and> not_returning k"
    and "rel \<in> {''='', ''IS''}" and "end_toks \<in> {[], [word_tok ''LIMIT'', mk_tok TNum ''5'']}"
    and "reads q (select_toks t (joined_toks (map (test_toks rel) ks)) @ end_toks)"
  shows "is_select_only q"
proof -
  let ?rest = "[mk_tok TPunct ''*'', word_tok ''FROM'', word_tok t, word_tok ''WHERE''] @ joined_toks (map (test_toks rel) ks) @ end_toks"
  have tok: "tokenize q = Some (word_tok ''SELECT'' # ?rest)"
    using reads_tokenize [OF assms(7)] by (simp add: select_toks_def)
  have fixed: "upper_tok (Some x) \<noteq> ''RETURNING'' \<and> \<not> is_punct '';'' x"
    if "x \<in> {mk_tok TPunct ''*'', word_tok ''FROM'', word_tok ''WHERE'', word_tok ''AND'', word_tok ''IS'',
        mk_tok TPunct ''='', qmark_tok, word_tok ''LIMIT'', mk_tok TNum ''5''}" for x
    using that by (elim insertE; simp; code_simp)
  have tests: "upper_tok (Some x) \<noteq> ''RETURNING'' \<and> \<not> is_punct '';'' x"
    if "k \<in> set ks" "x \<in> set (test_toks rel k)" for k x
  proof -
    have "x = word_tok (column_word k) \<or> x \<in> {word_tok ''IS'', mk_tok TPunct ''='', qmark_tok}"
      using that(2) assms(5) by (auto simp: test_toks_def relation_tok_def)
    then show ?thesis using assms(4) that(1) fixed [of x] by (auto simp: upper_tok_def is_punct_def not_returning_def)
  qed
  have "upper_tok (Some x) \<noteq> ''RETURNING'' \<and> \<not> is_punct '';'' x" if "x \<in> set ?rest" for x
  proof -
    from that joined_toks_all [of "map (test_toks rel) ks"] assms(6)
    consider "x = word_tok t" | k where "k \<in> set ks" "x \<in> set (test_toks rel k)"
      | "x \<in> {mk_tok TPunct ''*'', word_tok ''FROM'', word_tok ''WHERE'', word_tok ''AND'', word_tok ''IS'',
          mk_tok TPunct ''='', qmark_tok, word_tok ''LIMIT'', mk_tok TNum ''5''}"
      by auto
    then show ?thesis
      using tests fixed assms(2) by cases (auto simp: upper_tok_def is_punct_def)
  qed
  then show ?thesis by (intro select_tokens_only [OF tok]) blast+
qed

lemma request_fields:
  "json_get ''keys'' (rec_fields (request_rec r i)) = rq_keys r"
  "json_get ''target'' (rec_fields (request_rec r i)) = rq_target r"
  "json_get ''sql'' (rec_fields (request_rec r i)) = JStr (rq_sql r)"
  "json_get ''post_state'' (rec_fields (request_rec r i)) = rq_post r"
  "json_get ''sent_at'' (rec_fields (request_rec r i)) = rq_sent r"
  by (simp_all add: request_rec_def intent_rec_def rec_fields_def json_get_def)

text \<open>The two shapes of a query, with what they bind.\<close>

lemma query_cases:
  assumes "evidence_query rec = Query q ps"
  obtains (keys) t ks where "json_get ''target'' (rec_fields rec) = JStr t" "map_of primary_keys t \<noteq> None"
      "json_get ''keys'' (rec_fields rec) = JObj ks" "ks \<noteq> []" "list_all (ident_or_line \<circ> fst) ks"
      "q = select_where t (map (column_test ''='') (map fst ks))" "ps = map snd ks"
  | (post) t d cols where "json_get ''target'' (rec_fields rec) = JStr t" "map_of primary_keys t \<noteq> None"
      "json_get ''post_state'' (rec_fields rec) = JObj d" "cols \<noteq> []"
      "cols = filter (\<lambda>cv. ident_or_line (fst cv) \<and> bindable (snd cv)) d"
      "q = select_where t (map (column_test ''IS'') (map fst cols)) @ '' LIMIT 5''" "ps = map snd cols"
      "\<not> json_true (json_get ''keys'' (rec_fields rec)) \<or> (\<exists>ks. json_get ''keys'' (rec_fields rec) = JObj ks \<and> \<not> list_all (ident_or_line \<circ> fst) ks)
        \<or> (\<nexists>ks. json_get ''keys'' (rec_fields rec) = JObj ks)"
proof -
  let ?d = "rec_fields rec"
  obtain t where t: "json_get ''target'' ?d = JStr t" "map_of primary_keys t \<noteq> None"
    using assms by (auto simp: evidence_query_def Let_def split: json.splits if_splits)
  have post: thesis
    if "insert_query t (json_get ''sql'' ?d) (json_get ''post_state'' ?d) = Query q ps"
      "\<not> json_true (json_get ''keys'' ?d) \<or> (\<exists>ks. json_get ''keys'' ?d = JObj ks \<and> \<not> list_all (ident_or_line \<circ> fst) ks)
        \<or> (\<nexists>ks. json_get ''keys'' ?d = JObj ks)"
    using that(1) by (auto simp: insert_query_def Let_def no_derivation_def comp_def split: if_splits json.splits
        intro!: post [OF t _ _ _ _ _ that(2)])
  show thesis
  proof (cases "json_true (json_get ''keys'' ?d)")
    case False
    then show ?thesis using assms t post by (auto simp: evidence_query_def Let_def)
  next
    case True
    show ?thesis
    proof (cases "\<exists>ks. json_get ''keys'' ?d = JObj ks \<and> list_all (ident_or_line \<circ> fst) ks")
      case ok: True
      then show ?thesis using keys [OF t] assms t True
        by (auto simp: evidence_query_def Let_def json_true_def comp_def)
    next
      case bad: False
      then show ?thesis using assms t True post
        by (auto simp: evidence_query_def Let_def split: json.splits if_splits)
    qed
  qed
qed

lemma joined_qmarks: "length (filter is_qmark (joined_toks (map (test_toks rel) ks))) = length ks"
proof (induction ks rule: induct_list012)
  case (3 k l ks)
  then show ?case by (simp add: test_toks_def is_qmark_def relation_tok_def)
qed (simp_all add: test_toks_def is_qmark_def relation_tok_def)

text \<open>A query text made of column tests is one SELECT with as many markers as columns.\<close>

lemma tests_are_select:
  assumes "map_of primary_keys t \<noteq> None" and "ks \<noteq> []" and "\<forall>k \<in> set ks. ident_or_line k \<and> not_returning k"
    and rel: "rel \<in> {''='', ''IS''}" and q: "q = select_where t (map (column_test rel) ks) @ bound" "bound \<in> {'''', '' LIMIT 5''}"
  shows "is_select_only q \<and> (\<exists>toks. tokenize q = Some toks \<and> length (filter is_qmark toks) = length ks)"
proof -
  have t: "is_ident t" "str_upper t \<noteq> ''RETURNING''"
    using assms(1) by (auto simp: primary_keys_def split: if_splits) (code_simp+)
  have sel: "reads (select_where t (map (column_test rel) ks)) (select_toks t (joined_toks (map (test_toks rel) ks)))"
    using select_reads [OF t(1) assms(2) _ rel] assms(3) by blast
  obtain end_toks where e: "end_toks \<in> {[], [word_tok ''LIMIT'', mk_tok TNum ''5'']}"
    and r: "reads q (select_toks t (joined_toks (map (test_toks rel) ks)) @ end_toks)"
    using q sel limited_reads [OF sel] by fastforce
  have "length (filter is_qmark (select_toks t (joined_toks (map (test_toks rel) ks)) @ end_toks)) = length ks"
    using joined_qmarks [of rel ks] e by (auto simp: select_toks_def is_qmark_def)
  then show ?thesis
    using select_where_only [OF t assms(2,3) rel e r] reads_tokenize [OF r] by blast
qed

lemma primary_key_columns: "map_of primary_keys t = Some ks \<Longrightarrow> k \<in> set ks \<Longrightarrow> ident_or_line k \<and> not_returning k"
  by (auto simp: primary_keys_def split: if_splits) (code_simp+)

lemma opt_obj_JObj [simp]: "opt_obj x = JObj d \<longleftrightarrow> x = Some d"
  by (cases x) (simp_all add: opt_obj_def)

lemma derived_values:
  assumes "derive_effect sql params = (target, keys, post)"
  shows "(\<forall>ks. keys = Some ks \<longrightarrow> (\<exists>t. map_of primary_keys t = Some (map fst ks)) \<and> snd ` set ks \<subseteq> set params) \<and>
    (\<forall>p. post = Some p \<longrightarrow> snd ` set p \<subseteq> set params)"
  using assms
proof (cases rule: derive_effect_cases)
  case (mutation toks)
  from effect_values [OF mutation(2)] show ?thesis by blast
qed simp

lemma derived_keys_usable:
  assumes "map_of primary_keys t = Some (map fst ks)"
  shows "list_all (ident_or_line \<circ> fst) ks \<and> ks \<noteq> []"
proof
  show "list_all (ident_or_line \<circ> fst) ks" using primary_key_columns [OF assms] by (auto simp: list_all_iff)
  show "ks \<noteq> []" using assms by (auto simp: primary_keys_def split: if_splits)
qed

text \<open>C4: the read-back of an intent is a single SELECT that the SELECT-only reader runs: the query derived from
  a record of the write path has one marker per bound value, every value comes from the parameters of the
  recorded statement, and no column of it can turn it into a mutation (for an INSERT read back by its written
  values, as long as no column of the statement is called RETURNING).\<close>

theorem evidence_is_one_select:
  assumes "evidence_query (request_rec (request_of digest now sql params) iid) = Query q ps"
    and "\<And>target post. derive_effect sql params = (target, None, Some post) \<Longrightarrow> \<forall>c \<in> fst ` set post. not_returning c"
  shows "is_select_only q \<and> set ps \<subseteq> set params \<and>
    (\<exists>toks. tokenize q = Some toks \<and> length (filter is_qmark toks) = length ps)"
proof -
  obtain target' keys post' where e: "derive_effect sql params = (target', keys, post')" by (metis prod_cases3)
  have rq: "rq_keys (request_of digest now sql params) = opt_obj keys" "rq_post (request_of digest now sql params) = opt_obj post'"
    by (simp_all add: request_of_def e Let_def)
  note vals = derived_values [OF e]
  from assms(1) show ?thesis
  proof (cases rule: query_cases)
    case (keys t ks)
    from keys(3) have k: "keys = Some ks" by (simp add: request_fields rq)
    from vals k obtain t' where t': "map_of primary_keys t' = Some (map fst ks)" by blast
    have "\<forall>c \<in> set (map fst ks). ident_or_line c \<and> not_returning c"
      by (intro ballI primary_key_columns [OF t'])
    from tests_are_select [OF keys(2) _ this, of "''=''" q "''''"] keys(4,6,7) k vals show ?thesis by simp
  next
    case (post t d cols)
    from post(3) have p: "post' = Some d" by (simp add: request_fields rq)
    have none: "keys = None"
    proof (rule ccontr)
      assume "keys \<noteq> None"
      then obtain ks t' where ks: "keys = Some ks" "map_of primary_keys t' = Some (map fst ks)" using vals by blast
      have "json_get ''keys'' (rec_fields (request_rec (request_of digest now sql params) iid)) = JObj ks"
        using ks(1) by (simp add: request_fields rq)
      then show False using derived_keys_usable [OF ks(2)] post(8) by (simp add: json_true_def)
    qed
    have "\<forall>c \<in> set (map fst cols). ident_or_line c \<and> not_returning c"
      using assms(2) e none p unfolding post(5) by auto
    moreover have "set ps \<subseteq> set params" using vals p unfolding post(5,7) by auto
    ultimately show ?thesis
      using tests_are_select [OF post(2), of "map fst cols" "''IS''" q "'' LIMIT 5''"] post(4,6,7) by simp
  qed
qed

theorem evidence_is_one_select_witness:
  "is_select_only ''SELECT * FROM memories WHERE id = ?'' \<and> set [JInt 7] \<subseteq> set [JInt 7]"
proof -
  let ?sql = "''DELETE FROM memories WHERE id = ?''"
  have e: "derive_effect ?sql [JInt 7] = (Some ''memories'', Some [(''id'', JInt 7)], None)" by code_simp
  have "evidence_query (request_rec (request_of (\<lambda>_. ''d'') (JInt 0) ?sql [JInt 7]) 1)
      = Query ''SELECT * FROM memories WHERE id = ?'' [JInt 7]"
    by code_simp
  from evidence_is_one_select [OF this] show ?thesis by (simp add: e)
qed

section \<open>What is gathered\<close>

lemma evidence_loop_spec:
  assumes "evidence_loop token http now recs out = Some out'"
    and "distinct (map (\<lambda>r. pyint (json_get ''id'' (rec_fields r))) recs)"
  shows "map_of out' i =
    (case find (\<lambda>r. pyint (json_get ''id'' (rec_fields r)) = i) recs of
       None \<Rightarrow> map_of out i | Some r \<Rightarrow> evidence_of token (http i) now r)"
  using assms
proof (induction recs arbitrary: out)
  case (Cons r recs)
  let ?i = "pyint (json_get ''id'' (rec_fields r))"
  from Cons.prems obtain ev where ev: "evidence_of token (http ?i) now r = Some ev"
    and rest: "evidence_loop token http now recs (dict_set ?i ev out) = Some out'"
    by (auto simp: Let_def split: option.splits)
  have none: "find (\<lambda>r. pyint (json_get ''id'' (rec_fields r)) = ?i) recs = None"
    using Cons.prems(2) by (auto simp: find_None_iff) (metis image_eqI)
  from Cons.IH [OF rest] Cons.prems(2) none ev show ?case by (cases "?i = i") (auto split: option.splits)
qed simp

lemma find_map_of:
  assumes "\<forall>(k, v) \<in> set d. f v = k" and "dict_wf d"
  shows "find (\<lambda>v. f v = i) (map snd d) = map_of d i"
  using assms by (induction d) auto

lemma gather_spec:
  assumes "mem_ok (j_mem j)" and "gather_evidence token http now j = Some (out, j')"
  shows "map_of out i = Option.bind (map_of (m_open (j_mem j)) i) (evidence_of token (http i) now) \<and>
    j' = j\<lparr>j_evidence := out\<rparr>"
proof -
  let ?id = "\<lambda>r. pyint (json_get ''id'' (rec_fields r))" and ?open = "m_open (j_mem j)"
  have wf: "dict_wf ?open" using assms(1) by (simp add: mem_ok_def)
  have ids: "\<forall>(k, r) \<in> set ?open. ?id r = k"
    using assms(1) wf by (auto simp: mem_ok_def intent_for_def pyint_def)
  have "map ?id (map snd ?open) = map fst ?open"
    unfolding map_map by (rule map_cong [OF refl]) (use ids in auto)
  with wf have d: "distinct (map ?id (map snd ?open))" by metis
  from assms(2) have loop: "evidence_loop token http now (map snd ?open) [] = Some out" and j': "j' = j\<lparr>j_evidence := out\<rparr>"
    by (auto simp: gather_evidence_def)
  show ?thesis
    using evidence_loop_spec [OF loop d, of i] j' unfolding find_map_of [OF ids wf]
    by (simp split: option.splits)
qed

lemma read_attempts_five:
  assumes "\<forall>k < n + m. a k = b k"
  shows "read_attempts a sql ps n m got = read_attempts b sql ps n m got"
  using assms
proof (induction m arbitrary: n got)
  case (Suc m)
  then have "a n = b n" "\<forall>k < Suc n + m. a k = b k" by simp_all
  with Suc.IH [of "Suc n"] show ?case by (simp split: sum.splits option.splits bool.splits)
qed simp

lemma history_mem_ok: "journal_history P jd \<Longrightarrow> j_lock (fst jd) \<Longrightarrow> mem_ok (j_mem (fst jd))"
  using history_inv [of P jd] by (simp add: journal_inv_def Let_def)

text \<open>the evidence of a store is about its open intents and nothing else: every open intent gets the evidence
  of its own record and of nothing else, an intent sent less than a minute ago is never read back whatever D1
  would answer, and a read-back depends on at most five answers of D1.\<close>

theorem gathered_evidence_exact:
  assumes "journal_history P jd" and "j_lock (fst jd)" and "gather_evidence token http now (fst jd) = Some (out, j')"
  shows "map_of out i = Option.bind (map_of (m_open (j_mem (fst jd))) i) (evidence_of token (http i) now) \<and>
    j' = (fst jd)\<lparr>j_evidence := out\<rparr> \<and>
    ((\<forall>k < 5. http i k = http' i k) \<or>
       (\<exists>r t. map_of (m_open (j_mem (fst jd))) i = Some r \<and> json_get ''sent_at'' (rec_fields r) = JFloat t \<and> t \<noteq> 0 \<and> now - t < 60)
     \<longrightarrow> map_of out i = Option.bind (map_of (m_open (j_mem (fst jd))) i) (evidence_of token (http' i) now))"
proof -
  have spec: "map_of out i = Option.bind (map_of (m_open (j_mem (fst jd))) i) (evidence_of token (http i) now) \<and>
      j' = (fst jd)\<lparr>j_evidence := out\<rparr>"
    using gather_spec [OF history_mem_ok [OF assms(1,2)] assms(3)] .
  have five: "evidence_of token (http i) now r = evidence_of token (http' i) now r" if "\<forall>k < 5. http i k = http' i k" for r
    using that read_attempts_five [of 0 5 "http i" "http' i"]
    by (simp add: evidence_of_def read_evidence_def primary_retries_def Let_def split: option.splits read_query.splits)
  have young: "evidence_of token (http i) now r = evidence_of token (http' i) now r"
    if "json_get ''sent_at'' (rec_fields r) = JFloat t" "t \<noteq> 0" "now - t < 60" for r t
    using that by (simp add: evidence_of_def json_true_def json_float_def reconcile_min_age_def)
  show ?thesis
    using spec five young by (cases "map_of (m_open (j_mem (fst jd))) i") auto
qed

section \<open>What acceptance does to the journal\<close>

lemma resolve_durable:
  assumes "resolve io iid rec True j d = (True, j', d')"
  shows "j_fd j \<and> unusable j = None \<and> iid \<in> dom (map_of (m_open (j_mem j))) \<and> j' = drop_intent iid j \<and>
    d' = disk_sync (disk_append rec d)"
  using assms by (auto simp: resolve_def Let_def split: if_splits write_out.splits)

lemma reopened:
  assumes inv: "journal_inv P (j, d)" and crash: "journal_crash (j, d) jd1"
    and opened: "open_journal io (fst jd1) (snd jd1) = (j2, d2)" and lock: "j_lock j2"
  shows "P \<subseteq> set (fst (journal_status j2)) \<and> j_mem j2 = rep (dk_lines (snd jd1))"
proof -
  have inv1: "journal_inv P jd1" using crash_step_inv [OF inv crash] .
  then have "journal_inv P (j2, d2)" using open_inv opened by (metis prod.collapse)
  then have ids: "P \<subseteq> set (fst (journal_status j2))"
    using journal_log.open_in_service [of P "(j2, d2)"] lock by (simp add: journal_in_service_def journal_open_ids_def)
  have j1: "fst jd1 = new_journal" using crash by (simp add: journal_crash_def)
  have good: "good_lines (dk_lines (snd jd1))"
    using inv1 survivor_full by (fastforce simp: journal_inv_def Let_def content_ok_def)
  have "j_mem j2 = rep (dk_lines (snd jd1))"
    using opened lock replay_rep [OF good]
    by (auto simp: open_journal_def new_journal_def Let_def j1 split: if_splits)
  with ids show ?thesis by simp
qed

lemma accepted_stays_closed:
  assumes inv: "journal_inv P (j, d)" and res: "resolve rio iid rec True j d = (True, j', d')"
    and rec: "resolution_for iid rec" and crash: "journal_crash (j', d') jd1"
    and opened: "open_journal oio (fst jd1) (snd jd1) = (j2, d2)" and lock: "j_lock j2"
  shows "iid \<notin> set (fst (journal_status j2)) \<and> P - {iid} \<subseteq> set (fst (journal_status j2))"
proof -
  note r = resolve_durable [OF res]
  have alt: "dk_alt d = None" using opened_of_lock [OF inv] r by simp
  have inv': "journal_inv (P - {iid}) (j', d')" using resolve_inv [OF inv rec, of rio True] res by simp
  note mem = reopened [OF inv' crash opened lock]
  have "dk_lines (snd jd1) = dk_lines d @ [Some rec]"
    using crash alt r by (auto simp: journal_crash_def survives_def disk_sync_def disk_append_def)
  then have "iid \<notin> dom (map_of (m_open (j_mem j2)))"
    using mem by (simp add: rep_snoc apply_resolution [OF rec])
  then have "iid \<notin> set (fst (journal_status j2))"
    by (simp add: journal_status_def dom_map_of_conv_image_fst)
  with mem show ?thesis by simp
qed

lemma accept_extra_keys: "accept_checks env store name iid body = Inr extra \<Longrightarrow>
    {''type'', ''id'', ''outcome''} \<inter> fst ` set extra = {}"
  by (auto simp: accept_checks_def load_receipt_def split: store_lookup.splits json.splits sum.splits if_splits option.splits)

lemma checks_error: "accept_checks env D1Store name iid body = Inl e \<Longrightarrow> fst e \<noteq> 200"
  by (auto simp: accept_checks_def load_receipt_def split: json.splits sum.splits if_splits option.splits)

lemma accept_200:
  assumes "accept_intent env D1Store name iid body (j, d) = Some ((200, m), j', d')"
  obtains extra out j1 cur where "accept_checks env D1Store name iid body = Inr extra"
    "gather_evidence (ae_token env) (ae_http env) (ae_now env) j = Some (out, j1)"
    "map_of out iid = Some cur" "\<not> unusable_evidence cur" "ab_digest body = JStr (evidence_sha256 (ae_sha env) cur)"
    "resolve (ae_resolve env) iid (resolved_rec iid ''operator-accepted'' (ae_time env)
        (extra @ [(''evidence_sha256'', ab_digest body)])) True j1 d = (True, j', d')"
proof -
  obtain extra where c: "accept_checks env D1Store name iid body = Inr extra"
    using assms checks_error [of env name iid body] by (cases "accept_checks env D1Store name iid body") (auto simp: accept_intent_def)
  with assms show thesis
    by (auto simp: accept_intent_def Let_def intro!: that prod_eqI split: if_splits option.splits prod.splits)
qed


definition ex_env :: accept_env where
  "ex_env = \<lparr>ae_sha = (\<lambda>v. case evidence_content v of JObj d \<Rightarrow> nat_text (length d) | _ \<Rightarrow> ''''),
     ae_files = (\<lambda>p. Some (p, ''aa'', JObj [(''db'', JStr ''alpha''), (''verified_at'', JInt 1)])),
     ae_token = True, ae_http = (\<lambda>_ _. PostRaises (''OSError'', ''down'')), ae_now = 100,
     ae_resolve = aio_resolve lost_reply, ae_time = JInt 0\<rparr>"

definition ex_seen :: "journal \<times> jdisk" where
  "ex_seen = (ex_journal\<lparr>j_evidence := [(1, JNull)]\<rparr>, ex_disk)"

definition ex_body :: accept_body where
  "ex_body = \<lparr>ab_receipt = JStr ''r.json'', ab_operator = JStr ''ann'', ab_intent_id = JInt 1,
     ab_decision = JStr ''applied'', ab_digest = JStr ''2''\<rparr>"

definition ex_accepted :: "((nat \<times> string) \<times> journal \<times> jdisk) option" where
  "ex_accepted = accept_intent ex_env D1Store ''alpha'' 1 ex_body ex_seen"

lemma ex_seen_history: "journal_history {1} ex_seen"
proof -
  have "log_request (good_append, \<lparr>rq_sql = ''DELETE FROM t'', rq_digest = ''digest'', rq_target = JStr ''t'',
      rq_keys = JNull, rq_post = JNull, rq_sent = JInt 0\<rparr>, JInt 0) ex_log = (Some 1, (ex_journal, ex_disk))"
    by code_simp
  from history_log [OF ex_log_history this] have "journal_history {1} (ex_journal, ex_disk)" by simp
  then show ?thesis unfolding ex_seen_def by (rule history_background) (rule journal_background.gather)
qed

lemma ex_accepted_ok: "map_option fst ex_accepted = Some (200, ''operator-accepted'')"
  by code_simp

definition ex_after :: "journal \<times> jdisk" where
  "ex_after = (case ex_accepted of Some (_, jd) \<Rightarrow> jd | None \<Rightarrow> ex_seen)"

definition ex_reopened :: "journal \<times> jdisk" where
  "ex_reopened = open_journal good_open new_journal (snd ex_after)"


theorem gathered_evidence_exact_witness:
  "map_option (\<lambda>(out, _). map_of out 1) (gather_evidence True (\<lambda>_ _. PostRaises (''OSError'', ''down'')) 100 (fst ex_seen)) =
   Some (Some (JObj [(''status'', JStr ''waiting''), (''eligible_in_s'', JFloat 60)]))"
proof -
  let ?http = "\<lambda>(_ :: int) (_ :: nat). PostRaises (''OSError'', ''down'')"
  have "gather_evidence True ?http 100 (fst ex_seen) \<noteq> None" by code_simp
  then obtain out j' where g: "gather_evidence True ?http 100 (fst ex_seen) = Some (out, j')" by auto
  have lock: "j_lock (fst ex_seen)" by code_simp
  have ev: "Option.bind (map_of (m_open (j_mem (fst ex_seen))) 1) (evidence_of True (?http 1) 100)
      = Some (JObj [(''status'', JStr ''waiting''), (''eligible_in_s'', JFloat 60)])"
    by code_simp
  from gathered_evidence_exact [OF ex_seen_history lock g, of 1 ?http] show ?thesis by (simp add: g ev)
qed

end
