(* ===== verification/Db_Registry.thy ===== *)
theory Db_Registry
  imports Memora_Prelude
begin

text \<open>
  The named databases of one process: credentials from files (\<open>memora/secret_files.py\<close>), storage URIs
  (\<open>parse_backend_uri\<close> of \<open>memora/backends.py\<close>), the registry \<open>MEMORA_DATABASES\<close> with its default, and the
  cache of backend objects (\<open>memora/storage.py\<close>).  The environment, the answers of \<open>lstat\<close> and \<open>open\<close>, and
  \<open>json.loads\<close> (which here keeps duplicate names, as the pairs its hook is given) are arguments.  Messages of
  exceptions are not modelled, their classes are.
\<close>

section \<open>The environment\<close>

datatype path_stat = LstatFails | Symlink | NotRegular | RegularFile nat

record process_env =
  pe_var :: "string \<Rightarrow> string option"
  pe_lstat :: "string \<Rightarrow> path_stat"
  pe_file :: "string \<Rightarrow> string option"
  pe_cloud :: bool

text \<open>\<open>os.getenv(v, "")\<close>.\<close>

definition getenv :: "process_env \<Rightarrow> string \<Rightarrow> string" where
  "getenv env v = (case pe_var env v of None \<Rightarrow> '''' | Some s \<Rightarrow> s)"

datatype config_error =
    SecretFileError
  | DatabaseRegistryError
  | ConfigValueError
  | CloudImportError
  | DataVolumeRefused string

section \<open>Credentials\<close>

text \<open>\<open>stat.S_IMODE(st.st_mode) & 0o077\<close>: the low six bits of the mode.\<close>

definition read_secret_file :: "process_env \<Rightarrow> string \<Rightarrow> config_error + string" where
  "read_secret_file env path =
     (if \<not> starts_with ''/'' path then Inl SecretFileError
      else (case pe_lstat env path of
          RegularFile mode \<Rightarrow>
            (if mode mod 64 \<noteq> 0 then Inl SecretFileError
             else (case pe_file env path of
                 None \<Rightarrow> Inl SecretFileError
               | Some text \<Rightarrow> if str_strip text = '''' then Inl SecretFileError else Inr (str_strip text)))
        | _ \<Rightarrow> Inl SecretFileError))"

definition secret_aliases :: "string \<Rightarrow> string list" where
  "secret_aliases v = (if v = ''CLOUDFLARE_API_TOKEN'' then [''CF_API_TOKEN''] else [])"

definition secret :: "process_env \<Rightarrow> string \<Rightarrow> config_error + string" where
  "secret env v =
     (let path = getenv env (v @ ''_FILE'') in
      if path = '''' then Inr (str_strip (getenv env v))
      else if list_ex (\<lambda>a. getenv env a \<noteq> '''') (v # secret_aliases v) then Inl SecretFileError
      else read_secret_file env path)"

section \<open>Storage URIs\<close>

datatype backend_kind =
    LocalSqlite string
  | CloudSqlite string string "string option" bool bool
  | D1 string string string

text \<open>\<open>s.split("/", 1)\<close> when it has two parts.\<close>

definition split_once :: "char \<Rightarrow> string \<Rightarrow> (string \<times> string) option" where
  "split_once c s = (if c \<in> set s then Some (takeWhile ((\<noteq>) c) s, tl (dropWhile ((\<noteq>) c) s)) else None)"

definition env_flag :: "process_env \<Rightarrow> string \<Rightarrow> bool" where
  "env_flag env v \<longleftrightarrow> str_lower (getenv env v) \<in> set [''1'', ''true'', ''yes'']"

definition parse_backend_uri :: "process_env \<Rightarrow> string \<Rightarrow> config_error + backend_kind" where
  "parse_backend_uri env uri =
     (if starts_with ''d1://'' uri then
        (case split_once (CHR ''/'') (drop 5 uri) of
           None \<Rightarrow> Inl ConfigValueError
         | Some (account, database) \<Rightarrow>
             (case secret env ''CLOUDFLARE_API_TOKEN'' of
                Inl e \<Rightarrow> Inl e
              | Inr tok \<Rightarrow>
                  (let api = (if tok \<noteq> '''' then tok else getenv env ''CF_API_TOKEN'') in
                   if api = '''' then Inl ConfigValueError else Inr (D1 account database api))))
      else if starts_with ''s3://'' uri then
        (if \<not> pe_cloud env then Inl CloudImportError
         else (case split_once (CHR ''/'') (drop 5 uri) of
             None \<Rightarrow> Inl ConfigValueError
           | Some (bucket, key) \<Rightarrow>
               Inr (CloudSqlite bucket key
                      (if getenv env ''MEMORA_CACHE_DIR'' = '''' then None else Some (getenv env ''MEMORA_CACHE_DIR''))
                      (env_flag env ''MEMORA_CLOUD_ENCRYPT'') (env_flag env ''MEMORA_CLOUD_COMPRESS''))))
      else if starts_with ''file://'' uri then Inr (LocalSqlite (drop 7 uri))
      else Inr (LocalSqlite uri))"

section \<open>The registry\<close>

text \<open>\<open>_ROUTE_SAFE_DB_NAME.match\<close>: the \<open>$\<close> of the pattern also matches before a final newline.\<close>

definition route_char :: "char \<Rightarrow> bool" where
  "route_char c \<longleftrightarrow> is_alnum c \<or> c \<in> {CHR ''.'', CHR ''_'', CHR ''-''}"

definition is_route_safe_db_name :: "string \<Rightarrow> bool" where
  "is_route_safe_db_name name \<longleftrightarrow>
     (let core = (if name \<noteq> [] \<and> last name = CHR 0x0A then butlast name else name) in
      core \<noteq> [] \<and> list_all route_char core \<and> name \<notin> set [''.'', ''..''])"

text \<open>The object hook refuses a repeated name at any depth.\<close>

fun repeats_name :: "json \<Rightarrow> bool" where
  "repeats_name (JObj d) \<longleftrightarrow> \<not> distinct (map fst d) \<or> list_ex (\<lambda>kv. repeats_name (snd kv)) d"
| "repeats_name (JList xs) \<longleftrightarrow> list_ex repeats_name xs"
| "repeats_name _ \<longleftrightarrow> False"

fun registry_entries :: "(string \<times> json) list \<Rightarrow> (config_error + (string, string) dict)" where
  "registry_entries [] = Inr []"
| "registry_entries ((name, uri) # rest) =
     (if name = '''' \<or> \<not> is_route_safe_db_name name then Inl DatabaseRegistryError
      else (case uri of
          JStr u \<Rightarrow>
            (if str_strip u = '''' then Inl DatabaseRegistryError
             else map_sum id ((#) (name, str_strip u)) (registry_entries rest))
        | _ \<Rightarrow> Inl DatabaseRegistryError))"

definition registry_text :: "process_env \<Rightarrow> string" where
  "registry_text env = str_strip (getenv env ''MEMORA_DATABASES'')"

definition database_registry :: "(string \<Rightarrow> json option) \<Rightarrow> process_env \<Rightarrow> config_error + (string, string) dict" where
  "database_registry loads env =
     (if registry_text env = '''' then Inr []
      else (case loads (registry_text env) of
          Some (JObj d) \<Rightarrow> if d = [] \<or> repeats_name (JObj d) then Inl DatabaseRegistryError else registry_entries d
        | _ \<Rightarrow> Inl DatabaseRegistryError))"

definition default_database_name :: "(string \<Rightarrow> json option) \<Rightarrow> process_env \<Rightarrow> config_error + string option" where
  "default_database_name loads env =
     (case database_registry loads env of
        Inl e \<Rightarrow> Inl e
      | Inr [] \<Rightarrow> Inr None
      | Inr reg \<Rightarrow>
          (let name = str_strip (getenv env ''MEMORA_DEFAULT_DB'') in
           if name = '''' then (if length reg = 1 then Inr (Some (fst (hd reg))) else Inl DatabaseRegistryError)
           else if map_of reg name = None then Inl DatabaseRegistryError
           else Inr (Some name)))"

section \<open>Backend objects\<close>

text \<open>A backend object has an identity; only a local or a D1 backend carries its registry name.\<close>

record backend =
  be_id :: nat
  be_kind :: backend_kind
  be_name :: "string option"

record registry_state =
  rs_cache :: "(string, backend) dict option"
  rs_source :: "string option"
  rs_next :: nat
  rs_refusals :: "(string option, string) dict"

definition store_named :: "backend_kind \<Rightarrow> bool" where
  "store_named k = (case k of CloudSqlite _ _ _ _ _ \<Rightarrow> False | _ \<Rightarrow> True)"

text \<open>The cache is emptied when the text of the registry changed.\<close>

definition renewed :: "process_env \<Rightarrow> registry_state \<Rightarrow> registry_state" where
  "renewed env st =
     (if rs_cache st = None \<or> rs_source st \<noteq> Some (registry_text env)
      then st\<lparr>rs_cache := Some [], rs_source := Some (registry_text env)\<rparr> else st)"

definition cached :: "registry_state \<Rightarrow> (string, backend) dict" where
  "cached st = (case rs_cache st of None \<Rightarrow> [] | Some c \<Rightarrow> c)"

definition new_backend :: "string \<Rightarrow> backend_kind \<Rightarrow> registry_state \<Rightarrow> backend" where
  "new_backend name k st = \<lparr>be_id = rs_next st, be_kind = k, be_name = (if store_named k then Some name else None)\<rparr>"

definition build_backend :: "(string \<Rightarrow> json option) \<Rightarrow> process_env \<Rightarrow> string \<Rightarrow> config_error + backend_kind" where
  "build_backend loads env name =
     (case database_registry loads env of
        Inl e \<Rightarrow> Inl e
      | Inr reg \<Rightarrow>
          (case map_of reg name of
             None \<Rightarrow> Inl DatabaseRegistryError
           | Some uri \<Rightarrow>
               (case parse_backend_uri env uri of
                  Inl e \<Rightarrow> Inl (if e = ConfigValueError then DatabaseRegistryError else e)
                | Inr k \<Rightarrow> Inr k)))"

definition backend_for_unchecked :: "(string \<Rightarrow> json option) \<Rightarrow> process_env \<Rightarrow> string \<Rightarrow> registry_state \<Rightarrow>
    (config_error + backend) \<times> registry_state" where
  "backend_for_unchecked loads env name st0 =
     (let st = renewed env st0 in
      case map_of (cached st) name of
        Some b \<Rightarrow> (Inr b, st)
      | None \<Rightarrow>
          (case build_backend loads env name of
             Inl e \<Rightarrow> (Inl e, st)
           | Inr k \<Rightarrow>
               (Inr (new_backend name k st),
                st\<lparr>rs_cache := Some (dict_set name (new_backend name k st) (cached st)), rs_next := rs_next st + 1\<rparr>)))"

definition check_refused :: "registry_state \<Rightarrow> string option \<Rightarrow> config_error option" where
  "check_refused st name = map_option DataVolumeRefused (map_of (rs_refusals st) name)"

definition backend_for :: "(string \<Rightarrow> json option) \<Rightarrow> process_env \<Rightarrow> string \<Rightarrow> registry_state \<Rightarrow>
    (config_error + backend) \<times> registry_state" where
  "backend_for loads env name st =
     (case backend_for_unchecked loads env name st of
        (Inl e, st') \<Rightarrow> (Inl e, st')
      | (Inr b, st') \<Rightarrow> (case check_refused st' (Some name) of Some e \<Rightarrow> (Inl e, st') | None \<Rightarrow> (Inr b, st')))"

text \<open>\<open>legacy\<close> is the module's \<open>STORAGE_BACKEND\<close>, \<open>bound\<close> the value of \<open>CURRENT_DB\<close>.\<close>

definition current_backend :: "(string \<Rightarrow> json option) \<Rightarrow> process_env \<Rightarrow> backend \<Rightarrow> string option \<Rightarrow> registry_state \<Rightarrow>
    (config_error + backend) \<times> registry_state" where
  "current_backend loads env legacy bound st =
     (let fallback = (case check_refused st None of Some e \<Rightarrow> (Inl e, st) | None \<Rightarrow> (Inr legacy, st)) in
      case bound of
        Some name \<Rightarrow> backend_for loads env name st
      | None \<Rightarrow>
          (if registry_text env \<noteq> '''' then
             (case default_database_name loads env of
                Inl e \<Rightarrow> (Inl e, st)
              | Inr (Some name) \<Rightarrow> backend_for loads env name st
              | Inr None \<Rightarrow> fallback)
           else fallback))"

definition effective_database_name :: "(string \<Rightarrow> json option) \<Rightarrow> process_env \<Rightarrow> string option \<Rightarrow> config_error + string option" where
  "effective_database_name loads env bound =
     (case bound of
        Some name \<Rightarrow> Inr (Some name)
      | None \<Rightarrow> if registry_text env \<noteq> '''' then default_database_name loads env else Inr None)"

definition bound_database :: "(string \<Rightarrow> json option) \<Rightarrow> process_env \<Rightarrow> string option \<Rightarrow> config_error + (string option \<times> string)" where
  "bound_database loads env bound =
     (case bound of
        Some name \<Rightarrow> Inr (Some name, ''path'')
      | None \<Rightarrow>
          (if registry_text env \<noteq> '''' then map_sum id (\<lambda>n. (n, ''registry_default'')) (default_database_name loads env)
           else Inr (None, ''unconfigured'')))"

section \<open>Where a URI points\<close>

text \<open>The store a backend or a URI names, whatever the credentials and options are.\<close>

definition location :: "backend_kind \<Rightarrow> string list" where
  "location k = (case k of LocalSqlite p \<Rightarrow> [''file'', p] | CloudSqlite b key _ _ _ \<Rightarrow> [''s3'', b, key] | D1 a d _ \<Rightarrow> [''d1'', a, d])"

definition uri_location :: "string \<Rightarrow> string list option" where
  "uri_location uri =
     (if starts_with ''d1://'' uri then map_option (\<lambda>(a, d). [''d1'', a, d]) (split_once (CHR ''/'') (drop 5 uri))
      else if starts_with ''s3://'' uri then map_option (\<lambda>(b, k). [''s3'', b, k]) (split_once (CHR ''/'') (drop 5 uri))
      else if starts_with ''file://'' uri then Some [''file'', drop 7 uri] else Some [''file'', uri])"

lemma parse_location: "parse_backend_uri env uri = Inr k \<Longrightarrow> uri_location uri = Some (location k)"
  by (auto simp: parse_backend_uri_def uri_location_def location_def Let_def
      split: if_splits option.splits sum.splits prod.splits)

lemma registry_text_only: "registry_text env = registry_text env' \<Longrightarrow> database_registry loads env = database_registry loads env'"
  by (simp add: database_registry_def)

lemma registry_entries_names: "registry_entries d = Inr reg \<Longrightarrow> map fst reg = map fst d \<and>
    (\<forall>n \<in> fst ` set reg. n \<noteq> '''' \<and> is_route_safe_db_name n)"
proof (induction d arbitrary: reg rule: registry_entries.induct)
  case (2 name uri rest)
  then show ?case
    by (cases "registry_entries rest") (fastforce split: if_splits json.splits)+
qed simp

lemma registry_error: "database_registry loads env = Inl e \<Longrightarrow> e = DatabaseRegistryError"
proof -
  have "registry_entries d = Inl e \<Longrightarrow> e = DatabaseRegistryError" for d
  proof (induction d rule: registry_entries.induct)
    case (2 name uri rest)
    then show ?case by (cases "registry_entries rest") (auto split: if_splits json.splits)
  qed simp
  moreover assume "database_registry loads env = Inl e"
  ultimately show ?thesis by (auto simp: database_registry_def split: if_splits option.splits json.splits)
qed

lemma registry_ok:
  assumes "database_registry loads env = Inr reg"
  shows "(registry_text env \<noteq> '''' \<longrightarrow> reg \<noteq> []) \<and> dict_wf reg \<and> (\<forall>n \<in> fst ` set reg. n \<noteq> '''' \<and> is_route_safe_db_name n)"
proof (cases "registry_text env = ''''")
  case True
  then show ?thesis using assms by (simp add: database_registry_def)
next
  case False
  with assms obtain d where d: "d \<noteq> []" "\<not> repeats_name (JObj d)" "registry_entries d = Inr reg"
    by (auto simp: database_registry_def split: option.splits json.splits if_splits)
  from registry_entries_names [OF d(3)] d(1,2) show ?thesis
    by (metis list.map_disc_iff repeats_name.simps(1))
qed

lemma default_in_registry:
  assumes "default_database_name loads env = Inr name"
  obtains reg where "database_registry loads env = Inr reg"
    "case name of None \<Rightarrow> reg = [] | Some n \<Rightarrow> map_of reg n \<noteq> None"
proof -
  from assms obtain reg where reg: "database_registry loads env = Inr reg"
    by (cases "database_registry loads env") (auto simp: default_database_name_def)
  have "case name of None \<Rightarrow> reg = [] | Some n \<Rightarrow> map_of reg n \<noteq> None"
    using assms reg by (cases reg) (auto simp: default_database_name_def Let_def split: if_splits)
  with reg show thesis by (rule that)
qed

section \<open>The cache\<close>

definition names_store :: "(string \<Rightarrow> json option) \<Rightarrow> string \<Rightarrow> string \<Rightarrow> backend \<Rightarrow> bool" where
  "names_store loads raw name b \<longleftrightarrow>
     (\<exists>env reg uri. registry_text env = raw \<and> database_registry loads env = Inr reg \<and> map_of reg name = Some uri \<and>
        uri_location uri = Some (location (be_kind b))) \<and> be_name b \<in> {None, Some name}"

definition cache_inv :: "(string \<Rightarrow> json option) \<Rightarrow> registry_state \<Rightarrow> bool" where
  "cache_inv loads st \<longleftrightarrow>
     (\<forall>n b. map_of (cached st) n = Some b \<longrightarrow> be_id b < rs_next st \<and>
        (\<exists>raw. rs_source st = Some raw \<and> names_store loads raw n b)) \<and>
     (\<forall>n m b b'. map_of (cached st) n = Some b \<and> map_of (cached st) m = Some b' \<and> be_id b = be_id b' \<longrightarrow> n = m)"

lemma renewed_source: "rs_source (renewed env st) = Some (registry_text env)"
  by (simp add: renewed_def)

lemma renewed_inv: "cache_inv loads st \<Longrightarrow> cache_inv loads (renewed env st)"
  by (auto simp: cache_inv_def renewed_def cached_def)

lemma cached_registered:
  assumes "cache_inv loads st" and "rs_source st = Some (registry_text env)" and "map_of (cached st) n = Some b"
  shows "\<exists>reg uri. database_registry loads env = Inr reg \<and> map_of reg n = Some uri"
proof -
  from assms have "names_store loads (registry_text env) n b" by (auto simp: cache_inv_def)
  then obtain env' reg uri where e: "registry_text env' = registry_text env" "database_registry loads env' = Inr reg"
    "map_of reg n = Some uri" unfolding names_store_def by blast
  from registry_text_only [OF e(1)] e(2,3) show ?thesis by metis
qed

lemma build_names_store:
  assumes "build_backend loads env name = Inr k"
  shows "names_store loads (registry_text env) name (new_backend name k st)"
  using assms parse_location
  by (fastforce simp: build_backend_def names_store_def new_backend_def split: sum.splits option.splits if_splits)

lemma unchecked_inv:
  assumes inv: "cache_inv loads st" and r: "backend_for_unchecked loads env name st = (r, st')"
  shows "cache_inv loads st' \<and> rs_source st' = Some (registry_text env) \<and> rs_refusals st' = rs_refusals st \<and>
    (\<forall>b. r = Inr b \<longrightarrow> map_of (cached st') name = Some b) \<and>
    (\<forall>n b. map_of (cached (renewed env st)) n = Some b \<longrightarrow> map_of (cached st') n = Some b)"
proof -
  let ?s = "renewed env st"
  note inv' = renewed_inv [OF inv, of env]
  have same: "rs_refusals ?s = rs_refusals st" by (simp add: renewed_def)
  consider (hit) b where "map_of (cached ?s) name = Some b" "r = Inr b" "st' = ?s"
    | (failed) e where "r = Inl e" "st' = ?s"
    | (made) k where "map_of (cached ?s) name = None" "build_backend loads env name = Inr k" "r = Inr (new_backend name k ?s)"
        "st' = ?s\<lparr>rs_cache := Some (dict_set name (new_backend name k ?s) (cached ?s)), rs_next := rs_next ?s + 1\<rparr>"
    using r by (auto simp: backend_for_unchecked_def Let_def split: option.splits sum.splits)
  then show ?thesis
  proof cases
    case hit
    then show ?thesis using inv' same renewed_source by simp
  next
    case failed
    then show ?thesis using inv' same renewed_source by simp
  next
    case made
    let ?b = "new_backend name k ?s"
    have c: "cached st' = dict_set name ?b (cached ?s)" "rs_next st' = rs_next ?s + 1" "rs_source st' = rs_source ?s"
      by (simp_all add: made(4) cached_def)
    have b: "be_id ?b = rs_next ?s" by (simp add: new_backend_def)
    have old: "be_id b' < rs_next ?s" if "map_of (cached ?s) n = Some b'" for n b'
      using inv' that by (simp add: cache_inv_def)
    have "cache_inv loads st'"
      unfolding cache_inv_def c map_of_dict_set
    proof (intro conjI allI impI)
      fix n b' assume m: "((map_of (cached ?s))(name \<mapsto> ?b)) n = Some b'"
      show "be_id b' < rs_next ?s + 1"
        using m b old [of n b'] by (cases "n = name") auto
      show "\<exists>raw. rs_source ?s = Some raw \<and> names_store loads raw n b'"
        using m build_names_store [OF made(2), of ?s] renewed_source inv'
        by (cases "n = name") (auto simp: cache_inv_def)
    next
      fix n m b1 b2
      assume "((map_of (cached ?s))(name \<mapsto> ?b)) n = Some b1 \<and> ((map_of (cached ?s))(name \<mapsto> ?b)) m = Some b2 \<and> be_id b1 = be_id b2"
      then show "n = m" using b old [of n b1] old [of m b2] inv'
        by (cases "n = name"; cases "m = name") (auto simp: cache_inv_def)
    qed
    then show ?thesis using made c same renewed_source by (auto simp: made(4))
  qed
qed

lemma backend_for_inv:
  assumes inv: "cache_inv loads st" and r: "backend_for loads env name st = (r, st')"
  shows "cache_inv loads st' \<and> rs_refusals st' = rs_refusals st \<and> rs_source st' = Some (registry_text env) \<and>
    (\<forall>b. r = Inr b \<longrightarrow> map_of (cached st') name = Some b \<and> names_store loads (registry_text env) name b) \<and>
    (\<forall>n b. map_of (cached (renewed env st)) n = Some b \<longrightarrow> map_of (cached st') n = Some b)"
proof -
  obtain r0 where u: "backend_for_unchecked loads env name st = (r0, st')" and r0: "r = Inr b \<Longrightarrow> r0 = Inr b" for b
    using r by (cases "backend_for_unchecked loads env name st") (auto simp: backend_for_def split: sum.splits option.splits)
  from unchecked_inv [OF inv u] have k: "cache_inv loads st'" "rs_source st' = Some (registry_text env)"
    "rs_refusals st' = rs_refusals st" "\<forall>b. r0 = Inr b \<longrightarrow> map_of (cached st') name = Some b"
    "\<forall>n b. map_of (cached (renewed env st)) n = Some b \<longrightarrow> map_of (cached st') n = Some b" by blast+
  have "map_of (cached st') name = Some b \<and> names_store loads (registry_text env) name b" if "r = Inr b" for b
    using k(1,2,4) r0 [OF that] by (auto simp: cache_inv_def)
  with k show ?thesis by blast
qed

section \<open>Histories of one process\<close>

text \<open>The calls of a process, under environments that may change between them, and a new set of refusals.\<close>

inductive registry_history :: "(string \<Rightarrow> json option) \<Rightarrow> registry_state \<Rightarrow> bool" for loads where
  begins: "rs_cache st = None \<Longrightarrow> registry_history loads st"
| calls: "registry_history loads st \<Longrightarrow> registry_history loads (snd (current_backend loads env legacy bound st))"
| refusals: "registry_history loads st \<Longrightarrow> registry_history loads (st\<lparr>rs_refusals := rf\<rparr>)"

lemma current_backend_cases:
  assumes "current_backend loads env legacy bound st = (r, st')"
  obtains (named) name where "backend_for loads env name st = (r, st')"
      "bound = Some name \<or> bound = None \<and> registry_text env \<noteq> '''' \<and> default_database_name loads env = Inr (Some name)"
    | (refused) e where "r = Inl e" "st' = st"
    | (legacy) "bound = None" "registry_text env = ''''" "r = Inr legacy" "st' = st"
proof (cases bound)
  case (Some name)
  then show ?thesis using assms named by (simp add: current_backend_def)
next
  case None
  show ?thesis
  proof (cases "registry_text env = ''''")
    case True
    then show ?thesis using assms None refused legacy
      by (auto simp: current_backend_def Let_def split: option.splits)
  next
    case False
    show ?thesis
    proof (cases "default_database_name loads env")
      case (Inl e)
      then show ?thesis using assms None False by (intro refused [of e]) (simp_all add: current_backend_def)
    next
      case (Inr n)
      then obtain reg where reg: "database_registry loads env = Inr reg"
        "case n of None \<Rightarrow> reg = [] | Some n \<Rightarrow> map_of reg n \<noteq> None" by (rule default_in_registry)
      then obtain name where "n = Some name" using registry_ok [OF reg(1)] False by (cases n) auto
      then show ?thesis using assms None False Inr named by (simp add: current_backend_def)
    qed
  qed
qed

lemma current_backend_inv:
  assumes "cache_inv loads st" and "current_backend loads env legacy bound st = (r, st')"
  shows "cache_inv loads st'"
  using assms(2) by (cases rule: current_backend_cases) (use assms(1) backend_for_inv in blast)+

lemma history_cache: "registry_history loads st \<Longrightarrow> cache_inv loads st"
proof (induction rule: registry_history.induct)
  case (begins st)
  then show ?case by (simp add: cache_inv_def cached_def)
next
  case (calls st env legacy bound)
  then show ?case using current_backend_inv [of loads st env legacy bound] by (metis prod.collapse)
next
  case (refusals st rf)
  then show ?case by (simp add: cache_inv_def cached_def)
qed

section \<open>Properties\<close>

text \<open>C8: the registry fails closed: once a name is bound or a registry is configured, a call never gets the
  legacy store; what it gets is the store the current text of the registry gives the bound (or the default)
  name, whatever the cache holds from earlier texts, and that name's own backend object.\<close>

theorem never_another_store:
  assumes "registry_history loads st" and "current_backend loads env legacy bound st = (Inr b, st')"
    and "bound \<noteq> None \<or> registry_text env \<noteq> ''''"
  shows "\<exists>name reg uri. database_registry loads env = Inr reg \<and> map_of reg name = Some uri \<and>
    (bound = Some name \<or> bound = None \<and> default_database_name loads env = Inr (Some name)) \<and>
    uri_location uri = Some (location (be_kind b)) \<and> be_name b \<in> {None, Some name} \<and> map_of (cached st') name = Some b"
  using assms(2)
proof (cases rule: current_backend_cases)
  case (named name)
  from backend_for_inv [OF history_cache [OF assms(1)] named(1)]
  have b: "map_of (cached st') name = Some b" "names_store loads (registry_text env) name b" by blast+
  then obtain env' reg uri where "registry_text env' = registry_text env" "database_registry loads env' = Inr reg"
    "map_of reg name = Some uri" "uri_location uri = Some (location (be_kind b))" "be_name b \<in> {None, Some name}"
    by (auto simp: names_store_def)
  then show ?thesis
    using registry_text_only [of env' env loads] named(2) b(1) by (intro exI [of _ name] exI [of _ reg] exI [of _ uri]) auto
qed (use assms(3) in auto)

text \<open>one database has one backend object: as long as the text of the registry stays the same, every later
  call for the name gets the identical object, whatever was called in between, and two names never share one.\<close>

theorem one_object_per_name:
  assumes "registry_history loads st" and "backend_for loads env name st = (Inr b, st1)"
    and "\<forall>(e, l, bd) \<in> set cs. registry_text e = registry_text env" and "registry_text env' = registry_text env"
    and "map_of (rs_refusals st1) (Some name) = None"
    and "st2 = fold (\<lambda>(e, l, bd) s. snd (current_backend loads e l bd s)) cs st1"
  shows "backend_for loads env' name st2 = (Inr b, st2) \<and>
    (\<forall>other b'. map_of (cached st2) other = Some b' \<and> be_id b' = be_id b \<longrightarrow> other = name)"
proof -
  have step: "cache_inv loads s' \<and> rs_source s' = rs_source s \<and> map_of (cached s') name = Some b \<and> rs_refusals s' = rs_refusals s"
    if s: "cache_inv loads s" "rs_source s = Some (registry_text env)" "map_of (cached s) name = Some b"
      and e: "registry_text e = registry_text env" and r: "current_backend loads e l bd s = (r, s')" for e l bd r s s'
    using r
  proof (cases rule: current_backend_cases)
    case (named n)
    have "rs_cache s \<noteq> None" using s(3) by (cases "rs_cache s") (simp_all add: cached_def)
    then have "renewed e s = s" using s(2) e by (simp add: renewed_def)
    then show ?thesis using backend_for_inv [OF s(1) named(1)] s e by simp
  qed (use s in auto)
  have run: "cache_inv loads st2 \<and> rs_source st2 = Some (registry_text env) \<and> map_of (cached st2) name = Some b \<and>
      rs_refusals st2 = rs_refusals st1"
    if "cache_inv loads s" "rs_source s = Some (registry_text env)" "map_of (cached s) name = Some b" "rs_refusals s = rs_refusals st1"
      "\<forall>(e, l, bd) \<in> set ds. registry_text e = registry_text env"
      "st2 = fold (\<lambda>(e, l, bd) s. snd (current_backend loads e l bd s)) ds s" for ds s
    using that
  proof (induction ds arbitrary: s)
    case (Cons d ds)
    obtain e l bd where d: "d = (e, l, bd)" by (cases d)
    obtain r s' where r: "current_backend loads e l bd s = (r, s')" by fastforce
    have "registry_text e = registry_text env" using Cons.prems(5) d by simp
    from step [OF Cons.prems(1-3) this r] Cons.prems(2,4,5,6) show ?case
      by (intro Cons.IH [of s']) (auto simp: d r)
  qed simp
  have "cache_inv loads st1 \<and> rs_source st1 = Some (registry_text env) \<and> map_of (cached st1) name = Some b"
    using backend_for_inv [OF history_cache [OF assms(1)] assms(2)] by blast
  with run [of st1 cs] assms(3,6) have st2: "cache_inv loads st2" "rs_source st2 = Some (registry_text env)"
    "map_of (cached st2) name = Some b" "rs_refusals st2 = rs_refusals st1" by blast+
  have "renewed env' st2 = st2" using st2(2,3) assms(4) by (cases "rs_cache st2") (simp_all add: renewed_def cached_def)
  then have "backend_for loads env' name st2 = (Inr b, st2)"
    using st2(3,4) assms(5) by (simp add: backend_for_def backend_for_unchecked_def check_refused_def)
  moreover have "other = name" if "map_of (cached st2) other = Some b'" "be_id b' = be_id b" for other b'
    using st2(1,3) that unfolding cache_inv_def by metis
  ultimately show ?thesis by blast
qed

definition ex_process :: process_env where
  "ex_process = \<lparr>pe_var = (\<lambda>v. if v = ''MEMORA_DATABASES'' then Some '' two '' else if v = ''CF_API_TOKEN'' then Some ''t'' else None),
     pe_lstat = (\<lambda>_. LstatFails), pe_file = (\<lambda>_. None), pe_cloud = False\<rparr>"

definition ex_loads :: "string \<Rightarrow> json option" where
  "ex_loads s = (if s = ''two'' then Some (JObj [(''alpha'', JStr ''/a''), (''beta'', JStr ''d1://x/y'')]) else None)"

definition ex_begin :: registry_state where
  "ex_begin = \<lparr>rs_cache = None, rs_source = None, rs_next = 0, rs_refusals = []\<rparr>"

definition ex_legacy :: backend where
  "ex_legacy = \<lparr>be_id = 9, be_kind = LocalSqlite ''/old'', be_name = None\<rparr>"

definition ex_beta :: backend where
  "ex_beta = \<lparr>be_id = 0, be_kind = D1 ''x'' ''y'' ''t'', be_name = Some ''beta''\<rparr>"

definition ex_first :: registry_state where
  "ex_first = snd (backend_for ex_loads ex_process ''beta'' ex_begin)"

lemma ex_first_beta: "backend_for ex_loads ex_process ''beta'' ex_begin = (Inr ex_beta, ex_first)"
  by code_simp

lemma ex_begin_history: "registry_history ex_loads ex_begin"
  by (rule registry_history.begins) (simp add: ex_begin_def)

theorem never_another_store_witness:
  "\<exists>name reg uri. database_registry ex_loads ex_process = Inr reg \<and> map_of reg name = Some uri \<and>
     uri_location uri = Some [''d1'', ''x'', ''y'']"
proof -
  have c: "current_backend ex_loads ex_process ex_legacy (Some ''beta'') ex_begin = (Inr ex_beta, ex_first)"
    using ex_first_beta by (simp add: current_backend_def)
  have "location (be_kind ex_beta) = [''d1'', ''x'', ''y'']" by code_simp
  with never_another_store [OF ex_begin_history c] show ?thesis by auto
qed

theorem one_object_per_name_witness:
  "fst (backend_for ex_loads ex_process ''beta''
      (snd (current_backend ex_loads ex_process ex_legacy (Some ''alpha'') ex_first))) = Inr ex_beta"
proof -
  have "map_of (rs_refusals ex_first) (Some ''beta'') = None" by code_simp
  from one_object_per_name [OF ex_begin_history ex_first_beta _ refl this refl, of "[(ex_process, ex_legacy, Some ''alpha'')]"]
  show ?thesis by simp
qed

end
