(* ===== verification/Session_Guard.thy ===== *)
theory Session_Guard
  imports Memora_Prelude "HOL-Library.Multiset"
begin

text \<open>
  Model of \<open>memora/session_guard.py\<close>: what a request must pass before it reaches the session manager,
  the sliding window of admissions, the reserved ceiling on sessions, and the interleaving of the
  concurrent requests.  A request runs without interruption between two \<open>await\<close>s, so each stretch is
  one step; the session manager is the environment, which allocates at most one session for a request it
  was handed and stamps the session header only on the response of a request that has one.
\<close>

section \<open>What reaches the manager\<close>

type_synonym headers = "(string \<times> string) list"

record http_scope =
  sc_type :: string
  sc_path :: string
  sc_method :: string
  sc_headers :: headers

definition header :: "headers \<Rightarrow> string \<Rightarrow> string" where
  "header hs name = (case find (\<lambda>kv. str_lower (fst kv) = name) hs of None \<Rightarrow> '''' | Some kv \<Rightarrow> snd kv)"

definition has_session :: "headers \<Rightarrow> bool" where
  "has_session hs \<longleftrightarrow> list_ex (\<lambda>kv. str_lower (fst kv) = ''mcp-session-id'') hs"

definition media_type :: "string \<Rightarrow> string" where
  "media_type p = str_strip (hd (split_on (CHR '';'') p))"

definition headers_acceptable :: "headers \<Rightarrow> bool" where
  "headers_acceptable hs \<longleftrightarrow>
     (let accept = map str_strip (split_on (CHR '','') (header hs ''accept''));
          ctype = hd (split_on (CHR '';'') (header hs ''content-type''))
      in list_ex (\<lambda>p. media_type p = ''application/json'') accept \<and>
         list_ex (\<lambda>p. media_type p = ''text/event-stream'') accept \<and>
         list_ex (\<lambda>p. str_strip p = ''application/json'') (split_on (CHR '','') ctype))"

text \<open>
  \<open>_buffer_body\<close> over the messages \<open>receive\<close> delivers; \<open>BodyPending\<close> when they end before the body does.
\<close>

datatype message = Disconnect | Chunk string bool

datatype body_read = BodyGone | BodyTooLarge | BodyPending | Body string

fun buffer_body :: "nat \<Rightarrow> nat \<Rightarrow> string \<Rightarrow> message list \<Rightarrow> body_read" where
  "buffer_body limit sz acc [] = BodyPending"
| "buffer_body limit sz acc (Disconnect # ms) = BodyGone"
| "buffer_body limit sz acc (Chunk c again # ms) =
     (if limit < sz + length c then BodyTooLarge
      else if again then buffer_body limit (sz + length c) (acc @ c) ms
      else Body (acc @ c))"

text \<open>
  The checks of the wrapped application up to the ceiling.  \<open>security\<close> is the transport-security
  check of the SDK (\<^const>\<open>None\<close> when there is none), \<open>is_init\<close> whether the SDK's own models read the body as an
  initialize request.
\<close>

datatype verdict = PassThrough | Respond nat | SecurityResponse | ClientGone | StillReading | Eligible

definition guard_verdict :: "nat \<Rightarrow> (http_scope \<Rightarrow> bool) option \<Rightarrow> (string \<Rightarrow> bool) \<Rightarrow> http_scope \<Rightarrow> message list \<Rightarrow> verdict" where
  "guard_verdict limit security is_init scope msgs =
     (if sc_type scope \<noteq> ''http'' then PassThrough
      else if sc_path scope \<noteq> ''/mcp'' \<or> has_session (sc_headers scope) then PassThrough
      else if sc_method scope \<noteq> ''POST'' then Respond 406
      else if (case security of None \<Rightarrow> False | Some ok \<Rightarrow> \<not> ok scope) then SecurityResponse
      else if \<not> headers_acceptable (sc_headers scope) then Respond 406
      else (case buffer_body limit 0 '''' msgs of
          BodyPending \<Rightarrow> StillReading
        | BodyGone \<Rightarrow> ClientGone
        | BodyTooLarge \<Rightarrow> Respond 413
        | Body b \<Rightarrow> if is_init b then Eligible else Respond 400))"

section \<open>The admission window and the ceiling\<close>

type_synonym charge = "rat \<times> nat"

datatype admission = Unlimited | Charged charge

record guard_state =
  gd_admissions :: "charge list"
  gd_seq :: nat
  gd_pending :: int

record guard_config =
  gc_per_min :: int
  gc_max_sessions :: int
  gc_counted :: bool

definition admit_one :: "guard_config \<Rightarrow> rat \<Rightarrow> guard_state \<Rightarrow> admission option \<times> guard_state" where
  "admit_one cfg now g =
     (if gc_per_min cfg \<le> 0 then (Some Unlimited, g)
      else (let live = dropWhile (\<lambda>a. fst a < now - 60) (gd_admissions g) in
        if gc_per_min cfg \<le> int (length live) then (None, g\<lparr>gd_admissions := live\<rparr>)
        else (let tok = (now, gd_seq g + 1)
              in (Some (Charged tok), g\<lparr>gd_admissions := live @ [tok], gd_seq := gd_seq g + 1\<rparr>))))"

definition refund :: "admission \<Rightarrow> guard_state \<Rightarrow> guard_state" where
  "refund tok g = (case tok of Unlimited \<Rightarrow> g | Charged c \<Rightarrow> g\<lparr>gd_admissions := remove1 c (gd_admissions g)\<rparr>)"

text \<open>The manager's instance map: session ids, each with whether its transport is terminated.\<close>

type_synonym instances = "(nat \<times> bool) list"

definition live_sessions :: "instances \<Rightarrow> int \<times> instances" where
  "live_sessions ss = (let kept = filter (\<lambda>s. \<not> snd s) ss in (int (length kept), kept))"

datatype entry = Refused503 | Refused429 bool | Entered admission bool

definition reserve :: "bool \<Rightarrow> guard_state \<Rightarrow> guard_state" where
  "reserve wanted g = (if wanted then g\<lparr>gd_pending := gd_pending g + 1\<rparr> else g)"

definition release :: "bool \<Rightarrow> guard_state \<Rightarrow> guard_state" where
  "release reserved g = (if reserved then g\<lparr>gd_pending := gd_pending g - 1\<rparr> else g)"

text \<open>From the read of the session count to the call of the wrapped application there is no \<open>await\<close>.\<close>

definition enter_guard :: "guard_config \<Rightarrow> rat \<Rightarrow> instances \<Rightarrow> guard_state \<Rightarrow> entry \<times> instances \<times> guard_state" where
  "enter_guard cfg now ss g =
     (let (active, ss') = (if gc_counted cfg then map_prod Some id (live_sessions ss) else (None, ss));
          reserved = (0 < gc_max_sessions cfg \<and> active \<noteq> None)
      in if reserved \<and> gc_max_sessions cfg \<le> the active + gd_pending g then (Refused503, ss', g)
         else (case admit_one cfg now (reserve reserved g) of
             (None, g1) \<Rightarrow> (Refused429 reserved, ss', g1)
           | (Some tok, g1) \<Rightarrow> (Entered tok reserved, ss', g1)))"

text \<open>\<open>watch\<close> on one message of the wrapped application's response.\<close>

record reply =
  rp_start :: bool
  rp_status :: nat
  rp_headers :: headers

definition watch :: "reply \<Rightarrow> bool \<Rightarrow> bool \<Rightarrow> guard_state \<Rightarrow> bool \<times> bool \<times> guard_state" where
  "watch m established reserved g =
     (if rp_start m then
        (let est = (200 \<le> rp_status m \<and> rp_status m < 300 \<and> has_session (rp_headers m))
         in if est \<and> reserved then (est, False, release True g) else (est, reserved, g))
      else (established, reserved, g))"

section \<open>Concurrent requests\<close>

text \<open>
  A request past the checks is being refused with 429 (its reservation is kept until the answer is
  sent), or inside the wrapped application with its charge, whether it still holds the reservation, whether
  \<open>established\<close> is set, and whether the manager has allocated a session for it.
\<close>

datatype guarded =
    Refusing bool
  | Inside admission bool bool bool

text \<open>\<open>gw_issued\<close> remembers the charges that were not given back, \<open>gw_clock\<close> the last reading of the clock.\<close>

record guard_world =
  gw_guard :: guard_state
  gw_sessions :: instances
  gw_requests :: "guarded multiset"
  gw_clock :: rat
  gw_issued :: "charge list"

definition guard_start :: guard_world where
  "guard_start = \<lparr>gw_guard = \<lparr>gd_admissions = [], gd_seq = 0, gd_pending = 0\<rparr>, gw_sessions = [],
     gw_requests = {#}, gw_clock = 0, gw_issued = []\<rparr>"

definition charges :: "admission \<Rightarrow> charge list" where
  "charges tok = (case tok of Unlimited \<Rightarrow> [] | Charged c \<Rightarrow> [c])"

fun entered_requests :: "entry \<Rightarrow> guarded multiset \<times> charge list" where
  "entered_requests Refused503 = ({#}, [])"
| "entered_requests (Refused429 r) = ({#Refusing r#}, [])"
| "entered_requests (Entered tok r) = ({#Inside tok r False False#}, charges tok)"

inductive guard_step :: "guard_config \<Rightarrow> guard_world \<Rightarrow> guard_world \<Rightarrow> bool" for cfg where
  entry_step: "gw_clock w \<le> now \<Longrightarrow> enter_guard cfg now (gw_sessions w) (gw_guard w) = (out, ss, g) \<Longrightarrow>
     guard_step cfg w (w\<lparr>gw_guard := g, gw_sessions := ss, gw_clock := now,
       gw_requests := gw_requests w + fst (entered_requests out), gw_issued := gw_issued w @ snd (entered_requests out)\<rparr>)"
| refused_step: "gw_requests w = add_mset (Refusing r) rest \<Longrightarrow>
     guard_step cfg w (w\<lparr>gw_guard := release r (gw_guard w), gw_requests := rest\<rparr>)"
| allocate_step: "gw_requests w = add_mset (Inside tok r est False) rest \<Longrightarrow> sid \<notin> fst ` set (gw_sessions w) \<Longrightarrow>
     guard_step cfg w (w\<lparr>gw_sessions := gw_sessions w @ [(sid, False)],
       gw_requests := add_mset (Inside tok r est True) rest\<rparr>)"
| reply_step: "gw_requests w = add_mset (Inside tok r est a) rest \<Longrightarrow>
     watch m est r (gw_guard w) = (est', r', g) \<Longrightarrow> (rp_start m \<and> has_session (rp_headers m) \<longrightarrow> a) \<Longrightarrow>
     guard_step cfg w (w\<lparr>gw_guard := g, gw_requests := add_mset (Inside tok r' est' a) rest\<rparr>)"
| return_step: "gw_requests w = add_mset (Inside tok r est a) rest \<Longrightarrow>
     guard_step cfg w (w\<lparr>gw_guard := release r (if est then gw_guard w else refund tok (gw_guard w)),
       gw_requests := rest, gw_issued := (if est then gw_issued w else filter (\<lambda>c. c \<notin> set (charges tok)) (gw_issued w))\<rparr>)"
| raise_step: "gw_requests w = add_mset (Inside tok r est a) rest \<Longrightarrow>
     guard_step cfg w (w\<lparr>gw_guard := release r (gw_guard w), gw_requests := rest\<rparr>)"
| terminate_step: "guard_step cfg w (w\<lparr>gw_sessions := map (\<lambda>s. if fst s = sid then (sid, True) else s) (gw_sessions w)\<rparr>)"
| drop_step: "guard_step cfg w (w\<lparr>gw_sessions := filter (\<lambda>s. fst s \<noteq> sid) (gw_sessions w)\<rparr>)"

inductive guard_reachable :: "guard_config \<Rightarrow> guard_world \<Rightarrow> bool" for cfg where
  start: "guard_reachable cfg guard_start"
| step: "guard_reachable cfg w \<Longrightarrow> guard_step cfg w w' \<Longrightarrow> guard_reachable cfg w'"

section \<open>The ceiling\<close>

definition holds_reservation :: "guarded \<Rightarrow> bool" where
  "holds_reservation r = (case r of Refusing b \<Rightarrow> b | Inside _ b _ _ \<Rightarrow> b)"

text \<open>A reservation no session was allocated for yet.\<close>

definition reserved_ahead :: "guarded \<Rightarrow> bool" where
  "reserved_ahead r = (case r of Refusing b \<Rightarrow> b | Inside _ b _ a \<Rightarrow> b \<and> \<not> a)"

definition counts :: "(guarded \<Rightarrow> bool) \<Rightarrow> guarded multiset \<Rightarrow> int" where
  "counts P R = int (size (filter_mset P R))"

lemma counts_simps [simp]: "counts P {#} = 0" "counts P (add_mset r R) = of_bool (P r) + counts P R"
  "counts P (R + S) = counts P R + counts P S"
  by (simp_all add: counts_def)

lemma counts_nonneg [simp]: "0 \<le> counts P R"
  by (simp add: counts_def)

lemma ahead_le_held: "counts reserved_ahead R \<le> counts holds_reservation R"
  by (induction R) (auto simp: reserved_ahead_def holds_reservation_def split: guarded.splits)

text \<open>Requests past the ceiling hold a reservation until they have a session, when the ceiling is on.\<close>

definition ceiling_on :: "guard_config \<Rightarrow> bool" where
  "ceiling_on cfg \<longleftrightarrow> 0 < gc_max_sessions cfg \<and> gc_counted cfg"

definition ceiling_inv :: "guard_config \<Rightarrow> guard_world \<Rightarrow> bool" where
  "ceiling_inv cfg w \<longleftrightarrow>
     gd_pending (gw_guard w) = counts holds_reservation (gw_requests w) \<and>
     (ceiling_on cfg \<longrightarrow>
        int (length (gw_sessions w)) + counts reserved_ahead (gw_requests w) \<le> gc_max_sessions cfg \<and>
        (\<forall>tok est a. Inside tok False est a \<in># gw_requests w \<longrightarrow> a))"

lemma reserve_fields [simp]: "gd_pending (reserve b g) = gd_pending g + of_bool b"
  "gd_admissions (reserve b g) = gd_admissions g" "gd_seq (reserve b g) = gd_seq g"
  by (simp_all add: reserve_def)

lemma enter_shape:
  assumes "enter_guard cfg now ss g = (out, ss', g')"
  shows "out = Refused503 \<and> g' = g \<or>
    (\<exists>b. out = Refused429 b \<and> admit_one cfg now (reserve b g) = (None, g')) \<or>
    (\<exists>b tok. out = Entered tok b \<and> admit_one cfg now (reserve b g) = (Some tok, g'))"
  using assms by (auto simp: enter_guard_def Let_def split: if_splits prod.splits option.splits)

lemma admit_pending [simp]: "admit_one cfg now g = (r, g') \<Longrightarrow> gd_pending g' = gd_pending g"
  by (auto simp: admit_one_def Let_def split: if_splits)

lemma refund_pending [simp]: "gd_pending (refund tok g) = gd_pending g"
  by (simp add: refund_def split: admission.splits)

lemma release_pending [simp]: "gd_pending (release r g) = gd_pending g - of_bool r"
  by (simp add: release_def)

lemma enter_guard_spec:
  assumes "enter_guard cfg now ss g = (out, ss', g')"
  shows "gd_pending g' = gd_pending g + counts holds_reservation (fst (entered_requests out)) \<and>
    counts reserved_ahead (fst (entered_requests out)) = counts holds_reservation (fst (entered_requests out)) \<and>
    length ss' \<le> length ss \<and>
    (ceiling_on cfg \<longrightarrow> ss' = filter (\<lambda>s. \<not> snd s) ss \<and>
       (out \<noteq> Refused503 \<longrightarrow> int (length ss') + gd_pending g < gc_max_sessions cfg \<and>
          (\<forall>tok r. out = Entered tok r \<longrightarrow> r) \<and> counts holds_reservation (fst (entered_requests out)) = 1))"
  using assms
  by (auto simp: enter_guard_def ceiling_on_def live_sessions_def Let_def holds_reservation_def reserved_ahead_def
      split: if_splits prod.splits option.splits dest: admit_pending)

lemma ceiling_fewer: "ceiling_inv cfg w \<Longrightarrow> length ss \<le> length (gw_sessions w) \<Longrightarrow> ceiling_inv cfg (w\<lparr>gw_sessions := ss\<rparr>)"
  by (auto simp: ceiling_inv_def)

lemma ceiling_step:
  assumes "guard_step cfg w w'" and inv: "ceiling_inv cfg w"
  shows "ceiling_inv cfg w'"
  using assms(1)
proof cases
  case (entry_step now out ss g)
  note e = enter_guard_spec [OF entry_step(3)]
  let ?new = "fst (entered_requests out)"
  have pend: "gd_pending g = counts holds_reservation (gw_requests w + ?new)"
    using e inv by (simp add: ceiling_inv_def)
  have "int (length ss) + counts reserved_ahead (gw_requests w + ?new) \<le> gc_max_sessions cfg \<and>
      (\<forall>tok est a. Inside tok False est a \<in># gw_requests w + ?new \<longrightarrow> a)" if on: "ceiling_on cfg"
  proof (cases "out = Refused503")
    case True
    have "int (length ss) \<le> int (length (gw_sessions w))" using e by simp
    moreover have "int (length (gw_sessions w)) + counts reserved_ahead (gw_requests w) \<le> gc_max_sessions cfg"
      "\<forall>tok est a. Inside tok False est a \<in># gw_requests w \<longrightarrow> a"
      using inv on unfolding ceiling_inv_def by blast+
    ultimately show ?thesis using True by auto
  next
    case False
    then have "int (length ss) + counts holds_reservation (gw_requests w) < gc_max_sessions cfg"
      and one: "counts reserved_ahead ?new = 1" "\<forall>tok r. out = Entered tok r \<longrightarrow> r"
      using e inv on by (auto simp: ceiling_inv_def)
    then have "int (length ss) + counts reserved_ahead (gw_requests w + ?new) \<le> gc_max_sessions cfg"
      using ahead_le_held [of "gw_requests w"] by simp
    moreover have "\<forall>tok est a. Inside tok False est a \<notin># ?new"
      using one(2) by (cases out) auto
    moreover have "\<forall>tok est a. Inside tok False est a \<in># gw_requests w \<longrightarrow> a"
      using inv on unfolding ceiling_inv_def by blast
    ultimately show ?thesis unfolding union_iff by blast
  qed
  then show ?thesis using pend unfolding entry_step(1) ceiling_inv_def by simp blast
next
  case (reply_step tok r est a rest m est' r' g)
  from reply_step(3) have "r' = r \<and> g = gw_guard w \<or> r \<and> \<not> r' \<and> g = release True (gw_guard w) \<and> rp_start m \<and> has_session (rp_headers m)"
    by (auto simp: watch_def Let_def split: if_splits)
  then show ?thesis
    using inv reply_step(2,4) unfolding reply_step(1)
    by (auto simp: ceiling_inv_def holds_reservation_def reserved_ahead_def)
next
  case (drop_step sid)
  then show ?thesis using inv by (simp add: ceiling_fewer)
next
  case (allocate_step tok r est rest sid)
  have r: "r" if "ceiling_on cfg"
  proof (rule ccontr)
    assume "\<not> r"
    then have "Inside tok False est False \<in># gw_requests w" using allocate_step(2) by simp
    with inv that show False unfolding ceiling_inv_def by blast
  qed
  then show ?thesis using inv allocate_step(2) unfolding allocate_step(1)
    by (auto simp: ceiling_inv_def holds_reservation_def reserved_ahead_def)
qed (use inv in \<open>auto simp: ceiling_inv_def holds_reservation_def reserved_ahead_def of_bool_def split: if_splits\<close>)

lemma ceiling_reachable: "guard_reachable cfg w \<Longrightarrow> ceiling_inv cfg w"
proof (induction rule: guard_reachable.induct)
  case start
  then show ?case by (simp add: ceiling_inv_def guard_start_def ceiling_on_def)
next
  case (step w w')
  then show ?case by (blast intro: ceiling_step)
qed

section \<open>The window\<close>

definition window_inv :: "guard_config \<Rightarrow> guard_world \<Rightarrow> bool" where
  "window_inv cfg w \<longleftrightarrow>
     (let g = gw_guard w in
      distinct (gd_admissions g) \<and> distinct (gw_issued w) \<and>
      (\<forall>c \<in> set (gd_admissions g) \<union> set (gw_issued w). snd c \<le> gd_seq g) \<and>
      (\<forall>c \<in> set (gw_issued w). c \<in> set (gd_admissions g) \<or> fst c < gw_clock w - 60) \<and>
      (gd_admissions g = [] \<or> int (length (gd_admissions g)) \<le> gc_per_min cfg))"

lemma dropWhile_keeps: "c \<in> set xs \<Longrightarrow> \<not> P c \<Longrightarrow> c \<in> set (dropWhile P xs)"
  by (induction xs) auto

lemma admit_spec:
  assumes "admit_one cfg now g = (r, g')"
  shows "r = Some Unlimited \<and> g' = g \<or>
    r = None \<and> g' = g\<lparr>gd_admissions := dropWhile (\<lambda>a. fst a < now - 60) (gd_admissions g)\<rparr> \<or>
    r = Some (Charged (now, gd_seq g + 1)) \<and>
      g' = g\<lparr>gd_admissions := dropWhile (\<lambda>a. fst a < now - 60) (gd_admissions g) @ [(now, gd_seq g + 1)], gd_seq := gd_seq g + 1\<rparr> \<and>
      int (length (dropWhile (\<lambda>a. fst a < now - 60) (gd_admissions g))) < gc_per_min cfg"
  using assms by (auto simp: admit_one_def Let_def split: if_splits)

text \<open>What entering does to the window: nothing, only the expiry, or the expiry and a new charge.\<close>

lemma enter_window:
  assumes "enter_guard cfg now ss g = (out, ss', g')"
  defines "live \<equiv> dropWhile (\<lambda>a. fst a < now - 60) (gd_admissions g)" and "tok \<equiv> (now, gd_seq g + 1)"
  obtains (same) "gd_admissions g' = gd_admissions g" "gd_seq g' = gd_seq g" "snd (entered_requests out) = []"
    | (expired) "gd_admissions g' = live" "gd_seq g' = gd_seq g" "snd (entered_requests out) = []"
    | (charged) "gd_admissions g' = live @ [tok]" "gd_seq g' = gd_seq g + 1" "snd (entered_requests out) = [tok]"
        "int (length live) < gc_per_min cfg"
proof -
  from enter_shape [OF assms(1)] consider "out = Refused503" "g' = g"
    | b where "out = Refused429 b" "admit_one cfg now (reserve b g) = (None, g')"
    | b t where "out = Entered t b" "admit_one cfg now (reserve b g) = (Some t, g')" by blast
  then show thesis
  proof cases
    case 1
    then show ?thesis by (intro same) simp_all
  next
    case 2
    then show ?thesis using admit_spec [OF 2(2)] by (intro expired) (simp_all add: live_def)
  next
    case 3
    from admit_spec [OF 3(2)] show ?thesis
    proof (elim disjE conjE)
      assume "Some t = Some Unlimited" "g' = reserve b g"
      then show ?thesis using 3(1) by (intro same) (simp_all add: charges_def)
    next
      assume "Some t = Some (Charged (now, gd_seq (reserve b g) + 1))"
        "g' = (reserve b g)\<lparr>gd_admissions := dropWhile (\<lambda>a. fst a < now - 60) (gd_admissions (reserve b g)) @
          [(now, gd_seq (reserve b g) + 1)], gd_seq := gd_seq (reserve b g) + 1\<rparr>"
        "int (length (dropWhile (\<lambda>a. fst a < now - 60) (gd_admissions (reserve b g)))) < gc_per_min cfg"
      then show ?thesis using 3(1) by (intro charged) (simp_all add: charges_def live_def tok_def)
    qed simp
  qed
qed

lemma release_window [simp]: "gd_admissions (release r g) = gd_admissions g" "gd_seq (release r g) = gd_seq g"
  by (simp_all add: release_def)

lemma refund_window: "distinct (gd_admissions g) \<Longrightarrow>
    set (gd_admissions (refund tok g)) = set (gd_admissions g) - set (charges tok) \<and>
    distinct (gd_admissions (refund tok g)) \<and> gd_seq (refund tok g) = gd_seq g \<and>
    length (gd_admissions (refund tok g)) \<le> length (gd_admissions g)"
  by (cases tok) (auto simp: refund_def charges_def length_remove1)

lemma window_step:
  assumes "guard_step cfg w w'" and inv: "window_inv cfg w"
  shows "window_inv cfg w'"
  using assms(1)
proof cases
  case (entry_step now out ss g)
  have clock: "fst c < now - 60" if "fst c < gw_clock w - 60" for c :: charge using that entry_step(2) by simp
  let ?live = "dropWhile (\<lambda>a. fst a < now - 60) (gd_admissions (gw_guard w))"
  have live: "distinct ?live" "set ?live \<subseteq> set (gd_admissions (gw_guard w))" "length ?live \<le> length (gd_admissions (gw_guard w))"
    using inv by (simp_all add: window_inv_def Let_def length_dropWhile_le) (blast dest: set_dropWhileD)
  have kept: "\<forall>c \<in> set (gw_issued w). c \<in> set ?live \<or> fst c < now - 60"
  proof
    fix c assume c: "c \<in> set (gw_issued w)"
    then have "c \<in> set (gd_admissions (gw_guard w)) \<or> fst c < gw_clock w - 60"
      using inv by (simp add: window_inv_def Let_def)
    then show "c \<in> set ?live \<or> fst c < now - 60"
      using clock dropWhile_keeps [of c "gd_admissions (gw_guard w)" "\<lambda>a. fst a < now - 60"] by blast
  qed
  have seqs: "\<forall>c \<in> set (gd_admissions (gw_guard w)) \<union> set (gw_issued w). snd c \<le> gd_seq (gw_guard w)"
    using inv by (simp add: window_inv_def Let_def)
  have fresh: "(now, gd_seq (gw_guard w) + 1) \<notin> set ?live \<union> set (gw_issued w)"
  proof
    assume "(now, gd_seq (gw_guard w) + 1) \<in> set ?live \<union> set (gw_issued w)"
    then have "snd (now, gd_seq (gw_guard w) + 1) \<le> gd_seq (gw_guard w)" using seqs live(2) by blast
    then show False by simp
  qed
  have issued: "distinct (gw_issued w)" using inv by (simp add: window_inv_def Let_def)
  from entry_step(3) show ?thesis
  proof (cases rule: enter_window)
    case same
    then show ?thesis using inv clock unfolding entry_step(1) by (auto simp: window_inv_def Let_def)
  next
    case expired
    have "?live = [] \<or> int (length ?live) \<le> gc_per_min cfg"
      using inv live(3) by (cases "gd_admissions (gw_guard w)") (auto simp: window_inv_def Let_def)
    then show ?thesis using expired live kept seqs issued unfolding entry_step(1)
      by (auto simp: window_inv_def Let_def)
  next
    case charged
    then show ?thesis using live kept seqs fresh issued unfolding entry_step(1)
      by (auto simp: window_inv_def Let_def dest!: subsetD [OF live(2)] intro: le_SucI)
  qed
next
  case (reply_step tok r est a rest m est' r' g)
  from reply_step(3) have "gd_admissions g = gd_admissions (gw_guard w) \<and> gd_seq g = gd_seq (gw_guard w)"
    by (auto simp: watch_def Let_def split: if_splits)
  then show ?thesis using inv unfolding reply_step(1) by (simp add: window_inv_def Let_def)
next
  case (return_step tok r est a rest)
  have "distinct (gd_admissions (gw_guard w))" using inv by (simp add: window_inv_def Let_def)
  from refund_window [OF this, of tok] show ?thesis
    using inv unfolding return_step(1) by (cases est) (force simp: window_inv_def Let_def)+
qed (use inv in \<open>simp_all add: window_inv_def Let_def\<close>)

lemma window_reachable: "guard_reachable cfg w \<Longrightarrow> window_inv cfg w"
proof (induction rule: guard_reachable.induct)
  case start
  then show ?case by (simp add: window_inv_def guard_start_def)
next
  case (step w w')
  then show ?case by (blast intro: window_step)
qed

section \<open>Properties\<close>

text \<open>C3: the session ceiling holds under every interleaving: with a ceiling and the live session count wired in,
  the manager's map never holds more sessions than the ceiling, terminated ones included, and the reserved
  capacity is exactly what the requests in progress hold, so a request that ends, is refused or fails never
  leaks its reservation.\<close>

theorem session_ceiling:
  assumes "guard_reachable cfg w" and "0 < gc_max_sessions cfg" and "gc_counted cfg"
  shows "int (length (gw_sessions w)) \<le> gc_max_sessions cfg \<and>
    gd_pending (gw_guard w) = int (size (filter_mset holds_reservation (gw_requests w))) \<and>
    (gw_requests w = {#} \<longrightarrow> gd_pending (gw_guard w) = 0)"
proof -
  have inv: "ceiling_inv cfg w" by (rule ceiling_reachable [OF assms(1)])
  have "ceiling_on cfg" using assms(2,3) by (simp add: ceiling_on_def)
  with inv have "int (length (gw_sessions w)) + counts reserved_ahead (gw_requests w) \<le> gc_max_sessions cfg"
    by (simp add: ceiling_inv_def)
  moreover have "0 \<le> counts reserved_ahead (gw_requests w)" by simp
  ultimately show ?thesis using inv by (simp add: ceiling_inv_def counts_def)
qed

definition ex_guard :: guard_config where
  "ex_guard = \<lparr>gc_per_min = 1, gc_max_sessions = 1, gc_counted = True\<rparr>"

definition ex_entered :: guard_world where
  "ex_entered = \<lparr>gw_guard = \<lparr>gd_admissions = [(5, 1)], gd_seq = 1, gd_pending = 1\<rparr>, gw_sessions = [],
     gw_requests = {#Inside (Charged (5, 1)) True False False#}, gw_clock = 5, gw_issued = [(5, 1)]\<rparr>"

lemma ex_entered_reachable: "guard_reachable ex_guard ex_entered"
proof -
  have e: "enter_guard ex_guard 5 (gw_sessions guard_start) (gw_guard guard_start)
      = (Entered (Charged (5, 1)) True, [], \<lparr>gd_admissions = [(5, 1)], gd_seq = 1, gd_pending = 1\<rparr>)"
    by code_simp
  have "gw_clock guard_start \<le> 5" by (simp add: guard_start_def)
  from guard_step.entry_step [OF this e] have "guard_step ex_guard guard_start ex_entered"
    by (simp add: guard_start_def ex_entered_def charges_def)
  then show ?thesis by (rule guard_reachable.step [OF guard_reachable.start])
qed

theorem session_ceiling_witness:
  "\<exists>w. guard_reachable ex_guard w \<and> length (gw_sessions w) = 1 \<and> gd_pending (gw_guard w) = 1"
proof -
  let ?w = "ex_entered\<lparr>gw_sessions := [(7, False)], gw_requests := {#Inside (Charged (5, 1)) True False True#}\<rparr>"
  have "guard_step ex_guard ex_entered ?w"
    using guard_step.allocate_step [of ex_entered "Charged (5, 1)" True False "{#}" 7 ex_guard]
    by (simp add: ex_entered_def)
  then have r: "guard_reachable ex_guard ?w" by (rule guard_reachable.step [OF ex_entered_reachable])
  have "gd_pending (gw_guard ?w) = 1"
    using session_ceiling [OF r] by (simp add: ex_guard_def ex_entered_def holds_reservation_def)
  with r show ?thesis by (intro exI [of _ ?w]) simp
qed

text \<open>C12: the admission window holds under every interleaving: of the charges of the last sixty seconds that
  were not given back there are never more than the configured number, and a refusal gives back the charge
  of its own request and of no other.\<close>

theorem admission_window:
  assumes "guard_reachable cfg w" and "0 < gc_per_min cfg"
  shows "int (length (filter (\<lambda>c. gw_clock w - 60 \<le> fst c) (gw_issued w))) \<le> gc_per_min cfg \<and>
    set (gd_admissions (refund tok (gw_guard w))) = set (gd_admissions (gw_guard w)) - set (charges tok)"
proof -
  have inv: "window_inv cfg w" by (rule window_reachable [OF assms(1)])
  let ?recent = "filter (\<lambda>c. gw_clock w - 60 \<le> fst c) (gw_issued w)"
  have adm: "distinct (gd_admissions (gw_guard w))" and iss: "distinct (gw_issued w)"
    and len: "int (length (gd_admissions (gw_guard w))) \<le> gc_per_min cfg"
    using inv assms(2) by (auto simp: window_inv_def Let_def)
  have "set ?recent \<subseteq> set (gd_admissions (gw_guard w))"
  proof
    fix c assume "c \<in> set ?recent"
    then have c: "c \<in> set (gw_issued w)" "gw_clock w - 60 \<le> fst c" by simp_all
    then show "c \<in> set (gd_admissions (gw_guard w))" using inv unfolding window_inv_def Let_def by fastforce
  qed
  then have "card (set ?recent) \<le> card (set (gd_admissions (gw_guard w)))" by (intro card_mono) simp_all
  then have "length ?recent \<le> length (gd_admissions (gw_guard w))"
    using adm iss distinct_card [of ?recent] distinct_card [OF adm] by simp
  with len refund_window [OF adm, of tok] show ?thesis by simp
qed

theorem admission_window_witness:
  "int (length (filter (\<lambda>c. gw_clock ex_entered - 60 \<le> fst c) (gw_issued ex_entered))) \<le> 1 \<and>
   gd_admissions (refund (Charged (5, 1)) (gw_guard ex_entered)) = []"
  using admission_window [OF ex_entered_reachable, of "Charged (5, 1)"]
  by (simp add: ex_guard_def charges_def ex_entered_def)

lemma buffer_body_Body:
  "buffer_body limit (length acc) acc ms = Body b \<Longrightarrow> length b \<le> limit \<and>
     (\<exists>cs c rest. ms = map (\<lambda>c. Chunk c True) cs @ Chunk c False # rest \<and> b = acc @ concat cs @ c)"
proof (induction ms arbitrary: acc)
  case (Cons m ms)
  show ?case
  proof (cases m)
    case Disconnect
    with Cons.prems show ?thesis by simp
  next
    case (Chunk c again)
    show ?thesis
    proof (cases again)
      case True
      with Cons.prems Chunk have "buffer_body limit (length (acc @ c)) (acc @ c) ms = Body b"
        by (simp split: if_splits)
      from Cons.IH [OF this] obtain cs d rest where
        "length b \<le> limit" "ms = map (\<lambda>c. Chunk c True) cs @ Chunk d False # rest" "b = (acc @ c) @ concat cs @ d" by blast
      then show ?thesis using Chunk True
        by (intro conjI exI [of _ "c # cs"] exI [of _ d] exI [of _ rest]) simp_all
    next
      case False
      with Cons.prems Chunk have "length b \<le> limit" "b = acc @ c" by (auto split: if_splits)
      then show ?thesis using Chunk False
        by (intro conjI exI [of _ "[]"] exI [of _ c] exI [of _ ms]) simp_all
    qed
  qed
qed simp

text \<open>a request for the MCP endpoint without a session header reaches the session manager only as an
  initialize request: a POST that passes the transport security check and the header check, whose whole body,
  at most the limit, the SDK's own models read as an initialize request.\<close>

theorem only_initialize_reaches_manager:
  assumes "sc_type scope = ''http''" and "sc_path scope = ''/mcp''" and "\<not> has_session (sc_headers scope)"
    and "guard_verdict limit security is_init scope msgs \<in> {PassThrough, Eligible}"
  shows "sc_method scope = ''POST'' \<and> (\<forall>ok. security = Some ok \<longrightarrow> ok scope) \<and> headers_acceptable (sc_headers scope) \<and>
    (\<exists>cs c rest. msgs = map (\<lambda>c. Chunk c True) cs @ Chunk c False # rest \<and>
       length (concat cs @ c) \<le> limit \<and> is_init (concat cs @ c))"
proof -
  from assms obtain b where b: "buffer_body limit 0 '''' msgs = Body b" "is_init b"
    and rest: "sc_method scope = ''POST''" "\<forall>ok. security = Some ok \<longrightarrow> ok scope" "headers_acceptable (sc_headers scope)"
    by (auto simp: guard_verdict_def split: if_splits body_read.splits option.splits)
  from buffer_body_Body [of limit "[]" msgs b] b obtain cs c ms where
    "length b \<le> limit" "msgs = map (\<lambda>c. Chunk c True) cs @ Chunk c False # ms" "b = concat cs @ c" by auto
  with b(2) rest show ?thesis by blast
qed

definition ex_scope :: http_scope where
  "ex_scope = \<lparr>sc_type = ''http'', sc_path = ''/mcp'', sc_method = ''POST'',
     sc_headers = [(''Accept'', ''application/json, text/event-stream;q=1''), (''Content-Type'', ''application/json; charset=utf-8'')]\<rparr>"

theorem only_initialize_reaches_manager_witness:
  "guard_verdict 9 None (\<lambda>b. b = ''init'') ex_scope [Chunk ''in'' True, Chunk ''it'' False] = Eligible \<and>
   headers_acceptable (sc_headers ex_scope)"
proof -
  have v: "guard_verdict 9 None (\<lambda>b. b = ''init'') ex_scope [Chunk ''in'' True, Chunk ''it'' False] = Eligible" by code_simp
  have "\<not> has_session (sc_headers ex_scope)" by code_simp
  with v only_initialize_reaches_manager [of ex_scope 9 None "\<lambda>b. b = ''init''" "[Chunk ''in'' True, Chunk ''it'' False]"]
  show ?thesis by (simp add: ex_scope_def)
qed

end
