(* ===== verification/Db_Routing.thy ===== *)
theory Db_Routing
  imports Db_Registry Session_Guard
begin

text \<open>
  Model of \<open>memora/db_routing.py\<close>: the database named by an \<open>/mcp/<db>\<close> path, the router that binds it for one
  request, and the router in front of the session guard (\<open>routed_streamable_http_app\<close>).  The scope's
  \<open>raw_path\<close> and the answers' bodies are not modelled.
\<close>

section \<open>Paths\<close>

datatype route = BareRoute | NamedRoute string | NotMcpPath

text \<open>\<open>s.rstrip("/")\<close>.\<close>

definition rstrip_slash :: "string \<Rightarrow> string" where
  "rstrip_slash s = rev (dropWhile (\<lambda>c. c = CHR ''/'') (rev s))"

definition parse_db_from_path :: "string \<Rightarrow> route" where
  "parse_db_from_path path =
     (if path = ''/mcp'' \<or> path = ''/mcp/'' then BareRoute
      else if \<not> starts_with ''/mcp/'' path then NotMcpPath
      else (let rest = rstrip_slash (drop 5 path) in
        if rest = '''' then BareRoute else if CHR ''/'' \<in> set rest then NotMcpPath else NamedRoute rest))"

section \<open>The router\<close>

text \<open>
  What the router does with a request: it answers, it raises, or it hands a scope to the wrapped
  application with a value of \<open>CURRENT_DB\<close>.  The previous value is restored when the call ends.
\<close>

datatype routing =
    RouterAnswers nat
  | RouterRaises config_error
  | Delegated http_scope "string option"

definition route_request :: "(string \<Rightarrow> json option) \<Rightarrow> process_env \<Rightarrow> string option \<Rightarrow> http_scope \<Rightarrow> registry_state \<Rightarrow>
    routing \<times> registry_state" where
  "route_request loads env bound scope st =
     (if sc_type scope \<noteq> ''http'' then (Delegated scope bound, st)
      else (case parse_db_from_path (sc_path scope) of
          NotMcpPath \<Rightarrow> (Delegated scope bound, st)
        | BareRoute \<Rightarrow> (Delegated scope bound, st)
        | NamedRoute name \<Rightarrow>
            (case backend_for loads env name st of
               (Inl DatabaseRegistryError, st') \<Rightarrow> (RouterAnswers 404, st')
             | (Inl e, st') \<Rightarrow> (RouterRaises e, st')
             | (Inr b, st') \<Rightarrow> (Delegated (scope\<lparr>sc_path := ''/mcp''\<rparr>) (Some name), st'))))"

text \<open>The router in front of the guard: the binding under which the guard's verdict was made.\<close>

definition routed_verdict :: "(string \<Rightarrow> json option) \<Rightarrow> process_env \<Rightarrow> string option \<Rightarrow> nat \<Rightarrow> (http_scope \<Rightarrow> bool) option \<Rightarrow>
    (string \<Rightarrow> bool) \<Rightarrow> http_scope \<Rightarrow> message list \<Rightarrow> registry_state \<Rightarrow> (verdict \<times> string option) option" where
  "routed_verdict loads env bound limit security is_init scope msgs st =
     (case fst (route_request loads env bound scope st) of
        Delegated scope' b \<Rightarrow> Some (guard_verdict limit security is_init scope' msgs, b)
      | _ \<Rightarrow> None)"

section \<open>Names and paths\<close>

lemma rstrip_slash_append: "s \<noteq> [] \<Longrightarrow> last s \<noteq> CHR ''/'' \<Longrightarrow> rstrip_slash (s @ replicate n (CHR ''/'')) = s"
proof -
  assume s: "s \<noteq> []" "last s \<noteq> CHR ''/''"
  then obtain c t where "rev s = c # t" "c \<noteq> CHR ''/''" by (cases "rev s") (auto simp: last_rev [symmetric])
  then have "dropWhile (\<lambda>c. c = CHR ''/'') (replicate n (CHR ''/'') @ rev s) = rev s"
    by (subst dropWhile_append2) auto
  then show ?thesis by (simp add: rstrip_slash_def)
qed

lemma rstrip_slash_split: obtains n where "s = rstrip_slash s @ replicate n (CHR ''/'')"
proof -
  have "rev s = takeWhile (\<lambda>c. c = CHR ''/'') (rev s) @ dropWhile (\<lambda>c. c = CHR ''/'') (rev s)" by simp
  then have "s = rstrip_slash s @ rev (takeWhile (\<lambda>c. c = CHR ''/'') (rev s))"
    unfolding rstrip_slash_def by (metis rev_append rev_rev_ident)
  moreover have "takeWhile (\<lambda>c. c = CHR ''/'') (rev s) = replicate (length (takeWhile (\<lambda>c. c = CHR ''/'') (rev s))) (CHR ''/'')"
    by (intro replicate_eqI) (auto dest: set_takeWhileD)
  ultimately show thesis using that by (metis rev_replicate)
qed

lemma route_safe_no_slash:
  assumes "is_route_safe_db_name name" shows "name \<noteq> [] \<and> CHR ''/'' \<notin> set name"
proof -
  let ?core = "if name \<noteq> [] \<and> last name = CHR 0x0A then butlast name else name"
  have core: "?core \<noteq> []" "list_all route_char ?core" using assms by (simp_all add: is_route_safe_db_name_def Let_def)
  have "\<not> route_char (CHR ''/'')" by code_simp
  then have no: "CHR ''/'' \<notin> set ?core" using core(2) by (auto simp: list_all_iff)
  have "set name \<subseteq> insert (CHR 0x0A) (set ?core)"
  proof (cases "name \<noteq> [] \<and> last name = CHR 0x0A")
    case True
    then have "name = butlast name @ [CHR 0x0A]" by (metis append_butlast_last_id)
    then have "set name = insert (CHR 0x0A) (set (butlast name))" by (metis list.set(2) rotate1.simps(2) set_rotate1)
    with True show ?thesis by simp
  next
    case False
    then show ?thesis by auto
  qed
  with no core(1) show ?thesis by auto
qed

lemma named_path: "parse_db_from_path path = NamedRoute name \<longleftrightarrow>
    name \<noteq> [] \<and> CHR ''/'' \<notin> set name \<and> (\<exists>n. path = ''/mcp/'' @ name @ replicate n (CHR ''/''))"
proof
  assume p: "parse_db_from_path path = NamedRoute name"
  then have s: "starts_with ''/mcp/'' path" and r: "rstrip_slash (drop 5 path) = name" "name \<noteq> []" "CHR ''/'' \<notin> set name"
    by (auto simp: parse_db_from_path_def Let_def split: if_splits)
  obtain n where "drop 5 path = name @ replicate n (CHR ''/'')" using rstrip_slash_split [of "drop 5 path"] r(1) by metis
  moreover from s obtain u where "path = ''/mcp/'' @ u" by (auto simp: starts_with_iff)
  ultimately show "name \<noteq> [] \<and> CHR ''/'' \<notin> set name \<and> (\<exists>n. path = ''/mcp/'' @ name @ replicate n (CHR ''/''))"
    using r by auto
next
  assume "name \<noteq> [] \<and> CHR ''/'' \<notin> set name \<and> (\<exists>n. path = ''/mcp/'' @ name @ replicate n (CHR ''/''))"
  then obtain n where a: "name \<noteq> []" "CHR ''/'' \<notin> set name" "path = ''/mcp/'' @ name @ replicate n (CHR ''/'')" by blast
  then have "last name \<noteq> CHR ''/''" by (metis last_in_set)
  then have "rstrip_slash (drop 5 path) = name" using a rstrip_slash_append [of name n] by simp
  moreover have "path \<noteq> ''/mcp''" "path \<noteq> ''/mcp/''" "starts_with ''/mcp/'' path"
    using a by (auto simp: starts_with_iff)
  ultimately show "parse_db_from_path path = NamedRoute name"
    using a(1,2) by (simp add: parse_db_from_path_def Let_def)
qed

section \<open>Properties\<close>

text \<open>every database of a valid registry is addressed by its own path: \<open>/mcp/<name>\<close> (with or without
  trailing slashes) names exactly that database, and no other path names it.\<close>

theorem registered_name_route:
  assumes "database_registry loads env = Inr reg" and "map_of reg name = Some uri"
  shows "parse_db_from_path path = NamedRoute name \<longleftrightarrow> (\<exists>n. path = ''/mcp/'' @ name @ replicate n (CHR ''/''))"
proof -
  have "name \<in> fst ` set reg" using map_of_SomeD [OF assms(2)] by force
  then have "is_route_safe_db_name name" using registry_ok [OF assms(1)] by blast
  then show ?thesis using named_path route_safe_no_slash by blast
qed

theorem registered_name_route_witness: "parse_db_from_path ''/mcp/beta//'' = NamedRoute ''beta''"
proof -
  have "database_registry ex_loads ex_process = Inr [(''alpha'', ''/a''), (''beta'', ''d1://x/y'')]" by code_simp
  from registered_name_route [OF this, of "''beta''" "''d1://x/y''" "''/mcp/beta//''"] show ?thesis
    by (auto intro!: exI [of _ 2] simp: numeral_2_eq_2)
qed

text \<open>C9: what the router lets through to a session is what the path named: a request the guard finds eligible
  came on the bare path, with the caller's own binding, or on \<open>/mcp/<name>\<close> of a registered database, bound to
  that name, for which the current backend is a store of the registry under that name; a path that names an
  unknown database is answered with 404, and the guard never sees it.\<close>

theorem routed_to_named_store:
  assumes "registry_history loads st"
  shows "(routed_verdict loads env bound limit security is_init scope msgs st = Some (Eligible, b) \<longrightarrow>
      sc_path scope = ''/mcp'' \<and> b = bound \<or>
      (\<exists>name reg uri be st'. b = Some name \<and> parse_db_from_path (sc_path scope) = NamedRoute name \<and>
         database_registry loads env = Inr reg \<and> map_of reg name = Some uri \<and>
         current_backend loads env legacy b st = (Inr be, st') \<and> uri_location uri = Some (location (be_kind be)))) \<and>
    (sc_type scope = ''http'' \<and> parse_db_from_path (sc_path scope) = NamedRoute unknown \<and>
       (\<forall>reg. database_registry loads env = Inr reg \<longrightarrow> map_of reg unknown = None) \<longrightarrow>
       fst (route_request loads env bound scope st) = RouterAnswers 404)"
proof (intro conjI impI)
  assume e: "routed_verdict loads env bound limit security is_init scope msgs st = Some (Eligible, b)"
  then obtain sc where sc: "fst (route_request loads env bound scope st) = Delegated sc b"
    and v: "guard_verdict limit security is_init sc msgs = Eligible"
    by (auto simp: routed_verdict_def split: routing.splits)
  from v have http: "sc_type sc = ''http''" "sc_path sc = ''/mcp''"
    by (auto simp: guard_verdict_def split: if_splits)
  show "sc_path scope = ''/mcp'' \<and> b = bound \<or>
      (\<exists>name reg uri be st'. b = Some name \<and> parse_db_from_path (sc_path scope) = NamedRoute name \<and>
         database_registry loads env = Inr reg \<and> map_of reg name = Some uri \<and>
         current_backend loads env legacy b st = (Inr be, st') \<and> uri_location uri = Some (location (be_kind be)))"
  proof (cases "sc_type scope = ''http'' \<and> (\<exists>name. parse_db_from_path (sc_path scope) = NamedRoute name)")
    case False
    then have "sc = scope \<and> b = bound" using sc by (auto simp: route_request_def split: if_splits route.splits)
    then show ?thesis using http by simp
  next
    case True
    then obtain name where name: "parse_db_from_path (sc_path scope) = NamedRoute name" by blast
    then obtain be st' where be: "backend_for loads env name st = (Inr be, st')" and b: "b = Some name"
      using sc True by (auto simp: route_request_def split: prod.splits sum.splits config_error.splits)
    from backend_for_inv [OF history_cache [OF assms] be] have "names_store loads (registry_text env) name be" by blast
    then obtain env' reg uri where "registry_text env' = registry_text env" "database_registry loads env' = Inr reg"
      "map_of reg name = Some uri" "uri_location uri = Some (location (be_kind be))"
      by (auto simp: names_store_def)
    then show ?thesis using registry_text_only [of env' env loads] be name b
      by (intro disjI2 exI [of _ name] exI [of _ reg] exI [of _ uri] exI [of _ be] exI [of _ st'])
         (simp add: current_backend_def)
  qed
next
  assume u: "sc_type scope = ''http'' \<and> parse_db_from_path (sc_path scope) = NamedRoute unknown \<and>
       (\<forall>reg. database_registry loads env = Inr reg \<longrightarrow> map_of reg unknown = None)"
  obtain r st' where r: "backend_for loads env unknown st = (r, st')" by fastforce
  have errs: "e = DatabaseRegistryError" if "database_registry loads env = Inl e" for e
    using that by (rule registry_error)
  have "map_of (cached (renewed env st)) unknown = None"
    using cached_registered [OF renewed_inv [OF history_cache [OF assms]] renewed_source, of env unknown] u by fastforce
  then have "r = Inl DatabaseRegistryError" using r u errs
    by (auto simp: backend_for_def backend_for_unchecked_def build_backend_def Let_def split: sum.splits option.splits)
  then show "fst (route_request loads env bound scope st) = RouterAnswers 404" using u r by (simp add: route_request_def)
qed

theorem routed_to_named_store_witness:
  "\<exists>uri be st'. current_backend ex_loads ex_process ex_legacy (Some ''beta'') ex_begin = (Inr be, st') \<and>
     uri_location uri = Some (location (be_kind be))"
proof -
  let ?scope = "ex_scope\<lparr>sc_path := ''/mcp/beta''\<rparr>"
  have v: "routed_verdict ex_loads ex_process None 9 None (\<lambda>b. b = ''init'') ?scope [Chunk ''init'' False] ex_begin
      = Some (Eligible, Some ''beta'')"
    by code_simp
  have "sc_path ?scope \<noteq> ''/mcp''" by simp
  with conjunct1 [OF routed_to_named_store [OF ex_begin_history], THEN mp, OF v, of ex_legacy]
  show ?thesis by auto
qed

end
