(* ===== verification/Tool_Profile.thy ===== *)
theory Tool_Profile
  imports Memora_Prelude
begin

text \<open>
  Model of \<open>memora/tool_profile.py\<close>: the tool profiles, the pruning of the server's tool registry and the
  start-up attestation.  The registry is an ordered dictionary of tools, of which only the truth of
  \<open>parameters["required"]\<close> matters.  The two request handlers of the MCP SDK are arguments; besides its result,
  the call handler says whether the body of a tool ran.
\<close>

section \<open>Profiles\<close>

definition agent_tools :: "string list" where
  "agent_tools =
     [''memory_absorb'', ''memory_semantic_search'', ''memory_hybrid_search'', ''memory_list_compact'', ''memory_get'',
      ''memory_related'', ''memory_link'', ''memory_stats'', ''memory_create'', ''memory_create_issue'',
      ''memory_create_todo'', ''memory_update'']"

definition leader_tools :: "string list" where
  "leader_tools = agent_tools @
     [''memory_create_section'', ''memory_store_document'', ''memory_get_document'', ''memory_tags'', ''memory_delete'',
      ''memory_digest'', ''memory_list'']"

datatype profile = Full | Leader | Agent

text \<open>\<open>value=None\<close> reads the environment; an unknown name is \<^const>\<open>None\<close>, the \<open>ToolProfileError\<close>.\<close>

definition resolve_tool_profile :: "string option \<Rightarrow> string option \<Rightarrow> profile option" where
  "resolve_tool_profile env_value v =
     (case (case v of None \<Rightarrow> env_value | Some s \<Rightarrow> Some s) of
        None \<Rightarrow> Some Full
      | Some s \<Rightarrow> if s = '''' \<or> s = ''full'' then Some Full else if s = ''leader'' then Some Leader
          else if s = ''agent'' then Some Agent else None)"

definition profile_tool_names :: "profile \<Rightarrow> string list \<Rightarrow> string list" where
  "profile_tool_names p registered =
     (case p of Full \<Rightarrow> registered
      | Leader \<Rightarrow> filter (\<lambda>t. t \<in> set leader_tools) registered
      | Agent \<Rightarrow> filter (\<lambda>t. t \<in> set agent_tools) registered)"

section \<open>Attestation\<close>

type_synonym tools = "(string, bool) dict"

record call_result =
  cr_error :: bool
  cr_text :: "string option"
  cr_ran :: bool

record sdk =
  sdk_list :: "tools \<Rightarrow> string list"
  sdk_call :: "tools \<Rightarrow> string \<Rightarrow> call_result"

definition is_unknown_tool :: "call_result \<Rightarrow> string \<Rightarrow> bool" where
  "is_unknown_tool r name \<longleftrightarrow> cr_error r \<and> cr_text r = Some (''Unknown tool: '' @ name)"

definition candidate :: "nat \<Rightarrow> string" where
  "candidate n = ''__memora_tool_profile_not_a_tool_'' @ (if n = 0 then '''' else nat_text n @ ''_'') @ ''_''"

lemma candidate_inj:
  assumes "candidate m = candidate n" shows "m = n"
proof -
  have "(if m = 0 then [] else nat_text m @ ''_'') = (if n = 0 then [] else nat_text n @ ''_'')"
    using assms by (simp only: candidate_def same_append_eq append_same_eq)
  then have "(m = 0 \<longleftrightarrow> n = 0) \<and> (m \<noteq> 0 \<longrightarrow> nat_text m = nat_text n)"
    by (cases "m = 0"; cases "n = 0") simp_all
  then show ?thesis by (metis read_nat_text)
qed

text \<open>\<open>_choose_sentinel\<close>: the first candidate the listing does not have.\<close>

function choose_from :: "string list \<Rightarrow> nat \<Rightarrow> string" where
  "choose_from listed n = (if candidate n \<in> set listed then choose_from listed (Suc n) else candidate n)"
  by pat_completeness auto
termination
proof (relation "measure (\<lambda>(listed, n). card {m. n \<le> m \<and> candidate m \<in> set listed})")
  fix listed :: "string list" and n
  assume c: "candidate n \<in> set listed"
  have fin: "finite {m. k \<le> m \<and> candidate m \<in> set listed}" for k
  proof (rule inj_on_finite [of candidate _ "set listed"])
    show "inj_on candidate {m. k \<le> m \<and> candidate m \<in> set listed}" by (auto intro: inj_onI candidate_inj)
  qed auto
  have "{m. Suc n \<le> m \<and> candidate m \<in> set listed} \<subset> {m. n \<le> m \<and> candidate m \<in> set listed}" (is "?A \<subset> ?B")
  proof
    show "?A \<subseteq> ?B" by auto
    have "n \<in> ?B" "n \<notin> ?A" using c by simp_all
    then show "?A \<noteq> ?B" by metis
  qed
  then show "((listed, Suc n), listed, n) \<in> measure (\<lambda>(listed, n). card {m. n \<le> m \<and> candidate m \<in> set listed})"
    using psubset_card_mono [OF fin] by simp
qed simp

declare choose_from.simps [simp del]

definition choose_sentinel :: "string list \<Rightarrow> string" where
  "choose_sentinel listed = choose_from listed 0"

text \<open>The attestation, with the calls it made; \<^const>\<open>False\<close> is the \<open>ToolProfileError\<close>.\<close>

definition attest :: "sdk \<Rightarrow> tools \<Rightarrow> string list \<Rightarrow> string option \<Rightarrow> bool \<times> call_result list" where
  "attest s tools allowed probe =
     (let listed = sdk_list s tools in
      if set listed \<noteq> set allowed then (False, [])
      else (let sentinel = choose_sentinel listed; r = sdk_call s tools sentinel in
        if \<not> is_unknown_tool r sentinel then (False, [r])
        else (case probe of
            None \<Rightarrow> (True, [r])
          | Some name \<Rightarrow> (let r' = sdk_call s tools name in (is_unknown_tool r' name, [r, r'])))))"

definition choose_gated_probe :: "tools \<Rightarrow> string list \<Rightarrow> string option" where
  "choose_gated_probe tools allowed = map_option fst (find (\<lambda>(name, req). name \<notin> set allowed \<and> req) tools)"

text \<open>\<open>apply_tool_profile\<close>: the number of exposed tools, the registry afterwards and the calls made.\<close>

definition apply_tool_profile :: "sdk \<Rightarrow> string option \<Rightarrow> string option \<Rightarrow> tools \<Rightarrow>
    nat option \<times> tools \<times> call_result list" where
  "apply_tool_profile s env_value v tools =
     (case resolve_tool_profile env_value v of
        None \<Rightarrow> (None, tools, [])
      | Some p \<Rightarrow>
          (let allowed = profile_tool_names p (map fst tools); probe = choose_gated_probe tools allowed in
           if p \<noteq> Full \<and> probe = None \<and> length allowed < length tools then (None, tools, [])
           else (let pruned = filter (\<lambda>t. fst t \<in> set allowed) tools; (ok, calls) = attest s pruned allowed probe
                 in (if ok then Some (length pruned) else None, pruned, calls))))"

section \<open>Facts\<close>

lemma choose_from_fresh: "choose_from listed n \<notin> set listed \<and> choose_from listed n \<in> range candidate"
proof (induction listed n rule: choose_from.induct)
  case (1 listed n)
  then show ?case by (cases "candidate n \<in> set listed") (simp_all add: choose_from.simps [of listed n])
qed

lemma profile_names_filter: "profile_tool_names p registered = filter (\<lambda>t. t \<in> set (profile_tool_names p registered)) registered"
  by (cases p) (auto simp: profile_tool_names_def intro: filter_cong)

lemma probe_gated: "choose_gated_probe tools allowed = Some name \<Longrightarrow> name \<notin> set allowed \<and> (name, True) \<in> set tools"
  by (auto simp: choose_gated_probe_def find_Some_iff) (metis nth_mem)

lemma no_probe: "choose_gated_probe tools allowed = None \<Longrightarrow> (name, True) \<in> set tools \<Longrightarrow> name \<in> set allowed"
  by (auto simp: choose_gated_probe_def find_None_iff)

section \<open>Properties\<close>

text \<open>
  What the attestation relies on: an empty-argument call runs a tool only if the SDK has a tool of that name
  that requires no argument.
\<close>

definition runs_only_complete :: "sdk \<Rightarrow> tools \<Rightarrow> bool" where
  "runs_only_complete s known \<longleftrightarrow> (\<forall>tools name. cr_ran (sdk_call s tools name) \<longrightarrow> (name, False) \<in> set known)"

text \<open>C11: a server that starts under a profile exposes that profile and nothing else: the registry holds exactly
  the registered tools of the profile, the SDK lists exactly these, the profile's tools keep their entries, and
  when a tool was pruned the SDK's own dispatch has been seen to reject a pruned one; and whatever the SDK
  does, no probe of the attestation ever runs a tool, as long as no tool has a sentinel's name.\<close>

theorem started_profile_is_exposed:
  assumes "distinct (map fst tools)" and "apply_tool_profile s env_value v tools = (Some n, tools', calls)"
    and "resolve_tool_profile env_value v = Some p"
  shows "tools' = filter (\<lambda>t. fst t \<in> set (profile_tool_names p (map fst tools))) tools \<and> n = length tools' \<and>
    set (sdk_list s tools') = set (profile_tool_names p (map fst tools)) \<and>
    (length tools' < length tools \<longrightarrow>
       (\<exists>name. (name, True) \<in> set tools \<and> (name, True) \<notin> set tools' \<and> is_unknown_tool (sdk_call s tools' name) name)) \<and>
    (runs_only_complete s tools \<and> fst ` set tools \<inter> range candidate = {} \<longrightarrow> \<not> list_ex cr_ran calls)"
proof -
  let ?allowed = "profile_tool_names p (map fst tools)"
  let ?pruned = "filter (\<lambda>t. fst t \<in> set ?allowed) tools" and ?probe = "choose_gated_probe tools ?allowed"
  from assms(2,3) have guard: "\<not> (p \<noteq> Full \<and> ?probe = None \<and> length ?allowed < length tools)"
    and a: "attest s ?pruned ?allowed ?probe = (True, calls)" and out: "tools' = ?pruned" "n = length ?pruned"
    by (auto simp: apply_tool_profile_def Let_def split: if_splits prod.splits)
  have listed: "set (sdk_list s ?pruned) = set ?allowed" using a by (auto simp: attest_def Let_def split: if_splits)
  have "length ?allowed = length (filter (\<lambda>t. t \<in> set ?allowed) (map fst tools))"
    by (subst profile_names_filter) (rule refl)
  also have "\<dots> = length ?pruned" by (simp add: filter_map comp_def)
  finally have len: "length ?allowed = length ?pruned" .
  have full: "?pruned = tools" if "p = Full" using that by (auto simp: profile_tool_names_def intro: filter_True)
  have rejected: "\<exists>name. (name, True) \<in> set tools \<and> (name, True) \<notin> set ?pruned \<and> is_unknown_tool (sdk_call s ?pruned name) name"
    if less: "length ?pruned < length tools"
  proof -
    have "p \<noteq> Full" using less full by auto
    then obtain name where name: "?probe = Some name" using guard less len by auto
    then have "is_unknown_tool (sdk_call s ?pruned name) name" using a by (auto simp: attest_def Let_def split: if_splits)
    then show ?thesis using probe_gated [OF name] by auto
  qed
  have quiet: "\<not> list_ex cr_ran calls"
    if runs: "runs_only_complete s tools" and free: "fst ` set tools \<inter> range candidate = {}"
  proof -
    let ?sentinel = "choose_sentinel (sdk_list s ?pruned)"
    have "?sentinel \<in> range candidate" using choose_from_fresh by (simp add: choose_sentinel_def)
    then have "(?sentinel, False) \<notin> set tools" using free by force
    then have r1: "\<not> cr_ran (sdk_call s ?pruned ?sentinel)" using runs by (auto simp: runs_only_complete_def)
    have r2: "\<not> cr_ran (sdk_call s ?pruned name)" if "?probe = Some name" for name
    proof -
      have "(name, False) \<notin> set tools" using probe_gated [OF that] eq_key_imp_eq_value [OF assms(1), of name True False] by auto
      then show ?thesis using runs by (auto simp: runs_only_complete_def)
    qed
    show ?thesis using a r1 r2 by (auto simp: attest_def Let_def split: if_splits option.splits)
  qed
  show ?thesis using out listed rejected quiet by blast
qed

definition honest_sdk :: sdk where
  "honest_sdk = \<lparr>sdk_list = map fst,
     sdk_call = (\<lambda>tools name. case map_of tools name of
        None \<Rightarrow> \<lparr>cr_error = True, cr_text = Some (''Unknown tool: '' @ name), cr_ran = False\<rparr>
      | Some req \<Rightarrow> \<lparr>cr_error = req, cr_text = None, cr_ran = \<not> req\<rparr>)\<rparr>"

definition ex_tools :: tools where
  "ex_tools = [(''memory_get'', True), (''memory_delete_batch'', True), (''memory_stats'', False)]"

theorem started_profile_is_exposed_witness:
  "sdk_list honest_sdk [(''memory_get'', True), (''memory_stats'', False)] = [''memory_get'', ''memory_stats''] \<and>
   is_unknown_tool (sdk_call honest_sdk [(''memory_get'', True), (''memory_stats'', False)] ''memory_delete_batch'') ''memory_delete_batch''"
proof -
  let ?kept = "[(''memory_get'', True), (''memory_stats'', False)]"
  let ?allowed = "[''memory_get'', ''memory_stats'']"
  have p: "resolve_tool_profile (Some ''agent'') None = Some Agent" by code_simp
  have names: "profile_tool_names Agent (map fst ex_tools) = ?allowed"
    and probe: "choose_gated_probe ex_tools ?allowed = Some ''memory_delete_batch''"
    and kept: "filter (\<lambda>t. fst t \<in> set ?allowed) ex_tools = ?kept"
    and ok: "fst (attest honest_sdk ?kept ?allowed (Some ''memory_delete_batch''))"
    by code_simp+
  obtain calls where a: "attest honest_sdk ?kept ?allowed (Some ''memory_delete_batch'') = (True, calls)"
    using ok by (cases "attest honest_sdk ?kept ?allowed (Some ''memory_delete_batch'')") auto
  have r: "apply_tool_profile honest_sdk (Some ''agent'') None ex_tools = (Some 2, ?kept, calls)"
    unfolding apply_tool_profile_def p option.case Let_def names probe kept a by simp
  have "distinct (map fst ex_tools)" by code_simp
  note shown = started_profile_is_exposed [OF this r p]
  have "length ?kept < length ex_tools" by code_simp
  with shown obtain name where name: "(name, True) \<in> set ex_tools" "(name, True) \<notin> set ?kept"
    "is_unknown_tool (sdk_call honest_sdk ?kept name) name" by blast
  from name(1,2) have "name = ''memory_delete_batch''" unfolding ex_tools_def by auto
  with name(3) show ?thesis by (simp add: honest_sdk_def)
qed

text \<open>The leader profile has nineteen tools, the twelve of the agent profile and seven more; the module's
  docstring and the comment at the set count eighteen.\<close>

theorem leader_profile_counts:
  "length leader_tools = 19 \<and> distinct leader_tools \<and> length agent_tools = 12 \<and> set agent_tools \<subset> set leader_tools"
proof -
  have "distinct leader_tools" by code_simp
  moreover have "length leader_tools = 19" "length agent_tools = 12" by (simp_all add: leader_tools_def agent_tools_def)
  moreover have "''memory_list'' \<in> set leader_tools - set agent_tools" by code_simp
  moreover have "set agent_tools \<subseteq> set leader_tools" unfolding leader_tools_def set_append by blast
  ultimately show ?thesis by blast
qed

end
