(* ===== verification/Rollback_Phases.thy ===== *)
theory Rollback_Phases
  imports Memora_Prelude
begin

text \<open>
  Model of the phase bookkeeping of \<open>memora/rollback.py\<close> (\<open>load_state\<close>, \<open>_run_phase\<close>): the state file of a
  rollback, what a phase may start from, and what its end leaves.  Phases are run by hand, so several runs
  may overlap and any of them may die between its first save and its last: a run is a start step and one
  of three ends.  The bodies of the phases and the file's write are not modelled; a generation id is
  fresh (a UUID).
\<close>

section \<open>The state file\<close>

datatype phase = Drain | Verify | Finish

record phase_rec =
  pr_gen :: nat
  pr_running :: bool
  pr_drain_gen :: "nat option"

record 'i rollback_state =
  rb_identity :: "'i option"
  rb_phases :: "(phase, phase_rec) dict"
  rb_verify_failed :: bool

definition no_state :: "'i rollback_state" where
  "no_state = \<lparr>rb_identity = None, rb_phases = [], rb_verify_failed = False\<rparr>"

text \<open>An unreadable or undecodable file reads as \<open>{}\<close>.\<close>

definition read_state :: "'i rollback_state option \<Rightarrow> 'i rollback_state" where
  "read_state f = (case f of None \<Rightarrow> no_state | Some st \<Rightarrow> st)"

datatype start_error = NoRollback | PhaseIncomplete | StaleVerify | MissingPhase

definition load_needed :: "'i \<Rightarrow> phase \<Rightarrow> 'i rollback_state option \<Rightarrow> start_error + 'i rollback_state" where
  "load_needed ident need f =
     (let st = read_state f in
      if rb_identity st \<noteq> Some ident then Inl NoRollback
      else (case map_of (rb_phases st) need of
          None \<Rightarrow> Inl PhaseIncomplete
        | Some ph \<Rightarrow> if pr_running ph then Inl PhaseIncomplete else Inr st))"

section \<open>Running a phase\<close>

fun earlier_phase :: "phase \<Rightarrow> phase option" where
  "earlier_phase Drain = None"
| "earlier_phase Verify = Some Drain"
| "earlier_phase Finish = Some Verify"

text \<open>\<open>PHASES[PHASES.index(name):]\<close>.\<close>

fun from_phase :: "phase \<Rightarrow> phase list" where
  "from_phase Drain = [Drain, Verify, Finish]"
| "from_phase Verify = [Verify, Finish]"
| "from_phase Finish = [Finish]"

definition clear_phases :: "phase \<Rightarrow> 'i rollback_state \<Rightarrow> 'i rollback_state" where
  "clear_phases name st =
     st\<lparr>rb_phases := fold dict_pop (from_phase name) (rb_phases st),
        rb_verify_failed := (name = Finish \<and> rb_verify_failed st)\<rparr>"

definition set_phase :: "phase \<Rightarrow> phase_rec option \<Rightarrow> 'i rollback_state \<Rightarrow> 'i rollback_state" where
  "set_phase name r st =
     st\<lparr>rb_phases := (case r of None \<Rightarrow> dict_pop name (rb_phases st) | Some x \<Rightarrow> dict_set name x (rb_phases st))\<rparr>"

text \<open>Up to the first save: the refusals, and the state the body starts with.\<close>

definition start_phase :: "'i \<Rightarrow> phase \<Rightarrow> nat \<Rightarrow> 'i rollback_state option \<Rightarrow>
    start_error + (phase_rec \<times> 'i rollback_state)" where
  "start_phase ident name gen f =
     (case (case earlier_phase name of
              None \<Rightarrow> Inr (no_state\<lparr>rb_identity := Some ident\<rparr>)
            | Some need \<Rightarrow> load_needed ident need f) of
        Inl e \<Rightarrow> Inl e
      | Inr st0 \<Rightarrow>
          (let st = clear_phases name st0; drain = map_of (rb_phases st) Drain; verify = map_of (rb_phases st) Verify in
           if name = Finish \<and> (drain = None \<or> verify = None) then Inl MissingPhase
           else if name = Finish \<and> pr_drain_gen (the verify) \<noteq> Some (pr_gen (the drain)) then Inl StaleVerify
           else if name = Verify \<and> drain = None then Inl MissingPhase
           else (let r = \<lparr>pr_gen = gen, pr_running = True,
                          pr_drain_gen = (if name = Verify then Some (pr_gen (the drain)) else None)\<rparr>
                 in Inr (r, set_phase name (Some r) st))))"

text \<open>
  After the body the file is read again, on success and on failure.  A verify that finds a difference
  first saves the state it was started with, not the file's, with a note of its failure.
\<close>

definition end_ok :: "phase \<Rightarrow> phase_rec \<Rightarrow> 'i rollback_state \<Rightarrow> 'i rollback_state" where
  "end_ok name r st = set_phase name (Some (r\<lparr>pr_running := False\<rparr>)) st"

definition note_failure :: "'i rollback_state \<Rightarrow> 'i rollback_state" where
  "note_failure st = st\<lparr>rb_verify_failed := True\<rparr>"

definition end_failed :: "phase \<Rightarrow> 'i rollback_state option \<Rightarrow> 'i rollback_state" where
  "end_failed name f = set_phase name None (read_state f)"

section \<open>Runs of an operator\<close>

text \<open>
  The world: the file, the runs between their saves with the state each was started with, the next
  fresh id, and the log of what happened.
\<close>

datatype event = Began phase nat "nat option" | Completed phase nat

record 'i rollback_world =
  ro_file :: "'i rollback_state option"
  ro_runs :: "(phase \<times> phase_rec \<times> 'i rollback_state) list"
  ro_next :: nat
  ro_log :: "event list"

definition rollback_start :: "nat \<Rightarrow> 'i rollback_world" where
  "rollback_start n = \<lparr>ro_file = None, ro_runs = [], ro_next = n, ro_log = []\<rparr>"

inductive rollback_step :: "'i \<Rightarrow> 'i rollback_world \<Rightarrow> 'i rollback_world \<Rightarrow> bool" for ident where
  start_step: "start_phase ident name (ro_next w) (ro_file w) = Inr (r, st) \<Longrightarrow>
     rollback_step ident w (w\<lparr>ro_file := Some st, ro_runs := (name, r, st) # ro_runs w, ro_next := ro_next w + 1,
       ro_log := ro_log w @ [Began name (pr_gen r) (pr_drain_gen r)]\<rparr>)"
| ok_step: "(name, r, st0) \<in> set (ro_runs w) \<Longrightarrow> ro_file w = Some st \<Longrightarrow>
     rollback_step ident w (w\<lparr>ro_file := Some (end_ok name r st), ro_runs := remove1 (name, r, st0) (ro_runs w),
       ro_log := ro_log w @ [Completed name (pr_gen r)]\<rparr>)"
| note_step: "(Verify, r, st0) \<in> set (ro_runs w) \<Longrightarrow> rollback_step ident w (w\<lparr>ro_file := Some (note_failure st0)\<rparr>)"
| failed_step: "(name, r, st0) \<in> set (ro_runs w) \<Longrightarrow>
     rollback_step ident w (w\<lparr>ro_file := Some (end_failed name (ro_file w)), ro_runs := remove1 (name, r, st0) (ro_runs w)\<rparr>)"
| died_step: "(name, r, st0) \<in> set (ro_runs w) \<Longrightarrow>
     rollback_step ident w (w\<lparr>ro_runs := remove1 (name, r, st0) (ro_runs w)\<rparr>)"

inductive rollback_reachable :: "'i \<Rightarrow> 'i rollback_world \<Rightarrow> bool" for ident where
  start: "rollback_reachable ident (rollback_start n)"
| step: "rollback_reachable ident w \<Longrightarrow> rollback_step ident w w' \<Longrightarrow> rollback_reachable ident w'"

text \<open>An operator who never starts a run while another is in progress.\<close>

inductive solo_reachable :: "'i \<Rightarrow> 'i rollback_world \<Rightarrow> bool" for ident where
  start: "solo_reachable ident (rollback_start n)"
| step: "solo_reachable ident w \<Longrightarrow> rollback_step ident w w' \<Longrightarrow> ro_runs w = [] \<or> length (ro_runs w') \<le> length (ro_runs w) \<Longrightarrow>
     solo_reachable ident w'"

section \<open>What the entries of a state prove\<close>

definition began_after :: "event list \<Rightarrow> nat \<Rightarrow> nat \<Rightarrow> bool" where
  "began_after evs g v \<longleftrightarrow> (\<exists>pre mid post. evs = pre @ Completed Drain g # mid @ Began Verify v (Some g) # post)"

definition verified_after :: "event list \<Rightarrow> nat \<Rightarrow> nat \<Rightarrow> bool" where
  "verified_after evs g v \<longleftrightarrow>
     (\<exists>pre mid mid' post. evs = pre @ Completed Drain g # mid @ Began Verify v (Some g) # mid' @ Completed Verify v # post)"

lemma began_after_append: "began_after evs g v \<Longrightarrow> began_after (evs @ ext) g v"
  unfolding began_after_def by (elim exE) (rule exI, rule exI, rule exI, simp)

lemma verified_after_append: "verified_after evs g v \<Longrightarrow> verified_after (evs @ ext) g v"
  unfolding verified_after_def by (elim exE) (rule exI, rule exI, rule exI, rule exI, simp)

definition run_justified :: "event list \<Rightarrow> phase_rec \<Rightarrow> bool" where
  "run_justified evs r \<longleftrightarrow> (\<exists>g. pr_drain_gen r = Some g \<and> began_after evs g (pr_gen r))"

definition state_justified :: "event list \<Rightarrow> 'i rollback_state \<Rightarrow> bool" where
  "state_justified evs st \<longleftrightarrow>
     (\<forall>r. map_of (rb_phases st) Drain = Some r \<and> \<not> pr_running r \<longrightarrow> Completed Drain (pr_gen r) \<in> set evs) \<and>
     (\<forall>r. map_of (rb_phases st) Verify = Some r \<longrightarrow> run_justified evs r \<and>
        (\<not> pr_running r \<longrightarrow> (\<exists>g. pr_drain_gen r = Some g \<and> verified_after evs g (pr_gen r))))"

definition world_justified :: "'i rollback_world \<Rightarrow> bool" where
  "world_justified w \<longleftrightarrow>
     state_justified (ro_log w) (read_state (ro_file w)) \<and>
     (\<forall>(name, r, st) \<in> set (ro_runs w). state_justified (ro_log w) st \<and> (name = Verify \<longrightarrow> run_justified (ro_log w) r))"

lemma run_justified_append: "run_justified evs r \<Longrightarrow> run_justified (evs @ ext) r"
  unfolding run_justified_def by (blast intro: began_after_append)

lemma state_justified_append: "state_justified evs st \<Longrightarrow> state_justified (evs @ ext) st"
  unfolding state_justified_def by (auto intro: run_justified_append) (blast intro: verified_after_append)

text \<open>What a phase that starts found in the file.\<close>

lemma start_phase_cases:
  assumes "start_phase ident name gen f = Inr (r, st)"
  obtains (drain) "name = Drain" "map_of (rb_phases st) Verify = None" "map_of (rb_phases st) Drain = Some r" "pr_running r" "pr_gen r = gen" "pr_drain_gen r = None"
    | (verify) rd where "name = Verify" "map_of (rb_phases (read_state f)) Drain = Some rd" "\<not> pr_running rd" "map_of (rb_phases st) Drain = Some rd"
        "map_of (rb_phases st) Verify = Some r" "pr_running r" "pr_gen r = gen" "pr_drain_gen r = Some (pr_gen rd)"
    | (finish) rd rv where "name = Finish" "map_of (rb_phases (read_state f)) Drain = Some rd" "map_of (rb_phases (read_state f)) Verify = Some rv"
        "\<not> pr_running rv" "pr_drain_gen rv = Some (pr_gen rd)" "map_of (rb_phases st) Drain = Some rd" "map_of (rb_phases st) Verify = Some rv"
        "pr_gen r = gen" "pr_drain_gen r = None"
proof (cases name)
  case Drain
  then show ?thesis using assms
    by (intro drain) (auto simp: start_phase_def clear_phases_def set_phase_def Let_def)
next
  case Verify
  then show ?thesis using assms
    by (auto simp: start_phase_def load_needed_def clear_phases_def set_phase_def Let_def intro!: verify
        split: if_splits option.splits)
next
  case Finish
  then show ?thesis using assms
    by (auto simp: start_phase_def load_needed_def clear_phases_def set_phase_def Let_def intro!: finish
        split: if_splits option.splits)
qed

lemma began_after_snoc: "Completed Drain g \<in> set evs \<Longrightarrow> began_after (evs @ [Began Verify v (Some g)]) g v"
  unfolding began_after_def by (drule split_list, elim exE) (rule exI, rule exI, rule exI, simp)

lemma verified_after_snoc: "began_after evs g v \<Longrightarrow> verified_after (evs @ [Completed Verify v]) g v"
  unfolding began_after_def verified_after_def by (elim exE) (rule exI, rule exI, rule exI, rule exI, simp)

lemma start_justified:
  assumes "state_justified evs (read_state f)" and "start_phase ident name gen f = Inr (r, st)"
  defines "evs' \<equiv> evs @ [Began name (pr_gen r) (pr_drain_gen r)]"
  shows "state_justified evs' st \<and> (name = Verify \<longrightarrow> run_justified evs' r)"
  using assms(2)
proof (cases rule: start_phase_cases)
  case drain
  then show ?thesis by (simp add: state_justified_def)
next
  case (verify rd)
  then have "Completed Drain (pr_gen rd) \<in> set evs" using assms(1) by (simp add: state_justified_def)
  then have "run_justified evs' r"
    using verify began_after_snoc [of "pr_gen rd" evs "pr_gen r"] by (simp add: run_justified_def evs'_def)
  then show ?thesis using verify assms(1) by (auto simp: state_justified_def evs'_def)
next
  case (finish rd rv)
  have "state_justified evs' (read_state f)" using assms(1) by (simp add: evs'_def state_justified_append)
  then show ?thesis using finish by (simp add: state_justified_def)
qed

lemma ok_justified:
  assumes "state_justified evs st" and "name = Verify \<Longrightarrow> run_justified evs r"
  shows "state_justified (evs @ [Completed name (pr_gen r)]) (end_ok name r st)"
proof -
  have old: "state_justified (evs @ [Completed name (pr_gen r)]) st" by (rule state_justified_append [OF assms(1)])
  show ?thesis
  proof (cases name)
    case Verify
    then obtain g where g: "pr_drain_gen r = Some g" "began_after evs g (pr_gen r)" using assms(2) by (auto simp: run_justified_def)
    have "run_justified (evs @ [Completed name (pr_gen r)]) (r\<lparr>pr_running := False\<rparr>)"
      using g began_after_append by (simp add: run_justified_def)
    with g verified_after_snoc [OF g(2)] old Verify show ?thesis
      by (simp add: state_justified_def end_ok_def set_phase_def)
  qed (use old in \<open>simp_all add: state_justified_def end_ok_def set_phase_def\<close>)
qed

lemma drop_justified: "state_justified evs st \<Longrightarrow> state_justified evs (set_phase name None st)"
  by (auto simp: state_justified_def set_phase_def)

lemma remove1_member: "x \<in> set (remove1 y xs) \<Longrightarrow> x \<in> set xs"
  by (metis notin_set_remove1)

lemma step_justified:
  assumes "rollback_step ident w w'" and "world_justified w"
  shows "world_justified w'"
  using assms(1)
proof cases
  case (start_step name r st)
  from start_justified [OF _ start_step(2), of "ro_log w"] assms(2) show ?thesis
    unfolding start_step(1) by (auto simp: world_justified_def read_state_def intro: state_justified_append run_justified_append)
next
  case (ok_step name r st0 st)
  have current: "state_justified (ro_log w) st" using assms(2) ok_step(3) by (simp add: world_justified_def read_state_def)
  have "name = Verify \<Longrightarrow> run_justified (ro_log w) r" using assms(2) ok_step(2) by (auto simp: world_justified_def)
  from ok_justified [OF current this] assms(2) show ?thesis
    unfolding ok_step(1) by (auto simp: world_justified_def read_state_def
        intro: state_justified_append run_justified_append dest!: remove1_member)
next
  case (note_step r st0)
  then have "state_justified (ro_log w) st0" using assms(2) by (auto simp: world_justified_def)
  then have "state_justified (ro_log w) (note_failure st0)" by (simp add: state_justified_def note_failure_def)
  then show ?thesis using assms(2) unfolding note_step(1) by (simp add: world_justified_def read_state_def)
next
  case (failed_step name r st0)
  have "state_justified (ro_log w) (end_failed name (ro_file w))"
    using assms(2) by (simp add: world_justified_def end_failed_def drop_justified)
  then show ?thesis using assms(2) unfolding failed_step(1)
    by (auto simp: world_justified_def read_state_def dest!: remove1_member)
next
  case (died_step name r st0)
  then show ?thesis using assms(2) by (auto simp: world_justified_def dest!: remove1_member)
qed

lemma reachable_justified: "rollback_reachable ident w \<Longrightarrow> world_justified w"
proof (induction rule: rollback_reachable.induct)
  case (start n)
  then show ?case by (simp add: world_justified_def rollback_start_def read_state_def no_state_def state_justified_def)
next
  case (step w w')
  then show ?case by (blast intro: step_justified)
qed

section \<open>One run at a time\<close>

definition latest_drain :: "event list \<Rightarrow> nat option" where
  "latest_drain evs = fold (\<lambda>e acc. case e of Began Drain g _ \<Rightarrow> Some g | _ \<Rightarrow> acc) evs None"

lemma latest_drain_append [simp]:
  "latest_drain (evs @ [Completed name v]) = latest_drain evs"
  "latest_drain (evs @ [Began name v d]) = (if name = Drain then Some v else latest_drain evs)"
  by (cases name; simp add: latest_drain_def)+

definition on_latest :: "event list \<Rightarrow> 'i rollback_state \<Rightarrow> bool" where
  "on_latest evs st \<longleftrightarrow> (\<forall>rd. map_of (rb_phases st) Drain = Some rd \<longrightarrow> latest_drain evs = Some (pr_gen rd))"

definition solo_inv :: "'i rollback_world \<Rightarrow> bool" where
  "solo_inv w \<longleftrightarrow> on_latest (ro_log w) (read_state (ro_file w)) \<and> length (ro_runs w) \<le> 1 \<and>
     (\<forall>(name, r, st) \<in> set (ro_runs w). on_latest (ro_log w) st \<and> (name = Drain \<longrightarrow> latest_drain (ro_log w) = Some (pr_gen r)))"

lemma start_on_latest:
  assumes "on_latest evs (read_state f)" and "start_phase ident name gen f = Inr (r, st)"
  defines "evs' \<equiv> evs @ [Began name (pr_gen r) (pr_drain_gen r)]"
  shows "on_latest evs' st \<and> (name = Drain \<longrightarrow> latest_drain evs' = Some (pr_gen r))"
  using assms(2) by (cases rule: start_phase_cases) (use assms(1) in \<open>simp_all add: evs'_def on_latest_def\<close>)

lemma solo_step:
  assumes "rollback_step ident w w'" and "ro_runs w = [] \<or> length (ro_runs w') \<le> length (ro_runs w)" and "solo_inv w"
  shows "solo_inv w'"
  using assms(1)
proof cases
  case (start_step name r st)
  then have "ro_runs w = []" using assms(2) by simp
  then show ?thesis using start_on_latest [OF _ start_step(2), of "ro_log w"] assms(3)
    unfolding start_step(1) by (simp add: solo_inv_def read_state_def)
next
  case (ok_step name r st0 st)
  then have runs: "ro_runs w = [(name, r, st0)]" using assms(3) by (cases "ro_runs w") (auto simp: solo_inv_def)
  then have "name = Drain \<Longrightarrow> latest_drain (ro_log w) = Some (pr_gen r)" "on_latest (ro_log w) st"
    using assms(3) ok_step(3) by (auto simp: solo_inv_def read_state_def)
  then show ?thesis unfolding ok_step(1) using runs
    by (cases name) (simp_all add: solo_inv_def on_latest_def read_state_def end_ok_def set_phase_def)
next
  case (note_step r st0)
  then show ?thesis using assms(3) by (auto simp: solo_inv_def on_latest_def read_state_def note_failure_def)
next
  case (failed_step name r st0)
  then have "ro_runs w = [(name, r, st0)]" using assms(3) by (cases "ro_runs w") (auto simp: solo_inv_def)
  then show ?thesis unfolding failed_step(1) using assms(3)
    by (auto simp: solo_inv_def on_latest_def read_state_def end_failed_def set_phase_def)
next
  case (died_step name r st0)
  then have "ro_runs w = [(name, r, st0)]" using assms(3) by (cases "ro_runs w") (auto simp: solo_inv_def)
  then show ?thesis unfolding died_step(1) using assms(3) by (auto simp: solo_inv_def)
qed

lemma solo_reachable_inv: "solo_reachable ident w \<Longrightarrow> solo_inv w"
proof (induction rule: solo_reachable.induct)
  case (start n)
  then show ?case by (simp add: solo_inv_def rollback_start_def on_latest_def read_state_def no_state_def)
next
  case (step w w')
  then show ?case by (blast intro: solo_step)
qed

text \<open>C10: when the finish phase starts, the log of the rollback shows a completed drain, then a verify begun on it
  and completed, and the state it starts with has that drain.  When no run was ever started beside another, that drain is the latest one begun.\<close>

theorem finish_follows_verify:
  assumes "rollback_reachable ident w" and "start_phase ident Finish gen (ro_file w) = Inr (r, st)"
  shows "\<exists>rd v. map_of (rb_phases st) Drain = Some rd \<and> verified_after (ro_log w) (pr_gen rd) v \<and>
    (solo_reachable ident w \<longrightarrow> latest_drain (ro_log w) = Some (pr_gen rd))"
  using assms(2)
proof (cases rule: start_phase_cases)
  case (finish rd rv)
  have "state_justified (ro_log w) (read_state (ro_file w))"
    using reachable_justified [OF assms(1)] by (simp add: world_justified_def)
  then have "verified_after (ro_log w) (pr_gen rd) (pr_gen rv)" using finish by (auto simp: state_justified_def)
  moreover have "latest_drain (ro_log w) = Some (pr_gen rd)" if "solo_reachable ident w"
    using solo_reachable_inv [OF that] finish by (simp add: solo_inv_def on_latest_def)
  ultimately show ?thesis using finish by blast
qed simp_all

text \<open>A trace is run by a function, so that concrete histories are evaluated.\<close>

datatype act = Start phase | Ok nat | Note nat | Fail nat | Die nat

definition run_at :: "nat \<Rightarrow> 'i rollback_world \<Rightarrow> (phase \<times> phase_rec \<times> 'i rollback_state) option" where
  "run_at k w = find (\<lambda>(name, r, st). pr_gen r = k) (ro_runs w)"

fun do_act :: "'i \<Rightarrow> act \<Rightarrow> 'i rollback_world \<Rightarrow> 'i rollback_world option" where
  "do_act ident (Start name) w = (case start_phase ident name (ro_next w) (ro_file w) of Inl e \<Rightarrow> None
     | Inr (r, st) \<Rightarrow> Some (w\<lparr>ro_file := Some st, ro_runs := (name, r, st) # ro_runs w, ro_next := ro_next w + 1,
         ro_log := ro_log w @ [Began name (pr_gen r) (pr_drain_gen r)]\<rparr>))"
| "do_act ident (Ok k) w = (case (run_at k w, ro_file w) of (Some (name, r, st0), Some st) \<Rightarrow>
       Some (w\<lparr>ro_file := Some (end_ok name r st), ro_runs := remove1 (name, r, st0) (ro_runs w),
         ro_log := ro_log w @ [Completed name (pr_gen r)]\<rparr>) | _ \<Rightarrow> None)"
| "do_act ident (Note k) w = (case run_at k w of Some (Verify, r, st0) \<Rightarrow>
       Some (w\<lparr>ro_file := Some (note_failure st0)\<rparr>) | _ \<Rightarrow> None)"
| "do_act ident (Fail k) w = (case run_at k w of Some (name, r, st0) \<Rightarrow>
       Some (w\<lparr>ro_file := Some (end_failed name (ro_file w)), ro_runs := remove1 (name, r, st0) (ro_runs w)\<rparr>) | None \<Rightarrow> None)"
| "do_act ident (Die k) w = (case run_at k w of Some (name, r, st0) \<Rightarrow>
       Some (w\<lparr>ro_runs := remove1 (name, r, st0) (ro_runs w)\<rparr>) | None \<Rightarrow> None)"

fun do_acts :: "'i \<Rightarrow> act list \<Rightarrow> 'i rollback_world \<Rightarrow> 'i rollback_world option" where
  "do_acts ident [] w = Some w"
| "do_acts ident (a # as) w = (case do_act ident a w of None \<Rightarrow> None | Some w' \<Rightarrow> do_acts ident as w')"

lemma run_at_member: "run_at k w = Some x \<Longrightarrow> x \<in> set (ro_runs w)"
  unfolding run_at_def by (auto simp: find_Some_iff intro: nth_mem)

lemma do_act_step: "do_act ident a w = Some w' \<Longrightarrow> rollback_step ident w w'"
  by (cases a) (auto split: sum.splits option.splits phase.splits 
      intro: rollback_step.intros rollback_step.start_step [simplified] dest!: run_at_member)

lemma do_acts_reachable: "do_acts ident as w = Some w' \<Longrightarrow> rollback_reachable ident w \<Longrightarrow> rollback_reachable ident w'"
proof (induction as arbitrary: w)
  case (Cons a as)
  then obtain w1 where "do_act ident a w = Some w1" "do_acts ident as w1 = Some w'" by (auto split: option.splits)
  with Cons show ?case by (blast intro: rollback_reachable.step do_act_step)
qed simp

lemma acts_reachable: "do_acts ident as (rollback_start 0) = Some w \<Longrightarrow> rollback_reachable ident w"
  by (blast intro: do_acts_reachable rollback_reachable.start)

definition ex_acts :: "act list" where
  "ex_acts = [Start Drain, Fail 0, Start Drain, Ok 1, Start Verify, Note 2, Fail 2, Start Verify, Ok 3]"

definition ex_world :: "nat rollback_world" where
  "ex_world = the (do_acts 7 ex_acts (rollback_start 0))"

theorem finish_follows_verify_witness:
  "\<exists>v. verified_after (ro_log ex_world) 1 v"
proof -
  have run: "do_acts 7 ex_acts (rollback_start 0) = Some ex_world" by code_simp
  have ok: "case start_phase 7 Finish 4 (ro_file ex_world) of Inl e \<Rightarrow> False | Inr (r, st) \<Rightarrow> map_option pr_gen (map_of (rb_phases st) Drain) = Some 1"
    by code_simp
  then obtain r st where start: "start_phase 7 Finish 4 (ro_file ex_world) = Inr (r, st)"
    and gen: "map_option pr_gen (map_of (rb_phases st) Drain) = Some 1" by (auto split: sum.splits)
  from finish_follows_verify [OF acts_reachable [OF run] start] gen show ?thesis by auto
qed

definition overlap_acts :: "act list" where
  "overlap_acts = [Start Drain, Ok 0, Start Verify, Start Drain, Note 1, Fail 1, Start Verify, Ok 3]"

text \<open>C30: runs that overlap are not kept apart by the pairing of generations.  A verify that fails while a newer drain
  is in progress saves the state it was started with; the older completed drain is in the file again, a verify is
  accepted on it, and finish starts although the newer drain has begun and not completed.\<close>

theorem overlapping_runs_lose_a_drain:
  "\<exists>w r st rd. rollback_reachable (7::nat) w \<and> start_phase 7 Finish (ro_next w) (ro_file w) = Inr (r, st) \<and>
     map_of (rb_phases st) Drain = Some rd \<and> latest_drain (ro_log w) = Some 2 \<and> pr_gen rd = 0 \<and>
     Completed Drain 2 \<notin> set (ro_log w)"
proof -
  define w where "w = the (do_acts (7::nat) overlap_acts (rollback_start 0))"
  have run: "do_acts 7 overlap_acts (rollback_start 0) = Some w" unfolding w_def by code_simp
  have ok: "case start_phase 7 Finish (ro_next w) (ro_file w) of Inl e \<Rightarrow> False
      | Inr (r, st) \<Rightarrow> map_option pr_gen (map_of (rb_phases st) Drain) = Some 0"
    and later: "latest_drain (ro_log w) = Some 2 \<and> Completed Drain 2 \<notin> set (ro_log w)"
    unfolding w_def by code_simp+
  from ok obtain r st where "start_phase 7 Finish (ro_next w) (ro_file w) = Inr (r, st)"
    "map_option pr_gen (map_of (rb_phases st) Drain) = Some 0" by (auto split: sum.splits)
  with acts_reachable [OF run] later show ?thesis by auto
qed

end
