(* ===== verification/Lineage_Store.thy ===== *)
theory Lineage_Store
  imports Memora_Prelude "HOL-Library.Monad_Syntax" "HOL-Library.Char_ord" "HOL-Library.List_Lexorder"
begin

text \<open>
  The tables the lineage code of \<open>memora/storage.py\<close> reads and writes: memories, their
  cross-reference blobs, the two tombstone tables and the action log; the reads and writes of
  cross-references (the compare-and-set merge included), explicit links, and the tombstone reads
  and writes.  \<open>None\<close> is a raised exception.
\<close>

section \<open>Tables\<close>

text \<open>
  A JSON text column is NULL, the text of a JSON value, or a text that is not JSON.  A JSON text is
  identified with the value it denotes: every writer stores the output of \<open>json.dumps\<close>.
\<close>

datatype blob = BNull | BJson json | BRaw string

record memory_row =
  mr_content :: string
  mr_metadata :: blob

record tomb_row =
  tr_hash :: "string option"
  tr_reason :: "string option"
  tr_created :: string

text \<open>A retirement table is readable, absent (an unmigrated database), or its queries fail.\<close>

datatype retire_table = Components | Tombstones

datatype table_state = TableOk | TableAbsent | TableFault

text \<open>
  \<open>db_fk\<close>: the connection enforces foreign keys.  \<open>db_now\<close> is what \<open>datetime('now')\<close> returns.
  \<open>db_max_params\<close> is the engine's cap on the bound parameters of a statement (100 on D1).
  The legacy table \<open>tombstones\<close> has the primary key (content hash, memory id).
\<close>

record db =
  db_memories :: "(int, memory_row) dict"
  db_crossrefs :: "(int, blob) dict"
  db_components :: "(int, tomb_row) dict"
  db_tombstones :: "((string \<times> int), string option \<times> string) dict"
  db_actions :: "(int \<times> string \<times> string) list"
  db_table :: "retire_table \<Rightarrow> table_state"
  db_fk :: bool
  db_now :: string
  db_max_params :: nat

text \<open>A row of a running import is not a memory yet (\<open>not_import_pending_sql\<close>).\<close>

definition import_pending :: "memory_row \<Rightarrow> bool" where
  "import_pending r \<longleftrightarrow>
     (case mr_metadata r of BJson (JObj d) \<Rightarrow> json_get ''import_attempt'' d \<noteq> JNull | _ \<Rightarrow> False)"

definition memory_exists :: "db \<Rightarrow> int \<Rightarrow> bool" where
  "memory_exists s mid \<longleftrightarrow>
     (case map_of (db_memories s) mid of Some r \<Rightarrow> \<not> import_pending r | None \<Rightarrow> False)"

text \<open>\<open>SELECT id FROM memories WHERE id IN (...)\<close>: the row is there, pending or not.\<close>

definition has_row :: "db \<Rightarrow> int \<Rightarrow> bool" where
  "has_row s mid \<longleftrightarrow> map_of (db_memories s) mid \<noteq> None"

definition log_action :: "int \<Rightarrow> string \<Rightarrow> string \<Rightarrow> db \<Rightarrow> db" where
  "log_action mid action summary s = s\<lparr>db_actions := db_actions s @ [(mid, action, summary)]\<rparr>"

lemma memory_exists_row: "memory_exists s mid \<Longrightarrow> has_row s mid"
  by (auto simp: memory_exists_def has_row_def split: option.splits)

section \<open>Python values as ids\<close>

text \<open>
  The integer a JSON value equals in Python (\<open>True == 1\<close>, \<open>7.0 == 7\<close>), and the values that cannot
  be a set member or a bound parameter.
\<close>

definition py_int :: "json \<Rightarrow> int option" where
  "py_int j =
     (case j of JInt n \<Rightarrow> Some n | JBool b \<Rightarrow> Some (of_bool b)
      | JFloat q \<Rightarrow> (if of_int \<lfloor>q\<rfloor> = q then Some \<lfloor>q\<rfloor> else None) | _ \<Rightarrow> None)"

definition unhashable :: "json \<Rightarrow> bool" where
  "unhashable j = (case j of JList _ \<Rightarrow> True | JObj _ \<Rightarrow> True | _ \<Rightarrow> False)"

lemma py_int_JInt [simp]: "py_int (JInt n) = Some n"
  by (simp add: py_int_def)

section \<open>Cross-references\<close>

text \<open>Python lists in an exception monad: \<open>any(...)\<close> stops at the first true element.\<close>

fun any_opt :: "('a \<Rightarrow> bool option) \<Rightarrow> 'a list \<Rightarrow> bool option" where
  "any_opt p [] = Some False"
| "any_opt p (x # xs) = do { b \<leftarrow> p x; if b then Some True else any_opt p xs }"

fun filter_opt :: "('a \<Rightarrow> bool option) \<Rightarrow> 'a list \<Rightarrow> 'a list option" where
  "filter_opt p [] = Some []"
| "filter_opt p (x # xs) =
     do { b \<leftarrow> p x; ys \<leftarrow> filter_opt p xs; Some (if b then x # ys else ys) }"

lemma any_opt_total: "(\<And>x. x \<in> set xs \<Longrightarrow> p x = Some (q x)) \<Longrightarrow> any_opt p xs = Some (list_ex q xs)"
  by (induction xs) auto

lemma filter_opt_total: "(\<And>x. x \<in> set xs \<Longrightarrow> p x = Some (q x)) \<Longrightarrow> filter_opt p xs = Some (filter q xs)"
  by (induction xs) auto

lemma filter_opt_Some: "filter_opt p xs = Some ys \<Longrightarrow> \<forall>x \<in> set xs. p x \<noteq> None"
  by (induction xs arbitrary: ys) (auto split: bind_splits)

text \<open>\<open>_parse_crossrefs_blob\<close>: a missing, malformed or non-list blob reads as no references.\<close>

definition blob_list :: "blob \<Rightarrow> json list" where
  "blob_list b = (case b of BJson (JList xs) \<Rightarrow> xs | _ \<Rightarrow> [])"

definition get_crossrefs :: "db \<Rightarrow> int \<Rightarrow> json list" where
  "get_crossrefs s mid = (case map_of (db_crossrefs s) mid of None \<Rightarrow> [] | Some b \<Rightarrow> blob_list b)"

definition related_blob :: "json list \<Rightarrow> blob" where
  "related_blob related = (if related = [] then BNull else BJson (JList related))"

lemma blob_list_related [simp]: "blob_list (related_blob xs) = xs"
  by (simp add: blob_list_def related_blob_def)

text \<open>A write that breaks the foreign key on \<open>memories\<close> raises.\<close>

definition fk_ok :: "db \<Rightarrow> int \<Rightarrow> bool" where
  "fk_ok s mid \<longleftrightarrow> \<not> db_fk s \<or> has_row s mid"

definition put_crossrefs :: "int \<Rightarrow> json list \<Rightarrow> db \<Rightarrow> db" where
  "put_crossrefs mid related s = s\<lparr>db_crossrefs := dict_set mid (related_blob related) (db_crossrefs s)\<rparr>"

definition store_crossrefs :: "int \<Rightarrow> json list \<Rightarrow> db \<Rightarrow> db option" where
  "store_crossrefs mid related s = (if fk_ok s mid then Some (put_crossrefs mid related s) else None)"

definition clear_crossrefs :: "int \<Rightarrow> db \<Rightarrow> db" where
  "clear_crossrefs mid s = s\<lparr>db_crossrefs := dict_pop mid (db_crossrefs s)\<rparr>"

definition load_crossrefs_raw :: "db \<Rightarrow> int \<Rightarrow> bool \<times> blob \<times> json list" where
  "load_crossrefs_raw s mid =
     (case map_of (db_crossrefs s) mid of
        None \<Rightarrow> (False, BNull, [])
      | Some b \<Rightarrow> if b = BNull \<or> b = BRaw '''' then (True, BNull, []) else (True, b, blob_list b))"

definition cas_store_crossrefs :: "int \<Rightarrow> bool \<Rightarrow> blob \<Rightarrow> json list \<Rightarrow> db \<Rightarrow> bool \<times> db" where
  "cas_store_crossrefs mid row_exists expected related s =
     (if \<not> row_exists then
        if map_of (db_crossrefs s) mid \<noteq> None \<or> \<not> fk_ok s mid then (False, s)
        else (True, put_crossrefs mid related s)
      else if map_of (db_crossrefs s) mid = Some expected then (True, put_crossrefs mid related s)
      else (False, s))"

text \<open>
  The merge of one edge: the references to the peer are replaced by the new one; \<open>r.get\<close> on an
  entry that is not an object raises.
\<close>

definition edge_entry :: "int \<Rightarrow> string \<Rightarrow> json" where
  "edge_entry peer et = JObj [(''id'', JInt peer), (''score'', JFloat 1), (''edge_type'', JStr et)]"

definition not_to :: "int \<Rightarrow> json \<Rightarrow> bool option" where
  "not_to peer r = (case r of JObj d \<Rightarrow> Some (py_int (json_get ''id'' d) \<noteq> Some peer) | _ \<Rightarrow> None)"

definition merge_edge :: "int \<Rightarrow> string \<Rightarrow> json list \<Rightarrow> json list option" where
  "merge_edge peer et existing =
     do { others \<leftarrow> filter_opt (not_to peer) existing; Some (others @ [edge_entry peer et]) }"

text \<open>
  \<open>_upsert_crossref_edge\<close>: at most eight attempts.  The writes other clients commit between the
  read and the compare-and-set of each attempt are an input, one function per attempt.
\<close>

fun upsert_crossref_edge :: "(db \<Rightarrow> db) list \<Rightarrow> int \<Rightarrow> int \<Rightarrow> string \<Rightarrow> db \<Rightarrow> db option" where
  "upsert_crossref_edge [] mid peer et s = None"
| "upsert_crossref_edge (others # rest) mid peer et s =
     (let (row_exists, raw, existing) = load_crossrefs_raw s mid in
      do { merged \<leftarrow> merge_edge peer et existing;
           (let (ok, s') = cas_store_crossrefs mid row_exists raw merged (others s) in
            if ok then Some s' else upsert_crossref_edge rest mid peer et s') })"

definition crossref_cas_retries :: nat where
  "crossref_cas_retries = 8"

text \<open>Nobody else writes.\<close>

definition alone :: "(db \<Rightarrow> db) list" where
  "alone = replicate crossref_cas_retries id"

text \<open>
  The bulk write: one statement per chunk of fifty rows, each preceded by the fence; a fence that
  does not hold raises, and the chunks before it are written.
\<close>

fun store_chunk :: "(int \<times> json list) list \<Rightarrow> db \<Rightarrow> db option" where
  "store_chunk [] s = Some s"
| "store_chunk ((mid, related) # rows) s = do { s' \<leftarrow> store_crossrefs mid related s; store_chunk rows s' }"

fun store_chunks :: "bool list \<Rightarrow> (int \<times> json list) list list \<Rightarrow> db \<Rightarrow> bool \<times> db" where
  "store_chunks fences [] s = (True, s)"
| "store_chunks [] (c # cs) s = (False, s)"
| "store_chunks (f # fences) (c # cs) s =
     (if \<not> f then (False, s)
      else case store_chunk c s of None \<Rightarrow> (False, s) | Some s' \<Rightarrow> store_chunks fences cs s')"

definition store_crossrefs_bulk :: "bool list \<Rightarrow> (int \<times> json list) list \<Rightarrow> db \<Rightarrow> bool \<times> db" where
  "store_crossrefs_bulk fences rows s = store_chunks fences (chunked 50 rows) s"

section \<open>Explicit links\<close>

definition edge_types :: "string list" where
  "edge_types = [''related_to'', ''supersedes'', ''contradicts'', ''implements'', ''extends'', ''references'']"

definition get_reverse_edge_type :: "string \<Rightarrow> string" where
  "get_reverse_edge_type et =
     (if et = ''references'' then ''referenced_by''
      else if et = ''implements'' then ''implemented_by''
      else if et = ''supersedes'' then ''superseded_by''
      else if et = ''extends'' then ''extended_by''
      else if et = ''contradicts'' then ''contradicts''
      else ''related_to'')"

datatype link_error = InvalidEdgeType | MemoryNotFound int | CasExhausted

record link = ln_from :: int ln_to :: int ln_type :: string

definition link_text :: "int \<Rightarrow> int \<Rightarrow> string \<Rightarrow> string" where
  "link_text a b et = ''Linked #'' @ int_text a @ '' -> #'' @ int_text b @ '' ('' @ et @ '')''"

definition add_link :: "(db \<Rightarrow> db) list \<Rightarrow> (db \<Rightarrow> db) list \<Rightarrow> int \<Rightarrow> int \<Rightarrow> string \<Rightarrow> bool \<Rightarrow> db \<Rightarrow>
    link_error + link list \<times> db" where
  "add_link others1 others2 from_id to_id et bidirectional s =
     (if et \<notin> set edge_types then Inl InvalidEdgeType
      else if \<not> memory_exists s from_id then Inl (MemoryNotFound from_id)
      else if \<not> memory_exists s to_id then Inl (MemoryNotFound to_id)
      else case upsert_crossref_edge others1 from_id to_id et s of
          None \<Rightarrow> Inl CasExhausted
        | Some s1 \<Rightarrow>
            (let l1 = \<lparr>ln_from = from_id, ln_to = to_id, ln_type = et\<rparr>;
                 done = (\<lambda>ls s'. Inr (ls, log_action from_id ''link'' (link_text from_id to_id et) s')) in
             if \<not> bidirectional then done [l1] s1
             else (let rt = get_reverse_edge_type et in
                   case upsert_crossref_edge others2 to_id from_id rt s1 of
                     None \<Rightarrow> Inl CasExhausted
                   | Some s2 \<Rightarrow> done [l1, \<lparr>ln_from = to_id, ln_to = from_id, ln_type = rt\<rparr>] s2)))"

definition unlink_text :: "int \<Rightarrow> int \<Rightarrow> string" where
  "unlink_text a b = ''Unlinked #'' @ int_text a @ '' -> #'' @ int_text b"

definition drop_refs :: "int \<Rightarrow> int \<Rightarrow> db \<Rightarrow> (bool \<times> db) option" where
  "drop_refs mid peer s =
     do { new_refs \<leftarrow> filter_opt (not_to peer) (get_crossrefs s mid);
          if length new_refs < length (get_crossrefs s mid)
          then do { s' \<leftarrow> store_crossrefs mid new_refs s; Some (True, s') }
          else Some (False, s) }"

definition remove_link :: "int \<Rightarrow> int \<Rightarrow> bool \<Rightarrow> db \<Rightarrow> ((int \<times> int) list \<times> db) option" where
  "remove_link from_id to_id bidirectional s =
     do { (r1, s1) \<leftarrow> drop_refs from_id to_id s;
          (r2, s2) \<leftarrow> (if bidirectional then drop_refs to_id from_id s1 else Some (False, s1));
          (let removed = (if r1 then [(from_id, to_id)] else []) @ (if r2 then [(to_id, from_id)] else []) in
           Some (removed, if removed = [] then s2 else log_action from_id ''unlink'' (unlink_text from_id to_id) s2)) }"

text \<open>\<open>_remove_memory_from_crossrefs\<close>: every blob of the table, read before the loop.\<close>

fun remove_from_rows :: "int \<Rightarrow> (int \<times> blob) list \<Rightarrow> db \<Rightarrow> db option" where
  "remove_from_rows mid [] s = Some s"
| "remove_from_rows mid ((owner, b) # rows) s =
     do { filtered \<leftarrow> (case b of
                         BJson (JList xs) \<Rightarrow> filter_opt (not_to mid) xs
                       | BJson (JObj d) \<Rightarrow> (if d = [] then Some [] else None)
                       | BJson (JStr t) \<Rightarrow> (if t = '''' then Some [] else None)
                       | BJson _ \<Rightarrow> None
                       | _ \<Rightarrow> Some []);
          s' \<leftarrow> (if length filtered \<noteq> length (blob_list b) then store_crossrefs owner filtered s else Some s);
          remove_from_rows mid rows s' }"

definition remove_memory_from_crossrefs :: "int \<Rightarrow> db \<Rightarrow> db option" where
  "remove_memory_from_crossrefs mid s = remove_from_rows mid (db_crossrefs s) s"

end
