(* ===== verification/Lineage_Links.thy ===== *)
theory Lineage_Links
  imports Lineage_Store
begin

text \<open>
  What the edge writes of \<open>memora/storage.py\<close> guarantee: the compare-and-set merge is atomic under
  any interference, a link is visible from both ends and touches nothing else, and removing it
  gives the references back.  The contract of the cross-reference column is the locale
  \<open>edge_store\<close>, interpreted on the model of the table.
\<close>

section \<open>The contract of the cross-reference column\<close>

locale edge_store =
  fixes refs :: "'s \<Rightarrow> int \<Rightarrow> json list"
    and put :: "int \<Rightarrow> json list \<Rightarrow> 's \<Rightarrow> 's"
  assumes refs_put: "refs (put m rs s) n = (if n = m then rs else refs s n)"
begin

definition write_pair :: "int \<Rightarrow> json list \<Rightarrow> int \<Rightarrow> json list \<Rightarrow> 's \<Rightarrow> 's" where
  "write_pair a ra b rb s = put b rb (put a ra s)"

lemma write_pair_refs: "a \<noteq> b \<Longrightarrow>
    refs (write_pair a ra b rb s) n = (if n = a then ra else if n = b then rb else refs s n)"
  by (simp add: write_pair_def refs_put)

lemma write_pair_back: "a \<noteq> b \<Longrightarrow>
    refs (write_pair a (refs s a) b (refs s b) (write_pair a ra b rb s)) n = refs s n"
  by (simp add: write_pair_def refs_put)

lemma put_fold: "distinct (map fst rows) \<Longrightarrow>
    refs (fold (\<lambda>(m, rs). put m rs) rows s) n = (case map_of rows n of None \<Rightarrow> refs s n | Some rs \<Rightarrow> rs)"
proof (induction rows arbitrary: s)
  case (Cons row rows)
  then show ?case
    by (cases row) (auto simp: refs_put map_of_eq_None_iff [symmetric] split: option.splits)
qed simp

end

lemma get_put_crossrefs: "get_crossrefs (put_crossrefs m rs s) n = (if n = m then rs else get_crossrefs s n)"
  by (simp add: get_crossrefs_def put_crossrefs_def)

interpretation crossref_column: edge_store get_crossrefs put_crossrefs
  by unfold_locales (rule get_put_crossrefs)

lemma put_frame [simp]:
  "db_memories (put_crossrefs m rs s) = db_memories s" "db_components (put_crossrefs m rs s) = db_components s"
  "db_tombstones (put_crossrefs m rs s) = db_tombstones s" "db_table (put_crossrefs m rs s) = db_table s"
  "db_fk (put_crossrefs m rs s) = db_fk s" "db_actions (put_crossrefs m rs s) = db_actions s"
  "db_now (put_crossrefs m rs s) = db_now s" "db_max_params (put_crossrefs m rs s) = db_max_params s"
  by (simp_all add: put_crossrefs_def)

lemma log_frame [simp]:
  "db_memories (log_action m a t s) = db_memories s" "db_components (log_action m a t s) = db_components s"
  "db_tombstones (log_action m a t s) = db_tombstones s" "db_table (log_action m a t s) = db_table s"
  "db_crossrefs (log_action m a t s) = db_crossrefs s" "db_fk (log_action m a t s) = db_fk s"
  by (simp_all add: log_action_def)

lemma get_crossrefs_log [simp]: "get_crossrefs (log_action m a t s) n = get_crossrefs s n"
  by (simp add: get_crossrefs_def)

lemma memory_exists_frame [simp]:
  "memory_exists (put_crossrefs m rs s) n = memory_exists s n" "memory_exists (log_action m a t s) n = memory_exists s n"
  "has_row (put_crossrefs m rs s) n = has_row s n" "has_row (log_action m a t s) n = has_row s n"
  by (simp_all add: memory_exists_def has_row_def)

section \<open>The merge of one edge\<close>

text \<open>References the code can read: objects, and (for the walks) objects with an id.\<close>

definition readable :: "json list \<Rightarrow> bool" where
  "readable refs \<longleftrightarrow> (\<forall>r \<in> set refs. \<exists>d. r = JObj d)"

definition points_to :: "int \<Rightarrow> json \<Rightarrow> bool" where
  "points_to peer r \<longleftrightarrow> not_to peer r = Some False"

lemma not_to_object: "\<exists>d. r = JObj d \<Longrightarrow> not_to peer r = Some (\<not> points_to peer r)"
  by (auto simp: not_to_def points_to_def)

lemma filter_not_to: "readable refs \<Longrightarrow> filter_opt (not_to peer) refs = Some (filter (\<lambda>r. \<not> points_to peer r) refs)"
  by (rule filter_opt_total) (auto simp: readable_def intro: not_to_object)

lemma json_object_cases: "(case r of JObj d \<Rightarrow> Some (P d) | _ \<Rightarrow> None) \<noteq> None \<Longrightarrow> \<exists>d. r = JObj d"
  by (cases r) auto

lemma filter_not_to_readable: "filter_opt (not_to peer) refs = Some ys \<Longrightarrow> readable refs"
  unfolding readable_def by (drule filter_opt_Some) (use json_object_cases in \<open>fastforce simp: not_to_def\<close>)

lemma points_to_entry [simp]: "points_to p (edge_entry q et) \<longleftrightarrow> p = q"
  by (auto simp: points_to_def not_to_def edge_entry_def json_get_def)

lemma merge_edge_readable: "readable refs \<Longrightarrow>
    merge_edge peer et refs = Some (filter (\<lambda>r. \<not> points_to peer r) refs @ [edge_entry peer et])"
  by (simp add: merge_edge_def filter_not_to)

lemma merge_edge_Some: "merge_edge peer et refs = Some merged \<Longrightarrow>
    readable refs \<and> merged = filter (\<lambda>r. \<not> points_to peer r) refs @ [edge_entry peer et]"
proof -
  assume m: "merge_edge peer et refs = Some merged"
  then obtain x where x: "filter_opt (not_to peer) refs = Some x" "merged = x @ [edge_entry peer et]"
    by (auto simp: merge_edge_def split: bind_splits)
  from filter_not_to_readable [OF x(1)] show ?thesis using x filter_not_to [of refs peer] by simp
qed

lemma readable_merged: "readable refs \<Longrightarrow> readable (filter P refs @ [edge_entry peer et])"
  by (auto simp: readable_def edge_entry_def)

lemma readable_filter: "readable refs \<Longrightarrow> readable (filter P refs)"
  by (auto simp: readable_def)

lemma cas_Some: "load_crossrefs_raw s0 mid = (row_exists, raw, existing) \<Longrightarrow>
    cas_store_crossrefs mid row_exists raw merged s = (True, s') \<Longrightarrow>
    get_crossrefs s mid = existing \<and> s' = put_crossrefs mid merged s"
  by (auto simp: load_crossrefs_raw_def cas_store_crossrefs_def get_crossrefs_def blob_list_def
      split: option.splits if_splits)

lemma cas_None: "cas_store_crossrefs mid row_exists raw merged s = (False, s') \<Longrightarrow> s' = s"
  by (auto simp: cas_store_crossrefs_def split: if_splits)

lemma upsert_Some: "upsert_crossref_edge others mid peer et s = Some s' \<Longrightarrow>
    \<exists>n < length others. \<exists>s0. s0 = fold (\<lambda>f x. f x) (take (Suc n) others) s \<and>
      readable (get_crossrefs s0 mid) \<and>
      s' = put_crossrefs mid (filter (\<lambda>r. \<not> points_to peer r) (get_crossrefs s0 mid) @ [edge_entry peer et]) s0"
proof (induction others arbitrary: s)
  case (Cons f others)
  obtain row_exists raw existing where l: "load_crossrefs_raw s mid = (row_exists, raw, existing)"
    by (metis prod_cases3)
  from Cons.prems obtain merged where m: "merge_edge peer et existing = Some merged"
    by (auto simp: l split: bind_splits)
  obtain ok s1 where c: "cas_store_crossrefs mid row_exists raw merged (f s) = (ok, s1)"
    by (metis prod.exhaust)
  show ?case
  proof (cases ok)
    case True
    with Cons.prems have "s' = s1" by (simp add: l m c)
    moreover from cas_Some [OF l] c True have "get_crossrefs (f s) mid = existing" "s1 = put_crossrefs mid merged (f s)" by auto
    ultimately show ?thesis using merge_edge_Some [OF m] by (intro exI [of _ 0]) auto
  next
    case False
    then have "s1 = f s" using c cas_None by simp
    with Cons.prems False have "upsert_crossref_edge others mid peer et (f s) = Some s'" by (simp add: l m c)
    from Cons.IH [OF this] obtain n where "n < length others"
      "readable (get_crossrefs (fold (\<lambda>f x. f x) (take (Suc n) others) (f s)) mid)"
      "s' = put_crossrefs mid (filter (\<lambda>r. \<not> points_to peer r)
         (get_crossrefs (fold (\<lambda>f x. f x) (take (Suc n) others) (f s)) mid) @ [edge_entry peer et])
         (fold (\<lambda>f x. f x) (take (Suc n) others) (f s))"
      by blast
    then show ?thesis by (intro exI [of _ "Suc n"]) simp
  qed
qed simp

text \<open>A blob the merge can be written over: not the empty text, which reads as no value.\<close>

definition mergeable :: "db \<Rightarrow> int \<Rightarrow> bool" where
  "mergeable s mid \<longleftrightarrow> readable (get_crossrefs s mid) \<and> map_of (db_crossrefs s) mid \<noteq> Some (BRaw '''') \<and>
     (map_of (db_crossrefs s) mid = None \<longrightarrow> fk_ok s mid)"

lemma upsert_alone: "mergeable s mid \<Longrightarrow> upsert_crossref_edge (id # others) mid peer et s =
    Some (put_crossrefs mid (filter (\<lambda>r. \<not> points_to peer r) (get_crossrefs s mid) @ [edge_entry peer et]) s)"
  by (auto simp: mergeable_def load_crossrefs_raw_def get_crossrefs_def merge_edge_readable cas_store_crossrefs_def
      blob_list_def readable_def split: option.splits)

section \<open>Linking and unlinking\<close>

definition linked_refs :: "int \<Rightarrow> string \<Rightarrow> json list \<Rightarrow> json list" where
  "linked_refs peer et refs = filter (\<lambda>r. \<not> points_to peer r) refs @ [edge_entry peer et]"

lemma filter_linked_refs: "filter (\<lambda>r. \<not> points_to peer r) (linked_refs peer et refs) = filter (\<lambda>r. \<not> points_to peer r) refs"
  by (simp add: linked_refs_def)

lemma readable_linked: "readable refs \<Longrightarrow> readable (linked_refs peer et refs)"
  by (simp add: linked_refs_def readable_merged)

lemma length_filter_linked: "length (filter (\<lambda>r. \<not> points_to peer r) refs) < length (linked_refs peer et refs)"
  by (simp add: linked_refs_def)

lemma mergeable_put: "a \<noteq> b \<Longrightarrow> mergeable s b \<Longrightarrow> mergeable (put_crossrefs a rs s) b"
  by (auto simp: mergeable_def get_put_crossrefs fk_ok_def) (auto simp: put_crossrefs_def)

lemma add_link_alone:
  assumes "et \<in> set edge_types" "memory_exists s a" "memory_exists s b" "a \<noteq> b" "mergeable s a" "mergeable s b"
  shows "add_link alone alone a b et True s =
    Inr ([\<lparr>ln_from = a, ln_to = b, ln_type = et\<rparr>, \<lparr>ln_from = b, ln_to = a, ln_type = get_reverse_edge_type et\<rparr>],
      log_action a ''link'' (link_text a b et)
        (crossref_column.write_pair a (linked_refs b et (get_crossrefs s a))
           b (linked_refs a (get_reverse_edge_type et) (get_crossrefs s b)) s))"
proof -
  obtain rest where al: "alone = id # rest" by (simp add: alone_def crossref_cas_retries_def numeral_eq_Suc)
  have 1: "upsert_crossref_edge alone a b et s = Some (put_crossrefs a (linked_refs b et (get_crossrefs s a)) s)"
    unfolding al linked_refs_def by (rule upsert_alone [OF assms(5)])
  have 2: "upsert_crossref_edge alone b a et' (put_crossrefs a rs s)
      = Some (put_crossrefs b (linked_refs a et' (get_crossrefs s b)) (put_crossrefs a rs s))" for rs et'
    unfolding al linked_refs_def using upsert_alone [OF mergeable_put [OF assms(4,6)]] assms(4)
    by (simp add: get_put_crossrefs)
  show ?thesis using assms by (simp add: add_link_def 1 2 Let_def crossref_column.write_pair_def)
qed

lemma drop_refs_readable: "readable (get_crossrefs s m) \<Longrightarrow> fk_ok s m \<Longrightarrow>
    length (filter (\<lambda>r. \<not> points_to p r) (get_crossrefs s m)) < length (get_crossrefs s m) \<Longrightarrow>
    drop_refs m p s = Some (True, put_crossrefs m (filter (\<lambda>r. \<not> points_to p r) (get_crossrefs s m)) s)"
  by (simp add: drop_refs_def filter_not_to store_crossrefs_def)

section \<open>Properties\<close>

text \<open>C21: the merge of one edge is atomic whatever other clients write between its reads and its
  writes: when it succeeds, the state after it is the state some interfering write left, with exactly the
  references to the peer replaced by the new edge, so no concurrent edge is lost.\<close>

theorem edge_merge_atomic:
  assumes "upsert_crossref_edge others mid peer et s = Some s'"
  shows "\<exists>n < length others. let s0 = fold (\<lambda>f x. f x) (take (Suc n) others) s in
    s' = put_crossrefs mid (linked_refs peer et (get_crossrefs s0 mid)) s0 \<and>
    (\<forall>m. get_crossrefs s' m = (if m = mid then linked_refs peer et (get_crossrefs s0 mid) else get_crossrefs s0 m))"
  using upsert_Some [OF assms] by (auto simp: Let_def linked_refs_def get_put_crossrefs)

definition empty_db :: db where
  "empty_db = \<lparr>db_memories = [], db_crossrefs = [], db_components = [], db_tombstones = [], db_actions = [],
     db_table = (\<lambda>_. TableOk), db_fk = False, db_now = ''2026-01-01 00:00:00'',
     db_max_params = 100\<rparr>"

definition plain_row :: "string \<Rightarrow> memory_row" where
  "plain_row text = \<lparr>mr_content = text, mr_metadata = BNull\<rparr>"

definition ex_three :: db where
  "ex_three = empty_db\<lparr>db_memories := [(1, plain_row ''one''), (2, plain_row ''two''), (3, plain_row ''three'')]\<rparr>"

text \<open>A second client links 1 to 3 between the read and the write of the first attempt.\<close>

definition ex_interference :: "(db \<Rightarrow> db) list" where
  "ex_interference = [put_crossrefs 1 [edge_entry 3 ''references''], id]"

theorem edge_merge_atomic_witness:
  "\<exists>s'. upsert_crossref_edge ex_interference 1 2 ''supersedes'' ex_three = Some s' \<and>
     get_crossrefs s' 1 = [edge_entry 3 ''references'', edge_entry 2 ''supersedes''] \<and>
     (\<exists>n < 2. \<forall>m. m \<noteq> 1 \<longrightarrow> get_crossrefs s' m =
        get_crossrefs (fold (\<lambda>f x. f x) (take (Suc n) ex_interference) ex_three) m)"
proof -
  let ?s = "put_crossrefs 1 [edge_entry 3 ''references'', edge_entry 2 ''supersedes'']
      (put_crossrefs 1 [edge_entry 3 ''references''] ex_three)"
  have s: "upsert_crossref_edge ex_interference 1 2 ''supersedes'' ex_three = Some ?s"
    by (simp add: ex_interference_def ex_three_def empty_db_def load_crossrefs_raw_def merge_edge_def
        cas_store_crossrefs_def put_crossrefs_def related_blob_def edge_entry_def blob_list_def not_to_def
        json_get_def Let_def)
  have len: "length ex_interference = 2" by (simp add: ex_interference_def)
  obtain n where n: "n < 2" "\<And>m. m \<noteq> 1 \<Longrightarrow> get_crossrefs ?s m =
      get_crossrefs (fold (\<lambda>f x. f x) (take (Suc n) ex_interference) ex_three) m"
    using edge_merge_atomic [OF s] unfolding len Let_def by metis
  then have "\<exists>n < 2. \<forall>m. m \<noteq> 1 \<longrightarrow> get_crossrefs ?s m =
      get_crossrefs (fold (\<lambda>f x. f x) (take (Suc n) ex_interference) ex_three) m" by blast
  moreover have "get_crossrefs ?s 1 = [edge_entry 3 ''references'', edge_entry 2 ''supersedes'']"
    by (simp add: get_put_crossrefs)
  ultimately show ?thesis using s by blast
qed

text \<open>a two-way link between two memories is seen from both ends, with the reverse edge type on the
  other end, replaces what the pair said of each other before, touches no other memory's references, and
  unlinking the pair gives back every other reference in its order.\<close>

theorem link_unlink:
  assumes "et \<in> set edge_types" "memory_exists s a" "memory_exists s b" "a \<noteq> b" "mergeable s a" "mergeable s b"
  shows "\<exists>ls s'. add_link alone alone a b et True s = Inr (ls, s') \<and>
    get_crossrefs s' a = linked_refs b et (get_crossrefs s a) \<and>
    get_crossrefs s' b = linked_refs a (get_reverse_edge_type et) (get_crossrefs s b) \<and>
    (\<forall>m. m \<noteq> a \<longrightarrow> m \<noteq> b \<longrightarrow> get_crossrefs s' m = get_crossrefs s m) \<and>
    (\<exists>s''. remove_link a b True s' = Some ([(a, b), (b, a)], s'') \<and>
      get_crossrefs s'' a = filter (\<lambda>r. \<not> points_to b r) (get_crossrefs s a) \<and>
      get_crossrefs s'' b = filter (\<lambda>r. \<not> points_to a r) (get_crossrefs s b) \<and>
      (\<forall>m. m \<noteq> a \<longrightarrow> m \<noteq> b \<longrightarrow> get_crossrefs s'' m = get_crossrefs s m))"
proof -
  let ?ra = "linked_refs b et (get_crossrefs s a)" and ?rb = "linked_refs a (get_reverse_edge_type et) (get_crossrefs s b)"
  define s' where "s' = log_action a ''link'' (link_text a b et) (crossref_column.write_pair a ?ra b ?rb s)"
  have refs: "get_crossrefs s' n = (if n = a then ?ra else if n = b then ?rb else get_crossrefs s n)" for n
    by (simp add: s'_def crossref_column.write_pair_refs [OF assms(4)])
  have fk: "fk_ok s' a" "fk_ok s' b"
    using assms(2,3) by (simp_all add: s'_def fk_ok_def crossref_column.write_pair_def memory_exists_row)
  have rd: "readable ?ra" "readable ?rb" using assms(5,6) by (simp_all add: mergeable_def readable_linked)
  have d1: "drop_refs a b s' = Some (True, put_crossrefs a (filter (\<lambda>r. \<not> points_to b r) (get_crossrefs s a)) s')"
    using drop_refs_readable [of s' a b] fk rd by (simp add: refs filter_linked_refs length_filter_linked)
  let ?s1 = "put_crossrefs a (filter (\<lambda>r. \<not> points_to b r) (get_crossrefs s a)) s'"
  have d2: "drop_refs b a ?s1 = Some (True, put_crossrefs b (filter (\<lambda>r. \<not> points_to a r) (get_crossrefs s b)) ?s1)"
    using drop_refs_readable [of ?s1 b a] fk rd assms(4)
    by (simp add: refs filter_linked_refs length_filter_linked get_put_crossrefs fk_ok_def)
  show ?thesis
    using add_link_alone [OF assms] assms(4)
    by (auto simp: s'_def [symmetric] refs remove_link_def d1 d2 get_put_crossrefs)
qed

theorem link_unlink_witness:
  "\<exists>ls s'. add_link alone alone 2 1 ''supersedes'' True ex_three = Inr (ls, s') \<and>
     get_crossrefs s' 1 = [edge_entry 2 ''superseded_by'']"
proof -
  have g: "get_crossrefs ex_three m = []" "memory_exists ex_three 1" "memory_exists ex_three 2"
    "mergeable ex_three 1" "mergeable ex_three 2" for m
    by (simp_all add: ex_three_def empty_db_def memory_exists_def mergeable_def get_crossrefs_def readable_def
        plain_row_def import_pending_def fk_ok_def)
  have "\<exists>ls s'. add_link alone alone 2 1 ''supersedes'' True ex_three = Inr (ls, s') \<and>
      get_crossrefs s' 1 = linked_refs 2 (get_reverse_edge_type ''supersedes'') (get_crossrefs ex_three 1)"
    using link_unlink [of "''supersedes''" ex_three 2 1] g by (auto simp: edge_types_def)
  then show ?thesis by (simp add: g linked_refs_def get_reverse_edge_type_def)
qed

lemma store_chunk_fold: "\<forall>(m, rs) \<in> set rows. fk_ok s m \<Longrightarrow>
    store_chunk rows s = Some (fold (\<lambda>(m, rs). put_crossrefs m rs) rows s)"
proof (induction rows arbitrary: s)
  case (Cons row rows)
  then show ?case by (cases row) (auto simp: store_crossrefs_def fk_ok_def)
qed simp

lemma fold_put_row: "has_row (fold (\<lambda>(m, rs). put_crossrefs m rs) rows s) n = has_row s n \<and>
    db_fk (fold (\<lambda>(m, rs). put_crossrefs m rs) rows s) = db_fk s"
proof (induction rows arbitrary: s)
  case (Cons row rows)
  then show ?case by (cases row) (simp only: fold.simps o_apply prod.case memory_exists_frame put_frame)
qed simp

lemma store_chunks_fold: "list_all id fences \<Longrightarrow> length cs \<le> length fences \<Longrightarrow>
    \<forall>(m, rs) \<in> set (concat cs). fk_ok s m \<Longrightarrow>
    store_chunks fences cs s = (True, fold (\<lambda>(m, rs). put_crossrefs m rs) (concat cs) s)"
proof (induction fences cs s rule: store_chunks.induct)
  case (3 f fences c cs s)
  let ?s = "fold (\<lambda>(m, rs). put_crossrefs m rs) c s"
  have c: "store_chunk c s = Some ?s" using 3 by (intro store_chunk_fold) auto
  have "\<forall>(m, rs) \<in> set (concat cs). fk_ok ?s m" using 3 by (auto simp: fk_ok_def fold_put_row)
  then have "store_chunks fences cs ?s = (True, fold (\<lambda>(m, rs). put_crossrefs m rs) (concat cs) ?s)"
    using 3 c by auto
  then show ?case using 3 c by simp
qed simp_all

text \<open>The chunked bulk write is the sequence of the single writes: with every fence held and every
  owner present, fifty rows at a time give each owner its references and leave every other owner's alone.\<close>

theorem bulk_is_sequential:
  assumes "list_all id fences" and "length (chunked 50 rows) \<le> length fences"
    and "\<forall>(m, rs) \<in> set rows. fk_ok s m" and "distinct (map fst rows)"
  shows "\<exists>s'. store_crossrefs_bulk fences rows s = (True, s') \<and>
    (\<forall>m. get_crossrefs s' m = (case map_of rows m of None \<Rightarrow> get_crossrefs s m | Some rs \<Rightarrow> rs))"
  using store_chunks_fold [of fences "chunked 50 rows" s] assms
  by (simp add: store_crossrefs_bulk_def concat_chunked crossref_column.put_fold)

theorem bulk_is_sequential_witness:
  "\<exists>s'. store_crossrefs_bulk [True] [(1, [edge_entry 2 ''supersedes''])] ex_three = (True, s') \<and>
     get_crossrefs s' 1 = [edge_entry 2 ''supersedes'']"
proof -
  have "length (chunked 50 [(1 :: int, [edge_entry 2 ''supersedes''])]) \<le> length [True]"
    by (simp add: chunked.simps)
  moreover have "\<forall>(m, rs) \<in> set [(1 :: int, [edge_entry 2 ''supersedes''])]. fk_ok ex_three m"
    by (simp add: fk_ok_def ex_three_def empty_db_def)
  ultimately have "\<exists>s'. store_crossrefs_bulk [True] [(1, [edge_entry 2 ''supersedes''])] ex_three = (True, s') \<and>
     (\<forall>m. get_crossrefs s' m = (case map_of [(1, [edge_entry 2 ''supersedes''])] m of
        None \<Rightarrow> get_crossrefs ex_three m | Some rs \<Rightarrow> rs))"
    by (intro bulk_is_sequential) simp_all
  then obtain s' where s': "store_crossrefs_bulk [True] [(1, [edge_entry 2 ''supersedes''])] ex_three = (True, s')"
    and g: "\<forall>m. get_crossrefs s' m = (case map_of [(1, [edge_entry 2 ''supersedes''])] m of
        None \<Rightarrow> get_crossrefs ex_three m | Some rs \<Rightarrow> rs)" by blast
  from g [rule_format, of 1] s' show ?thesis by auto
qed

end
