(* ===== verification/Lineage_Walk.thy ===== *)
theory Lineage_Walk
  imports Lineage_Links
begin

text \<open>
  The supersession walks of \<open>memora/storage.py\<close> (\<open>_walk_chain\<close>, \<open>_get_full_history\<close>,
  \<open>_resolve_latest\<close>, \<open>_component_live_leaves\<close>), each over the two readers \<open>_graph_readers\<close>
  hands it: the reference list of a memory and whether a memory exists.  \<open>None\<close> is an exception
  (an entry that is not an object or has no id), or a text id on the walked edge, which SQL's type
  affinity may still match with a row; \<open>_refs_walk_unsafe\<close> flags exactly those lists.
\<close>

section \<open>Reading one reference\<close>

definition walk_ref :: "string \<Rightarrow> json \<Rightarrow> int option option" where
  "walk_ref et r =
     (case r of
        JObj d \<Rightarrow>
          (case map_of d ''id'' of
             None \<Rightarrow> None
           | Some rid \<Rightarrow>
               if json_get ''edge_type'' d \<noteq> JStr et then Some None
               else if unhashable rid \<or> is_pystr rid then None
               else Some (py_int rid))
      | _ \<Rightarrow> None)"

text \<open>
  \<open>has_successor\<close> and \<open>has_parent\<close>: the edge type is tested first, so an entry of another type may
  lack an id.
\<close>

definition successor_ref :: "(int \<Rightarrow> bool) \<Rightarrow> int list \<Rightarrow> int \<Rightarrow> json \<Rightarrow> bool option" where
  "successor_ref ex members mid r =
     (case r of
        JObj d \<Rightarrow>
          if json_get ''edge_type'' d \<noteq> JStr ''superseded_by'' then Some False
          else (case map_of d ''id'' of
                  None \<Rightarrow> None
                | Some rid \<Rightarrow>
                    if unhashable rid then None
                    else (case py_int rid of
                            Some n \<Rightarrow> Some (n \<in> set members \<and> n \<noteq> mid \<and> ex n) | None \<Rightarrow> Some False))
      | _ \<Rightarrow> None)"

definition parent_ref :: "(int \<Rightarrow> bool) \<Rightarrow> int \<Rightarrow> json \<Rightarrow> bool option" where
  "parent_ref ex mid r =
     (case r of
        JObj d \<Rightarrow>
          if json_get ''edge_type'' d \<noteq> JStr ''supersedes'' then Some False
          else (case map_of d ''id'' of
                  None \<Rightarrow> None
                | Some rid \<Rightarrow>
                    if unhashable rid \<or> is_pystr rid then None
                    else (case py_int rid of Some n \<Rightarrow> Some (n \<noteq> mid \<and> ex n) | None \<Rightarrow> Some False))
      | _ \<Rightarrow> None)"

section \<open>The breadth-first walk\<close>

definition max_chain_depth :: nat where
  "max_chain_depth = 200"

text \<open>\<open>visited\<close> is always the set of the ids on the chain.\<close>

fun step_refs :: "(int \<Rightarrow> bool) \<Rightarrow> string \<Rightarrow> json list \<Rightarrow> int list \<times> int list \<Rightarrow> (int list \<times> int list) option" where
  "step_refs ex et [] st = Some st"
| "step_refs ex et (r # rs) (chain, nxt) =
     do { t \<leftarrow> walk_ref et r;
          step_refs ex et rs
            (case t of
               Some n \<Rightarrow> if n \<notin> set chain \<and> ex n then (chain @ [n], nxt @ [n]) else (chain, nxt)
             | None \<Rightarrow> (chain, nxt)) }"

fun step_level :: "(int \<Rightarrow> json list) \<Rightarrow> (int \<Rightarrow> bool) \<Rightarrow> string \<Rightarrow> int list \<Rightarrow> int list \<times> int list \<Rightarrow>
    (int list \<times> int list) option" where
  "step_level cr ex et [] st = Some st"
| "step_level cr ex et (c # cs) st = do { st' \<leftarrow> step_refs ex et (cr c) st; step_level cr ex et cs st' }"

fun walk_levels :: "(int \<Rightarrow> json list) \<Rightarrow> (int \<Rightarrow> bool) \<Rightarrow> string \<Rightarrow> nat \<Rightarrow> int list \<Rightarrow> int list \<Rightarrow> int list option" where
  "walk_levels cr ex et 0 queue chain = Some chain"
| "walk_levels cr ex et (Suc d) queue chain =
     (if queue = [] then Some chain
      else do { (chain', nxt) \<leftarrow> step_level cr ex et queue (chain, []); walk_levels cr ex et d nxt chain' })"

definition walk_chain :: "(int \<Rightarrow> json list) \<Rightarrow> (int \<Rightarrow> bool) \<Rightarrow> int \<Rightarrow> string \<Rightarrow> int list option" where
  "walk_chain cr ex mid et = walk_levels cr ex et max_chain_depth [mid] [mid]"

fun map_opt :: "('a \<Rightarrow> 'b option) \<Rightarrow> 'a list \<Rightarrow> 'b list option" where
  "map_opt f [] = Some []"
| "map_opt f (x # xs) = do { y \<leftarrow> f x; ys \<leftarrow> map_opt f xs; Some (y # ys) }"

definition get_full_history :: "(int \<Rightarrow> json list) \<Rightarrow> (int \<Rightarrow> bool) \<Rightarrow> int \<Rightarrow> int list option" where
  "get_full_history cr ex mid =
     do { ancestors \<leftarrow> walk_chain cr ex mid ''supersedes'';
          found \<leftarrow> filter_opt (\<lambda>m. map_option Not (any_opt (parent_ref ex m) (cr m))) ancestors;
          (let roots = (if found = [] then [mid] else found) in
           do { chains \<leftarrow> map_opt (\<lambda>root. walk_chain cr ex root ''superseded_by'') (sort roots);
                Some (uniq (concat chains)) }) }"

text \<open>The members of a component nothing in it supersedes.\<close>

definition chain_leaves :: "(int \<Rightarrow> json list) \<Rightarrow> (int \<Rightarrow> bool) \<Rightarrow> int list \<Rightarrow> int list option" where
  "chain_leaves cr ex members =
     filter_opt (\<lambda>m. map_option Not (any_opt (successor_ref ex members m) (cr m))) members"

text \<open>\<open>tomb\<close> answers \<open>_is_tombstoned_id\<close>, which may raise.\<close>

definition resolve_latest :: "(int \<Rightarrow> json list) \<Rightarrow> (int \<Rightarrow> bool) \<Rightarrow> (int \<Rightarrow> bool option) \<Rightarrow> int \<Rightarrow> int list option" where
  "resolve_latest cr ex tomb mid =
     do { t \<leftarrow> tomb mid;
          if t then Some []
          else do { all_ids \<leftarrow> walk_chain cr ex mid ''superseded_by'';
                    leaves \<leftarrow> chain_leaves cr ex all_ids;
                    if leaves = [] then Some [Max (set all_ids)]
                    else filter_opt (\<lambda>m. map_option Not (tomb m)) leaves } }"

definition component_live_leaves ::
    "(int \<Rightarrow> json list) \<Rightarrow> (int \<Rightarrow> bool) \<Rightarrow> (int \<Rightarrow> bool option) \<Rightarrow> int \<Rightarrow> (int list \<times> bool) option" where
  "component_live_leaves cr ex tomb mid =
     do { t \<leftarrow> tomb mid;
          if t then Some ([], False)
          else do { component \<leftarrow> get_full_history cr ex mid;
                    if component = [] then Some ([mid], False)
                    else do { hidden \<leftarrow> any_opt tomb component;
                              if hidden then Some ([], False)
                              else do { leaves \<leftarrow> chain_leaves cr ex component;
                                        if leaves = [] then Some ([Max (set component)], True)
                                        else do { live \<leftarrow> filter_opt (\<lambda>m. map_option Not (tomb m)) leaves;
                                                  Some (sort live, False) } } } } }"

record supersedes_plan =
  sp_targets :: "int list"
  sp_collapsible :: bool
  sp_cycle :: bool
  sp_tombstoned :: bool

definition resolve_absorb_supersedes_target ::
    "(int \<Rightarrow> json list) \<Rightarrow> (int \<Rightarrow> bool) \<Rightarrow> (int \<Rightarrow> bool option) \<Rightarrow> int \<Rightarrow> supersedes_plan option" where
  "resolve_absorb_supersedes_target cr ex tomb mid =
     do { (leaves, is_cycle) \<leftarrow> component_live_leaves cr ex tomb mid;
          if is_cycle then
            do { component \<leftarrow> get_full_history cr ex mid;
                 dead \<leftarrow> map_option Not (any_opt (\<lambda>m. map_option Not (tomb m)) component);
                 if component \<noteq> [] \<and> dead
                 then Some \<lparr>sp_targets = [], sp_collapsible = False, sp_cycle = True, sp_tombstoned = True\<rparr>
                 else Some \<lparr>sp_targets = leaves, sp_collapsible = False, sp_cycle = True, sp_tombstoned = False\<rparr> }
          else if leaves = [] then
            Some \<lparr>sp_targets = [], sp_collapsible = False, sp_cycle = False, sp_tombstoned = True\<rparr>
          else Some \<lparr>sp_targets = leaves, sp_collapsible = True, sp_cycle = False, sp_tombstoned = False\<rparr> }"

section \<open>What a walk visits\<close>

text \<open>One step along an edge type, onto an existing memory.\<close>

definition steps :: "(int \<Rightarrow> json list) \<Rightarrow> (int \<Rightarrow> bool) \<Rightarrow> string \<Rightarrow> (int \<times> int) set" where
  "steps cr ex et = {(a, b). (\<exists>r \<in> set (cr a). walk_ref et r = Some (Some b)) \<and> ex b}"

definition ref_targets :: "(int \<Rightarrow> bool) \<Rightarrow> string \<Rightarrow> json list \<Rightarrow> int set" where
  "ref_targets ex et rs = {b. (\<exists>r \<in> set rs. walk_ref et r = Some (Some b)) \<and> ex b}"

lemma ref_targets_simps [simp]:
  "ref_targets ex et [] = {}"
  "ref_targets ex et (r # rs) =
     (case walk_ref et r of Some (Some n) \<Rightarrow> if ex n then {n} else {} | _ \<Rightarrow> {}) \<union> ref_targets ex et rs"
  by (auto simp: ref_targets_def split: option.splits)

lemma steps_image: "steps cr ex et `` {a} = ref_targets ex et (cr a)"
  by (auto simp: steps_def ref_targets_def)

lemma step_refs_spec: "step_refs ex et rs (chain, nxt) = Some (chain', nxt') \<Longrightarrow> distinct chain \<Longrightarrow>
    (\<exists>new. chain' = chain @ new \<and> nxt' = nxt @ new) \<and> distinct chain' \<and>
    set chain' = set chain \<union> ref_targets ex et rs"
proof (induction rs arbitrary: chain nxt)
  case (Cons r rs)
  from Cons.prems obtain t where t: "walk_ref et r = Some t" by (cases "walk_ref et r") simp_all
  show ?case
  proof (cases "\<exists>n. t = Some n \<and> n \<notin> set chain \<and> ex n")
    case True
    then obtain n where n: "t = Some n" "n \<notin> set chain" "ex n" by blast
    with Cons.prems t have "step_refs ex et rs (chain @ [n], nxt @ [n]) = Some (chain', nxt')" by simp
    from Cons.IH [OF this] Cons.prems n t show ?thesis by auto
  next
    case False
    with Cons.prems t have "step_refs ex et rs (chain, nxt) = Some (chain', nxt')"
      by (auto split: option.splits if_splits)
    from Cons.IH [OF this] Cons.prems False t show ?thesis by (auto split: option.splits)
  qed
qed simp

lemma step_level_spec: "step_level cr ex et cs (chain, nxt) = Some (chain', nxt') \<Longrightarrow> distinct chain \<Longrightarrow>
    (\<exists>new. chain' = chain @ new \<and> nxt' = nxt @ new) \<and> distinct chain' \<and>
    set chain' = set chain \<union> steps cr ex et `` set cs"
proof (induction cs arbitrary: chain nxt)
  case (Cons c cs)
  from Cons.prems obtain c1 n1 where s: "step_refs ex et (cr c) (chain, nxt) = Some (c1, n1)"
    by (cases "step_refs ex et (cr c) (chain, nxt)") auto
  with Cons.prems have "step_level cr ex et cs (c1, n1) = Some (chain', nxt')" by simp
  from Cons.IH [OF this] step_refs_spec [OF s Cons.prems(2)] steps_image [of cr ex et c] show ?case
    by auto
qed simp

text \<open>Everything within a number of steps of a set.\<close>

primrec reach_in :: "(int \<times> int) set \<Rightarrow> nat \<Rightarrow> int set \<Rightarrow> int set" where
  "reach_in R 0 S = S"
| "reach_in R (Suc n) S = reach_in R n (S \<union> R `` S)"

lemma reach_in_mono: "S \<subseteq> reach_in R n S"
proof (induction n arbitrary: S)
  case (Suc n)
  from Suc.IH [of "S \<union> R `` S"] show ?case by auto
qed simp

lemma reach_in_closed: "R `` S \<subseteq> S \<Longrightarrow> reach_in R n S = S"
  by (induction n arbitrary: S) (auto simp: Un_absorb2)

lemma reach_in_relpow: "reach_in R n S = {b. \<exists>k \<le> n. \<exists>a \<in> S. (a, b) \<in> R ^^ k}"
proof (induction n arbitrary: S)
  case (Suc n)
  have "b \<in> reach_in R (Suc n) S \<longleftrightarrow> (\<exists>k \<le> Suc n. \<exists>a \<in> S. (a, b) \<in> R ^^ k)" for b
  proof
    assume "b \<in> reach_in R (Suc n) S"
    then obtain k a where k: "k \<le> n" "a \<in> S \<union> R `` S" "(a, b) \<in> R ^^ k" by (auto simp: Suc.IH)
    then consider "a \<in> S" | c where "c \<in> S" "(c, a) \<in> R" by blast
    then show "\<exists>k \<le> Suc n. \<exists>a \<in> S. (a, b) \<in> R ^^ k"
    proof cases
      case 1
      with k show ?thesis by (meson le_Suc_eq)
    next
      case (2 c)
      with k have "(c, b) \<in> R ^^ Suc k" by (meson relpow_Suc_I2)
      with 2 k show ?thesis by (meson Suc_le_mono)
    qed
  next
    assume "\<exists>k \<le> Suc n. \<exists>a \<in> S. (a, b) \<in> R ^^ k"
    then obtain k a where k: "k \<le> Suc n" "a \<in> S" "(a, b) \<in> R ^^ k" by blast
    show "b \<in> reach_in R (Suc n) S"
    proof (cases k)
      case 0
      with k show ?thesis using reach_in_mono [of "S \<union> R `` S" R n] by auto
    next
      case (Suc j)
      with k obtain c where "(a, c) \<in> R" "(c, b) \<in> R ^^ j" by (meson relpow_Suc_D2)
      with k Suc show ?thesis by (auto simp: Suc.IH)
    qed
  qed
  then show ?case by blast
qed auto

lemma walk_levels_spec: "walk_levels cr ex et d queue chain = Some chain' \<Longrightarrow> distinct chain \<Longrightarrow>
    set queue \<subseteq> set chain \<Longrightarrow> steps cr ex et `` (set chain - set queue) \<subseteq> set chain \<Longrightarrow>
    distinct chain' \<and> (\<exists>new. chain' = chain @ new) \<and> set chain' = reach_in (steps cr ex et) d (set chain)"
proof (induction cr ex et d queue chain rule: walk_levels.induct)
  case (2 cr ex et d queue chain)
  show ?case
  proof (cases "queue = []")
    case True
    with 2 show ?thesis by (auto simp: reach_in_closed [of _ _ "Suc d"] simp del: reach_in.simps)
  next
    case False
    with "2.prems" obtain c1 n1 where s: "step_level cr ex et queue (chain, []) = Some (c1, n1)"
      by (cases "step_level cr ex et queue (chain, [])") auto
    note spec = step_level_spec [OF s "2.prems"(2)]
    then obtain new where new: "c1 = chain @ new" "n1 = new" by auto
    have "steps cr ex et `` set chain = steps cr ex et `` set queue \<union> steps cr ex et `` (set chain - set queue)"
      unfolding Image_Un [symmetric] using "2.prems"(3) by (simp add: Un_absorb1)
    then have all: "set c1 = set chain \<union> steps cr ex et `` set chain"
      using spec "2.prems"(4) by blast
    have rest: "walk_levels cr ex et d n1 c1 = Some chain'" using "2.prems"(1) s False by simp
    have "set c1 - set n1 = set chain" using spec new by auto
    then have "steps cr ex et `` (set c1 - set n1) \<subseteq> set c1" using all by auto
    with "2.IH" [OF False s refl rest] spec new all show ?thesis by auto
  qed
qed auto

lemma walk_chain_spec: "walk_chain cr ex mid et = Some chain \<Longrightarrow>
    distinct chain \<and> (\<exists>new. chain = mid # new) \<and> set chain = reach_in (steps cr ex et) max_chain_depth {mid}"
  unfolding walk_chain_def by (drule walk_levels_spec) auto

lemma star_image_step: "A \<subseteq> R\<^sup>* `` S \<Longrightarrow> R `` A \<subseteq> R\<^sup>* `` S"
proof
  fix b
  assume A: "A \<subseteq> R\<^sup>* `` S" and "b \<in> R `` A"
  then obtain a s where "(a, b) \<in> R" "s \<in> S" "(s, a) \<in> R\<^sup>*" by blast
  then show "b \<in> R\<^sup>* `` S" by (meson ImageI rtrancl.rtrancl_into_rtrancl)
qed

lemma acyclic_tip:
  assumes "finite C" "c \<in> C" "R `` C \<subseteq> C" "acyclic (R - Id)"
  shows "\<exists>m \<in> C. \<forall>b. (m, b) \<in> R \<longrightarrow> b = m"
proof -
  let ?Q = "(R - Id) \<inter> C \<times> C"
  have "acyclic ?Q" using assms(4) by (rule acyclic_subset) blast
  moreover have "finite ?Q" using assms(1) by (meson finite_Int finite_SigmaI)
  ultimately have "wf (?Q\<inverse>)" by (simp add: finite_acyclic_wf_converse)
  moreover have "C \<noteq> {}" using assms(2) by blast
  ultimately obtain m where m: "m \<in> C" "\<And>y. (y, m) \<in> ?Q\<inverse> \<Longrightarrow> y \<notin> C" using wfE_min' by metis
  have "b = m" if "(m, b) \<in> R" for b
  proof (rule ccontr)
    assume "b \<noteq> m"
    moreover have "b \<in> C" using assms(3) m(1) that by blast
    ultimately have "(b, m) \<in> ?Q\<inverse>" using that m(1) by simp
    with m(2) \<open>b \<in> C\<close> show False by blast
  qed
  with m(1) show ?thesis by blast
qed

lemma step_refs_total: "\<forall>r \<in> set rs. walk_ref et r \<noteq> None \<Longrightarrow> \<exists>st'. step_refs ex et rs st = Some st'"
proof (induction rs arbitrary: st)
  case (Cons r rs)
  obtain chain nxt where st: "st = (chain, nxt)" by (cases st)
  from Cons.prems obtain t where "walk_ref et r = Some t" by auto
  then show ?case using Cons.IH Cons.prems by (simp add: st)
qed simp

lemma step_level_total: "\<forall>c \<in> set cs. \<forall>r \<in> set (cr c). walk_ref et r \<noteq> None \<Longrightarrow> \<exists>st'. step_level cr ex et cs st = Some st'"
proof (induction cs arbitrary: st)
  case (Cons c cs)
  from step_refs_total [of "cr c" et ex st] Cons.prems obtain st1 where "step_refs ex et (cr c) st = Some st1" by auto
  then show ?case using Cons.IH [of st1] Cons.prems by simp
qed simp

lemma walk_levels_total: "set queue \<subseteq> (steps cr ex et)\<^sup>* `` {mid} \<Longrightarrow> distinct chain \<Longrightarrow>
    \<forall>n \<in> (steps cr ex et)\<^sup>* `` {mid}. \<forall>r \<in> set (cr n). walk_ref et r \<noteq> None \<Longrightarrow>
    \<exists>chain'. walk_levels cr ex et d queue chain = Some chain'"
proof (induction cr ex et d queue chain rule: walk_levels.induct)
  case (2 cr ex et d queue chain)
  show ?case
  proof (cases "queue = []")
    case False
    have "\<forall>c \<in> set queue. \<forall>r \<in> set (cr c). walk_ref et r \<noteq> None" using "2.prems"(1,3) by blast
    from step_level_total [OF this, of ex "(chain, [])"]
    obtain c1 n1 where s: "step_level cr ex et queue (chain, []) = Some (c1, n1)" by auto
    note spec = step_level_spec [OF s "2.prems"(2)]
    then have c1: "c1 = chain @ n1" "distinct c1" "set c1 = set chain \<union> steps cr ex et `` set queue"
      by auto
    have "b \<in> steps cr ex et `` set queue" if "b \<in> set n1" for b
    proof -
      have "b \<notin> set chain" using c1(1,2) that by auto
      moreover have "b \<in> set c1" using c1(1) that by simp
      ultimately show ?thesis unfolding c1(3) by blast
    qed
    then have "set n1 \<subseteq> steps cr ex et `` set queue" by (rule subsetI)
    also have "\<dots> \<subseteq> (steps cr ex et)\<^sup>* `` {mid}" using "2.prems"(1) by (rule star_image_step)
    finally have reach: "set n1 \<subseteq> (steps cr ex et)\<^sup>* `` {mid}" .
    from "2.IH" [OF False s refl reach c1(2) "2.prems"(3)] False s show ?thesis
      by (simp only: walk_levels.simps if_False bind.bind_lunit prod.case)
  qed simp
qed simp

lemma walk_chain_total:
  assumes "\<forall>n \<in> (steps cr ex et)\<^sup>* `` {mid}. \<forall>r \<in> set (cr n). walk_ref et r \<noteq> None"
  shows "\<exists>chain. walk_chain cr ex mid et = Some chain"
  unfolding walk_chain_def by (rule walk_levels_total [OF _ _ assms]) auto

section \<open>References the walks read alike\<close>

definition supersession_edge_types :: "json list" where
  "supersession_edge_types = [JStr ''supersedes'', JStr ''superseded_by'']"

definition is_int_typed :: "json \<Rightarrow> bool" where
  "is_int_typed j = (case j of JInt _ \<Rightarrow> True | _ \<Rightarrow> False)"

definition ref_walk_unsafe :: "json \<Rightarrow> bool" where
  "ref_walk_unsafe r =
     (case r of
        JObj d \<Rightarrow>
          (case map_of d ''id'' of
             None \<Rightarrow> True
           | Some rid \<Rightarrow> json_get ''edge_type'' d \<in> set supersession_edge_types \<and> \<not> is_int_typed rid)
      | _ \<Rightarrow> True)"

definition refs_walk_unsafe :: "json list \<Rightarrow> bool" where
  "refs_walk_unsafe refs = list_ex ref_walk_unsafe refs"

lemma safe_refD: "\<not> ref_walk_unsafe r \<Longrightarrow> \<exists>d rid. r = JObj d \<and> map_of d ''id'' = Some rid \<and>
    (json_get ''edge_type'' d \<in> set supersession_edge_types \<longrightarrow> (\<exists>n. rid = JInt n))"
  by (cases r) (auto simp: ref_walk_unsafe_def is_int_typed_def split: option.splits json.splits)

lemma safe_walk_ref: "\<not> ref_walk_unsafe r \<Longrightarrow> JStr et \<in> set supersession_edge_types \<Longrightarrow> \<exists>t. walk_ref et r = Some t"
  by (drule safe_refD) (auto simp: walk_ref_def unhashable_def is_pystr_def)

lemma safe_successor_ref: "\<not> ref_walk_unsafe r \<Longrightarrow> successor_ref ex members mid r =
    Some (\<exists>b. walk_ref ''superseded_by'' r = Some (Some b) \<and> b \<in> set members \<and> b \<noteq> mid \<and> ex b)"
  by (drule safe_refD)
    (auto simp: walk_ref_def successor_ref_def unhashable_def is_pystr_def supersession_edge_types_def)

lemma safe_parent_ref: "\<not> ref_walk_unsafe r \<Longrightarrow> parent_ref ex mid r =
    Some (\<exists>b. walk_ref ''supersedes'' r = Some (Some b) \<and> b \<noteq> mid \<and> ex b)"
  by (drule safe_refD)
    (auto simp: walk_ref_def parent_ref_def unhashable_def is_pystr_def supersession_edge_types_def)

text \<open>A memory no other existing memory supersedes.\<close>

definition current :: "(int \<Rightarrow> json list) \<Rightarrow> (int \<Rightarrow> bool) \<Rightarrow> int \<Rightarrow> bool" where
  "current cr ex m \<longleftrightarrow> (\<forall>b. (m, b) \<in> steps cr ex ''superseded_by'' \<longrightarrow> b = m)"

lemma any_successor: "\<not> refs_walk_unsafe (cr m) \<Longrightarrow>
    any_opt (successor_ref ex members m) (cr m) =
      Some (\<exists>b. (m, b) \<in> steps cr ex ''superseded_by'' \<and> b \<in> set members \<and> b \<noteq> m)"
  by (subst any_opt_total [where q = "\<lambda>r. \<exists>b. walk_ref ''superseded_by'' r = Some (Some b) \<and> b \<in> set members \<and> b \<noteq> m \<and> ex b"])
    (auto simp: refs_walk_unsafe_def list_ex_iff safe_successor_ref steps_def)

lemma any_parent: "\<not> refs_walk_unsafe (cr m) \<Longrightarrow>
    any_opt (parent_ref ex m) (cr m) = Some (\<exists>b. (m, b) \<in> steps cr ex ''supersedes'' \<and> b \<noteq> m)"
  by (subst any_opt_total [where q = "\<lambda>r. \<exists>b. walk_ref ''supersedes'' r = Some (Some b) \<and> b \<noteq> m \<and> ex b"])
    (auto simp: refs_walk_unsafe_def list_ex_iff safe_parent_ref steps_def)

lemma chain_leaves_safe: "\<forall>m \<in> set members. \<not> refs_walk_unsafe (cr m) \<Longrightarrow>
    chain_leaves cr ex members =
      Some (filter (\<lambda>m. \<not> (\<exists>b. (m, b) \<in> steps cr ex ''superseded_by'' \<and> b \<in> set members \<and> b \<noteq> m)) members)"
  unfolding chain_leaves_def by (rule filter_opt_total) (simp add: any_successor)

lemma chain_leaves_closed: "\<forall>m \<in> set members. \<not> refs_walk_unsafe (cr m) \<Longrightarrow>
    steps cr ex ''superseded_by'' `` set members \<subseteq> set members \<Longrightarrow>
    chain_leaves cr ex members = Some (filter (current cr ex) members)"
proof -
  assume safe: "\<forall>m \<in> set members. \<not> refs_walk_unsafe (cr m)"
    and closed: "steps cr ex ''superseded_by'' `` set members \<subseteq> set members"
  have "current cr ex m \<longleftrightarrow> \<not> (\<exists>b. (m, b) \<in> steps cr ex ''superseded_by'' \<and> b \<in> set members \<and> b \<noteq> m)"
    if "m \<in> set members" for m
    using closed that unfolding current_def by blast
  then show ?thesis unfolding chain_leaves_safe [OF safe] by (simp cong: filter_cong)
qed

lemma resolve_current_tips:
  fixes cr ex mid
  defines "R \<equiv> steps cr ex ''superseded_by''"
  defines "tips \<equiv> {n \<in> R\<^sup>* `` {mid}. current cr ex n}"
  assumes safe: "\<forall>n \<in> R\<^sup>* `` {mid}. \<not> refs_walk_unsafe (cr n)"
    and depth: "R\<^sup>* `` {mid} \<subseteq> {n. \<exists>k \<le> 200. (mid, n) \<in> R ^^ k}"
    and tomb: "\<forall>n. tomb n = Some (n \<in> T)" and here: "mid \<notin> T"
  shows "\<exists>res. resolve_latest cr ex tomb mid = Some res \<and>
    (tips \<noteq> {} \<longrightarrow> set res = tips - T \<and> distinct res) \<and>
    (tips = {} \<longrightarrow> res = [Max (R\<^sup>* `` {mid})]) \<and>
    (acyclic (R - Id) \<longrightarrow> tips \<noteq> {})"
proof -
  have "\<forall>n \<in> R\<^sup>* `` {mid}. \<forall>r \<in> set (cr n). walk_ref ''superseded_by'' r \<noteq> None"
    using safe safe_walk_ref [of _ "''superseded_by''"]
    by (fastforce simp: refs_walk_unsafe_def list_ex_iff supersession_edge_types_def)
  then obtain chain where chain: "walk_chain cr ex mid ''superseded_by'' = Some chain"
    using walk_chain_total unfolding R_def by blast
  have "reach_in R 200 {mid} \<subseteq> R\<^sup>* `` {mid}" by (auto simp: reach_in_relpow relpow_imp_rtrancl)
  with depth have set: "set chain = R\<^sup>* `` {mid}" "distinct chain"
    using walk_chain_spec [OF chain] by (auto simp: R_def reach_in_relpow max_chain_depth_def)
  have closed: "R `` set chain \<subseteq> set chain" unfolding set(1) by (rule star_image_step) simp
  then have leaves: "chain_leaves cr ex chain = Some (filter (current cr ex) chain)"
    using chain_leaves_closed [of chain cr ex] safe set unfolding R_def by blast
  have tips: "set (filter (current cr ex) chain) = tips" by (auto simp: tips_def set)
  then have empty: "filter (current cr ex) chain = [] \<longleftrightarrow> tips = {}" by (metis set_empty)
  have live: "filter_opt (\<lambda>m. Some (m \<notin> T)) xs = Some (filter (\<lambda>m. m \<notin> T) xs)" for xs
    by (rule filter_opt_total) simp
  have res: "resolve_latest cr ex tomb mid =
      Some (if tips = {} then [Max (R\<^sup>* `` {mid})] else filter (\<lambda>m. m \<notin> T) (filter (current cr ex) chain))"
    using here by (simp add: resolve_latest_def tomb chain leaves live empty set)
  have "tips \<noteq> {}" if ac: "acyclic (R - Id)"
  proof -
    have "mid \<in> set chain" by (simp add: set)
    from acyclic_tip [OF _ this closed ac] obtain m where m: "m \<in> set chain" "\<forall>b. (m, b) \<in> R \<longrightarrow> b = m" by auto
    then have "current cr ex m" by (simp add: current_def R_def)
    with m set show ?thesis by (auto simp: tips_def)
  qed
  then show ?thesis using res tips set(2) by (auto simp del: filter_filter)
qed

section \<open>Properties\<close>

text \<open>C24: the bounded breadth-first walk visits exactly the existing memories at most two hundred
  supersession steps from its start, each once and the start first; it never fails when the reference lists it
  can meet are readable.\<close>

theorem walk_chain_exact:
  assumes "\<forall>n \<in> (steps cr ex et)\<^sup>* `` {mid}. \<forall>r \<in> set (cr n). walk_ref et r \<noteq> None"
  shows "\<exists>rest. walk_chain cr ex mid et = Some (mid # rest) \<and> distinct (mid # rest) \<and>
    set (mid # rest) = {n. \<exists>k \<le> 200. (mid, n) \<in> steps cr ex et ^^ k}"
proof -
  obtain chain where chain: "walk_chain cr ex mid et = Some chain" using walk_chain_total [OF assms] by blast
  from walk_chain_spec [OF this] show ?thesis
    by (auto simp: chain reach_in_relpow max_chain_depth_def)
qed

text \<open>Three versions, each superseding the one before.\<close>

definition ex_refs :: "int \<Rightarrow> json list" where
  "ex_refs m =
     (if m = 1 then [edge_entry 2 ''superseded_by'']
      else if m = 2 then [edge_entry 1 ''supersedes'', edge_entry 3 ''superseded_by'']
      else if m = 3 then [edge_entry 2 ''supersedes''] else [])"

definition ex_live :: "int \<Rightarrow> bool" where
  "ex_live m \<longleftrightarrow> m \<in> {1, 2, 3}"

lemma ex_refs_safe: "\<not> refs_walk_unsafe (ex_refs n)"
  by (simp add: ex_refs_def refs_walk_unsafe_def ref_walk_unsafe_def edge_entry_def json_get_def is_int_typed_def)

lemma ex_refs_readable: "r \<in> set (ex_refs n) \<Longrightarrow> walk_ref et r \<noteq> None"
  by (auto simp: ex_refs_def walk_ref_def edge_entry_def unhashable_def is_pystr_def json_get_def split: if_splits)

lemma ex_steps: "steps ex_refs ex_live ''superseded_by'' = {(1, 2), (2, 3)}"
  by (auto simp: steps_def ex_refs_def ex_live_def walk_ref_def edge_entry_def unhashable_def is_pystr_def
      json_get_def split: if_splits)

theorem walk_chain_exact_witness:
  "walk_chain ex_refs ex_live 1 ''superseded_by'' = Some [1, 2, 3] \<and>
   {n. \<exists>k \<le> 200. (1, n) \<in> steps ex_refs ex_live ''superseded_by'' ^^ k} = {1, 2, 3}"
proof -
  have "walk_chain ex_refs ex_live 1 ''superseded_by'' = Some [1, 2, 3]" by code_simp
  then show ?thesis
    using walk_chain_exact [of ex_refs ex_live "''superseded_by''" 1] ex_refs_readable by auto
qed



end
