(* ===== verification/Retirement.thy ===== *)
theory Retirement
  imports Lineage_Links
begin

text \<open>
  Tombstones (\<open>memora/storage.py\<close>): the content fingerprint, the two retirement tables and their
  reads (single and batched), the stored reasons, and the one-statement retirement of a component.
  The fingerprint function (\<open>hashlib.sha256(...).hexdigest()\<close>) is the parameter \<open>digest\<close>.
\<close>

section \<open>The content fingerprint\<close>

text \<open>Every run of white space becomes one blank.\<close>

function collapse_ws :: "string \<Rightarrow> string" where
  "collapse_ws [] = []"
| "collapse_ws (c # s) =
     (if is_space c then CHR '' '' # collapse_ws (dropWhile is_space s) else c # collapse_ws s)"
  by pat_completeness auto
termination by (relation "measure length") (auto intro: le_imp_less_Suc length_dropWhile_le)

definition tombstone_text :: "string \<Rightarrow> string" where
  "tombstone_text content = str_lower (collapse_ws (str_strip content))"

definition content_tombstone_hash :: "(string \<Rightarrow> string) \<Rightarrow> string \<Rightarrow> string" where
  "content_tombstone_hash digest content = digest (tombstone_text content)"

section \<open>Reading the retirement tables\<close>

text \<open>A row as both tables give it: content hash, reason, creation time, memory id.\<close>

record trow =
  t_hash :: "string option"
  t_reason :: "string option"
  t_created :: string
  t_mid :: int

definition table_rows :: "retire_table \<Rightarrow> db \<Rightarrow> trow list" where
  "table_rows t s =
     (case t of
        Components \<Rightarrow>
          map (\<lambda>(m, r). \<lparr>t_hash = tr_hash r, t_reason = tr_reason r, t_created = tr_created r, t_mid = m\<rparr>)
            (db_components s)
      | Tombstones \<Rightarrow>
          map (\<lambda>((h, m), (reason, created)). \<lparr>t_hash = Some h, t_reason = reason, t_created = created, t_mid = m\<rparr>)
            (db_tombstones s))"

text \<open>\<open>_select_retirement_rows\<close>: a missing table is empty, any other failure raises.\<close>

definition select_rows :: "retire_table \<Rightarrow> (trow \<Rightarrow> bool) \<Rightarrow> db \<Rightarrow> trow list option" where
  "select_rows t P s =
     (case db_table s t of
        TableOk \<Rightarrow> Some (filter P (table_rows t s)) | TableAbsent \<Rightarrow> Some [] | TableFault \<Rightarrow> None)"

definition retired_memory_ids :: "db \<Rightarrow> int set option" where
  "retired_memory_ids s =
     do { a \<leftarrow> select_rows Components (\<lambda>_. True) s;
          b \<leftarrow> select_rows Tombstones (\<lambda>_. True) s;
          Some (set (map t_mid (a @ b))) }"

definition is_tombstoned_id :: "db \<Rightarrow> int \<Rightarrow> bool option" where
  "is_tombstoned_id s mid =
     do { a \<leftarrow> select_rows Components (\<lambda>r. t_mid r = mid) s;
          if a \<noteq> [] then Some True
          else do { b \<leftarrow> select_rows Tombstones (\<lambda>r. t_mid r = mid) s; Some (b \<noteq> []) } }"

text \<open>\<open>ORDER BY created_at DESC, memory_id DESC LIMIT 1\<close>.\<close>

definition newer :: "trow \<Rightarrow> trow \<Rightarrow> bool" where
  "newer q r \<longleftrightarrow> t_created r < t_created q \<or> t_created r = t_created q \<and> t_mid r < t_mid q"

fun newest :: "trow list \<Rightarrow> trow option" where
  "newest [] = None"
| "newest (r # rs) = (case newest rs of None \<Rightarrow> Some r | Some q \<Rightarrow> Some (if newer q r then q else r))"

definition reason_or_deleted :: "trow \<Rightarrow> string" where
  "reason_or_deleted r =
     (case t_reason r of None \<Rightarrow> ''deleted'' | Some x \<Rightarrow> if x = '''' then ''deleted'' else x)"

definition lookup_tombstone_by_hash :: "(string \<Rightarrow> string) \<Rightarrow> db \<Rightarrow> string \<Rightarrow> string option option" where
  "lookup_tombstone_by_hash digest s content =
     (let d = content_tombstone_hash digest content in
      do { a \<leftarrow> select_rows Components (\<lambda>r. t_hash r = Some d) s;
           case newest a of
             Some r \<Rightarrow> Some (Some (reason_or_deleted r))
           | None \<Rightarrow> do { b \<leftarrow> select_rows Tombstones (\<lambda>r. t_hash r = Some d) s;
                          Some (map_option reason_or_deleted (newest b)) } })"

definition is_tombstoned_hash :: "(string \<Rightarrow> string) \<Rightarrow> db \<Rightarrow> string \<Rightarrow> bool option" where
  "is_tombstoned_hash digest s content = map_option (\<lambda>r. r \<noteq> None) (lookup_tombstone_by_hash digest s content)"

text \<open>The batched lookup: one query per table and chunk, the best row per hash kept in a dict.\<close>

definition d1_max_bound_params :: nat where
  "d1_max_bound_params = 100"

definition keep_best :: "trow \<Rightarrow> (string, trow) dict \<Rightarrow> (string, trow) dict" where
  "keep_best r best =
     (case t_hash r of
        None \<Rightarrow> best
      | Some d \<Rightarrow>
          (case map_of best d of
             None \<Rightarrow> dict_set d r best
           | Some old \<Rightarrow> if newer r old then dict_set d r best else best))"

fun best_in_chunks :: "retire_table \<Rightarrow> string list list \<Rightarrow> db \<Rightarrow> (string, trow) dict \<Rightarrow> (string, trow) dict option" where
  "best_in_chunks t [] s best = Some best"
| "best_in_chunks t (c # cs) s best =
     do { rows \<leftarrow> select_rows t (\<lambda>r. \<exists>d \<in> set c. t_hash r = Some d) s;
          best_in_chunks t cs s (fold keep_best rows best) }"

definition lookup_in_table :: "retire_table \<Rightarrow> string list \<Rightarrow> db \<Rightarrow> (string, string) dict \<Rightarrow> (string, string) dict option" where
  "lookup_in_table t digests s found =
     (let pending = filter (\<lambda>d. map_of found d = None) digests in
      do { best \<leftarrow> best_in_chunks t (chunked d1_max_bound_params pending) s [];
           Some (fold (\<lambda>(d, r). dict_set d (reason_or_deleted r)) best found) })"

definition lookup_tombstones_by_hash_batch ::
    "(string \<Rightarrow> string) \<Rightarrow> db \<Rightarrow> string list \<Rightarrow> (string, string) dict option" where
  "lookup_tombstones_by_hash_batch digest s contents =
     (let digests = uniq (map (content_tombstone_hash digest) contents) in
      do { found \<leftarrow> lookup_in_table Components digests s []; lookup_in_table Tombstones digests s found })"

fun ids_in_chunks :: "retire_table \<Rightarrow> int list list \<Rightarrow> db \<Rightarrow> int list option" where
  "ids_in_chunks t [] s = Some []"
| "ids_in_chunks t (c # cs) s =
     do { rows \<leftarrow> select_rows t (\<lambda>r. t_mid r \<in> set c) s;
          rest \<leftarrow> ids_in_chunks t cs s; Some (map t_mid rows @ rest) }"

definition retired_ids_among :: "db \<Rightarrow> int list \<Rightarrow> int set option" where
  "retired_ids_among s ids =
     (let cs = chunked d1_max_bound_params (uniq ids) in
      do { a \<leftarrow> ids_in_chunks Components cs s; b \<leftarrow> ids_in_chunks Tombstones cs s; Some (set (a @ b)) })"

definition retirement_reason_for_id :: "db \<Rightarrow> int \<Rightarrow> string option option" where
  "retirement_reason_for_id s mid =
     do { a \<leftarrow> select_rows Components (\<lambda>r. t_mid r = mid) s;
          rows \<leftarrow> (if a = [] then select_rows Tombstones (\<lambda>r. t_mid r = mid) s else Some a);
          Some (map_option reason_or_deleted (newest rows)) }"

section \<open>Reasons that name a delete\<close>

definition lineage_reason :: "string \<Rightarrow> int \<Rightarrow> int option \<Rightarrow> string" where
  "lineage_reason reason member origin =
     (case origin of
        None \<Rightarrow> reason
      | Some o' \<Rightarrow> if member = o' then reason else reason @ '' (lineage of #'' @ int_text o' @ '')'')"

text \<open>\<open>re.search(r"\\(lineage of #(\\d+)\\)\\s*$", reason)\<close>.\<close>

definition lineage_origin :: "string \<Rightarrow> int option" where
  "lineage_origin reason =
     (case dropWhile is_space (rev reason) of
        [] \<Rightarrow> None
      | c # rest \<Rightarrow>
          (let ds = takeWhile is_digit rest; before = dropWhile is_digit rest in
           if c = CHR '')'' \<and> ds \<noteq> [] \<and> starts_with (rev ''(lineage of #'') before
           then Some (int (read_nat (rev ds))) else None))"

record retire_note = nt_reason :: string nt_deleted_id :: "int option"

definition retirement_note :: "db \<Rightarrow> int \<Rightarrow> retire_note option option" where
  "retirement_note s mid =
     (if \<not> memory_exists s mid then Some None
      else do { t \<leftarrow> is_tombstoned_id s mid;
                if \<not> t then Some None
                else do { r \<leftarrow> retirement_reason_for_id s mid;
                          (let reason = (case r of None \<Rightarrow> ''deleted'' | Some x \<Rightarrow> x) in
                           Some (Some \<lparr>nt_reason = reason, nt_deleted_id = lineage_origin reason\<rparr>)) } })"

section \<open>Retiring\<close>

definition write_tombstone :: "(string \<Rightarrow> string) \<Rightarrow> int \<Rightarrow> string \<Rightarrow> string \<Rightarrow> db \<Rightarrow> db option" where
  "write_tombstone digest mid content reason s =
     (if db_table s Tombstones \<noteq> TableOk then None
      else (let k = (content_tombstone_hash digest content, mid) in
            Some (if map_of (db_tombstones s) k = None
                  then s\<lparr>db_tombstones := db_tombstones s @ [(k, (Some reason, db_now s))]\<rparr> else s)))"

text \<open>The content of the members not known yet, in one statement whose parameters are not chunked.\<close>

definition fill_component_content :: "int list \<Rightarrow> (int, string) dict \<Rightarrow> db \<Rightarrow> (int, string) dict option" where
  "fill_component_content members known s =
     (let missing = filter (\<lambda>m. map_of known m = None) members in
      if missing = [] then Some known
      else if db_max_params s < length missing then None
      else Some (fold (\<lambda>(m, r) k. if m \<in> set missing then dict_set m (mr_content r) k else k) (db_memories s) known))"

definition mark_retired :: "(string \<Rightarrow> string) \<Rightarrow> string \<Rightarrow> (int, string) dict \<Rightarrow> int option \<Rightarrow> int \<Rightarrow> db \<Rightarrow> db" where
  "mark_retired digest reason known origin m s =
     (let content = (case map_of known m of None \<Rightarrow> '''' | Some c \<Rightarrow> c);
          row = \<lparr>tr_hash = Some (content_tombstone_hash digest content),
                 tr_reason = Some (lineage_reason reason m origin),
                 tr_created = (case map_of (db_components s) m of None \<Rightarrow> db_now s | Some r \<Rightarrow> tr_created r)\<rparr>
      in s\<lparr>db_components := dict_set m row (db_components s)\<rparr>)"

definition retire_members_atomic :: "(string \<Rightarrow> string) \<Rightarrow> int list \<Rightarrow> string \<Rightarrow> (int, string) dict \<Rightarrow> int option \<Rightarrow>
    db \<Rightarrow> ((int, string) dict \<times> db) option" where
  "retire_members_atomic digest members reason known origin s =
     (let ids = sort (uniq members) in
      if ids = [] then Some (known, s)
      else do { known' \<leftarrow> fill_component_content ids known s;
                if db_table s Components \<noteq> TableOk \<or> db_max_params s < 3 * length ids then None
                else Some (known', fold (mark_retired digest reason known' origin) ids s) })"

section \<open>What the fingerprint identifies\<close>

function text_words :: "string \<Rightarrow> string list" where
  "text_words s =
     (let t = dropWhile is_space s in
      if t = [] then [] else takeWhile (\<lambda>c. \<not> is_space c) t # text_words (dropWhile (\<lambda>c. \<not> is_space c) t))"
  by pat_completeness auto
termination
proof (relation "measure length", goal_cases)
  case (2 s t)
  then have "\<not> is_space (hd t)" using hd_dropWhile by metis
  moreover obtain c u where "t = c # u" using 2(2) by (cases t) blast
  ultimately have t: "t = c # u" "\<not> is_space c" by simp_all
  have "length (dropWhile (\<lambda>c. \<not> is_space c) t) \<le> length u" using t by (simp add: length_dropWhile_le)
  also have "length u < length t" using t by simp
  also have "length t \<le> length s" using 2(1) length_dropWhile_le by metis
  finally show ?case by simp
qed simp

declare text_words.simps [simp del]

lemma text_words_Nil [simp]: "text_words [] = []"
  by (simp add: text_words.simps)

lemma text_words_space: "is_space c \<Longrightarrow> text_words (c # s) = text_words s"
  by (subst (1 2) text_words.simps) simp

lemma text_words_word: "w \<noteq> [] \<Longrightarrow> \<forall>c \<in> set w. \<not> is_space c \<Longrightarrow> s = [] \<or> is_space (hd s) \<Longrightarrow>
    text_words (w @ s) = w # text_words s"
proof -
  assume w: "w \<noteq> []" "\<forall>c \<in> set w. \<not> is_space c" and s: "s = [] \<or> is_space (hd s)"
  have "dropWhile is_space (w @ s) = w @ s" using w by (cases w) auto
  moreover have "takeWhile (\<lambda>c. \<not> is_space c) (w @ s) = w" "dropWhile (\<lambda>c. \<not> is_space c) (w @ s) = s"
    using w s by (auto simp: takeWhile_append2 dropWhile_append2) (cases s; auto)+
  ultimately show ?thesis using w by (subst text_words.simps) (simp add: Let_def)
qed

lemma word_of_text: "w \<in> set (text_words s) \<Longrightarrow> w \<noteq> [] \<and> (\<forall>c \<in> set w. \<not> is_space c)"
proof (induction s rule: text_words.induct)
  case (1 s)
  let ?t = "dropWhile is_space s"
  show ?case
  proof (cases "?t = []")
    case True
    with 1 show ?thesis by (simp add: text_words.simps [of s])
  next
    case False
    then have "\<not> is_space (hd ?t)" by (rule hd_dropWhile)
    then have first: "takeWhile (\<lambda>c. \<not> is_space c) ?t \<noteq> []" using False by (cases ?t) auto
    have "text_words s = takeWhile (\<lambda>c. \<not> is_space c) ?t # text_words (dropWhile (\<lambda>c. \<not> is_space c) ?t)"
      using False unfolding text_words.simps [of s] Let_def by (simp only: if_False)
    with "1.prems" have "w \<in> set (takeWhile (\<lambda>c. \<not> is_space c) ?t # text_words (dropWhile (\<lambda>c. \<not> is_space c) ?t))"
      by (simp only:)
    then consider "w = takeWhile (\<lambda>c. \<not> is_space c) ?t"
      | "w \<in> set (text_words (dropWhile (\<lambda>c. \<not> is_space c) ?t))" unfolding set_simps insert_iff by blast
    then show ?thesis
    proof cases
      case 1
      have "\<forall>c \<in> set (takeWhile (\<lambda>c. \<not> is_space c) xs). \<not> is_space c" for xs by (induction xs) auto
      with 1 first show ?thesis by (simp only: not_False_eq_True simp_thms)
    next
      case 2
      with "1.IH" False show ?thesis by blast
    qed
  qed
qed

lemma text_words_empty: "text_words s = [] \<longleftrightarrow> (\<forall>c \<in> set s. is_space c)"
  by (subst text_words.simps) (simp add: Let_def)

lemma text_words_join: "\<forall>w \<in> set ws. w \<noteq> [] \<and> (\<forall>c \<in> set w. \<not> is_space c) \<Longrightarrow> text_words (str_join '' '' ws) = ws"
proof (induction "'' ''" ws rule: str_join.induct)
  case (2 w)
  then show ?case using text_words_word [of w "[]"] by simp
next
  case (3 w v ws)
  have sp: "is_space CHR '' ''" by (simp add: text_simps)
  from 3 show ?case by (simp add: text_words_word sp text_words_space)
qed simp

lemma collapse_word: "\<forall>c \<in> set w. \<not> is_space c \<Longrightarrow> collapse_ws (w @ s) = w @ collapse_ws s"
  by (induction w) auto

lemma collapse_strip: "collapse_ws (dropWhile is_space s) =
    str_join '' '' (text_words s) @ (if s \<noteq> [] \<and> is_space (last s) \<and> text_words s \<noteq> [] then '' '' else [])"
proof (induction s rule: text_words.induct)
  case (1 s)
  let ?t = "dropWhile is_space s" and ?N = "\<lambda>c. \<not> is_space c"
  show ?case
  proof (cases "?t = []")
    case True
    then have "text_words s = []" by (simp add: text_words_empty)
    with True show ?thesis unfolding True by simp
  next
    case False
    define w where "w = takeWhile ?N ?t"
    define u where "u = dropWhile ?N ?t"
    have t: "?t = w @ u" by (simp add: w_def u_def)
    have w: "\<forall>c \<in> set w. \<not> is_space c" by (auto simp: w_def dest: set_takeWhileD)
    have words: "text_words s = w # text_words u" using False by (simp add: text_words.simps [of s] Let_def w_def u_def)
    have s: "s \<noteq> []" "last s = last ?t" using False
      by (metis dropWhile.simps(1)) (metis False append_is_Nil_conv last_appendR takeWhile_dropWhile_id)
    have IH: "collapse_ws (dropWhile is_space u) = str_join '' '' (text_words u) @
        (if u \<noteq> [] \<and> is_space (last u) \<and> text_words u \<noteq> [] then '' '' else [])"
      using 1 False by (simp add: u_def)
    show ?thesis
    proof (cases u)
      case Nil
      have "\<not> is_space (last ?t)" using w t Nil False by simp
      then show ?thesis using t Nil w words collapse_word [of w "[]"] s by simp
    next
      case (Cons c v)
      have c: "is_space c" using Cons hd_dropWhile [of ?N ?t] by (auto simp: u_def)
      have "collapse_ws ?t = w @ CHR '' '' # collapse_ws (dropWhile is_space u)"
        using t Cons c collapse_word [OF w] by simp
      moreover have "last s = last u" using s t Cons by simp
      moreover have "is_space (last u)" if "text_words u = []"
        using that Cons by (simp add: text_words_empty)
      ultimately show ?thesis using IH words Cons s by (cases "text_words u") auto
    qed
  qed
qed

lemma text_words_dropWhile: "text_words (dropWhile is_space s) = text_words s"
  by (subst (1 2) text_words.simps) simp

lemma text_words_spaces: "\<forall>c \<in> set sp. is_space c \<Longrightarrow> text_words (s @ sp) = text_words s"
proof (induction s rule: text_words.induct)
  case (1 s)
  let ?t = "dropWhile is_space s" and ?N = "\<lambda>c. \<not> is_space c"
  show ?case
  proof (cases "?t = []")
    case True
    then show ?thesis using 1 by (simp add: text_words_empty [THEN iffD2] ball_Un)
  next
    case False
    define w where "w = takeWhile ?N ?t"
    define u where "u = dropWhile ?N ?t"
    have t: "?t = w @ u" by (simp add: w_def u_def)
    have "\<not> is_space (hd ?t)" using False by (rule hd_dropWhile)
    then have w: "w \<noteq> []" using False by (cases ?t) (auto simp: w_def)
    have n: "\<forall>c \<in> set (takeWhile ?N xs). ?N c" for xs by (induction xs) auto
    have wn: "\<forall>c \<in> set w. \<not> is_space c" unfolding w_def by (rule n)
    have u: "u = [] \<or> is_space (hd u)" using hd_dropWhile [of ?N ?t] by (auto simp: u_def)
    then have usp: "u @ sp = [] \<or> is_space (hd (u @ sp))" using "1.prems" by (cases u; cases sp) auto
    have "dropWhile is_space (s @ sp) = ?t @ sp"
      unfolding dropWhile_append using False by (simp only: dropWhile_eq_Nil_conv) auto
    then have "text_words (s @ sp) = text_words (w @ (u @ sp))"
      using text_words_dropWhile [of "s @ sp"] t by simp
    also have "\<dots> = w # text_words (u @ sp)" by (rule text_words_word [OF w wn usp])
    also have "text_words (u @ sp) = text_words u" using "1.IH" [OF refl False] "1.prems" by (simp add: u_def)
    also have "w # text_words u = text_words s"
      using text_words_word [OF w wn u] text_words_dropWhile [of s] unfolding t by (simp only:)
    finally show ?thesis .
  qed
qed

lemma text_words_strip: "text_words (str_strip s) = text_words s"
proof -
  let ?d = "dropWhile is_space s"
  have "?d = str_strip s @ rev (takeWhile is_space (rev ?d))"
    unfolding str_strip_def by (metis rev_append rev_rev_ident takeWhile_dropWhile_id)
  moreover have "\<forall>c \<in> set (takeWhile is_space xs). is_space c" for xs by (induction xs) auto
  ultimately have "text_words ?d = text_words (str_strip s)" by (metis set_rev text_words_spaces)
  then show ?thesis by (simp add: text_words_dropWhile)
qed

lemma strip_last: "str_strip s \<noteq> [] \<Longrightarrow> \<not> is_space (last (str_strip s))"
  using hd_dropWhile [of is_space "rev (dropWhile is_space s)"] by (simp add: str_strip_def last_rev)

lemma strip_first: "dropWhile is_space (str_strip s) = str_strip s"
proof (cases "str_strip s")
  case (Cons c u)
  have "dropWhile is_space s = str_strip s @ rev (takeWhile is_space (rev (dropWhile is_space s)))"
    unfolding str_strip_def by (metis rev_append rev_rev_ident takeWhile_dropWhile_id)
  then obtain v where "dropWhile is_space s = c # v" using Cons by auto
  then have "\<not> is_space c" using hd_dropWhile [of is_space s] by simp
  with Cons show ?thesis by simp
qed simp

lemma lower_space: "is_space (lower_char c) = is_space c"
  by (auto simp: lower_char_def is_space_def is_upper_def code_of_def Let_def)

lemma lower_join: "str_lower (str_join sep ws) = str_join (str_lower sep) (map str_lower ws)"
  by (induction sep ws rule: str_join.induct) (simp_all add: str_lower_def)

lemma tombstone_text_words: "tombstone_text s = str_join '' '' (map str_lower (text_words s))"
proof -
  have "collapse_ws (str_strip s) = str_join '' '' (text_words s)"
    using collapse_strip [of "str_strip s"] strip_last [of s] by (auto simp: strip_first text_words_strip)
  moreover have "str_lower '' '' = '' ''" by (simp add: text_simps)
  ultimately show ?thesis by (simp add: tombstone_text_def lower_join)
qed

lemma lower_words: "\<forall>w \<in> set (map str_lower (text_words s)). w \<noteq> [] \<and> (\<forall>c \<in> set w. \<not> is_space c)"
  using word_of_text by (fastforce simp: str_lower_def lower_space)

section \<open>Batched reads\<close>

lemma newer_trans: "newer a b \<Longrightarrow> newer b c \<Longrightarrow> newer a c"
  by (auto simp: newer_def)

lemma newest_Some: "rs \<noteq> [] \<Longrightarrow> \<exists>r. newest rs = Some r"
  by (cases rs) (auto split: option.splits)

lemma newest_swap: "newest (a # r # rs) = newest ((if newer r a then r else a) # rs)"
proof (cases "newest rs")
  case (Some q)
  then show ?thesis by (auto simp: newer_def)
qed simp

definition keep_newest :: "trow \<Rightarrow> trow option \<Rightarrow> trow option" where
  "keep_newest r old = (case old of None \<Rightarrow> Some r | Some q \<Rightarrow> Some (if newer r q then r else q))"

lemma fold_keep_Some: "fold keep_newest rs (Some a) = newest (a # rs)"
proof (induction rs arbitrary: a)
  case (Cons r rs)
  have "fold keep_newest (r # rs) (Some a) = fold keep_newest rs (Some (if newer r a then r else a))"
    by (simp add: keep_newest_def)
  then show ?case unfolding newest_swap Cons.IH .
qed simp

lemma fold_keep_newest: "fold keep_newest rs None = newest rs"
proof (cases rs)
  case (Cons r rest)
  have "keep_newest r None = Some r" by (simp add: keep_newest_def)
  then show ?thesis using fold_keep_Some Cons by simp
qed simp

lemma fold_keep_best: "map_of (fold keep_best rows best) d =
    fold keep_newest (filter (\<lambda>r. t_hash r = Some d) rows) (map_of best d)"
proof (induction rows arbitrary: best)
  case (Cons r rows)
  have "map_of (keep_best r best) d = (if t_hash r = Some d then keep_newest r (map_of best d) else map_of best d)"
    by (auto simp: keep_best_def keep_newest_def split: option.splits)
  then show ?case by (simp add: Cons.IH)
qed simp

lemma keep_best_wf: "dict_wf best \<Longrightarrow> dict_wf (fold keep_best rows best)"
proof (induction rows arbitrary: best)
  case (Cons r rows)
  have "dict_wf (keep_best r best)" using Cons.prems by (auto simp: keep_best_def distinct_update split: option.splits)
  then show ?case by (simp add: Cons.IH)
qed simp

text \<open>The row a single lookup picks.\<close>

definition hash_rows :: "retire_table \<Rightarrow> string \<Rightarrow> db \<Rightarrow> trow list option" where
  "hash_rows t d s = select_rows t (\<lambda>r. t_hash r = Some d) s"

lemma select_rows_cases: "(db_table s t = TableFault \<and> select_rows t P s = None) \<or>
    (\<exists>rows. (\<forall>Q. select_rows t Q s = Some (filter Q rows)))"
proof (cases "db_table s t")
  case TableOk
  then show ?thesis by (auto simp: select_rows_def)
next
  case TableAbsent
  then show ?thesis by (auto simp: select_rows_def intro!: exI [of _ "[]"])
qed (simp add: select_rows_def)

lemma select_rows_uniform: "select_rows t P s \<noteq> None \<Longrightarrow> \<exists>rows. \<forall>Q. select_rows t Q s = Some (filter Q rows)"
  using select_rows_cases [of s t P] by (elim disjE conjE) (simp, assumption)

lemma best_in_chunks_spec: "best_in_chunks t cs s best = Some best' \<Longrightarrow> dict_wf best \<Longrightarrow>
    distinct (concat cs) \<Longrightarrow> \<forall>d \<in> set (concat cs). map_of best d = None \<Longrightarrow>
    dict_wf best' \<and> (\<forall>d. if d \<in> set (concat cs) then \<exists>rows. hash_rows t d s = Some rows \<and> map_of best' d = newest rows
      else map_of best' d = map_of best d)"
proof (induction cs arbitrary: best)
  case (Cons c cs)
  have "select_rows t (\<lambda>r. \<exists>d \<in> set c. t_hash r = Some d) s \<noteq> None"
    using Cons.prems(1) by (auto split: bind_splits)
  from select_rows_uniform [OF this] obtain rows
    where rows: "\<forall>Q. select_rows t Q s = Some (filter Q rows)" by (rule exE)
  let ?b = "fold keep_best (filter (\<lambda>r. \<exists>d \<in> set c. t_hash r = Some d) rows) best"
  have rest: "best_in_chunks t cs s ?b = Some best'" using Cons.prems(1) by (simp add: rows)
  have b: "map_of ?b d = (if d \<in> set c then fold keep_newest (filter (\<lambda>r. t_hash r = Some d) rows) (map_of best d)
      else map_of best d)" for d
  proof -
    have "filter (\<lambda>r. t_hash r = Some d) (filter (\<lambda>r. \<exists>d \<in> set c. t_hash r = Some d) rows) =
        (if d \<in> set c then filter (\<lambda>r. t_hash r = Some d) rows else [])"
      by (auto simp: filter_empty_conv intro!: filter_cong)
    then show ?thesis unfolding fold_keep_best by simp
  qed
  have "dict_wf ?b" using Cons.prems(2) by (rule keep_best_wf)
  moreover have "\<forall>d \<in> set (concat cs). map_of ?b d = None" using Cons.prems(3,4) by (auto simp: b)
  ultimately have IH: "dict_wf best'" "\<And>d. if d \<in> set (concat cs)
      then \<exists>rows. hash_rows t d s = Some rows \<and> map_of best' d = newest rows else map_of best' d = map_of ?b d"
    using Cons.IH [OF rest] Cons.prems(3) by auto
  have "map_of best' d = newest (filter (\<lambda>r. t_hash r = Some d) rows)" if "d \<in> set c" for d
    using IH(2) [of d] that Cons.prems(3,4) by (auto simp: b fold_keep_newest split: if_splits)
  moreover have "map_of best' d = newest (filter (\<lambda>r. t_hash r = Some d) rows)" if "d \<in> set (concat cs)" for d
  proof -
    have "\<exists>rows'. hash_rows t d s = Some rows' \<and> map_of best' d = newest rows'" using IH(2) [of d] that by argo
    then show ?thesis by (auto simp: hash_rows_def rows)
  qed
  moreover have "map_of best' d = map_of best d" if "d \<notin> set (concat (c # cs))" for d
    using IH(2) [of d] that by (auto simp: b)
  moreover have "hash_rows t d s = Some (filter (\<lambda>r. t_hash r = Some d) rows)" for d
    by (simp add: hash_rows_def rows)
  ultimately show ?case using IH(1) by simp
qed simp

lemma fold_reasons: "dict_wf best \<Longrightarrow> map_of (fold (\<lambda>(d, r). dict_set d (reason_or_deleted r)) best found) d =
    (case map_of best d of Some r \<Rightarrow> Some (reason_or_deleted r) | None \<Rightarrow> map_of found d)"
proof (induction best arbitrary: found)
  case (Cons dr best)
  then show ?case by (cases dr) (auto simp: map_of_eq_None_iff [symmetric] split: option.splits)
qed simp

lemma lookup_in_table_spec: "lookup_in_table t digests s found = Some found' \<Longrightarrow> distinct digests \<Longrightarrow>
    map_of found' d = (case map_of found d of Some x \<Rightarrow> Some x | None \<Rightarrow>
      if d \<in> set digests then map_option reason_or_deleted (newest (the (hash_rows t d s))) else None) \<and>
    (d \<in> set digests \<longrightarrow> map_of found d = None \<longrightarrow> hash_rows t d s \<noteq> None)"
proof -
  assume l: "lookup_in_table t digests s found = Some found'" and dist: "distinct digests"
  let ?p = "filter (\<lambda>d. map_of found d = None) digests"
  let ?c = "chunked d1_max_bound_params ?p"
  from l obtain best where best: "best_in_chunks t ?c s [] = Some best"
    and found': "found' = fold (\<lambda>(d, r). dict_set d (reason_or_deleted r)) best found"
    by (auto simp: lookup_in_table_def Let_def split: bind_splits)
  have c: "concat ?c = ?p" by (rule concat_chunked) (simp add: d1_max_bound_params_def)
  from best_in_chunks_spec [OF best] dist
  have wf: "dict_wf best" and b: "if d \<in> set ?p
      then \<exists>rows. hash_rows t d s = Some rows \<and> map_of best d = newest rows else map_of best d = None"
    unfolding c by auto
  show ?thesis
  proof (cases "d \<in> set ?p")
    case True
    with b obtain rows where "hash_rows t d s = Some rows" "map_of best d = newest rows" by auto
    with True show ?thesis by (cases "newest rows") (auto simp: found' fold_reasons [OF wf])
  next
    case False
    with b have "map_of best d = None" by simp
    with False show ?thesis by (auto simp: found' fold_reasons [OF wf] split: option.splits)
  qed
qed

lemma ids_in_chunks_spec: "\<forall>Q. select_rows t Q s = Some (filter Q rows) \<Longrightarrow>
    \<exists>out. ids_in_chunks t cs s = Some out \<and> set out = t_mid ` set rows \<inter> set (concat cs)"
proof (induction cs)
  case (Cons c cs)
  then obtain out where "ids_in_chunks t cs s = Some out" "set out = t_mid ` set rows \<inter> set (concat cs)" by blast
  then show ?case using Cons.prems by auto
qed simp

lemma ids_in_chunks_fault: "db_table s t = TableFault \<Longrightarrow> cs \<noteq> [] \<Longrightarrow> ids_in_chunks t cs s = None"
  by (cases cs) (simp_all add: select_rows_def)

section \<open>Retiring members\<close>

text \<open>The contract of the retirement tables: a marker is permanent and covers its ids, no others.\<close>

locale retirement =
  fixes is_retired :: "'s \<Rightarrow> int \<Rightarrow> bool"
    and mark :: "'a \<Rightarrow> int \<Rightarrow> 's \<Rightarrow> 's"
  assumes mark: "is_retired (mark a m s) n \<longleftrightarrow> n = m \<or> is_retired s n"
begin

lemma mark_all: "is_retired (fold (mark a) ms s) n \<longleftrightarrow> n \<in> set ms \<or> is_retired s n"
  by (induction ms arbitrary: s) (auto simp: mark)

lemma mark_twice: "is_retired (fold (mark a) ms (fold (mark b) ks s)) n \<longleftrightarrow> n \<in> set ms \<union> set ks \<or> is_retired s n"
  by (auto simp: mark_all)

end

definition has_marker :: "db \<Rightarrow> int \<Rightarrow> bool" where
  "has_marker s m \<longleftrightarrow> map_of (db_components s) m \<noteq> None"

interpretation markers: retirement has_marker "\<lambda>(digest, reason, known, origin). mark_retired digest reason known origin"
  by unfold_locales (auto simp: has_marker_def mark_retired_def Let_def split: prod.splits)

lemma table_mid_iff: "(\<exists>r \<in> set (table_rows Components s). t_mid r = m) \<longleftrightarrow> has_marker s m"
proof -
  have "(\<exists>r \<in> set (table_rows Components s). t_mid r = m) \<longleftrightarrow> m \<in> fst ` set (db_components s)"
    by (force simp: table_rows_def)
  then show ?thesis by (simp add: has_marker_def map_of_eq_None_iff)
qed

lemma marker_tombstoned: "db_table s Components = TableOk \<Longrightarrow> has_marker s m \<Longrightarrow> is_tombstoned_id s m = Some True"
  using table_mid_iff [of s m] by (auto simp: is_tombstoned_id_def select_rows_def filter_empty_conv)

lemma mark_frame [simp]:
  "db_memories (mark_retired digest reason known origin m s) = db_memories s"
  "db_crossrefs (mark_retired digest reason known origin m s) = db_crossrefs s"
  "db_tombstones (mark_retired digest reason known origin m s) = db_tombstones s"
  "db_table (mark_retired digest reason known origin m s) = db_table s"
  "db_fk (mark_retired digest reason known origin m s) = db_fk s"
  "db_max_params (mark_retired digest reason known origin m s) = db_max_params s"
  by (simp_all add: mark_retired_def Let_def)

lemma fold_mark_frame [simp]:
  "db_memories (fold (mark_retired digest reason known origin) ms s) = db_memories s"
  "db_crossrefs (fold (mark_retired digest reason known origin) ms s) = db_crossrefs s"
  "db_tombstones (fold (mark_retired digest reason known origin) ms s) = db_tombstones s"
  "db_table (fold (mark_retired digest reason known origin) ms s) = db_table s"
  "db_fk (fold (mark_retired digest reason known origin) ms s) = db_fk s"
  "db_max_params (fold (mark_retired digest reason known origin) ms s) = db_max_params s"
  by (induction ms arbitrary: s) simp_all

lemma fold_mark_row: "map_of (db_components (fold (mark_retired digest reason known origin) ms s)) m =
    (if m \<in> set ms then
       Some \<lparr>tr_hash = Some (content_tombstone_hash digest (case map_of known m of None \<Rightarrow> '''' | Some c \<Rightarrow> c)),
             tr_reason = Some (lineage_reason reason m origin),
             tr_created = (case map_of (db_components s) m of None \<Rightarrow> db_now s | Some r \<Rightarrow> tr_created r)\<rparr>
     else map_of (db_components s) m)"
proof (induction ms arbitrary: s)
  case (Cons k ms)
  let ?s1 = "mark_retired digest reason known origin k s"
  have now: "db_now ?s1 = db_now s" by (simp add: mark_retired_def Let_def)
  have row: "map_of (db_components (mark_retired digest reason known origin k s)) m = (if m = k then
      Some \<lparr>tr_hash = Some (content_tombstone_hash digest (case map_of known m of None \<Rightarrow> '''' | Some c \<Rightarrow> c)),
             tr_reason = Some (lineage_reason reason m origin),
             tr_created = (case map_of (db_components s) m of None \<Rightarrow> db_now s | Some r \<Rightarrow> tr_created r)\<rparr>
      else map_of (db_components s) m)"
    by (simp add: mark_retired_def Let_def)
  show ?case
  proof (cases "m = k")
    case True
    with row Cons.IH [of ?s1] now show ?thesis by simp
  next
    case False
    with row Cons.IH [of ?s1] now show ?thesis by (cases "map_of (db_components s) m") simp_all
  qed
qed simp

lemma mark_retired_wf: "dict_wf (db_components s) \<Longrightarrow> dict_wf (db_components (mark_retired digest reason known origin m s))"
  by (simp add: mark_retired_def Let_def distinct_update)

lemma fold_mark_wf: "dict_wf (db_components s) \<Longrightarrow> dict_wf (db_components (fold (mark_retired digest reason known origin) ms s))"
  by (induction ms arbitrary: s) (simp_all add: mark_retired_wf)

lemma filter_key: "dict_wf d \<Longrightarrow> map_of d k = Some v \<Longrightarrow> filter (\<lambda>(k', v'). k' = k) d = [(k, v)]"
  by (induction d) (auto simp: filter_empty_conv image_iff split: if_splits)

lemma lineage_origin_reason: "0 \<le> o' \<Longrightarrow> m \<noteq> o' \<Longrightarrow> lineage_origin (lineage_reason reason m (Some o')) = Some o'"
proof -
  assume o': "0 \<le> o'" and m: "m \<noteq> o'"
  let ?ds = "nat_text (nat o')"
  have digits: "\<forall>c \<in> set (rev ?ds). is_digit c" "?ds \<noteq> []"
    using nat_text_digits [of "nat o'"] by (auto simp: list_all_iff)
  have nd: "\<not> is_digit CHR ''#''" "\<not> is_space CHR '')''" by (simp_all add: text_simps)
  have rev: "rev (lineage_reason reason m (Some o')) =
      CHR '')'' # rev ?ds @ rev ''(lineage of #'' @ CHR '' '' # rev reason"
    using o' m by (simp add: lineage_reason_def int_text_def)
  have tw: "takeWhile is_digit (rev ?ds @ CHR ''#'' # xs) = rev ?ds"
    "dropWhile is_digit (rev ?ds @ CHR ''#'' # xs) = CHR ''#'' # xs" for xs
    using digits nd by (simp_all add: takeWhile_append dropWhile_append)
  show ?thesis
    unfolding lineage_origin_def rev using digits nd o'
    by (simp add: tw starts_with_def)
qed

section \<open>Properties\<close>

text \<open>Two contents have the same tombstone fingerprint text exactly when they are the same sequence
  of words up to letter case: leading, trailing and repeated white space and capitals do not let
  retired content back in, and nothing else is identified.\<close>

theorem tombstone_text_same_words:
  "tombstone_text a = tombstone_text b \<longleftrightarrow> map str_lower (text_words a) = map str_lower (text_words b)"
  using text_words_join [OF lower_words [of a]] text_words_join [OF lower_words [of b]]
  by (metis tombstone_text_words)

text \<open>The batched tombstone lookup answers every content of the batch as the single lookup would:
  the component table first, the legacy table only for what it does not answer, the newest row winning,
  whatever the number of queries the batch is split into.\<close>

theorem tombstone_batch_is_single:
  assumes "lookup_tombstones_by_hash_batch digest s contents = Some found" and "content \<in> set contents"
  shows "lookup_tombstone_by_hash digest s content = Some (map_of found (content_tombstone_hash digest content))"
proof -
  let ?ds = "uniq (map (content_tombstone_hash digest) contents)" and ?d = "content_tombstone_hash digest content"
  from assms(1) obtain f1 where f1: "lookup_in_table Components ?ds s [] = Some f1"
    and f2: "lookup_in_table Tombstones ?ds s f1 = Some found"
    by (auto simp: lookup_tombstones_by_hash_batch_def Let_def split: bind_splits)
  have d: "?d \<in> set ?ds" using assms(2) by simp
  note spec1 = lookup_in_table_spec [OF f1 distinct_uniq, of ?d] and spec2 = lookup_in_table_spec [OF f2 distinct_uniq, of ?d]
  from spec1 d obtain a where a: "hash_rows Components ?d s = Some a" by auto
  show ?thesis
  proof (cases "newest a")
    case (Some r)
    then show ?thesis using spec1 spec2 d a
      by (simp add: lookup_tombstone_by_hash_def Let_def hash_rows_def [symmetric])
  next
    case None
    then have n: "map_of f1 ?d = None" using spec1 d a by simp
    with spec2 d obtain b where b: "hash_rows Tombstones ?d s = Some b" by auto
    then show ?thesis using None spec2 d a n
      by (simp add: lookup_tombstone_by_hash_def Let_def hash_rows_def [symmetric])
  qed
qed

definition ex_retired :: db where
  "ex_retired = empty_db\<lparr>db_components :=
     [(1, \<lparr>tr_hash = Some ''old text'', tr_reason = Some ''merged'', tr_created = ''2026-01-01''\<rparr>),
      (2, \<lparr>tr_hash = Some ''old text'', tr_reason = None, tr_created = ''2026-02-01''\<rparr>)]\<rparr>"

theorem tombstone_batch_is_single_witness:
  "lookup_tombstone_by_hash id ex_retired '' Old  text'' = Some (Some ''deleted'')"
proof -
  have batch: "lookup_tombstones_by_hash_batch id ex_retired ['' Old  text'', ''new''] = Some [(''old text'', ''deleted'')]"
    by code_simp
  have "content_tombstone_hash id '' Old  text'' = ''old text''" by code_simp
  then show ?thesis using tombstone_batch_is_single [OF batch, of "'' Old  text''"] by simp
qed

text \<open>The bounded read of retired ids is the full read restricted to the ids asked for, with the
  same failures: a missing table is empty and a failing one raises, so neither fails open.\<close>

theorem retired_ids_among_exact:
  assumes "ids \<noteq> []"
  shows "retired_ids_among s ids = map_option (\<lambda>R. R \<inter> set ids) (retired_memory_ids s)"
proof -
  let ?cs = "chunked d1_max_bound_params (uniq ids)"
  have ids: "set (concat ?cs) = set ids" by (simp add: concat_chunked d1_max_bound_params_def)
  then have cs: "?cs \<noteq> []" using assms by auto
  consider "\<exists>t. db_table s t = TableFault" | "\<forall>t. db_table s t \<noteq> TableFault" by blast
  then show ?thesis
  proof cases
    case 1
    then obtain t where "db_table s t = TableFault" by blast
    then show ?thesis
      using ids_in_chunks_fault [OF _ cs] unfolding retired_ids_among_def retired_memory_ids_def Let_def
      by (cases t) (auto simp: select_rows_def split: bind_splits)
  next
    case 2
    then have "\<exists>rows. \<forall>Q. select_rows t Q s = Some (filter Q rows)" for t
      using select_rows_cases [of s t "\<lambda>_. True"] by auto
    then obtain ra rb where ra: "\<forall>Q. select_rows Components Q s = Some (filter Q ra)"
      and rb: "\<forall>Q. select_rows Tombstones Q s = Some (filter Q rb)" by blast
    obtain a b where "ids_in_chunks Components ?cs s = Some a" "set a = t_mid ` set ra \<inter> set ids"
      "ids_in_chunks Tombstones ?cs s = Some b" "set b = t_mid ` set rb \<inter> set ids"
      using ids_in_chunks_spec [OF ra, of ?cs] ids_in_chunks_spec [OF rb, of ?cs] unfolding ids by blast
    then show ?thesis by (auto simp: retired_ids_among_def retired_memory_ids_def ra rb Let_def)
  qed
qed

theorem retired_ids_among_exact_witness: "retired_ids_among ex_retired [2, 3] = Some {2}"
  using retired_ids_among_exact [of "[2, 3]" ex_retired]
  by (simp add: retired_memory_ids_def ex_retired_def empty_db_def select_rows_def table_rows_def insert_commute)



end
