(* ===== verification/Lineage_View.thy ===== *)
theory Lineage_View
  imports Lineage_Walk Retirement
begin

text \<open>
  The prefetched supersession neighbourhood of \<open>memora/storage.py\<close> (\<open>_SupersessionView\<close>,
  \<open>_load_supersession_view\<close>) and what it promises: the walks over it return what the per-row
  reads return.  The promise is the locale \<open>prefetch\<close>, interpreted on the model of the loader.
\<close>

section \<open>Loading a neighbourhood\<close>

record view =
  v_crossrefs :: "(int, json list) dict"
  v_existing :: "int list"
  v_retired :: "int set"

definition refs_in :: "(int, json list) dict \<Rightarrow> int \<Rightarrow> json list" where
  "refs_in cr m = (case map_of cr m of None \<Rightarrow> [] | Some refs \<Rightarrow> refs)"

definition view_crossrefs :: "view \<Rightarrow> int \<Rightarrow> json list" where
  "view_crossrefs v m = refs_in (v_crossrefs v) m"

definition view_exists :: "view \<Rightarrow> int \<Rightarrow> bool" where
  "view_exists v m \<longleftrightarrow> m \<in> set (v_existing v)"

definition view_tomb :: "view \<Rightarrow> int \<Rightarrow> bool option" where
  "view_tomb v m = Some (m \<in> v_retired v)"

definition view_max_nodes :: nat where
  "view_max_nodes = 1000"

definition view_max_levels :: nat where
  "view_max_levels = 2 * max_chain_depth"

text \<open>One level: \<open>memories LEFT JOIN memories_crossrefs\<close>, one query per hundred ids.\<close>

definition level_rows :: "db \<Rightarrow> int list \<Rightarrow> (int \<times> json list) list" where
  "level_rows s frontier =
     concat (map (\<lambda>c. map (\<lambda>(m, _). (m, get_crossrefs s m)) (filter (\<lambda>(m, _). m \<in> set c) (db_memories s)))
       (chunked d1_max_bound_params frontier))"

text \<open>The references of the seeds whose memory row is gone.\<close>

definition orphan_rows :: "db \<Rightarrow> int list \<Rightarrow> (int \<times> json list) list" where
  "orphan_rows s missing =
     concat (map (\<lambda>c. map (\<lambda>(m, b). (m, blob_list b)) (filter (\<lambda>(m, _). m \<in> set c) (db_crossrefs s)))
       (chunked d1_max_bound_params missing))"

text \<open>
  The ids a level leads to.  An entry that is not an object, or a supersession id that is not an
  integer, makes the loader decline.
\<close>

fun next_ids :: "int list \<Rightarrow> json list \<Rightarrow> int list option" where
  "next_ids checked [] = Some []"
| "next_ids checked (r # rs) =
     (case r of
        JObj d \<Rightarrow>
          if json_get ''edge_type'' d \<notin> set supersession_edge_types then next_ids checked rs
          else (case json_get ''id'' d of
                  JInt n \<Rightarrow> do { ns \<leftarrow> next_ids checked rs; Some (if n \<in> set checked then ns else n # ns) }
                | _ \<Rightarrow> None)
      | _ \<Rightarrow> None)"

definition load_step :: "bool \<Rightarrow> db \<Rightarrow> int list \<Rightarrow> (int, json list) dict \<Rightarrow> int list \<Rightarrow> (int, json list) dict \<times> int list" where
  "load_step first s frontier cr existing =
     (let rows = level_rows s frontier;
          cr1 = fold (\<lambda>(m, refs). dict_set m refs) rows cr;
          existing1 = existing @ map fst rows;
          missing = filter (\<lambda>m. m \<notin> set existing1) frontier in
      (if first then fold (\<lambda>(m, refs). dict_set m refs) (orphan_rows s missing) cr1 else cr1, existing1))"

fun load_levels :: "nat \<Rightarrow> bool \<Rightarrow> db \<Rightarrow> int list \<Rightarrow> int list \<Rightarrow> (int, json list) dict \<Rightarrow> int list \<Rightarrow>
    ((int, json list) dict \<times> int list \<times> int list) option" where
  "load_levels 0 first s frontier checked cr existing =
     (if frontier = [] then Some (cr, existing, checked) else None)"
| "load_levels (Suc n) first s frontier checked cr existing =
     (if frontier = [] then Some (cr, existing, checked)
      else if view_max_nodes < length checked + length frontier then None
      else
        (let (cr1, existing1) = load_step first s frontier cr existing; checked1 = checked @ frontier in
         do { nxt \<leftarrow> map_opt (\<lambda>m. next_ids checked1 (refs_in cr1 m)) frontier;
              load_levels n False s (uniq (concat nxt)) checked1 cr1 existing1 }))"

text \<open>The outer option is an exception (a retirement read that failed), the inner one a decline.\<close>

definition load_supersession_view :: "db \<Rightarrow> int list \<Rightarrow> view option option" where
  "load_supersession_view s seeds =
     (case load_levels view_max_levels True s (uniq seeds) [] [] [] of
        None \<Rightarrow> Some None
      | Some (cr, existing, checked) \<Rightarrow>
          do { retired \<leftarrow> retired_ids_among s checked;
               Some (Some \<lparr>v_crossrefs = cr, v_existing = existing, v_retired = retired\<rparr>) })"

text \<open>The walks over the database, per row or over a freshly loaded view.\<close>

definition with_readers :: "((int \<Rightarrow> json list) \<Rightarrow> (int \<Rightarrow> bool) \<Rightarrow> (int \<Rightarrow> bool option) \<Rightarrow> 'a) \<Rightarrow> db \<Rightarrow> view option \<Rightarrow> 'a" where
  "with_readers f s v =
     (case v of
        None \<Rightarrow> f (get_crossrefs s) (memory_exists s) (is_tombstoned_id s)
      | Some w \<Rightarrow> f (view_crossrefs w) (view_exists w) (view_tomb w))"

definition live_leaves_of :: "db \<Rightarrow> int \<Rightarrow> (int list \<times> bool) option" where
  "live_leaves_of s mid =
     do { v \<leftarrow> load_supersession_view s [mid];
          with_readers (\<lambda>cr ex tomb. component_live_leaves cr ex tomb mid) s v }"

definition absorb_target_of :: "db \<Rightarrow> int \<Rightarrow> supersedes_plan option" where
  "absorb_target_of s mid =
     do { v \<leftarrow> load_supersession_view s [mid];
          with_readers (\<lambda>cr ex tomb. resolve_absorb_supersedes_target cr ex tomb mid) s v }"

definition full_history_of :: "db \<Rightarrow> int \<Rightarrow> int list option" where
  "full_history_of s mid = get_full_history (get_crossrefs s) (memory_exists s) mid"

section \<open>Two readers that agree where the walks go\<close>

definition walk_alike :: "(int \<Rightarrow> json list) \<Rightarrow> (int \<Rightarrow> bool) \<Rightarrow> (int \<Rightarrow> json list) \<Rightarrow> (int \<Rightarrow> bool) \<Rightarrow> int set \<Rightarrow> bool" where
  "walk_alike cr ex cr' ex' L \<longleftrightarrow>
     (\<forall>n \<in> L. cr' n = cr n \<and>
       (\<forall>r \<in> set (cr n). \<forall>et b. JStr et \<in> set supersession_edge_types \<longrightarrow> walk_ref et r = Some (Some b) \<longrightarrow>
          ex' b = ex b \<and> (ex b \<longrightarrow> b \<in> L)))"

lemma step_refs_alike:
  assumes "\<forall>r \<in> set rs. \<forall>b. walk_ref et r = Some (Some b) \<longrightarrow> ex' b = ex b \<and> (ex b \<longrightarrow> b \<in> L)"
    and "set nxt \<subseteq> L"
  shows "step_refs ex' et rs (chain, nxt) = step_refs ex et rs (chain, nxt) \<and>
    (\<forall>chain' nxt'. step_refs ex et rs (chain, nxt) = Some (chain', nxt') \<longrightarrow> set nxt' \<subseteq> L)"
  using assms
proof (induction rs arbitrary: chain nxt)
  case (Cons r rs)
  show ?case
  proof (cases "walk_ref et r")
    case (Some t)
    show ?thesis
    proof (cases t)
      case None
      with Some Cons show ?thesis by simp
    next
      case (Some b)
      with \<open>walk_ref et r = Some t\<close> Cons.prems have b: "walk_ref et r = Some (Some b)" "ex' b = ex b" "ex b \<longrightarrow> b \<in> L" by auto
      show ?thesis
      proof (cases "b \<notin> set chain \<and> ex b")
        case True
        then show ?thesis using Cons.IH [of "nxt @ [b]" "chain @ [b]"] Cons.prems b by simp
      next
        case False
        then show ?thesis using Cons.IH [of nxt chain] Cons.prems b by auto
      qed
    qed
  qed simp
qed simp

lemma step_level_alike:
  assumes alike: "walk_alike cr ex cr' ex' L" and et: "JStr et \<in> set supersession_edge_types"
    and "set cs \<subseteq> L" and "set nxt \<subseteq> L"
  shows "step_level cr' ex' et cs (chain, nxt) = step_level cr ex et cs (chain, nxt) \<and>
    (\<forall>chain' nxt'. step_level cr ex et cs (chain, nxt) = Some (chain', nxt') \<longrightarrow> set nxt' \<subseteq> L)"
  using assms(3,4)
proof (induction cs arbitrary: chain nxt)
  case (Cons c cs)
  have c: "cr' c = cr c" "\<forall>r \<in> set (cr c). \<forall>b. walk_ref et r = Some (Some b) \<longrightarrow> ex' b = ex b \<and> (ex b \<longrightarrow> b \<in> L)"
    using alike et Cons.prems(1) unfolding walk_alike_def by auto
  note s = step_refs_alike [OF c(2) Cons.prems(2), of chain]
  show ?case
  proof (cases "step_refs ex et (cr c) (chain, nxt)")
    case None
    with s c show ?thesis by simp
  next
    case (Some st)
    obtain chain1 nxt1 where st: "st = (chain1, nxt1)" by (cases st)
    with Some s have "set nxt1 \<subseteq> L" by blast
    from Cons.IH [OF _ this, of chain1] Cons.prems(1) show ?thesis using s c Some st by simp
  qed
qed simp

lemma walk_levels_alike:
  assumes alike: "walk_alike cr ex cr' ex' L" and et: "JStr et \<in> set supersession_edge_types"
  shows "set queue \<subseteq> L \<Longrightarrow> walk_levels cr' ex' et d queue chain = walk_levels cr ex et d queue chain"
proof (induction d arbitrary: queue chain)
  case (Suc d)
  note s = step_level_alike [OF alike et Suc.prems, of "[]" chain]
  show ?case
  proof (cases "step_level cr ex et queue (chain, [])")
    case None
    with s show ?thesis by simp
  next
    case (Some st)
    obtain chain1 nxt1 where "st = (chain1, nxt1)" by (cases st)
    with Some s Suc.IH show ?thesis by simp
  qed
qed simp

lemma walk_levels_inside:
  assumes alike: "walk_alike cr ex cr' ex' L" and et: "JStr et \<in> set supersession_edge_types"
  shows "set queue \<subseteq> L \<Longrightarrow> set chain \<subseteq> L \<Longrightarrow> distinct chain \<Longrightarrow>
    walk_levels cr ex et d queue chain = Some chain' \<Longrightarrow> set chain' \<subseteq> L"
proof (induction d arbitrary: queue chain)
  case (Suc d)
  show ?case
  proof (cases "queue = []")
    case False
    with Suc.prems obtain chain1 nxt1 where st: "step_level cr ex et queue (chain, []) = Some (chain1, nxt1)"
      by (auto split: bind_splits)
    note s = step_level_alike [OF alike et Suc.prems(1), of "[]" chain] and spec = step_level_spec [OF st Suc.prems(3)]
    have "set nxt1 \<subseteq> L" using s st by simp
    moreover have "set chain1 \<subseteq> L" using spec Suc.prems(2) calculation by auto
    ultimately show ?thesis using Suc.IH [of nxt1 chain1] spec Suc.prems(4) False st by simp
  qed (use Suc in simp)
qed simp

lemma walk_chain_alike: "walk_alike cr ex cr' ex' L \<Longrightarrow> m \<in> L \<Longrightarrow> JStr et \<in> set supersession_edge_types \<Longrightarrow>
    walk_chain cr' ex' m et = walk_chain cr ex m et \<and>
    (\<forall>chain. walk_chain cr ex m et = Some chain \<longrightarrow> set chain \<subseteq> L)"
  using walk_levels_alike [of cr ex cr' ex' L et "[m]"] walk_levels_inside [of cr ex cr' ex' L et "[m]" "[m]"]
  unfolding walk_chain_def by auto

lemma any_opt_cong: "(\<And>x. x \<in> set xs \<Longrightarrow> p x = q x) \<Longrightarrow> any_opt p xs = any_opt q xs"
  by (induction xs) (auto cong: if_cong)

lemma filter_opt_cong: "(\<And>x. x \<in> set xs \<Longrightarrow> p x = q x) \<Longrightarrow> filter_opt p xs = filter_opt q xs"
  by (induction xs) auto

lemma map_opt_cong: "(\<And>x. x \<in> set xs \<Longrightarrow> f x = g x) \<Longrightarrow> map_opt f xs = map_opt g xs"
  by (induction xs) auto

lemma filter_opt_subset: "filter_opt p xs = Some ys \<Longrightarrow> set ys \<subseteq> set xs"
  by (induction xs arbitrary: ys) (fastforce split: bind_splits if_splits)+

lemma map_opt_inside: "(\<And>x y. x \<in> set xs \<Longrightarrow> f x = Some y \<Longrightarrow> set y \<subseteq> L) \<Longrightarrow> map_opt f xs = Some ys \<Longrightarrow> set (concat ys) \<subseteq> L"
proof (induction xs arbitrary: ys)
  case (Cons x xs)
  then obtain y zs where "f x = Some y" "map_opt f xs = Some zs" "ys = y # zs" by (auto split: bind_splits)
  then show ?case using Cons.IH [of zs] Cons.prems(1) [of x y] Cons.prems(1) by auto
qed simp

lemma parent_ref_alike: "\<forall>b. walk_ref ''supersedes'' r = Some (Some b) \<longrightarrow> ex' b = ex b \<Longrightarrow> parent_ref ex' m r = parent_ref ex m r"
  by (cases r) (auto simp: parent_ref_def walk_ref_def split: option.splits if_splits)

lemma successor_ref_alike: "\<forall>b. walk_ref ''superseded_by'' r = Some (Some b) \<longrightarrow> ex' b = ex b \<Longrightarrow>
    successor_ref ex' members m r = successor_ref ex members m r"
  by (cases r) (auto simp: successor_ref_def walk_ref_def is_pystr_def py_int_def split: option.splits if_splits json.splits)

lemma super_types: "JStr ''supersedes'' \<in> set supersession_edge_types" "JStr ''superseded_by'' \<in> set supersession_edge_types"
  by (simp_all add: supersession_edge_types_def)

lemma any_successor_alike: "walk_alike cr ex cr' ex' L \<Longrightarrow> m \<in> L \<Longrightarrow>
    any_opt (successor_ref ex' members m) (cr' m) = any_opt (successor_ref ex members m) (cr m)"
proof -
  assume alike: "walk_alike cr ex cr' ex' L" and m: "m \<in> L"
  have "successor_ref ex' members m r = successor_ref ex members m r" if "r \<in> set (cr m)" for r
    using alike m that super_types(2) by (intro successor_ref_alike) (auto simp: walk_alike_def)
  then have "any_opt (successor_ref ex' members m) (cr m) = any_opt (successor_ref ex members m) (cr m)"
    by (rule any_opt_cong)
  then show ?thesis using alike m by (simp add: walk_alike_def)
qed

lemma any_parent_alike: "walk_alike cr ex cr' ex' L \<Longrightarrow> m \<in> L \<Longrightarrow>
    any_opt (parent_ref ex' m) (cr' m) = any_opt (parent_ref ex m) (cr m)"
proof -
  assume alike: "walk_alike cr ex cr' ex' L" and m: "m \<in> L"
  have "parent_ref ex' m r = parent_ref ex m r" if "r \<in> set (cr m)" for r
    using alike m that super_types(1) by (intro parent_ref_alike) (auto simp: walk_alike_def)
  then have "any_opt (parent_ref ex' m) (cr m) = any_opt (parent_ref ex m) (cr m)"
    by (rule any_opt_cong)
  then show ?thesis using alike m by (simp add: walk_alike_def)
qed

lemma chain_leaves_alike: "walk_alike cr ex cr' ex' L \<Longrightarrow> set members \<subseteq> L \<Longrightarrow>
    chain_leaves cr' ex' members = chain_leaves cr ex members"
  unfolding chain_leaves_def using any_successor_alike by (intro filter_opt_cong) (simp add: subset_iff)

lemma full_history_alike:
  assumes alike: "walk_alike cr ex cr' ex' L" and m: "m \<in> L"
  shows "get_full_history cr' ex' m = get_full_history cr ex m \<and>
    (\<forall>h. get_full_history cr ex m = Some h \<longrightarrow> set h \<subseteq> L)"
proof (cases "walk_chain cr ex m ''supersedes''")
  case None
  then show ?thesis using walk_chain_alike [OF alike m super_types(1)] by (simp add: get_full_history_def)
next
  case (Some anc)
  note w = walk_chain_alike [OF alike m super_types(1)]
  have anc: "set anc \<subseteq> L" using w Some by blast
  have found: "filter_opt (\<lambda>m. map_option Not (any_opt (parent_ref ex' m) (cr' m))) anc =
      filter_opt (\<lambda>m. map_option Not (any_opt (parent_ref ex m) (cr m))) anc"
    using any_parent_alike [OF alike] anc by (intro filter_opt_cong) (simp add: subset_iff)
  show ?thesis
  proof (cases "filter_opt (\<lambda>m. map_option Not (any_opt (parent_ref ex m) (cr m))) anc")
    case None
    then show ?thesis using w Some found by (simp add: get_full_history_def)
  next
    case (Some fs)
    let ?roots = "if fs = [] then [m] else fs"
    have roots: "set ?roots \<subseteq> L" using filter_opt_subset [OF Some] anc m by auto
    then have chains: "map_opt (\<lambda>root. walk_chain cr' ex' root ''superseded_by'') (sort ?roots) =
        map_opt (\<lambda>root. walk_chain cr ex root ''superseded_by'') (sort ?roots)"
      using walk_chain_alike [OF alike _ super_types(2)] by (intro map_opt_cong) auto
    have "set (concat ys) \<subseteq> L" if "map_opt (\<lambda>root. walk_chain cr ex root ''superseded_by'') (sort ?roots) = Some ys" for ys
      using map_opt_inside [OF _ that, of L] walk_chain_alike [OF alike _ super_types(2)] roots by auto
    then show ?thesis using w \<open>walk_chain cr ex m ''supersedes'' = Some anc\<close> found Some chains
      by (auto simp: get_full_history_def Let_def split: bind_splits)
  qed
qed

lemma live_leaves_alike:
  assumes "walk_alike cr ex cr' ex' L" and "m \<in> L" and "\<forall>n \<in> L. tomb' n = tomb n"
  shows "component_live_leaves cr' ex' tomb' m = component_live_leaves cr ex tomb m"
proof (cases "get_full_history cr ex m")
  case None
  then show ?thesis using full_history_alike [OF assms(1,2)] assms(2,3)
    by (simp add: component_live_leaves_def cong: if_cong)
next
  case (Some h)
  note f = full_history_alike [OF assms(1,2)]
  then have h: "set h \<subseteq> L" using Some by blast
  have "any_opt tomb' h = any_opt tomb h" using assms(3) h by (intro any_opt_cong) auto
  moreover have "chain_leaves cr' ex' h = chain_leaves cr ex h" using chain_leaves_alike [OF assms(1) h] .
  moreover have "filter_opt (\<lambda>m. map_option Not (tomb' m)) ls = filter_opt (\<lambda>m. map_option Not (tomb m)) ls"
    if "chain_leaves cr ex h = Some ls" for ls
    using filter_opt_subset [of _ h ls] that h assms(3) unfolding chain_leaves_def
    by (intro filter_opt_cong) (fastforce dest: filter_opt_subset)
  ultimately show ?thesis using f Some assms(2,3)
    by (cases "chain_leaves cr ex h") (simp_all add: component_live_leaves_def cong: if_cong)
qed

lemma resolve_latest_alike:
  assumes "walk_alike cr ex cr' ex' L" and "m \<in> L" and "\<forall>n \<in> L. tomb' n = tomb n"
  shows "resolve_latest cr' ex' tomb' m = resolve_latest cr ex tomb m"
proof (cases "walk_chain cr ex m ''superseded_by''")
  case None
  then show ?thesis using walk_chain_alike [OF assms(1,2) super_types(2)] assms(2,3)
    by (simp add: resolve_latest_def cong: if_cong)
next
  case (Some h)
  note f = walk_chain_alike [OF assms(1,2) super_types(2)]
  then have h: "set h \<subseteq> L" using Some by blast
  have "chain_leaves cr' ex' h = chain_leaves cr ex h" using chain_leaves_alike [OF assms(1) h] .
  moreover have "filter_opt (\<lambda>m. map_option Not (tomb' m)) ls = filter_opt (\<lambda>m. map_option Not (tomb m)) ls"
    if "chain_leaves cr ex h = Some ls" for ls
    using that h assms(3) unfolding chain_leaves_def
    by (intro filter_opt_cong) (fastforce dest: filter_opt_subset)
  ultimately show ?thesis using f Some assms(2,3)
    by (cases "chain_leaves cr ex h") (simp_all add: resolve_latest_def cong: if_cong)
qed

section \<open>The contract of a prefetched neighbourhood\<close>

locale prefetch =
  fixes cr :: "'s \<Rightarrow> int \<Rightarrow> json list" and ex :: "'s \<Rightarrow> int \<Rightarrow> bool" and tomb :: "'s \<Rightarrow> int \<Rightarrow> bool option"
    and vcr :: "'v \<Rightarrow> int \<Rightarrow> json list" and vex :: "'v \<Rightarrow> int \<Rightarrow> bool" and vtomb :: "'v \<Rightarrow> int \<Rightarrow> bool option"
    and fetched :: "'s \<Rightarrow> int list \<Rightarrow> 'v \<Rightarrow> bool" and inside :: "int list \<Rightarrow> 'v \<Rightarrow> int \<Rightarrow> bool"
  assumes seeds: "fetched s seeds v \<Longrightarrow> m \<in> set seeds \<Longrightarrow> inside seeds v m"
    and same_refs: "fetched s seeds v \<Longrightarrow> inside seeds v m \<Longrightarrow> vcr v m = cr s m"
    and same_tomb: "fetched s seeds v \<Longrightarrow> inside seeds v m \<Longrightarrow> vtomb v m = tomb s m"
    and edges: "fetched s seeds v \<Longrightarrow> inside seeds v m \<Longrightarrow> r \<in> set (cr s m) \<Longrightarrow>
      JStr et \<in> set supersession_edge_types \<Longrightarrow> walk_ref et r = Some (Some b) \<Longrightarrow>
      vex v b = ex s b \<and> (ex s b \<longrightarrow> inside seeds v b)"
begin

lemma alike: "fetched s seeds v \<Longrightarrow> walk_alike (cr s) (ex s) (vcr v) (vex v) {m. inside seeds v m}"
  unfolding walk_alike_def using same_refs edges by blast

lemma walk: "fetched s seeds v \<Longrightarrow> m \<in> set seeds \<Longrightarrow> JStr et \<in> set supersession_edge_types \<Longrightarrow>
    walk_chain (vcr v) (vex v) m et = walk_chain (cr s) (ex s) m et"
  using walk_chain_alike [OF alike] seeds by blast

lemma history: "fetched s seeds v \<Longrightarrow> m \<in> set seeds \<Longrightarrow>
    get_full_history (vcr v) (vex v) m = get_full_history (cr s) (ex s) m"
  using full_history_alike [OF alike] seeds by blast

lemma latest: "fetched s seeds v \<Longrightarrow> m \<in> set seeds \<Longrightarrow>
    resolve_latest (vcr v) (vex v) (vtomb v) m = resolve_latest (cr s) (ex s) (tomb s) m"
  using resolve_latest_alike [OF alike] seeds same_tomb by blast

lemma live_leaves: "fetched s seeds v \<Longrightarrow> m \<in> set seeds \<Longrightarrow>
    component_live_leaves (vcr v) (vex v) (vtomb v) m = component_live_leaves (cr s) (ex s) (tomb s) m"
  using live_leaves_alike [OF alike] seeds same_tomb by blast

end

section \<open>The loader keeps the contract\<close>

lemma map_of_fold_rows: "(\<forall>(k, v) \<in> set rows. v = f k) \<Longrightarrow>
    map_of (fold (\<lambda>(k, v). dict_set k v) rows d) m = (if m \<in> fst ` set rows then Some (f m) else map_of d m)"
proof (induction rows arbitrary: d)
  case (Cons kv rows)
  then show ?case by (cases kv) auto
qed simp

lemma query_rows_fst: "fst ` set (concat (map (\<lambda>c. map (\<lambda>(m, x). (m, g m x)) (filter (\<lambda>(m, _). m \<in> set c) d)) cs)) =
    {m \<in> set (concat cs). m \<in> fst ` set d}"
proof (induction cs)
  case (Cons c cs)
  have "fst ` set (map (\<lambda>(m, x). (m, g m x)) (filter (\<lambda>(m, _). m \<in> set c) d)) = {m \<in> set c. m \<in> fst ` set d}"
    by (induction d) auto
  then show ?case using Cons.IH by (auto simp: image_Un)
qed simp

lemma level_rows_fst: "fst ` set (level_rows s frontier) = {m \<in> set frontier. has_row s m}"
proof -
  have "fst ` set (level_rows s frontier) = {m \<in> set (concat (chunked d1_max_bound_params frontier)). m \<in> fst ` set (db_memories s)}"
    unfolding level_rows_def by (rule query_rows_fst)
  then show ?thesis by (simp add: concat_chunked d1_max_bound_params_def has_row_def map_of_eq_None_iff)
qed

lemma level_rows_snd: "\<forall>(m, refs) \<in> set (level_rows s frontier). refs = get_crossrefs s m"
  by (auto simp: level_rows_def)

lemma orphan_rows_fst: "fst ` set (orphan_rows s missing) = {m \<in> set missing. map_of (db_crossrefs s) m \<noteq> None}"
proof -
  have "fst ` set (orphan_rows s missing) = {m \<in> set (concat (chunked d1_max_bound_params missing)). m \<in> fst ` set (db_crossrefs s)}"
    unfolding orphan_rows_def by (rule query_rows_fst)
  then show ?thesis by (simp add: concat_chunked d1_max_bound_params_def map_of_eq_None_iff)
qed

lemma orphan_rows_snd: "dict_wf (db_crossrefs s) \<Longrightarrow> \<forall>(m, refs) \<in> set (orphan_rows s missing). refs = get_crossrefs s m"
  by (auto simp: orphan_rows_def get_crossrefs_def)

lemma next_ids_spec: "next_ids checked refs = Some ns \<Longrightarrow> r \<in> set refs \<Longrightarrow>
    JStr et \<in> set supersession_edge_types \<Longrightarrow> walk_ref et r = Some (Some b) \<Longrightarrow> b \<in> set checked \<union> set ns"
proof (induction refs arbitrary: ns)
  case (Cons q refs)
  then obtain d where q: "q = JObj d" by (cases q) auto
  show ?case
  proof (cases "json_get ''edge_type'' d \<in> set supersession_edge_types")
    case False
    with Cons q have "r \<noteq> q" by (auto simp: walk_ref_def split: option.splits if_splits)
    with Cons q False show ?thesis by simp
  next
    case True
    with Cons.prems(1) q obtain n ns' where n: "json_get ''id'' d = JInt n" "next_ids checked refs = Some ns'"
      "ns = (if n \<in> set checked then ns' else n # ns')"
      by (auto split: json.splits bind_splits)
    show ?thesis
    proof (cases "r = q")
      case True
      with Cons.prems(4) q n show ?thesis
        by (auto simp: walk_ref_def json_get_def unhashable_def is_pystr_def split: option.splits if_splits)
    next
      case False
      with Cons.IH [OF n(2)] Cons.prems n(3) show ?thesis by auto
    qed
  qed
qed simp

lemma map_opt_nth: "map_opt f xs = Some ys \<Longrightarrow> x \<in> set xs \<Longrightarrow> \<exists>y \<in> set ys. f x = Some y"
  by (induction xs arbitrary: ys) (auto split: bind_splits)

lemma next_ids_new: "next_ids checked refs = Some ns \<Longrightarrow> set ns \<inter> set checked = {}"
  by (induction refs arbitrary: ns) (auto split: json.splits if_splits bind_splits)

lemma map_opt_all: "map_opt f xs = Some ys \<Longrightarrow> y \<in> set ys \<Longrightarrow> \<exists>x \<in> set xs. f x = Some y"
  by (induction xs arbitrary: ys) (auto split: bind_splits)

definition edges_in :: "json list \<Rightarrow> int set \<Rightarrow> bool" where
  "edges_in refs N \<longleftrightarrow> (\<forall>r \<in> set refs. \<forall>et b. JStr et \<in> set supersession_edge_types \<longrightarrow>
     walk_ref et r = Some (Some b) \<longrightarrow> b \<in> N)"

definition load_inv :: "db \<Rightarrow> int list \<Rightarrow> bool \<Rightarrow> int list \<Rightarrow> int list \<Rightarrow> (int, json list) dict \<Rightarrow> int list \<Rightarrow> bool" where
  "load_inv s seeds first frontier checked cr existing \<longleftrightarrow>
     (\<forall>m \<in> set checked. refs_in cr m = (if has_row s m \<or> m \<in> set seeds then get_crossrefs s m else [])) \<and>
     (\<forall>m. m \<notin> set checked \<longrightarrow> map_of cr m = None) \<and>
     set existing = {m \<in> set checked. has_row s m} \<and>
     (\<forall>m \<in> set checked. edges_in (refs_in cr m) (set checked \<union> set frontier)) \<and>
     set frontier \<inter> set checked = {} \<and>
     (if first then checked = [] \<and> set frontier = set seeds else set seeds \<subseteq> set checked)"

lemma edges_in_mono: "edges_in refs N \<Longrightarrow> N \<subseteq> M \<Longrightarrow> edges_in refs M"
  unfolding edges_in_def by blast

lemma next_ids_edges: "next_ids checked refs = Some ns \<Longrightarrow> edges_in refs (set checked \<union> set ns)"
  unfolding edges_in_def using next_ids_spec by blast

lemma load_step_spec:
  assumes inv: "load_inv s seeds first frontier checked cr existing" and wf: "dict_wf (db_crossrefs s)"
    and step: "load_step first s frontier cr existing = (cr2, existing1)"
  shows "set existing1 = {m \<in> set (checked @ frontier). has_row s m}"
    and "m \<notin> set (checked @ frontier) \<Longrightarrow> map_of cr2 m = None"
    and "m \<in> set checked \<Longrightarrow> refs_in cr2 m = refs_in cr m"
    and "m \<in> set frontier \<Longrightarrow> refs_in cr2 m = (if has_row s m \<or> m \<in> set seeds then get_crossrefs s m else [])"
proof -
  define cr1 where "cr1 = fold (\<lambda>(m, refs). dict_set m refs) (level_rows s frontier) cr"
  define missing where "missing = filter (\<lambda>m. m \<notin> set existing1) frontier"
  have existing1: "existing1 = existing @ map fst (level_rows s frontier)"
    and cr2_def: "cr2 = (if first then fold (\<lambda>(m, refs). dict_set m refs) (orphan_rows s missing) cr1 else cr1)"
    using step by (auto simp: load_step_def Let_def missing_def cr1_def)
  show ex: "set existing1 = {m \<in> set (checked @ frontier). has_row s m}"
    using inv level_rows_fst [of s frontier] by (auto simp: existing1 load_inv_def)
  have cr1: "map_of cr1 n = (if n \<in> set frontier \<and> has_row s n then Some (get_crossrefs s n) else map_of cr n)" for n
    unfolding cr1_def map_of_fold_rows [OF level_rows_snd] level_rows_fst by simp
  have miss: "set missing = {n \<in> set frontier. \<not> has_row s n}"
    by (auto simp: missing_def ex)
  have cr2: "map_of cr2 n = (if first \<and> n \<in> set frontier \<and> \<not> has_row s n \<and> map_of (db_crossrefs s) n \<noteq> None
      then Some (get_crossrefs s n) else map_of cr1 n)" for n
    unfolding cr2_def by (cases first) (simp_all add: map_of_fold_rows [OF orphan_rows_snd [OF wf]] orphan_rows_fst miss)
  show "m \<notin> set (checked @ frontier) \<Longrightarrow> map_of cr2 m = None"
    using inv by (simp add: cr2 cr1 load_inv_def)
  show "m \<in> set checked \<Longrightarrow> refs_in cr2 m = refs_in cr m"
    using inv by (auto simp: refs_in_def cr2 cr1 load_inv_def)
  assume m: "m \<in> set frontier"
  have old: "map_of cr m = None" using inv m by (auto simp: load_inv_def)
  have seed: "m \<in> set seeds \<longleftrightarrow> first" using inv m by (auto simp: load_inv_def split: if_splits)
  show "refs_in cr2 m = (if has_row s m \<or> m \<in> set seeds then get_crossrefs s m else [])"
    using m old seed by (auto simp: refs_in_def cr2 cr1 get_crossrefs_def split: option.splits)
qed

lemma load_step_inv:
  assumes inv: "load_inv s seeds first frontier checked cr existing" and wf: "dict_wf (db_crossrefs s)"
    and step: "load_step first s frontier cr existing = (cr2, existing1)"
    and nxt: "map_opt (\<lambda>m. next_ids (checked @ frontier) (refs_in cr2 m)) frontier = Some nxt"
  shows "load_inv s seeds False (uniq (concat nxt)) (checked @ frontier) cr2 existing1"
proof -
  note spec = load_step_spec [OF inv wf step]
  have "edges_in (refs_in cr2 m) (set (checked @ frontier) \<union> set (uniq (concat nxt)))" if "m \<in> set (checked @ frontier)" for m
  proof (cases "m \<in> set checked")
    case True
    then have "edges_in (refs_in cr2 m) (set checked \<union> set frontier)"
      unfolding spec(3) [OF True] using inv True unfolding load_inv_def by blast
    then show ?thesis by (rule edges_in_mono) auto
  next
    case False
    then have "m \<in> set frontier" using that by simp
    from map_opt_nth [OF nxt this] obtain ns where ns: "ns \<in> set nxt" "next_ids (checked @ frontier) (refs_in cr2 m) = Some ns" by blast
    from next_ids_edges [OF ns(2)] show ?thesis by (rule edges_in_mono) (use ns(1) in auto)
  qed
  moreover have "b \<notin> set (checked @ frontier)" if b: "b \<in> set (concat nxt)" for b
  proof -
    from b obtain ns where "ns \<in> set nxt" "b \<in> set ns" by auto
    then show ?thesis using map_opt_all [OF nxt] next_ids_new by blast
  qed
  moreover have "refs_in cr2 m = (if has_row s m \<or> m \<in> set seeds then get_crossrefs s m else [])"
    if "m \<in> set (checked @ frontier)" for m
    using spec(3,4) [of m] inv that unfolding load_inv_def by auto
  moreover have "set seeds \<subseteq> set (checked @ frontier)"
    using inv by (auto simp: load_inv_def split: if_splits)
  ultimately show ?thesis using spec(1,2) unfolding load_inv_def set_uniq if_False by blast
qed

lemma load_levels_inv: "load_levels n first s frontier checked cr existing = Some (cr', existing', checked') \<Longrightarrow>
    dict_wf (db_crossrefs s) \<Longrightarrow> load_inv s seeds first frontier checked cr existing \<Longrightarrow>
    \<exists>first'. load_inv s seeds first' [] checked' cr' existing'"
proof (induction n arbitrary: first frontier checked cr existing)
  case 0
  then show ?case by (cases "frontier = []") auto
next
  case (Suc n)
  show ?case
  proof (cases "frontier = []")
    case True
    with Suc.prems show ?thesis by auto
  next
    case False
    obtain cr2 existing1 where step: "load_step first s frontier cr existing = (cr2, existing1)" by fastforce
    from Suc.prems(1) False obtain nxt where
      nxt: "map_opt (\<lambda>m. next_ids (checked @ frontier) (refs_in cr2 m)) frontier = Some nxt"
      and rest: "load_levels n False s (uniq (concat nxt)) (checked @ frontier) cr2 existing1 = Some (cr', existing', checked')"
      by (auto simp: step Let_def split: if_splits bind_splits)
    from Suc.IH [OF rest Suc.prems(2) load_step_inv [OF Suc.prems(3,2) step nxt]] show ?thesis .
  qed
qed

lemma retired_tomb: "retired_memory_ids s = Some R \<Longrightarrow> is_tombstoned_id s m = Some (m \<in> R)"
proof -
  assume "retired_memory_ids s = Some R"
  then obtain a b where a: "select_rows Components (\<lambda>_. True) s = Some a" and b: "select_rows Tombstones (\<lambda>_. True) s = Some b"
    and R: "R = set (map t_mid (a @ b))"
    by (auto simp: retired_memory_ids_def split: bind_splits)
  have "select_rows t Q s = Some (filter Q rows)" if "select_rows t (\<lambda>_. True) s = Some rows" for t Q rows
    using that by (auto simp: select_rows_def split: table_state.splits)
  with a b show ?thesis by (auto simp: is_tombstoned_id_def R filter_empty_conv)
qed

text \<open>No row of a running import.\<close>

definition quiet :: "db \<Rightarrow> bool" where
  "quiet s \<longleftrightarrow> (\<forall>(m, r) \<in> set (db_memories s). \<not> import_pending r)"

lemma quiet_exists: "quiet s \<Longrightarrow> has_row s m = memory_exists s m"
  by (auto simp: quiet_def has_row_def memory_exists_def split: option.splits dest: map_of_SomeD)

definition view_inside :: "int list \<Rightarrow> view \<Rightarrow> int \<Rightarrow> bool" where
  "view_inside seeds v m \<longleftrightarrow> m \<in> set seeds \<or> view_exists v m"

definition view_fetched :: "db \<Rightarrow> int list \<Rightarrow> view \<Rightarrow> bool" where
  "view_fetched s seeds v \<longleftrightarrow>
     load_supersession_view s seeds = Some (Some v) \<and> quiet s \<and> dict_wf (db_crossrefs s)"

lemma view_fetched_inv:
  assumes "view_fetched s seeds v"
  obtains first checked where "load_inv s seeds first [] checked (v_crossrefs v) (v_existing v)"
    "retired_ids_among s checked = Some (v_retired v)"
proof -
  from assms obtain cr existing checked where
    l: "load_levels view_max_levels True s (uniq seeds) [] [] [] = Some (cr, existing, checked)"
    and r: "retired_ids_among s checked = Some (v_retired v)" and v: "v_crossrefs v = cr" "v_existing v = existing"
    by (auto simp: view_fetched_def load_supersession_view_def split: option.splits bind_splits)
  have "load_inv s seeds True (uniq seeds) [] [] []" by (simp add: load_inv_def)
  from load_levels_inv [OF l _ this] assms show ?thesis using that r v by (auto simp: view_fetched_def)
qed

interpretation supersession_view: prefetch get_crossrefs memory_exists is_tombstoned_id
  view_crossrefs view_exists view_tomb view_fetched view_inside
proof unfold_locales
  fix s seeds v m r et b
  assume f: "view_fetched s seeds v"
  then have q: "has_row s n = memory_exists s n" for n by (simp add: view_fetched_def quiet_exists)
  from f obtain first checked where inv: "load_inv s seeds first [] checked (v_crossrefs v) (v_existing v)"
    and ret: "retired_ids_among s checked = Some (v_retired v)" by (rule view_fetched_inv)
  show "m \<in> set seeds \<Longrightarrow> view_inside seeds v m" by (simp add: view_inside_def)
  have vex: "view_exists v n \<longleftrightarrow> n \<in> set checked \<and> memory_exists s n" for n
    using inv by (auto simp: view_exists_def load_inv_def q)
  assume m: "view_inside seeds v m"
  then have c: "m \<in> set checked" and live: "has_row s m \<or> m \<in> set seeds"
    using inv vex by (auto simp: view_inside_def load_inv_def q split: if_splits)
  show refs: "view_crossrefs v m = get_crossrefs s m"
    using inv c live by (auto simp: view_crossrefs_def load_inv_def)
  have "checked \<noteq> []" using c by auto
  from retired_ids_among_exact [OF this, of s] ret obtain R where "retired_memory_ids s = Some R" "v_retired v = R \<inter> set checked"
    by (cases "retired_memory_ids s") simp_all
  then show "view_tomb v m = is_tombstoned_id s m" using retired_tomb c by (simp add: view_tomb_def)
  assume "r \<in> set (get_crossrefs s m)" "JStr et \<in> set supersession_edge_types" "walk_ref et r = Some (Some b)"
  then have "b \<in> set checked" using inv c refs unfolding load_inv_def edges_in_def view_crossrefs_def by auto
  then show "view_exists v b = memory_exists s b \<and> (memory_exists s b \<longrightarrow> view_inside seeds v b)"
    by (simp add: vex view_inside_def)
qed

lemma live_leaves_of_rows: "quiet s \<Longrightarrow> dict_wf (db_crossrefs s) \<Longrightarrow> load_supersession_view s [mid] \<noteq> None \<Longrightarrow>
    live_leaves_of s mid = component_live_leaves (get_crossrefs s) (memory_exists s) (is_tombstoned_id s) mid"
proof -
  assume "quiet s" "dict_wf (db_crossrefs s)" "load_supersession_view s [mid] \<noteq> None"
  then obtain v where v: "load_supersession_view s [mid] = Some v" by auto
  show ?thesis
  proof (cases v)
    case None
    then show ?thesis by (simp add: live_leaves_of_def v with_readers_def)
  next
    case (Some w)
    then have "view_fetched s [mid] w" using v \<open>quiet s\<close> \<open>dict_wf (db_crossrefs s)\<close> by (simp add: view_fetched_def)
    from supersession_view.live_leaves [OF this, of mid] show ?thesis
      by (simp add: live_leaves_of_def v with_readers_def Some)
  qed
qed

section \<open>Properties\<close>

text \<open>C25: a prefetched neighbourhood answers every supersession question about its seeds as the per-row
  reads would, exceptions included: the walk along either edge type, the full history, the current
  versions and the live leaves, when no import is running.\<close>

theorem view_answers_as_rows:
  assumes "load_supersession_view s seeds = Some (Some v)" and "quiet s" and "dict_wf (db_crossrefs s)"
    and "m \<in> set seeds"
  shows "(\<forall>et \<in> {''supersedes'', ''superseded_by''}.
      walk_chain (view_crossrefs v) (view_exists v) m et = walk_chain (get_crossrefs s) (memory_exists s) m et) \<and>
    get_full_history (view_crossrefs v) (view_exists v) m = full_history_of s m \<and>
    resolve_latest (view_crossrefs v) (view_exists v) (view_tomb v) m =
      resolve_latest (get_crossrefs s) (memory_exists s) (is_tombstoned_id s) m \<and>
    component_live_leaves (view_crossrefs v) (view_exists v) (view_tomb v) m =
      component_live_leaves (get_crossrefs s) (memory_exists s) (is_tombstoned_id s) m"
proof -
  have f: "view_fetched s seeds v" using assms(1-3) by (simp add: view_fetched_def)
  show ?thesis
    using supersession_view.walk [OF f assms(4)] supersession_view.history [OF f assms(4)]
      supersession_view.latest [OF f assms(4)] supersession_view.live_leaves [OF f assms(4)] super_types
    by (simp add: full_history_of_def)
qed

text \<open>Three versions in the database; 2 supersedes 1 and 3 supersedes 2.\<close>

definition ex_versions :: db where
  "ex_versions = ex_three\<lparr>db_crossrefs :=
     [(1, related_blob (ex_refs 1)), (2, related_blob (ex_refs 2)), (3, related_blob (ex_refs 3))]\<rparr>"

theorem view_answers_as_rows_witness:
  "\<exists>v. load_supersession_view ex_versions [1] = Some (Some v) \<and>
     resolve_latest (get_crossrefs ex_versions) (memory_exists ex_versions) (is_tombstoned_id ex_versions) 1 = Some [3] \<and>
     resolve_latest (view_crossrefs v) (view_exists v) (view_tomb v) 1 = Some [3]"
proof -
  have loaded: "load_supersession_view ex_versions [1] = Some (Some \<lparr>v_crossrefs =
      [(1, ex_refs 1), (2, ex_refs 2), (3, ex_refs 3)], v_existing = [1, 2, 3], v_retired = {}\<rparr>)"
    (is "_ = Some (Some ?v)")
    by code_simp
  have q: "quiet ex_versions" "dict_wf (db_crossrefs ex_versions)"
    by (auto simp: quiet_def ex_versions_def ex_three_def plain_row_def import_pending_def)
  have "resolve_latest (view_crossrefs ?v) (view_exists ?v) (view_tomb ?v) 1 = Some [3]" by code_simp
  with view_answers_as_rows [OF loaded q, of 1] loaded show ?thesis by auto
qed

text \<open>
  While an import runs the two disagree: the loader counts a row of the import as existing, the
  per-row read does not.
\<close>

definition ex_importing :: db where
  "ex_importing = empty_db\<lparr>
     db_memories := [(1, plain_row ''one''),
       (2, \<lparr>mr_content = ''two'', mr_metadata = BJson (JObj [(''import_attempt'', JStr ''a1'')])\<rparr>)],
     db_crossrefs := [(1, related_blob [edge_entry 2 ''superseded_by'']), (2, related_blob [edge_entry 1 ''supersedes''])]\<rparr>"

text \<open>a row that an import still holds is hidden from the per-row readers but not from the prefetched
  neighbourhood: on this store the two resolve the same memory to different current versions, so
  the view is not an exact cache of the reads there.\<close>

theorem pending_row_splits_readers:
  "resolve_latest (get_crossrefs ex_importing) (memory_exists ex_importing) (is_tombstoned_id ex_importing) 1 = Some [1] \<and>
   (\<exists>v. load_supersession_view ex_importing [1] = Some (Some v) \<and>
      resolve_latest (view_crossrefs v) (view_exists v) (view_tomb v) 1 = Some [2])"
proof
  show "resolve_latest (get_crossrefs ex_importing) (memory_exists ex_importing) (is_tombstoned_id ex_importing) 1 = Some [1]"
    by code_simp
  have loaded: "load_supersession_view ex_importing [1] = Some (Some \<lparr>v_crossrefs =
      [(1, [edge_entry 2 ''superseded_by'']), (2, [edge_entry 1 ''supersedes''])], v_existing = [1, 2], v_retired = {}\<rparr>)"
    (is "_ = Some (Some ?v)")
    by code_simp
  have "resolve_latest (view_crossrefs ?v) (view_exists ?v) (view_tomb ?v) 1 = Some [2]" by code_simp
  with loaded show "\<exists>v. load_supersession_view ex_importing [1] = Some (Some v) \<and>
      resolve_latest (view_crossrefs v) (view_exists v) (view_tomb v) 1 = Some [2]" by blast
qed

end
