(* ===== verification/Lineage_Follow.thy ===== *)
theory Lineage_Follow
  imports Lineage_View
begin

text \<open>
  Lineage-aware retrieval (\<open>apply_follow\<close> and the status reads it uses, \<open>memora/storage.py\<close>): the
  follow modes, which memories of a page are superseded or retired (the batched readers and the one-statement
  reader), and the post-processing of a result page in each mode.
\<close>

section \<open>Follow modes\<close>

definition follow_modes :: "string list" where
  "follow_modes = [''latest'', ''active'', ''full_history'', ''all'']"

definition get_follow_modes :: "string list" where
  "get_follow_modes = [''latest'', ''full_history'', ''all'']"

datatype follow_error = InvalidFollow string | EmptyFollow

text \<open>The empty text is false in Python.\<close>

definition validate_follow :: "string option \<Rightarrow> bool \<Rightarrow> follow_error + string option" where
  "validate_follow follow for_get =
     (case follow of
        None \<Rightarrow> Inr None
      | Some f \<Rightarrow>
          if f = '''' then Inr None
          else if f \<notin> set (if for_get then get_follow_modes else follow_modes) then Inl (InvalidFollow f)
          else Inr (Some f))"

definition resolve_follow :: "string option \<Rightarrow> string \<Rightarrow> bool \<Rightarrow> follow_error + string option" where
  "resolve_follow follow dflt for_get =
     (let raw = (case follow of None \<Rightarrow> dflt | Some f \<Rightarrow> f) in
      if raw = ''all'' then Inr None
      else (case validate_follow (Some raw) for_get of
              Inl e \<Rightarrow> Inl e
            | Inr None \<Rightarrow> Inl EmptyFollow
            | Inr (Some f) \<Rightarrow> Inr (Some f)))"

section \<open>Which memories are superseded\<close>

definition superseder_ref :: "(int \<Rightarrow> bool) \<Rightarrow> json \<Rightarrow> bool option" where
  "superseder_ref ex r =
     (case r of
        JObj d \<Rightarrow>
          if json_get ''edge_type'' d \<noteq> JStr ''superseded_by'' then Some False
          else (case map_of d ''id'' of
                  None \<Rightarrow> None
                | Some rid \<Rightarrow>
                    if unhashable rid \<or> is_pystr rid then None
                    else (case py_int rid of Some n \<Rightarrow> Some (ex n) | None \<Rightarrow> Some False))
      | _ \<Rightarrow> None)"

definition is_superseded :: "db \<Rightarrow> int \<Rightarrow> bool option" where
  "is_superseded s mid = any_opt (superseder_ref (memory_exists s)) (get_crossrefs s mid)"

text \<open>The ids that claim to supersede one candidate; an id that cannot be hashed raises.\<close>

definition claim_of :: "json \<Rightarrow> json list option" where
  "claim_of r =
     (case r of
        JObj d \<Rightarrow>
          if json_get ''edge_type'' d \<noteq> JStr ''superseded_by'' \<or> json_get ''id'' d = JNull then Some []
          else if unhashable (json_get ''id'' d) then None
          else Some [json_get ''id'' d]
      | _ \<Rightarrow> Some [])"

definition claims_of :: "db \<Rightarrow> int \<Rightarrow> json list option" where
  "claims_of s mid = map_option concat (map_opt claim_of (get_crossrefs s mid))"

definition existing_rows :: "db \<Rightarrow> int list \<Rightarrow> int list" where
  "existing_rows s ids = concat (map (filter (has_row s)) (chunked d1_max_bound_params ids))"

definition superseded_ids_batch :: "db \<Rightarrow> int list \<Rightarrow> int list option" where
  "superseded_ids_batch s ids =
     do { claims \<leftarrow> map_opt (\<lambda>m. map_option (Pair m) (claims_of s m)) (concat (chunked d1_max_bound_params (uniq ids)));
          (let referenced = uniq (List.map_filter py_int (concat (map snd claims)));
               existing = existing_rows s referenced in
           Some (map fst (filter (\<lambda>(m, refs). \<exists>r \<in> set refs. \<exists>n \<in> set existing. py_int r = Some n) claims))) }"

section \<open>The status of a page\<close>

type_synonym page_status = "int set \<times> int set \<times> int set"

definition follow_status_legacy :: "db \<Rightarrow> int list \<Rightarrow> page_status option" where
  "follow_status_legacy s ids =
     do { retired \<leftarrow> retired_memory_ids s;
          superseded \<leftarrow> superseded_ids_batch s ids;
          Some (set superseded, set ids \<inter> retired, {i \<in> set ids. refs_walk_unsafe (get_crossrefs s i)}) }"

text \<open>The conditions of the one SQL statement: only blobs that hold an array are looked into.\<close>

definition superseder_entry :: "db \<Rightarrow> json \<Rightarrow> bool" where
  "superseder_entry s j =
     (case j of
        JObj d \<Rightarrow> json_get ''edge_type'' d = JStr ''superseded_by'' \<and>
          (case map_of d ''id'' of Some (JInt n) \<Rightarrow> has_row s n | _ \<Rightarrow> False)
      | _ \<Rightarrow> False)"

definition unsafe_entry :: "json \<Rightarrow> bool" where
  "unsafe_entry u =
     (case u of
        JObj d \<Rightarrow> map_of d ''id'' = None \<or>
          json_get ''edge_type'' d \<in> set supersession_edge_types \<and>
            \<not> (case map_of d ''id'' of Some rid \<Rightarrow> is_int_typed rid | None \<Rightarrow> False)
      | _ \<Rightarrow> True)"

definition sql_superseded :: "db \<Rightarrow> int \<Rightarrow> bool" where
  "sql_superseded s i =
     (case map_of (db_crossrefs s) i of Some (BJson (JList xs)) \<Rightarrow> list_ex (superseder_entry s) xs | _ \<Rightarrow> False)"

definition sql_unsafe :: "db \<Rightarrow> int \<Rightarrow> bool" where
  "sql_unsafe s i =
     (case map_of (db_crossrefs s) i of Some (BJson (JList xs)) \<Rightarrow> list_ex unsafe_entry xs | _ \<Rightarrow> False)"

definition sql_retired :: "db \<Rightarrow> int \<Rightarrow> bool" where
  "sql_retired s i \<longleftrightarrow> list_ex (\<lambda>r. t_mid r = i) (table_rows Components s @ table_rows Tombstones s)"

text \<open>The statement fails unless both retirement tables can be read; then the legacy reads answer.\<close>

definition follow_status :: "db \<Rightarrow> int list \<Rightarrow> page_status option" where
  "follow_status s ids =
     (let unique = uniq ids in
      if unique = [] then Some ({}, {}, {})
      else if db_table s Components \<noteq> TableOk \<or> db_table s Tombstones \<noteq> TableOk then follow_status_legacy s unique
      else
        (let unsafe = filter (sql_unsafe s) unique; superseded = set (filter (sql_superseded s) unique) in
         case (if unsafe = [] then Some superseded
               else map_option (\<lambda>b. (superseded - set unsafe) \<union> set b) (superseded_ids_batch s (sort unsafe))) of
           None \<Rightarrow> follow_status_legacy s unique
         | Some hit \<Rightarrow> Some (hit, set (filter (sql_retired s) unique), set unsafe)))"

section \<open>Post-processing a result page\<close>

text \<open>A result: its id, its score (zero outside a search) and the row it was serialised from.\<close>

record item =
  it_id :: int
  it_score :: rat
  it_row :: memory_row

definition wrap_latest :: "bool \<Rightarrow> item \<Rightarrow> int \<Rightarrow> memory_row \<Rightarrow> item" where
  "wrap_latest is_search item lid row =
     \<lparr>it_id = lid, it_score = (if is_search then it_score item else 0), it_row = row\<rparr>"

definition apply_follow_active :: "db \<Rightarrow> item list \<Rightarrow> item list option" where
  "apply_follow_active s results =
     do { (superseded, retired, unsafe) \<leftarrow> follow_status s (map it_id results);
          Some (filter (\<lambda>i. it_id i \<notin> superseded \<and> it_id i \<notin> retired) results) }"

text \<open>One page entry per leaf that was not seen before.\<close>

fun plan_leaves :: "item \<Rightarrow> int list \<Rightarrow> int list \<Rightarrow> (item \<times> int) list \<times> int list" where
  "plan_leaves item [] seen = ([], seen)"
| "plan_leaves item (l # ls) seen =
     (if l \<in> set seen then plan_leaves item ls seen
      else (let (plan, seen') = plan_leaves item ls (seen @ [l]) in ((item, l) # plan, seen')))"

fun plan_page :: "(int \<Rightarrow> int list) \<Rightarrow> item list \<Rightarrow> int list \<Rightarrow> (item \<times> int) list \<times> int list" where
  "plan_page leaves [] seen = ([], seen)"
| "plan_page leaves (item # items) seen =
     (let (plan, seen') = plan_leaves item (leaves (it_id item)) seen;
          (rest, seen'') = plan_page leaves items seen' in (plan @ rest, seen''))"

definition show_leaf :: "bool \<Rightarrow> (int \<Rightarrow> memory_row option) \<Rightarrow> item \<times> int \<Rightarrow> item list" where
  "show_leaf is_search row_of p =
     (let (item, lid) = p in
      if lid = it_id item then [item]
      else (case row_of lid of None \<Rightarrow> [] | Some row \<Rightarrow> [wrap_latest is_search item lid row]))"

text \<open>\<open>_hydrate_for_follow\<close>: one IN query per hundred ids.\<close>

definition hydrate_for_follow :: "db \<Rightarrow> int list \<Rightarrow> (int, memory_row) dict" where
  "hydrate_for_follow s ids =
     fold (\<lambda>(m, r). dict_set m r)
       (concat (map (\<lambda>c. filter (\<lambda>(m, _). m \<in> set c) (db_memories s)) (chunked d1_max_bound_params (uniq ids)))) []"

text \<open>\<open>_apply_follow_latest_legacy\<close>: per item and leaf, per-row reads.\<close>

fun latest_legacy_loop :: "bool \<Rightarrow> db \<Rightarrow> int set \<Rightarrow> item list \<Rightarrow> int list \<Rightarrow> (item list \<times> int list) option" where
  "latest_legacy_loop is_search s retired [] seen = Some ([], seen)"
| "latest_legacy_loop is_search s retired (item # items) seen =
     do { leaves \<leftarrow> resolve_latest (get_crossrefs s) (memory_exists s) (\<lambda>m. Some (m \<in> retired)) (it_id item);
          (let (plan, seen') = plan_leaves item leaves seen in
           do { (rest, seen'') \<leftarrow> latest_legacy_loop is_search s retired items seen';
                Some (concat (map (show_leaf is_search (map_of (db_memories s))) plan) @ rest, seen'') }) }"

definition apply_follow_latest_legacy :: "bool \<Rightarrow> db \<Rightarrow> item list \<Rightarrow> int list \<Rightarrow> (item list \<times> int list) option" where
  "apply_follow_latest_legacy is_search s results seen =
     do { retired \<leftarrow> retired_memory_ids s; latest_legacy_loop is_search s retired results seen }"

definition leaves_of :: "view option \<Rightarrow> int set \<Rightarrow> int set \<Rightarrow> int \<Rightarrow> int list option" where
  "leaves_of v superseded retired mid =
     (if mid \<in> retired then Some []
      else if mid \<notin> superseded then Some [mid]
      else (case v of
              None \<Rightarrow> None
            | Some w \<Rightarrow> resolve_latest (view_crossrefs w) (view_exists w) (view_tomb w) mid))"

definition apply_follow_latest :: "bool \<Rightarrow> db \<Rightarrow> item list \<Rightarrow> int list \<Rightarrow> (item list \<times> int list) option" where
  "apply_follow_latest is_search s results seen =
     (let ids = map it_id results in
      do { (superseded, retired, unsafe) \<leftarrow> follow_status s ids;
           (let walk = filter (\<lambda>i. i \<in> superseded \<and> i \<notin> retired) (uniq ids) in
            do { v \<leftarrow> (if walk \<noteq> [] \<and> unsafe = {} then load_supersession_view s walk else Some None);
                 if unsafe \<noteq> {} \<or> walk \<noteq> [] \<and> v = None
                 then apply_follow_latest_legacy is_search s results seen
                 else
                   do { leaves \<leftarrow> map_opt (\<lambda>m. map_option (Pair m) (leaves_of v superseded retired m)) (uniq ids);
                        (let (plan, seen') = plan_page (\<lambda>m. the (map_of leaves m)) results seen;
                             others = hydrate_for_follow s (map snd (filter (\<lambda>(item, l). l \<noteq> it_id item) plan)) in
                         Some (concat (map (show_leaf is_search (map_of others)) plan), seen')) } }) })"

fun history_loop :: "bool \<Rightarrow> db \<Rightarrow> item list \<Rightarrow> int list \<Rightarrow> item list option" where
  "history_loop is_search s [] seen = Some []"
| "history_loop is_search s (item # items) seen =
     (if it_id item \<in> set seen then history_loop is_search s items seen
      else do { chain \<leftarrow> full_history_of s (it_id item);
                (let (plan, seen') = plan_leaves item chain seen in
                 do { rest \<leftarrow> history_loop is_search s items seen';
                      Some (concat (map (show_leaf is_search (map_of (db_memories s))) plan) @ rest) }) })"

datatype follow_result = FollowError follow_error | FollowRaised | FollowPage "item list"

definition apply_follow :: "bool \<Rightarrow> db \<Rightarrow> item list \<Rightarrow> string \<Rightarrow> int list \<Rightarrow> follow_result" where
  "apply_follow is_search s results follow seen =
     (case validate_follow (Some follow) False of
        Inl e \<Rightarrow> FollowError e
      | Inr _ \<Rightarrow>
          if results = [] then FollowPage results
          else (case (if follow = ''active'' then apply_follow_active s results
                      else if follow = ''latest'' then map_option fst (apply_follow_latest is_search s results seen)
                      else if follow = ''full_history'' then history_loop is_search s results []
                      else Some results) of
                  None \<Rightarrow> FollowRaised | Some page \<Rightarrow> FollowPage page))"

section \<open>The one-statement status is the batched one\<close>

lemma map_opt_total: "(\<And>x. x \<in> set xs \<Longrightarrow> f x = Some (g x)) \<Longrightarrow> map_opt f xs = Some (map g xs)"
  by (induction xs) auto

lemma map_opt_Some_iff: "(\<exists>ys. map_opt f xs = Some ys) \<longleftrightarrow> (\<forall>x \<in> set xs. \<exists>y. f x = Some y)"
  by (induction xs) (auto split: bind_splits)

lemma existing_rows_iff: "n \<in> set (existing_rows s ids) \<longleftrightarrow> n \<in> set ids \<and> has_row s n"
proof -
  have "set (existing_rows s ids) = {n \<in> set (concat (chunked d1_max_bound_params ids)). has_row s n}"
    by (auto simp: existing_rows_def)
  then show ?thesis by (simp add: concat_chunked d1_max_bound_params_def)
qed

definition claimed :: "db \<Rightarrow> int \<Rightarrow> bool" where
  "claimed s m \<longleftrightarrow> (\<exists>r \<in> set (the (claims_of s m)). \<exists>n. py_int r = Some n \<and> has_row s n)"

lemma batch_spec: "superseded_ids_batch s ids =
    (if \<forall>m \<in> set ids. claims_of s m \<noteq> None then Some (filter (claimed s) (uniq ids)) else None)"
proof (cases "\<forall>m \<in> set ids. claims_of s m \<noteq> None")
  case True
  have c: "concat (chunked d1_max_bound_params (uniq ids)) = uniq ids"
    by (rule concat_chunked) (simp add: d1_max_bound_params_def)
  let ?claims = "map (\<lambda>m. (m, the (claims_of s m))) (uniq ids)"
  have m: "map_opt (\<lambda>m. map_option (Pair m) (claims_of s m)) (uniq ids) = Some ?claims"
    using True by (intro map_opt_total) auto
  let ?ref = "uniq (List.map_filter py_int (concat (map snd ?claims)))"
  have "(\<exists>r \<in> set (the (claims_of s k)). \<exists>n \<in> set (existing_rows s ?ref). py_int r = Some n) \<longleftrightarrow> claimed s k"
    if "k \<in> set ids" for k
    unfolding claimed_def Bex_def existing_rows_iff
    using that by (force simp: List.map_filter_def)
  then have "filter (\<lambda>(k, refs). \<exists>r \<in> set refs. \<exists>n \<in> set (existing_rows s ?ref). py_int r = Some n) ?claims =
      filter (\<lambda>(k, refs). claimed s k) ?claims"
    by (intro filter_cong) auto
  then show ?thesis using True m
    by (simp add: superseded_ids_batch_def c Let_def filter_map o_def case_prod_unfold)
next
  case False
  then have "\<not> (\<forall>x \<in> set (uniq ids). \<exists>y. map_option (Pair x) (claims_of s x) = Some y)" by auto
  then have "map_opt (\<lambda>m. map_option (Pair m) (claims_of s m)) (uniq ids) = None"
    unfolding map_opt_Some_iff [symmetric] by auto
  then show ?thesis using False by (simp add: superseded_ids_batch_def concat_chunked d1_max_bound_params_def)
qed

lemma blob_entries: "(case map_of (db_crossrefs s) i of Some (BJson (JList xs)) \<Rightarrow> list_ex P xs | _ \<Rightarrow> False) =
    list_ex P (get_crossrefs s i)"
  by (simp add: get_crossrefs_def blob_list_def split: option.splits blob.splits json.splits)

lemma sql_unsafe_iff: "sql_unsafe s i = refs_walk_unsafe (get_crossrefs s i)"
proof -
  have "unsafe_entry u = ref_walk_unsafe u" for u
    by (cases u) (auto simp: ref_walk_unsafe_def unsafe_entry_def split: option.splits)
  then have "unsafe_entry = ref_walk_unsafe" by (rule ext)
  then show ?thesis by (simp add: sql_unsafe_def refs_walk_unsafe_def blob_entries)
qed

lemma safe_superseded_by:
  assumes "\<not> ref_walk_unsafe r"
  shows "(\<exists>n. walk_ref ''superseded_by'' r = Some (Some n) \<and> claim_of r = Some [JInt n] \<and> superseder_entry s r = has_row s n) \<or>
    walk_ref ''superseded_by'' r = Some None \<and> claim_of r = Some [] \<and> \<not> superseder_entry s r"
proof -
  from safe_refD [OF assms] obtain d rid where d: "r = JObj d" "map_of d ''id'' = Some rid"
    "json_get ''edge_type'' d \<in> set supersession_edge_types \<longrightarrow> (\<exists>n. rid = JInt n)" by blast
  show ?thesis
  proof (cases "json_get ''edge_type'' d = JStr ''superseded_by''")
    case True
    with d obtain n where "rid = JInt n" by (auto simp: supersession_edge_types_def)
    with d True show ?thesis
      by (simp add: walk_ref_def claim_of_def superseder_entry_def unhashable_def is_pystr_def json_get_def)
  next
    case False
    with d show ?thesis by (simp add: walk_ref_def claim_of_def superseder_entry_def)
  qed
qed

lemma safe_claims:
  assumes "\<not> refs_walk_unsafe (get_crossrefs s m)"
  shows "claims_of s m \<noteq> None" and "claimed s m \<longleftrightarrow> (\<exists>n. (m, n) \<in> steps (get_crossrefs s) (has_row s) ''superseded_by'')"
    and "sql_superseded s m = claimed s m"
proof -
  let ?refs = "get_crossrefs s m" and ?w = "walk_ref ''superseded_by''"
  have safe: "r \<in> set ?refs \<Longrightarrow> \<not> ref_walk_unsafe r" for r
    using assms by (simp add: refs_walk_unsafe_def list_ex_iff)
  let ?f = "\<lambda>r. case ?w r of Some (Some n) \<Rightarrow> [JInt n] | _ \<Rightarrow> []"
  have "claim_of r = Some (?f r)" if "r \<in> set ?refs" for r
    using safe_superseded_by [OF safe [OF that], of s] by auto
  then have "map_opt claim_of ?refs = Some (map ?f ?refs)" by (rule map_opt_total)
  then have c: "claims_of s m = Some (concat (map ?f ?refs))" by (simp add: claims_of_def)
  then show "claims_of s m \<noteq> None" by simp
  have "claimed s m \<longleftrightarrow> (\<exists>r \<in> set ?refs. \<exists>x \<in> set (?f r). \<exists>n. py_int x = Some n \<and> has_row s n)"
    by (auto simp: claimed_def c)
  also have "\<dots> \<longleftrightarrow> (\<exists>r \<in> set ?refs. \<exists>n. ?w r = Some (Some n) \<and> has_row s n)"
    by (rule bex_cong [OF refl]) (auto split: option.splits dest: sym)
  finally have cl: "claimed s m \<longleftrightarrow> (\<exists>r \<in> set ?refs. \<exists>n. ?w r = Some (Some n) \<and> has_row s n)" .
  then show "claimed s m \<longleftrightarrow> (\<exists>n. (m, n) \<in> steps (get_crossrefs s) (has_row s) ''superseded_by'')"
    by (auto simp: steps_def)
  have "superseder_entry s r \<longleftrightarrow> (\<exists>n. ?w r = Some (Some n) \<and> has_row s n)" if "r \<in> set ?refs" for r
    using safe_superseded_by [OF safe [OF that], of s] by auto
  then show "sql_superseded s m = claimed s m"
    unfolding sql_superseded_def blob_entries cl list_ex_iff by (auto intro: bex_cong)
qed

lemma retired_tables_ok: "db_table s Components = TableOk \<Longrightarrow> db_table s Tombstones = TableOk \<Longrightarrow>
    retired_memory_ids s = Some {i. sql_retired s i}"
  by (auto simp: retired_memory_ids_def select_rows_def sql_retired_def list_ex_iff)

lemma legacy_uniq: "follow_status_legacy s (uniq ids) = follow_status_legacy s ids"
  unfolding follow_status_legacy_def batch_spec set_uniq uniq_distinct [OF distinct_uniq] ..

lemma follow_status_fast:
  assumes "db_table s Components = TableOk" "db_table s Tombstones = TableOk"
    and all: "\<forall>m \<in> set ids. claims_of s m \<noteq> None"
    and hit: "hit = set (filter (claimed s) ids)"
  shows "follow_status_legacy s ids = Some (hit, set (filter (sql_retired s) ids), set (filter (sql_unsafe s) ids))"
  using all by (auto simp: follow_status_legacy_def retired_tables_ok [OF assms(1,2)] batch_spec hit sql_unsafe_iff)

section \<open>The one statement\<close>

text \<open>the one-statement status of a page is the batched one: the superseded, the retired and the
  unwalkable ids of the page, and the same exceptions.\<close>

theorem follow_status_is_legacy:
  assumes "ids \<noteq> []"
  shows "follow_status s ids = follow_status_legacy s ids"
proof (cases "db_table s Components = TableOk \<and> db_table s Tombstones = TableOk")
  case False
  then show ?thesis using assms by (auto simp: follow_status_def Let_def legacy_uniq neq_Nil_conv)
next
  case True
  have ne: "uniq ids \<noteq> []" using assms by (metis set_empty set_uniq)
  let ?unsafe = "filter (sql_unsafe s) (uniq ids)" and ?sup = "set (filter (sql_superseded s) (uniq ids))"
  have safe: "\<not> sql_unsafe s m \<Longrightarrow> claims_of s m \<noteq> None \<and> sql_superseded s m = claimed s m" for m
    using safe_claims(1,3) unfolding sql_unsafe_iff by blast
  show ?thesis
  proof (cases "?unsafe = []")
    case unsafe: True
    then have ok: "\<not> sql_unsafe s m" if "m \<in> set (uniq ids)" for m using that by (auto simp: filter_empty_conv)
    then have "?sup = set (filter (claimed s) (uniq ids))" using safe by auto
    then have "follow_status_legacy s (uniq ids) = Some (?sup, set (filter (sql_retired s) (uniq ids)), set ?unsafe)"
      using True ok safe by (intro follow_status_fast) auto
    then show ?thesis using True ne unsafe by (simp add: follow_status_def Let_def legacy_uniq)
  next
    case unsafe: False
    show ?thesis
    proof (cases "superseded_ids_batch s (sort ?unsafe)")
      case None
      then show ?thesis using True ne unsafe by (simp add: follow_status_def Let_def legacy_uniq)
    next
      case (Some b)
      then have all: "\<forall>m \<in> set ?unsafe. claims_of s m \<noteq> None" and b: "set b = {m \<in> set ?unsafe. claimed s m}"
        by (auto simp: batch_spec split: if_splits)
      have "(?sup - set ?unsafe) \<union> set b = set (filter (claimed s) (uniq ids))"
        using safe b by auto
      moreover have "\<forall>m \<in> set (uniq ids). claims_of s m \<noteq> None" using all safe by auto
      ultimately have "follow_status_legacy s (uniq ids) =
          Some ((?sup - set ?unsafe) \<union> set b, set (filter (sql_retired s) (uniq ids)), set ?unsafe)"
        using True by (intro follow_status_fast) auto
      then show ?thesis using True ne unsafe Some by (simp add: follow_status_def Let_def legacy_uniq)
    qed
  qed
qed

theorem follow_status_is_legacy_witness:
  "follow_status ex_versions [1, 3] = follow_status_legacy ex_versions [1, 3] \<and>
   map_option fst (follow_status ex_versions [1, 3]) = Some {1}"
  using follow_status_is_legacy [of "[1, 3]" ex_versions] by code_simp

lemma status_spec:
  assumes "follow_status s ids = Some (hit, ret, uns)"
  shows "ids \<noteq> [] \<Longrightarrow> \<exists>R. retired_memory_ids s = Some R \<and> ret = set ids \<inter> R"
    and "hit = {m \<in> set ids. claimed s m}" and "ret \<subseteq> set ids"
    and "uns = {m \<in> set ids. refs_walk_unsafe (get_crossrefs s m)}"
proof -
  show r: "\<exists>R. retired_memory_ids s = Some R \<and> ret = set ids \<inter> R" if "ids \<noteq> []"
    using assms unfolding follow_status_is_legacy [OF that]
    by (auto simp: follow_status_legacy_def split: bind_splits)
  have "hit = {m \<in> set ids. claimed s m} \<and> uns = {m \<in> set ids. refs_walk_unsafe (get_crossrefs s m)}"
  proof (cases "ids = []")
    case True
    then show ?thesis using assms by (simp add: follow_status_def)
  next
    case False
    then show ?thesis using assms unfolding follow_status_is_legacy [OF False]
      by (auto simp: follow_status_legacy_def batch_spec split: bind_splits if_splits)
  qed
  then show "hit = {m \<in> set ids. claimed s m}" "uns = {m \<in> set ids. refs_walk_unsafe (get_crossrefs s m)}" by auto
  show "ret \<subseteq> set ids" using r assms by (cases "ids = []") (auto simp: follow_status_def)
qed

lemma quiet_steps: "quiet s \<Longrightarrow> steps (get_crossrefs s) (has_row s) et = steps (get_crossrefs s) (memory_exists s) et"
  by (simp add: steps_def quiet_exists)

lemma is_superseded_safe:
  assumes "\<not> refs_walk_unsafe (get_crossrefs s m)"
  shows "is_superseded s m = Some (\<exists>n. (m, n) \<in> steps (get_crossrefs s) (memory_exists s) ''superseded_by'')"
proof -
  have "superseder_ref (memory_exists s) r = Some (\<exists>n. walk_ref ''superseded_by'' r = Some (Some n) \<and> memory_exists s n)"
    if "r \<in> set (get_crossrefs s m)" for r
  proof -
    have "\<not> ref_walk_unsafe r" using assms that by (simp add: refs_walk_unsafe_def list_ex_iff)
    from safe_refD [OF this] obtain d rid where d: "r = JObj d" "map_of d ''id'' = Some rid"
      "json_get ''edge_type'' d \<in> set supersession_edge_types \<longrightarrow> (\<exists>n. rid = JInt n)" by blast
    show ?thesis
    proof (cases "json_get ''edge_type'' d = JStr ''superseded_by''")
      case True
      with d obtain n where "rid = JInt n" by (auto simp: supersession_edge_types_def)
      with d True show ?thesis by (simp add: superseder_ref_def walk_ref_def unhashable_def is_pystr_def)
    next
      case False
      with d show ?thesis by (simp add: superseder_ref_def walk_ref_def)
    qed
  qed
  then have "is_superseded s m = Some (list_ex (\<lambda>r. \<exists>n. walk_ref ''superseded_by'' r = Some (Some n) \<and> memory_exists s n) (get_crossrefs s m))"
    unfolding is_superseded_def by (rule any_opt_total)
  then show ?thesis by (auto simp: list_ex_iff steps_def)
qed

section \<open>The fast path of follow=latest\<close>

lemma resolve_current:
  assumes safe: "\<not> refs_walk_unsafe (get_crossrefs s m)" and "m \<notin> R"
    and none: "\<not> (\<exists>n. (m, n) \<in> steps (get_crossrefs s) (memory_exists s) ''superseded_by'')"
  shows "resolve_latest (get_crossrefs s) (memory_exists s) (\<lambda>m. Some (m \<in> R)) m = Some [m]"
proof -
  let ?R = "steps (get_crossrefs s) (memory_exists s) ''superseded_by''"
  have reach: "?R\<^sup>* `` {m} = {m}" using none by (auto elim: converse_rtranclE)
  have sp: "\<forall>n \<in> ?R\<^sup>* `` {m}. \<not> refs_walk_unsafe (get_crossrefs s n)" unfolding reach using safe by simp
  have depth: "?R\<^sup>* `` {m} \<subseteq> {n. \<exists>k \<le> 200. (m, n) \<in> ?R ^^ k}" unfolding reach by (auto intro: exI [of _ 0])
  have tips: "{n \<in> ?R\<^sup>* `` {m}. current (get_crossrefs s) (memory_exists s) n} = {m}"
    unfolding reach using none by (auto simp: current_def)
  obtain res where res: "resolve_latest (get_crossrefs s) (memory_exists s) (\<lambda>m. Some (m \<in> R)) m = Some res"
    "set res = {m}" "distinct res"
    using resolve_current_tips [OF sp depth _ assms(2), of "\<lambda>m. Some (m \<in> R)"] assms(2) unfolding tips by auto
  then have "res = [m]" by (cases res) (auto simp: subset_singleton_iff)
  with res show ?thesis by simp
qed

lemma legacy_loop_plan: "(\<And>i. i \<in> set items \<Longrightarrow>
      resolve_latest (get_crossrefs s) (memory_exists s) (\<lambda>m. Some (m \<in> R)) (it_id i) = Some (L (it_id i))) \<Longrightarrow>
    latest_legacy_loop is_search s R items seen =
      (let (plan, seen') = plan_page L items seen in
       Some (concat (map (show_leaf is_search (map_of (db_memories s))) plan), seen'))"
proof (induction items arbitrary: seen)
  case (Cons i items)
  obtain p1 s1 where p1: "plan_leaves i (L (it_id i)) seen = (p1, s1)" by fastforce
  obtain p2 s2 where p2: "plan_page L items s1 = (p2, s2)" by fastforce
  from Cons.IH [of s1] Cons.prems have "latest_legacy_loop is_search s R items s1 =
      Some (concat (map (show_leaf is_search (map_of (db_memories s))) p2), s2)" by (simp add: p2)
  then show ?case using Cons.prems [of i] by (simp add: p1 p2)
qed simp

lemma hydrate_row: "dict_wf (db_memories s) \<Longrightarrow> l \<in> set ids \<Longrightarrow> map_of (hydrate_for_follow s ids) l = map_of (db_memories s) l"
proof -
  assume wf: "dict_wf (db_memories s)" and l: "l \<in> set ids"
  let ?rows = "concat (map (\<lambda>c. filter (\<lambda>(m, _). m \<in> set c) (db_memories s)) (chunked d1_max_bound_params (uniq ids)))"
  have rows: "set ?rows = {(m, r) \<in> set (db_memories s). m \<in> set (concat (chunked d1_max_bound_params (uniq ids)))}" by auto
  have "\<forall>(m, r) \<in> set ?rows. r = the (map_of (db_memories s) m)" unfolding rows using wf by auto
  from map_of_fold_rows [OF this, of "[]" l] show ?thesis
  proof (cases "map_of (db_memories s) l")
    case None
    then have "l \<notin> fst ` set ?rows" unfolding rows by (auto simp: map_of_eq_None_iff)
    then show ?thesis using None map_of_fold_rows [OF \<open>\<forall>(m, r) \<in> set ?rows. r = the (map_of (db_memories s) m)\<close>, of "[]" l]
      by (simp add: hydrate_for_follow_def)
  next
    case (Some r)
    then have "(l, r) \<in> set ?rows" unfolding rows using l
      by (auto simp: concat_chunked d1_max_bound_params_def dest: map_of_SomeD)
    then have "l \<in> fst ` set ?rows" by force
    then show ?thesis using Some map_of_fold_rows [OF \<open>\<forall>(m, r) \<in> set ?rows. r = the (map_of (db_memories s) m)\<close>, of "[]" l]
      by (simp add: hydrate_for_follow_def)
  qed
qed

lemma show_hydrated:
  assumes "dict_wf (db_memories s)"
  shows "concat (map (show_leaf is_search (map_of (hydrate_for_follow s (map snd (filter (\<lambda>(i, l). l \<noteq> it_id i) plan))))) plan) =
    concat (map (show_leaf is_search (map_of (db_memories s))) plan)"
proof -
  have "show_leaf is_search (map_of (hydrate_for_follow s (map snd (filter (\<lambda>(i, l). l \<noteq> it_id i) plan)))) p =
      show_leaf is_search (map_of (db_memories s)) p" if "p \<in> set plan" for p
  proof (cases p)
    case (Pair i l)
    then have "l \<noteq> it_id i \<Longrightarrow> l \<in> set (map snd (filter (\<lambda>(i, l). l \<noteq> it_id i) plan))" using that by force
    then show ?thesis using hydrate_row [OF assms] by (simp add: show_leaf_def Pair)
  qed
  then show ?thesis by (simp cong: map_cong)
qed

section \<open>Properties\<close>

text \<open>A page filtered with follow=active holds exactly the results, in their order, that no existing
  memory supersedes and that are not retired; the batched reads hide and keep what the per-memory
  checks would.\<close>

theorem active_page_exact:
  assumes "apply_follow is_search s results ''active'' seen = FollowPage page" and "quiet s"
    and "\<forall>i \<in> set results. \<not> refs_walk_unsafe (get_crossrefs s (it_id i))"
  shows "page = filter (\<lambda>i. is_superseded s (it_id i) = Some False \<and> is_tombstoned_id s (it_id i) = Some False) results"
proof (cases "results = []")
  case True
  then show ?thesis using assms(1) by (simp add: apply_follow_def validate_follow_def follow_modes_def)
next
  case False
  let ?ids = "map it_id results"
  from assms(1) False obtain hit ret uns where st: "follow_status s ?ids = Some (hit, ret, uns)"
    and page: "page = filter (\<lambda>i. it_id i \<notin> hit \<and> it_id i \<notin> ret) results"
    by (auto simp: apply_follow_def validate_follow_def follow_modes_def apply_follow_active_def
        split: option.splits bind_splits)
  obtain R where R: "retired_memory_ids s = Some R" "ret = set ?ids \<inter> R"
    using status_spec(1) [OF st] False by auto
  have "it_id i \<notin> hit \<and> it_id i \<notin> ret \<longleftrightarrow>
      is_superseded s (it_id i) = Some False \<and> is_tombstoned_id s (it_id i) = Some False" if "i \<in> set results" for i
  proof -
    have safe: "\<not> refs_walk_unsafe (get_crossrefs s (it_id i))" using assms(3) that by blast
    have "it_id i \<in> hit \<longleftrightarrow> (\<exists>n. (it_id i, n) \<in> steps (get_crossrefs s) (memory_exists s) ''superseded_by'')"
      using status_spec(2) [OF st] that safe_claims(2) [OF safe] quiet_steps [OF assms(2)] by auto
    moreover have "it_id i \<in> ret \<longleftrightarrow> it_id i \<in> R" using R(2) that by auto
    ultimately show ?thesis using is_superseded_safe [OF safe] retired_tomb [OF R(1)] by simp
  qed
  then show ?thesis unfolding page by (intro filter_cong) auto
qed

definition ex_item :: "int \<Rightarrow> item" where
  "ex_item m = \<lparr>it_id = m, it_score = 0, it_row = plain_row ''text''\<rparr>"

lemma ex_versions_ok: "quiet ex_versions" "dict_wf (db_crossrefs ex_versions)" "dict_wf (db_memories ex_versions)"
  "\<not> refs_walk_unsafe (get_crossrefs ex_versions n)"
  by (auto simp: quiet_def ex_versions_def ex_three_def plain_row_def import_pending_def get_crossrefs_def ex_refs_safe)
    (simp add: refs_walk_unsafe_def)

theorem active_page_exact_witness:
  "apply_follow False ex_versions [ex_item 1, ex_item 3] ''active'' [] = FollowPage [ex_item 3] \<and>
   is_superseded ex_versions 1 \<noteq> Some False"
proof -
  have page: "apply_follow False ex_versions [ex_item 1, ex_item 3] ''active'' [] = FollowPage [ex_item 3]" by code_simp
  have "[ex_item 3] = filter (\<lambda>i. is_superseded ex_versions (it_id i) = Some False \<and>
      is_tombstoned_id ex_versions (it_id i) = Some False) [ex_item 1, ex_item 3]"
    using active_page_exact [OF page ex_versions_ok(1)] ex_versions_ok(4) by blast
  moreover have "is_tombstoned_id ex_versions 1 = Some False" by code_simp
  ultimately show ?thesis using page by (auto simp: ex_item_def split: if_splits)
qed

text \<open>The batched follow=latest page is the page of the per-row algorithm: the same leaves in the
  same order, the same rows for them, the same ids seen, whatever windows came before.\<close>

theorem latest_page_is_legacy:
  assumes "apply_follow_latest is_search s results seen = Some out" and "quiet s"
    and "dict_wf (db_crossrefs s)" and "dict_wf (db_memories s)" and "results \<noteq> []"
  shows "apply_follow_latest_legacy is_search s results seen = Some out"
proof -
  let ?ids = "map it_id results"
  from assms(1) obtain hit ret uns where st: "follow_status s ?ids = Some (hit, ret, uns)"
    by (auto simp: apply_follow_latest_def Let_def split: bind_splits)
  obtain R where R: "retired_memory_ids s = Some R" "ret = set ?ids \<inter> R"
    using status_spec(1) [OF st] assms(5) by auto
  let ?walk = "filter (\<lambda>i. i \<in> hit \<and> i \<notin> ret) (uniq ?ids)"
  from assms(1) obtain v where v: "(if ?walk \<noteq> [] \<and> uns = {} then load_supersession_view s ?walk else Some None) = Some v"
    by (auto simp: apply_follow_latest_def Let_def st split: bind_splits)
  show ?thesis
  proof (cases "uns \<noteq> {} \<or> ?walk \<noteq> [] \<and> v = None")
    case True
    then show ?thesis using assms(1) unfolding apply_follow_latest_def Let_def st by (simp add: v)
  next
    case False
    from assms(1) False obtain leaves where
      leaves: "map_opt (\<lambda>m. map_option (Pair m) (leaves_of v hit ret m)) (uniq ?ids) = Some leaves"
      and out: "out = (let (plan, seen') = plan_page (\<lambda>m. the (map_of leaves m)) results seen in
        (concat (map (show_leaf is_search (map_of (hydrate_for_follow s (map snd (filter (\<lambda>(item, l). l \<noteq> it_id item) plan))))) plan), seen'))"
      unfolding apply_follow_latest_def Let_def st by (auto simp: v split: bind_splits prod.splits)
    let ?L = "\<lambda>m. the (map_of leaves m)"
    have total: "leaves_of v hit ret m \<noteq> None" if "m \<in> set ?ids" for m
      using leaves map_opt_Some_iff [of "\<lambda>m. map_option (Pair m) (leaves_of v hit ret m)" "uniq ?ids"] that by auto
    then have "leaves = map (\<lambda>m. (m, the (leaves_of v hit ret m))) (uniq ?ids)"
      using leaves map_opt_total [of "uniq ?ids" "\<lambda>m. map_option (Pair m) (leaves_of v hit ret m)"
          "\<lambda>m. (m, the (leaves_of v hit ret m))"] by fastforce
    then have L: "leaves_of v hit ret m = Some (?L m)" if "m \<in> set ?ids" for m
      using total [OF that] that by (auto simp: map_of_map_restrict)
    have "resolve_latest (get_crossrefs s) (memory_exists s) (\<lambda>m. Some (m \<in> R)) m = Some (?L m)" if m: "m \<in> set ?ids" for m
    proof -
      have safe: "\<not> refs_walk_unsafe (get_crossrefs s m)" using status_spec(4) [OF st] False m by auto
      consider "m \<in> ret" | "m \<notin> ret" "m \<notin> hit" | "m \<notin> ret" "m \<in> hit" by blast
      then show ?thesis
      proof cases
        case 1
        then show ?thesis using L [OF m] R(2) m by (simp add: leaves_of_def resolve_latest_def)
      next
        case 2
        then have "\<not> (\<exists>n. (m, n) \<in> steps (get_crossrefs s) (memory_exists s) ''superseded_by'')"
          using status_spec(2) [OF st] m safe_claims(2) [OF safe] quiet_steps [OF assms(2)] by auto
        from resolve_current [OF safe _ this, of R] 2 R(2) m L [OF m] show ?thesis by (simp add: leaves_of_def)
      next
        case 3
        then have w: "m \<in> set ?walk" using m by simp
        have "?walk \<noteq> []" using w by (metis (no_types) empty_iff list.set(1))
        with False v obtain view where view: "v = Some view" "load_supersession_view s ?walk = Some (Some view)" by auto
        have f: "view_fetched s ?walk view" using view assms(2,3) by (simp add: view_fetched_def)
        have "(\<lambda>m. Some (m \<in> R)) = is_tombstoned_id s" using retired_tomb [OF R(1)] by auto
        then show ?thesis using supersession_view.latest [OF f w] L [OF m] 3 by (simp add: leaves_of_def view)
      qed
    qed
    then have loop: "latest_legacy_loop is_search s R results seen = (let (plan, seen') = plan_page ?L results seen in
       Some (concat (map (show_leaf is_search (map_of (db_memories s))) plan), seen'))"
      by (intro legacy_loop_plan) auto
    then show ?thesis unfolding apply_follow_latest_legacy_def R(1) out
      by (simp add: show_hydrated [OF assms(4)] split: prod.splits)
  qed
qed

theorem latest_page_is_legacy_witness:
  "\<exists>out. apply_follow_latest False ex_versions [ex_item 1, ex_item 2] [] = Some out \<and>
     map it_id (fst out) = [3] \<and> apply_follow_latest_legacy False ex_versions [ex_item 1, ex_item 2] [] = Some out"
proof -
  let ?out = "([\<lparr>it_id = 3, it_score = 0, it_row = plain_row ''three''\<rparr>], [3 :: int])"
  have out: "apply_follow_latest False ex_versions [ex_item 1, ex_item 2] [] = Some ?out" by code_simp
  from latest_page_is_legacy [OF this ex_versions_ok(1-3)] out show ?thesis by auto
qed

text \<open>An omitted or chosen follow mode resolves to a valid mode, to the explicit unfiltered escape, or
  to an error; the unfiltered result comes only from asking for it, and an empty mode never means it.\<close>

theorem resolve_follow_total:
  "(resolve_follow follow dflt for_get = Inr None \<longleftrightarrow> (case follow of None \<Rightarrow> dflt | Some f \<Rightarrow> f) = ''all'') \<and>
   (\<forall>m. resolve_follow follow dflt for_get = Inr (Some m) \<longleftrightarrow>
      m = (case follow of None \<Rightarrow> dflt | Some f \<Rightarrow> f) \<and> m \<noteq> ''all'' \<and>
      m \<in> set (if for_get then get_follow_modes else follow_modes))"
  by (cases follow)
    (auto simp: resolve_follow_def validate_follow_def Let_def follow_modes_def get_follow_modes_def)

end
