(* ===== verification/Lineage_Delete.thy ===== *)
theory Lineage_Delete
  imports Lineage_Follow
begin

text \<open>
  Deleting and merging versions (\<open>_tombstone_component\<close>, \<open>delete_memory\<close>, \<open>delete_memories\<close> and
  \<open>_heal_supersession_fork\<close> of \<open>memora/storage.py\<close>).  The image storage, the full-text index and
  the embedding rows of a deleted memory are not part of the state.
\<close>

section \<open>Tombstones for a component\<close>

definition component_of :: "db \<Rightarrow> int \<Rightarrow> int list option" where
  "component_of s mid = map_option (\<lambda>h. uniq (h @ [mid])) (full_history_of s mid)"

text \<open>
  The rewalks after the first marker: before each of them other clients may have written (one
  function per rewalk).
\<close>

fun rewalk :: "(string \<Rightarrow> string) \<Rightarrow> (db \<Rightarrow> db) list \<Rightarrow> int \<Rightarrow> string \<Rightarrow> (int, string) dict \<Rightarrow> int list \<Rightarrow> db \<Rightarrow>
    ((int, string) dict \<times> int list \<times> db) option" where
  "rewalk digest [] mid reason known marked s = Some (known, marked, s)"
| "rewalk digest (others # rest) mid reason known marked s =
     (let s0 = others s in
      do { component \<leftarrow> component_of s0 mid;
           if set component \<subseteq> set marked then Some (known, marked, s0)
           else do { (known', s1) \<leftarrow> retire_members_atomic digest component reason known (Some mid) s0;
                     rewalk digest rest mid reason known' (uniq (marked @ component)) s1 } })"

definition component_retire_rewalks :: nat where
  "component_retire_rewalks = 8"

text \<open>The legacy rows are best effort: a failed insert is logged and skipped.\<close>

definition best_effort_tombstone :: "(string \<Rightarrow> string) \<Rightarrow> int \<Rightarrow> string \<Rightarrow> (int, string) dict \<Rightarrow> int \<Rightarrow> db \<Rightarrow> db" where
  "best_effort_tombstone digest mid reason known m s =
     (case map_of known m of
        None \<Rightarrow> s
      | Some content \<Rightarrow>
          (case write_tombstone digest m content (lineage_reason reason m (Some mid)) s of None \<Rightarrow> s | Some s' \<Rightarrow> s'))"

definition tombstone_component :: "(string \<Rightarrow> string) \<Rightarrow> (db \<Rightarrow> db) list \<Rightarrow> int \<Rightarrow> string \<Rightarrow> (int, string) dict \<Rightarrow> db \<Rightarrow> db option" where
  "tombstone_component digest others mid reason content_by_id s =
     do { snapshot \<leftarrow> component_of s mid;
          (known, s1) \<leftarrow> retire_members_atomic digest snapshot reason content_by_id (Some mid) s;
          (known', marked, s2) \<leftarrow> rewalk digest (take (component_retire_rewalks - 1) others) mid reason known snapshot s1;
          Some (fold (best_effort_tombstone digest mid reason known') marked s2) }"

definition undisturbed :: "(db \<Rightarrow> db) list" where
  "undisturbed = replicate (component_retire_rewalks - 1) id"

section \<open>Deleting\<close>

definition delete_row :: "int \<Rightarrow> db \<Rightarrow> db" where
  "delete_row mid s = s\<lparr>db_memories := dict_pop mid (db_memories s)\<rparr>"

definition absorb_nonce_of :: "memory_row \<Rightarrow> json option" where
  "absorb_nonce_of r =
     (case mr_metadata r of BJson (JObj d) \<Rightarrow> Some (json_get ''absorb_nonce'' d) | BNull \<Rightarrow> Some JNull
      | BRaw _ \<Rightarrow> Some JNull | BJson _ \<Rightarrow> None)"

definition delete_text :: "int \<Rightarrow> string" where
  "delete_text mid = ''Deleted memory #'' @ int_text mid"

text \<open>The rows of one memory, after the markers.\<close>

definition unlink_everywhere :: "int \<Rightarrow> db \<Rightarrow> db option" where
  "unlink_everywhere mid s = remove_memory_from_crossrefs mid (clear_crossrefs mid s)"

definition or_deleted :: "string option \<Rightarrow> string" where
  "or_deleted reason = (case reason of None \<Rightarrow> ''deleted'' | Some r \<Rightarrow> if r = '''' then ''deleted'' else r)"

definition delete_memory :: "(string \<Rightarrow> string) \<Rightarrow> (db \<Rightarrow> db) list \<Rightarrow> int \<Rightarrow> string option \<Rightarrow> string option \<Rightarrow> db \<Rightarrow>
    (bool \<times> db) option" where
  "delete_memory digest others mid require_absorb_nonce reason s =
     (case map_of (db_memories s) mid of
        None \<Rightarrow> Some (False, s)
      | Some row \<Rightarrow>
          do { proceed \<leftarrow> (case require_absorb_nonce of
                  Some nonce \<Rightarrow> do { have \<leftarrow> absorb_nonce_of row; Some (if have = JStr nonce then Some s else None) }
                | None \<Rightarrow> map_option Some
                    (tombstone_component digest others mid (or_deleted reason) [(mid, mr_content row)] s));
               case proceed of
                 None \<Rightarrow> Some (False, s)
               | Some s1 \<Rightarrow>
                   do { s2 \<leftarrow> unlink_everywhere mid s1;
                        (let s3 = log_action mid ''delete'' (delete_text mid) s2 in
                         Some (has_row s3 mid, delete_row mid s3)) } })"

fun tombstone_each :: "(string \<Rightarrow> string) \<Rightarrow> string \<Rightarrow> int list \<Rightarrow> db \<Rightarrow> db option" where
  "tombstone_each digest reason [] s = Some s"
| "tombstone_each digest reason (m # ms) s =
     (case map_of (db_memories s) m of
        None \<Rightarrow> tombstone_each digest reason ms s
      | Some row \<Rightarrow>
          do { s' \<leftarrow> tombstone_component digest undisturbed m reason [(m, mr_content row)] s;
               tombstone_each digest reason ms s' })"

fun unlink_each :: "int list \<Rightarrow> db \<Rightarrow> db option" where
  "unlink_each [] s = Some s"
| "unlink_each (m # ms) s = do { s' \<leftarrow> unlink_everywhere m s; unlink_each ms s' }"

definition delete_memories :: "(string \<Rightarrow> string) \<Rightarrow> int list \<Rightarrow> string option \<Rightarrow> db \<Rightarrow> (nat \<times> db) option" where
  "delete_memories digest ids reason s =
     (if ids = [] then Some (0, s)
      else do { s1 \<leftarrow> tombstone_each digest (or_deleted reason) ids s;
                s2 \<leftarrow> unlink_each ids s1;
                (let s3 = fold (\<lambda>m. log_action m ''delete'' (delete_text m)) ids s2 in
                 Some (length ids, fold (\<lambda>c. fold delete_row c) (chunked 50 ids) s3)) })"

section \<open>Healing a fork\<close>

datatype heal_result = HealKept "int list" db | HealDiverged | HealRaised

text \<open>
  \<open>_heal_supersession_fork\<close>: \<open>may_collapse\<close> is the caller's gate (always true when there is none).
  \<open>others\<close> are the writes of concurrent clients before each reading of the leaves.
\<close>

fun collapse_losers :: "(int \<Rightarrow> int \<Rightarrow> bool) \<Rightarrow> int \<Rightarrow> int list \<Rightarrow> int list \<Rightarrow> db \<Rightarrow> (int list \<times> db) option" where
  "collapse_losers may_collapse winner [] kept s = Some (kept, s)"
| "collapse_losers may_collapse winner (loser # ls) kept s =
     (if loser = winner then collapse_losers may_collapse winner ls kept s
      else if \<not> may_collapse winner loser then collapse_losers may_collapse winner ls (loser # kept) s
      else (case add_link alone alone winner loser ''supersedes'' True s of
              Inl _ \<Rightarrow> None
            | Inr (_, s') \<Rightarrow> collapse_losers may_collapse winner ls kept s'))"

fun heal_loop :: "(int \<Rightarrow> int \<Rightarrow> bool) \<Rightarrow> (db \<Rightarrow> db) list \<Rightarrow> int \<Rightarrow> int list \<Rightarrow> db \<Rightarrow> heal_result" where
  "heal_loop may_collapse [] new_id kept s =
     (case live_leaves_of s new_id of
        None \<Rightarrow> HealRaised
      | Some (leaves, is_cycle) \<Rightarrow>
          if \<not> is_cycle \<and> 1 < length (filter (\<lambda>l. l \<notin> set kept) leaves) then HealDiverged else HealKept kept s)"
| "heal_loop may_collapse (others # rest) new_id kept s =
     (let s0 = others s in
      case live_leaves_of s0 new_id of
        None \<Rightarrow> HealRaised
      | Some (leaves, is_cycle) \<Rightarrow>
          (let contenders = filter (\<lambda>l. l \<notin> set kept) leaves in
           if is_cycle \<or> length contenders \<le> 1 then HealKept kept s0
           else (case collapse_losers may_collapse (Max (set contenders)) contenders kept s0 of
                   None \<Rightarrow> HealRaised
                 | Some (kept', s1) \<Rightarrow> heal_loop may_collapse rest new_id kept' s1)))"

definition fork_heal_retries :: nat where
  "fork_heal_retries = 8"

definition heal_supersession_fork :: "(int \<Rightarrow> int \<Rightarrow> bool) option \<Rightarrow> (db \<Rightarrow> db) list \<Rightarrow> int \<Rightarrow> int list \<Rightarrow> db \<Rightarrow> heal_result" where
  "heal_supersession_fork may_collapse others new_id keep s =
     heal_loop (case may_collapse of None \<Rightarrow> (\<lambda>_ _. True) | Some f \<Rightarrow> f) (take fork_heal_retries others) new_id keep s"

section \<open>What a delete leaves\<close>

lemma remove_rows_refs:
  assumes "remove_from_rows mid rows s = Some s'" and "distinct (map fst rows)"
    and "\<forall>(n, b) \<in> set rows. get_crossrefs s n = blob_list b"
  shows "get_crossrefs s' n = (if n \<in> fst ` set rows then filter (\<lambda>r. \<not> points_to mid r) (get_crossrefs s n) else get_crossrefs s n) \<and>
    db_memories s' = db_memories s \<and> db_components s' = db_components s \<and> db_tombstones s' = db_tombstones s \<and>
    db_table s' = db_table s"
  using assms
proof (induction mid rows s rule: remove_from_rows.induct)
  case (2 mid owner b rows s)
  have owner: "get_crossrefs s owner = blob_list b" using "2.prems"(3) by simp
  from "2.prems"(1) obtain filtered s1 where
    f: "(case b of BJson (JList xs) \<Rightarrow> filter_opt (not_to mid) xs
         | BJson (JObj d) \<Rightarrow> (if d = [] then Some [] else None)
         | BJson (JStr t) \<Rightarrow> (if t = '''' then Some [] else None)
         | BJson _ \<Rightarrow> None | _ \<Rightarrow> Some []) = Some filtered"
    and s1: "(if length filtered \<noteq> length (blob_list b) then store_crossrefs owner filtered s else Some s) = Some s1"
    and rest: "remove_from_rows mid rows s1 = Some s'"
    by (auto split: bind_splits)
  have filtered: "filtered = filter (\<lambda>r. \<not> points_to mid r) (blob_list b)"
    using f filter_not_to_readable filter_not_to
    by (fastforce simp: blob_list_def split: blob.splits json.splits if_splits)
  have refs1: "get_crossrefs s1 n = (if n = owner then filtered else get_crossrefs s n)" for n
  proof (cases "length filtered = length (blob_list b)")
    case True
    then have "filtered = blob_list b" unfolding filtered by (metis filter_id_conv length_filter_less nat_neq_iff)
    then show ?thesis using s1 True owner by auto
  next
    case False
    then have "s1 = put_crossrefs owner filtered s" using s1 by (auto simp: store_crossrefs_def split: if_splits)
    then show ?thesis by (simp add: get_put_crossrefs)
  qed
  have frame: "db_memories s1 = db_memories s \<and> db_components s1 = db_components s \<and> db_tombstones s1 = db_tombstones s \<and>
      db_table s1 = db_table s"
    using s1 by (auto simp: store_crossrefs_def split: if_splits)
  have "\<forall>(n, b) \<in> set rows. get_crossrefs s1 n = blob_list b"
    using "2.prems"(2,3) by (force simp: refs1)
  then have IH: "get_crossrefs s' n = (if n \<in> fst ` set rows then filter (\<lambda>r. \<not> points_to mid r) (get_crossrefs s1 n) else get_crossrefs s1 n) \<and>
      db_memories s' = db_memories s1 \<and> db_components s' = db_components s1 \<and> db_tombstones s' = db_tombstones s1 \<and>
      db_table s' = db_table s1"
    using "2.IH" [OF f s1 rest] "2.prems"(2) by simp
  then show ?case using frame "2.prems"(2) owner by (auto simp: refs1 filtered)
qed simp

lemma unlink_everywhere_refs:
  assumes "unlink_everywhere mid s = Some s'" and wf: "dict_wf (db_crossrefs s)"
  shows "get_crossrefs s' n = (if n = mid then [] else filter (\<lambda>r. \<not> points_to mid r) (get_crossrefs s n)) \<and>
    db_memories s' = db_memories s \<and> db_components s' = db_components s \<and> db_tombstones s' = db_tombstones s \<and>
    db_table s' = db_table s"
proof -
  let ?c = "clear_crossrefs mid s"
  have c: "get_crossrefs ?c n = (if n = mid then [] else get_crossrefs s n)" for n
    by (simp add: get_crossrefs_def clear_crossrefs_def)
  have frame: "db_memories ?c = db_memories s" "db_components ?c = db_components s" "db_tombstones ?c = db_tombstones s" "db_table ?c = db_table s"
    by (simp_all add: clear_crossrefs_def)
  have wfc: "dict_wf (db_crossrefs ?c)" using wf by (simp add: clear_crossrefs_def distinct_delete)
  then have rows: "\<forall>(n, b) \<in> set (db_crossrefs ?c). get_crossrefs ?c n = blob_list b"
    by (auto simp: get_crossrefs_def)
  have none: "get_crossrefs ?c n = []" if "n \<notin> fst ` set (db_crossrefs ?c)"
  proof -
    from that have "map_of (db_crossrefs ?c) n = None" by (simp only: map_of_eq_None_iff not_False_eq_True)
    then show ?thesis by (simp add: get_crossrefs_def)
  qed
  show ?thesis
    using remove_rows_refs [OF _ wfc rows, of mid s' n] assms(1) none frame c [of n]
    unfolding unlink_everywhere_def remove_memory_from_crossrefs_def by (auto split: if_splits)
qed

lemma map_of_fill: "dict_wf rows \<Longrightarrow>
    map_of (fold (\<lambda>(m, r) k. if m \<in> M then dict_set m (mr_content r) k else k) rows known) n =
      (case map_of rows n of Some r \<Rightarrow> if n \<in> M then Some (mr_content r) else map_of known n | None \<Rightarrow> map_of known n)"
proof (induction rows arbitrary: known)
  case (Cons kr rows)
  then show ?case by (cases kr) (auto simp: map_of_eq_None_iff [symmetric] split: option.splits)
qed simp

lemma fill_content:
  assumes "fill_component_content members known s = Some known'" and "dict_wf (db_memories s)" and "n \<in> set members"
  shows "map_of known' n = (case map_of known n of Some c \<Rightarrow> Some c | None \<Rightarrow> map_option mr_content (map_of (db_memories s) n))"
proof -
  let ?missing = "filter (\<lambda>m. map_of known m = None) members"
  consider "?missing = []" "known' = known"
    | "known' = fold (\<lambda>(m, r) k. if m \<in> set ?missing then dict_set m (mr_content r) k else k) (db_memories s) known"
    using assms(1) by (auto simp: fill_component_content_def Let_def split: if_splits)
  then show ?thesis
  proof cases
    case 1
    then obtain c where "map_of known n = Some c" using assms(3) by (auto simp: filter_empty_conv)
    with 1 show ?thesis by simp
  next
    case 2
    then show ?thesis using map_of_fill [OF assms(2), of "set ?missing" known n] assms(3)
      by (auto split: option.splits)
  qed
qed

lemma retire_spec:
  assumes "retire_members_atomic digest members reason known (Some origin) s = Some (known', s1)" and "members \<noteq> []"
  shows "db_table s1 Components = TableOk \<and> s1 = fold (mark_retired digest reason known' (Some origin)) (sort (uniq members)) s \<and>
    fill_component_content (sort (uniq members)) known s = Some known'"
proof -
  have "sort (uniq members) \<noteq> []" using assms(2) by (metis set_empty set_sort set_uniq)
  with assms(1) show ?thesis
    by (auto simp: retire_members_atomic_def Let_def split: bind_splits if_splits)
qed

lemma best_effort_frame:
  "db_memories (best_effort_tombstone digest mid reason known m s) = db_memories s \<and>
   db_crossrefs (best_effort_tombstone digest mid reason known m s) = db_crossrefs s \<and>
   db_components (best_effort_tombstone digest mid reason known m s) = db_components s \<and>
   db_table (best_effort_tombstone digest mid reason known m s) = db_table s"
  by (auto simp: best_effort_tombstone_def write_tombstone_def Let_def split: option.splits if_splits)

lemma fold_best_effort_frame:
  "db_memories (fold (best_effort_tombstone digest mid reason known) ms s) = db_memories s \<and>
   db_crossrefs (fold (best_effort_tombstone digest mid reason known) ms s) = db_crossrefs s \<and>
   db_components (fold (best_effort_tombstone digest mid reason known) ms s) = db_components s \<and>
   db_table (fold (best_effort_tombstone digest mid reason known) ms s) = db_table s"
  by (induction ms arbitrary: s) (simp_all add: best_effort_frame)

lemma component_frame: "db_memories s1 = db_memories s \<Longrightarrow> db_crossrefs s1 = db_crossrefs s \<Longrightarrow>
    component_of s1 mid = component_of s mid"
proof -
  assume "db_memories s1 = db_memories s" "db_crossrefs s1 = db_crossrefs s"
  then have "get_crossrefs s1 = get_crossrefs s" "memory_exists s1 = memory_exists s"
    by (auto simp: get_crossrefs_def memory_exists_def fun_eq_iff)
  then show ?thesis by (simp add: component_of_def full_history_of_def)
qed

lemma component_has_self: "component_of s mid = Some members \<Longrightarrow> mid \<in> set members"
  by (auto simp: component_of_def)

text \<open>Undisturbed, the first rewalk finds nothing new.\<close>

lemma tombstone_component_alone:
  assumes "tombstone_component digest undisturbed mid reason known0 s = Some s'"
  obtains members known where "component_of s mid = Some members"
    "retire_members_atomic digest members reason known0 (Some mid) s \<noteq> None"
    "fill_component_content (sort (uniq members)) known0 s = Some known"
    "db_memories s' = db_memories s" "db_crossrefs s' = db_crossrefs s" "db_table s' = db_table s"
    "db_table s Components = TableOk"
    "db_components s' = db_components (fold (mark_retired digest reason known (Some mid)) (sort (uniq members)) s)"
proof -
  from assms obtain members known s1 where c: "component_of s mid = Some members"
    and r: "retire_members_atomic digest members reason known0 (Some mid) s = Some (known, s1)"
    by (auto simp: tombstone_component_def split: bind_splits)
  have ne: "members \<noteq> []" using component_has_self [OF c] by auto
  note spec = retire_spec [OF r ne]
  have "component_of s1 mid = Some members" using c spec by (subst component_frame) auto
  moreover obtain rest where "take (component_retire_rewalks - 1) undisturbed = id # rest"
    by (simp add: undisturbed_def component_retire_rewalks_def numeral_eq_Suc)
  ultimately have "s' = fold (best_effort_tombstone digest mid reason known) members s1"
    using assms by (simp add: tombstone_component_def c r)
  then show ?thesis using that [OF c _ _ _ _ _ _ _] r spec fold_best_effort_frame [of digest mid reason known members s1]
    by auto
qed

lemma marker_hash:
  assumes "m \<in> set members" and "map_of known m = Some c"
    and "db_components s' = db_components (fold (mark_retired digest reason known origin) members s)"
    and "db_table s' Components = TableOk"
  shows "is_tombstoned_hash digest s' c = Some True"
proof -
  let ?h = "content_tombstone_hash digest c"
  obtain row where row: "map_of (db_components s') m = Some row" "tr_hash row = Some ?h"
    using fold_mark_row [of digest reason known origin members s m] assms(1,2) by (simp add: assms(3))
  have "\<lparr>t_hash = tr_hash row, t_reason = tr_reason row, t_created = tr_created row, t_mid = m\<rparr> \<in> set (table_rows Components s')"
    using map_of_SomeD [OF row(1)] by (force simp: table_rows_def)
  then have "\<lparr>t_hash = tr_hash row, t_reason = tr_reason row, t_created = tr_created row, t_mid = m\<rparr>
      \<in> set (filter (\<lambda>r. t_hash r = Some ?h) (table_rows Components s'))" using row(2) by simp
  then have "filter (\<lambda>r. t_hash r = Some ?h) (table_rows Components s') \<noteq> []" by (metis empty_iff empty_set)
  then obtain r where "newest (filter (\<lambda>r. t_hash r = Some ?h) (table_rows Components s')) = Some r"
    using newest_Some by blast
  then show ?thesis using assms(4)
    by (simp add: is_tombstoned_hash_def lookup_tombstone_by_hash_def select_rows_def Let_def)
qed

lemma markers_of: "db_components s' = db_components s \<Longrightarrow> has_marker s' = has_marker s"
  by (simp add: has_marker_def fun_eq_iff)

section \<open>Properties\<close>

text \<open>C15: deleting a memory removes its row and every reference to it, leaves every other row and every
  other reference as it was, and retires its whole history: each version is reported retired and
  resolves to nothing, and the content of each version that existed is refused by its fingerprint.\<close>

theorem delete_retires_history:
  assumes "delete_memory digest undisturbed mid None reason s = Some (ok, s')" and "has_row s mid"
    and wf: "dict_wf (db_memories s)" "dict_wf (db_crossrefs s)"
    and members: "component_of s mid = Some members"
  shows "ok \<and> db_memories s' = dict_pop mid (db_memories s) \<and>
    (\<forall>n. get_crossrefs s' n = (if n = mid then [] else filter (\<lambda>r. \<not> points_to mid r) (get_crossrefs s n))) \<and>
    (\<forall>n \<in> set members. is_tombstoned_id s' n = Some True \<and>
       resolve_latest (get_crossrefs s') (memory_exists s') (is_tombstoned_id s') n = Some []) \<and>
    (\<forall>n \<in> set members. \<forall>row. map_of (db_memories s) n = Some row \<longrightarrow>
       is_tombstoned_hash digest s' (mr_content row) = Some True)"
proof -
  from assms(2) obtain row where row: "map_of (db_memories s) mid = Some row" by (auto simp: has_row_def)
  let ?known0 = "[(mid, mr_content row)]"
  from assms(1) obtain s1 s2 where t: "tombstone_component digest undisturbed mid (or_deleted reason) ?known0 s = Some s1"
    and u: "unlink_everywhere mid s1 = Some s2"
    and s': "ok = has_row (log_action mid ''delete'' (delete_text mid) s2) mid"
      "s' = delete_row mid (log_action mid ''delete'' (delete_text mid) s2)"
    by (auto simp: delete_memory_def row Let_def split: bind_splits)
  from t obtain members' known where c: "component_of s mid = Some members'"
    and fill: "fill_component_content (sort (uniq members')) ?known0 s = Some known"
    and f1: "db_memories s1 = db_memories s" "db_crossrefs s1 = db_crossrefs s" "db_table s1 = db_table s"
      "db_table s Components = TableOk"
    and comps: "db_components s1 = db_components (fold (mark_retired digest (or_deleted reason) known (Some mid)) (sort (uniq members')) s)"
    by (rule tombstone_component_alone)
  have m: "members' = members" using c members by simp
  have wf1: "dict_wf (db_crossrefs s1)" using wf(2) f1 by simp
  have frame: "db_memories s2 = db_memories s" "db_components s2 = db_components s1" "db_table s2 = db_table s"
    using unlink_everywhere_refs [OF u wf1] f1 by auto
  have comps': "db_components s' = db_components s1" and tab: "db_table s' Components = TableOk"
    and mem': "db_memories s' = dict_pop mid (db_memories s)"
    using frame f1 by (simp_all add: s' delete_row_def)
  have refs': "get_crossrefs s' n = get_crossrefs s2 n" for n
    by (simp add: s' delete_row_def get_crossrefs_def)
  have refs1: "get_crossrefs s1 n = get_crossrefs s n" for n by (simp add: get_crossrefs_def f1)
  have marked: "has_marker s' n" if "n \<in> set members" for n
    using markers.mark_all [of "(digest, or_deleted reason, known, Some mid)" "sort (uniq members)" s n] that
      markers_of [of s' "fold (mark_retired digest (or_deleted reason) known (Some mid)) (sort (uniq members)) s"]
    by (simp add: comps' comps m)
  have retired: "is_tombstoned_id s' n = Some True" if "n \<in> set members" for n
    using marker_tombstoned [OF tab marked [OF that]] .
  have hash: "is_tombstoned_hash digest s' (mr_content r) = Some True"
    if "n \<in> set members" "map_of (db_memories s) n = Some r" for n r
  proof (rule marker_hash [OF _ _ _ tab])
    show "n \<in> set (sort (uniq members))" using that by simp
    show "map_of known n = Some (mr_content r)"
      using fill_content [OF fill wf(1), of n] that row by (auto simp: m split: if_splits)
    show "db_components s' = db_components (fold (mark_retired digest (or_deleted reason) known (Some mid)) (sort (uniq members)) s)"
      by (simp add: comps' comps m)
  qed
  have "ok" using frame assms(2) by (simp add: s' has_row_def)
  moreover have "\<forall>n. get_crossrefs s' n = (if n = mid then [] else filter (\<lambda>r. \<not> points_to mid r) (get_crossrefs s n))"
    using unlink_everywhere_refs [OF u wf1] by (simp add: refs' refs1)
  moreover have "resolve_latest (get_crossrefs s') (memory_exists s') (is_tombstoned_id s') n = Some []" if "n \<in> set members" for n
    using retired [OF that] by (simp add: resolve_latest_def)
  ultimately show ?thesis using mem' retired hash by blast
qed

definition ex_deleted :: db where
  "ex_deleted = snd (the (delete_memory id undisturbed 2 None None ex_versions))"

theorem delete_retires_history_witness:
  "is_tombstoned_id ex_deleted 1 = Some True \<and> is_tombstoned_id ex_deleted 3 = Some True \<and>
   is_tombstoned_hash id ex_deleted ''three'' = Some True \<and> get_crossrefs ex_deleted 1 = []"
proof -
  have some: "delete_memory id undisturbed 2 None None ex_versions \<noteq> None" by code_simp
  then have d: "delete_memory id undisturbed 2 None None ex_versions = Some (fst (the (delete_memory id undisturbed 2 None None ex_versions)), ex_deleted)"
    by (auto simp: ex_deleted_def)
  have m: "component_of ex_versions 2 = Some [1, 2, 3]" by code_simp
  have row: "has_row ex_versions 2" "map_of (db_memories ex_versions) 3 = Some (plain_row ''three'')"
    by (simp_all add: has_row_def ex_versions_def ex_three_def)
  have one: "filter (\<lambda>r. \<not> points_to 2 r) (get_crossrefs ex_versions 1) = []" by code_simp
  have "mr_content (plain_row ''three'') = ''three''" by (simp add: plain_row_def)
  with delete_retires_history [OF d row(1) ex_versions_ok(3,2) m] row(2) one show ?thesis by auto
qed

text \<open>C28: deleting a lineage retires it in one statement with three parameters per version, so past the
  engine's cap on bound parameters the delete raises and retires nothing: on D1, whose cap is one hundred, that is
  every lineage of more than thirty-three versions.\<close>

theorem delete_raises_past_param_cap:
  assumes "has_row s mid" and "component_of s mid = Some members" and "db_max_params s < 3 * length members"
  shows "delete_memory digest others mid None reason s = None"
proof -
  from assms(1) obtain row where row: "map_of (db_memories s) mid = Some row" by (auto simp: has_row_def)
  have dist: "distinct members" using assms(2) by (auto simp: component_of_def)
  then have len: "length (sort (uniq members)) = length members" by (simp add: uniq_distinct)
  have ne: "members \<noteq> []" using component_has_self [OF assms(2)] by auto
  have "sort (uniq members) \<noteq> []" using len ne by (metis length_0_conv)
  then have "retire_members_atomic digest members (or_deleted reason) known (Some mid) s = None" for known
    using len assms(3) by (simp add: retire_members_atomic_def Let_def split: bind_splits)
  then show ?thesis by (simp add: delete_memory_def row tombstone_component_def assms(2))
qed

text \<open>A database whose cap is eight parameters cannot delete a lineage of three versions.\<close>

theorem delete_raises_past_param_cap_witness:
  "delete_memory id undisturbed 2 None None (ex_versions\<lparr>db_max_params := 8\<rparr>) = None"
proof -
  have m: "component_of (ex_versions\<lparr>db_max_params := 8\<rparr>) 2 = Some [1, 2, 3]" by code_simp
  have "has_row (ex_versions\<lparr>db_max_params := 8\<rparr>) 2" by (simp add: has_row_def ex_versions_def ex_three_def)
  from delete_raises_past_param_cap [OF this m] show ?thesis by simp
qed

text \<open>
  A merge keeps two histories apart: with 3 superseding both 1 and 2, the history of 1 does not hold
  2, so deleting 1 does not retire 2.
\<close>

definition ex_merge :: db where
  "ex_merge = ex_three\<lparr>db_crossrefs :=
     [(1, related_blob [edge_entry 3 ''superseded_by'']), (2, related_blob [edge_entry 3 ''superseded_by'']),
      (3, related_blob [edge_entry 1 ''supersedes'', edge_entry 2 ''supersedes''])]\<rparr>"

text \<open>deleting one branch of a merge leaves the other branch's root alive: the retired component is
  the history reached up from the memory to its roots and down again, not the connected component.\<close>

theorem merge_sibling_not_retired:
  "full_history_of ex_merge 1 = Some [1, 3] \<and> full_history_of ex_merge 3 = Some [1, 3, 2] \<and>
   map_option (\<lambda>(ok, s'). (ok, is_tombstoned_id s' 3, is_tombstoned_id s' 2))
     (delete_memory id undisturbed 1 None None ex_merge) = Some (True, Some True, Some False)"
  by code_simp

lemma rewalk_marks:
  assumes "rewalk digest others mid reason known marked s = Some (known', marked', s')"
    and "\<forall>f \<in> set others. \<forall>x n. has_marker x n \<longrightarrow> has_marker (f x) n" and "has_marker s n"
  shows "has_marker s' n"
  using assms
proof (induction digest others mid reason known marked s rule: rewalk.induct)
  case (2 digest f rest mid reason known marked s)
  have n: "has_marker (f s) n" using "2.prems"(2,3) by simp
  from "2.prems"(1) obtain members where c: "component_of (f s) mid = Some members" by (auto simp: Let_def split: bind_splits)
  show ?case
  proof (cases "set members \<subseteq> set marked")
    case True
    then show ?thesis using "2.prems"(1) n by (simp add: Let_def c)
  next
    case False
    with "2.prems"(1) obtain known1 s1 where r: "retire_members_atomic digest members reason known (Some mid) (f s) = Some (known1, s1)"
      and rest: "rewalk digest rest mid reason known1 (uniq (marked @ members)) s1 = Some (known', marked', s')"
      by (auto simp: Let_def c split: bind_splits)
    have "members \<noteq> []" using False by auto
    from retire_spec [OF r this] markers.mark_all [of "(digest, reason, known1, Some mid)" "sort (uniq members)" "f s" n] n
    have "has_marker s1 n" by simp
    then show ?thesis using "2.IH" [OF refl c False r refl rest] "2.prems"(2) by simp
  qed
qed simp

text \<open>C27: a version that another client attaches in the window after the delete's first marker is retired
  too: the rewalk reads the component again and marks whatever joined it.\<close>

theorem late_version_is_retired:
  assumes "tombstone_component digest (f # others) mid reason known0 s = Some s'"
    and first: "component_of s mid = Some snapshot" "retire_members_atomic digest snapshot reason known0 (Some mid) s = Some (known1, s1)"
    and late: "component_of (f s1) mid = Some members"
    and keep: "\<forall>g \<in> set (f # others). \<forall>x n. has_marker x n \<longrightarrow> has_marker (g x) n"
  shows "\<forall>n \<in> set snapshot \<union> set members. has_marker s' n"
proof
  fix n assume n: "n \<in> set snapshot \<union> set members"
  let ?rest = "take (component_retire_rewalks - 2) others"
  have take: "take (component_retire_rewalks - 1) (f # others) = f # ?rest"
    by (simp add: component_retire_rewalks_def numeral_eq_Suc)
  from assms(1) obtain known2 marked s2 where
    rw: "rewalk digest (f # ?rest) mid reason known1 snapshot s1 = Some (known2, marked, s2)"
    and s': "s' = fold (best_effort_tombstone digest mid reason known2) marked s2"
    unfolding tombstone_component_def take by (auto simp: first simp del: rewalk.simps split: bind_splits)
  have same: "has_marker s' = has_marker s2" using markers_of fold_best_effort_frame unfolding s' by blast
  have keep': "\<forall>g \<in> set ?rest. \<forall>x n. has_marker x n \<longrightarrow> has_marker (g x) n"
    using keep by (auto dest: in_set_takeD)
  have "snapshot \<noteq> []" using component_has_self [OF first(1)] by auto
  then have snap: "k \<in> set snapshot \<Longrightarrow> has_marker s1 k" for k
    using retire_spec [OF first(2)] markers.mark_all [of "(digest, reason, known1, Some mid)" "sort (uniq snapshot)" s k] by simp
  have fs: "k \<in> set snapshot \<Longrightarrow> has_marker (f s1) k" for k using snap keep by simp
  show "has_marker s' n"
  proof (cases "set members \<subseteq> set snapshot")
    case True
    then show ?thesis using rw n fs by (auto simp: Let_def late same)
  next
    case False
    with rw obtain known3 s3 where r: "retire_members_atomic digest members reason known1 (Some mid) (f s1) = Some (known3, s3)"
      and rest: "rewalk digest ?rest mid reason known3 (uniq (snapshot @ members)) s3 = Some (known2, marked, s2)"
      by (auto simp: Let_def late split: bind_splits)
    have "members \<noteq> []" using False by auto
    from retire_spec [OF r this] markers.mark_all [of "(digest, reason, known3, Some mid)" "sort (uniq members)" "f s1" n] n fs
    have "has_marker s3 n" by auto
    from rewalk_marks [OF rest keep' this] show ?thesis by (simp add: same)
  qed
qed

text \<open>Another client links a new version 4 on top of version 3.\<close>

definition ex_attach :: "db \<Rightarrow> db" where
  "ex_attach s = put_crossrefs 4 [edge_entry 3 ''supersedes'']
     (put_crossrefs 3 [edge_entry 2 ''supersedes'', edge_entry 4 ''superseded_by''] s)"

definition ex_four :: db where
  "ex_four = ex_versions\<lparr>db_memories := db_memories ex_versions @ [(4, plain_row ''four'')]\<rparr>"

theorem late_version_is_retired_witness:
  "\<exists>s'. tombstone_component id (ex_attach # replicate 6 id) 1 ''deleted'' [] ex_four = Some s' \<and> has_marker s' 4"
proof -
  have some: "tombstone_component id (ex_attach # replicate 6 id) 1 ''deleted'' [] ex_four \<noteq> None" by code_simp
  then obtain s' where s': "tombstone_component id (ex_attach # replicate 6 id) 1 ''deleted'' [] ex_four = Some s'" by blast
  have c: "component_of ex_four 1 = Some [1, 2, 3]" by code_simp
  have "retire_members_atomic id [1, 2, 3] ''deleted'' [] (Some 1) ex_four \<noteq> None" by code_simp
  then obtain k s1 where r: "retire_members_atomic id [1, 2, 3] ''deleted'' [] (Some 1) ex_four = Some (k, s1)" by auto
  have "map_option (\<lambda>(k, s1). component_of (ex_attach s1) 1)
      (retire_members_atomic id [1, 2, 3] ''deleted'' [] (Some 1) ex_four) = Some (Some [1, 2, 3, 4])" by code_simp
  then have late: "component_of (ex_attach s1) 1 = Some [1, 2, 3, 4]" by (simp add: r)
  have keep: "\<forall>g \<in> set (ex_attach # replicate 6 id). \<forall>x n. has_marker x n \<longrightarrow> has_marker (g x) n"
    by (auto simp: ex_attach_def has_marker_def)
  from late_version_is_retired [OF s' c r late keep] s' show ?thesis by auto
qed

section \<open>The healed fork\<close>

lemma collapse_keeps: "collapse_losers may_collapse winner ls kept s = Some (kept', s') \<Longrightarrow> set kept \<subseteq> set kept'"
  by (induction ls arbitrary: kept s) (fastforce split: if_splits sum.splits prod.splits)+

lemma heal_loop_spec: "heal_loop may_collapse others new_id kept s = HealKept kept' s' \<Longrightarrow>
    set kept \<subseteq> set kept' \<and>
    (\<exists>leaves is_cycle. live_leaves_of s' new_id = Some (leaves, is_cycle) \<and>
      (is_cycle \<or> length (filter (\<lambda>l. l \<notin> set kept') leaves) \<le> 1))"
proof (induction may_collapse others new_id kept s rule: heal_loop.induct)
  case (1 may_collapse new_id kept s)
  then show ?case by (auto split: option.splits prod.splits if_splits)
next
  case (2 may_collapse f rest new_id kept s)
  from "2.prems" obtain leaves is_cycle where l: "live_leaves_of (f s) new_id = Some (leaves, is_cycle)"
    by (auto simp: Let_def split: option.splits)
  let ?c = "filter (\<lambda>l. l \<notin> set kept) leaves"
  show ?case
  proof (cases "is_cycle \<or> length ?c \<le> 1")
    case True
    then show ?thesis using "2.prems" l by (auto simp: Let_def)
  next
    case False
    with "2.prems" l obtain kept1 s1 where c: "collapse_losers may_collapse (Max (set ?c)) ?c kept (f s) = Some (kept1, s1)"
      and rest: "heal_loop may_collapse rest new_id kept1 s1 = HealKept kept' s'"
      by (auto simp: Let_def split: option.splits)
    from "2.IH" [OF refl l refl refl False c refl rest] collapse_keeps [OF c] show ?thesis by blast
  qed
qed

text \<open>when the fork heal returns, at most one current version that the caller did not keep on purpose is
  left, or the component is a cycle, which is never collapsed; what the caller kept stays kept; whatever
  other clients wrote between its readings.\<close>

theorem heal_returns_converged:
  assumes "heal_supersession_fork may_collapse others new_id keep s = HealKept kept s'"
  shows "set keep \<subseteq> set kept \<and>
    (\<exists>leaves is_cycle. live_leaves_of s' new_id = Some (leaves, is_cycle) \<and>
      (is_cycle \<or> length (filter (\<lambda>l. l \<notin> set kept) leaves) \<le> 1))"
  using assms heal_loop_spec unfolding heal_supersession_fork_def by blast

text \<open>Two writers superseded the same version 1 with 2 and 3.\<close>

definition ex_fork :: db where
  "ex_fork = ex_three\<lparr>db_crossrefs :=
     [(1, related_blob [edge_entry 2 ''superseded_by'', edge_entry 3 ''superseded_by'']),
      (2, related_blob [edge_entry 1 ''supersedes'']), (3, related_blob [edge_entry 1 ''supersedes''])]\<rparr>"

definition healed :: "heal_result \<Rightarrow> db" where
  "healed r = (case r of HealKept _ s \<Rightarrow> s | _ \<Rightarrow> empty_db)"

theorem heal_returns_converged_witness:
  "live_leaves_of ex_fork 3 = Some ([2, 3], False) \<and>
   live_leaves_of (healed (heal_supersession_fork None (replicate 8 id) 3 [] ex_fork)) 3 = Some ([3], False) \<and>
   (\<exists>leaves is_cycle. live_leaves_of (healed (heal_supersession_fork None (replicate 8 id) 3 [] ex_fork)) 3 =
      Some (leaves, is_cycle) \<and> (is_cycle \<or> length leaves \<le> 1))"
proof -
  let ?r = "heal_supersession_fork None (replicate 8 id) 3 [] ex_fork"
  have "(case ?r of HealKept k s \<Rightarrow> k = [] | _ \<Rightarrow> False)" by code_simp
  then have r: "?r = HealKept [] (healed ?r)" by (auto simp: healed_def split: heal_result.splits)
  have "live_leaves_of ex_fork 3 = Some ([2, 3], False)" by code_simp
  moreover have "live_leaves_of (healed ?r) 3 = Some ([3], False)" by code_simp
  ultimately show ?thesis using heal_returns_converged [OF r] by auto
qed

end
