(* ===== verification/Replica_Statements.thy ===== *)
theory Replica_Statements
  imports Memora_Prelude "HOL-Library.Monad_Syntax"
begin

text \<open>
  The statements the replicator may send (\<open>memora/replicator.py\<close>): the builder that turns one
  local row into UPSERT, DELETE or INSERT texts, and the checker that parses every text again and
  accepts exactly those shapes.  A raised \<open>ReplicatorStatementError\<close> is \<^const>\<open>None\<close>.
\<close>

section \<open>The builder\<close>

text \<open>A value of a SQLite row; a blob, which D1 cannot be sent, keeps its bytes.\<close>

datatype sval = VNull | VInt int | VReal rat | VText string | VBlob string

type_synonym row = "(string, sval) dict"

definition sync_tables :: "(string, string list) dict" where
  "sync_tables =
     [(''memories'', [''id'']),
      (''memories_embeddings'', [''memory_id'']),
      (''memories_crossrefs'', [''memory_id'']),
      (''tombstones'', [''content_hash'', ''memory_id'']),
      (''tombstone_components'', [''memory_id'']),
      (''memories_actions'', [''id'']),
      (''memories_meta'', [''key''])]"

definition embeddings :: string where
  "embeddings = ''memories_embeddings''"

definition epoch_sql :: string where
  "epoch_sql = ''SELECT value FROM memories_meta WHERE key = ''
     @ [CHR 0x27] @ ''embedding_change_epoch'' @ [CHR 0x27]"

definition json_safe :: "sval \<Rightarrow> sval option" where
  "json_safe v = (case v of VBlob _ \<Rightarrow> None | _ \<Rightarrow> Some v)"

fun all_some :: "'a option list \<Rightarrow> 'a list option" where
  "all_some [] = Some []"
| "all_some (x # xs) = do { y \<leftarrow> x; ys \<leftarrow> all_some xs; Some (y # ys) }"

definition cols_sql :: "string list \<Rightarrow> string" where
  "cols_sql cols = str_join '', '' cols"

definition where_item :: "string \<Rightarrow> string" where
  "where_item c = c @ '' = ?''"

definition where_sql :: "string list \<Rightarrow> string" where
  "where_sql cols = str_join '' AND '' (map where_item cols)"

definition delete_sql :: "string \<Rightarrow> string list \<Rightarrow> string" where
  "delete_sql t cols = ''DELETE FROM '' @ t @ '' WHERE '' @ where_sql cols"

definition readback_sql :: "string \<Rightarrow> string list \<Rightarrow> string" where
  "readback_sql t cols = ''SELECT * FROM '' @ t @ '' WHERE '' @ where_sql cols"

definition marks_sql :: "nat \<Rightarrow> string" where
  "marks_sql n = str_join '', '' (replicate n ''?'')"

definition insert_sql :: "string \<Rightarrow> string list \<Rightarrow> nat \<Rightarrow> string" where
  "insert_sql t cols n = ''INSERT INTO '' @ t @ '' ('' @ cols_sql cols @ '') VALUES ('' @ marks_sql n @ '')''"

definition set_item :: "string \<times> string \<Rightarrow> string" where
  "set_item ab = fst ab @ '' = excluded.'' @ snd ab"

definition upsert_sql :: "string \<Rightarrow> string list \<Rightarrow> nat \<Rightarrow> string list \<Rightarrow> (string \<times> string) list \<Rightarrow> string" where
  "upsert_sql t cols n pk sets =
     insert_sql t cols n @ '' ON CONFLICT('' @ cols_sql pk @ '') DO UPDATE SET '' @ str_join '', '' (map set_item sets)"

type_synonym stmt = "string \<times> sval list"

text \<open>\<open>_IDENT.match\<close>: the \<open>$\<close> of the pattern also matches before a final newline.\<close>

definition ident_match :: "string \<Rightarrow> bool" where
  "ident_match c \<longleftrightarrow> is_ident c \<or> c \<noteq> [] \<and> last c = CHR 0x0A \<and> is_ident (butlast c)"

definition build_statements :: "string \<Rightarrow> sval list \<Rightarrow> row option \<Rightarrow> string list \<Rightarrow> stmt list option" where
  "build_statements tbl pk row columns =
     do { pk_cols \<leftarrow> map_of sync_tables tbl;
          if length pk \<noteq> length pk_cols then None
          else do {
            key \<leftarrow> all_some (map json_safe pk);
            (let delete = (delete_sql tbl pk_cols, key) in
             case row of
               None \<Rightarrow> Some [delete]
             | Some r \<Rightarrow>
                 (let cols = filter (\<lambda>c. map_of r c \<noteq> None) columns in
                  if \<not> list_all ident_match cols \<or> \<not> set pk_cols \<subseteq> set cols then None
                  else do {
                    vals \<leftarrow> all_some (map (\<lambda>c. json_safe (the (map_of r c))) cols);
                    (if tbl = embeddings then Some [delete, (insert_sql tbl cols (length cols), vals)]
                     else Some [(upsert_sql tbl cols (length cols) pk_cols
                                   (map (\<lambda>c. (c, c)) (filter (\<lambda>c. c \<notin> set pk_cols) cols)), vals)]) })) } }"

definition write_probe_statements :: "stmt list option" where
  "write_probe_statements = build_statements ''memories'' [VNull] None []"

section \<open>The checker\<close>

text \<open>
  The regular expressions of the checker as a deterministic parser: every identifier of them is
  followed by a character no identifier contains, so the longest match is the only one.
\<close>

definition expect :: "string \<Rightarrow> string \<Rightarrow> string option" where
  "expect p s = (if starts_with p s then Some (drop (length p) s) else None)"

definition parse_ident :: "string \<Rightarrow> (string \<times> string) option" where
  "parse_ident s =
     (let w = takeWhile ident_char s in if is_ident w then Some (w, drop (length w) s) else None)"

definition parse_mark :: "string \<Rightarrow> (string \<times> string) option" where
  "parse_mark s = map_option (Pair ''?'') (expect ''?'' s)"

definition parse_set :: "string \<Rightarrow> ((string \<times> string) \<times> string) option" where
  "parse_set s = do { (a, r) \<leftarrow> parse_ident s; r \<leftarrow> expect '' = excluded.'' r; (b, r) \<leftarrow> parse_ident r; Some ((a, b), r) }"

definition parse_where :: "string \<Rightarrow> (string \<times> string) option" where
  "parse_where s = do { (a, r) \<leftarrow> parse_ident s; r \<leftarrow> expect '' = ?'' r; Some (a, r) }"

fun parse_list :: "nat \<Rightarrow> (string \<Rightarrow> ('a \<times> string) option) \<Rightarrow> string \<Rightarrow> string \<Rightarrow> ('a list \<times> string) option" where
  "parse_list 0 item sep s = None"
| "parse_list (Suc n) item sep s =
     do { (x, r) \<leftarrow> item s;
          if starts_with sep r
          then do { (xs, r') \<leftarrow> parse_list n item sep (drop (length sep) r); Some (x # xs, r') }
          else Some ([x], r) }"

definition items :: "(string \<Rightarrow> ('a \<times> string) option) \<Rightarrow> string \<Rightarrow> string \<Rightarrow> ('a list \<times> string) option" where
  "items item sep s = parse_list (Suc (length s)) item sep s"

definition parse_insert_head :: "string \<Rightarrow> ((string \<times> string list \<times> nat) \<times> string) option" where
  "parse_insert_head s =
     do { r \<leftarrow> expect ''INSERT INTO '' s; (t, r) \<leftarrow> parse_ident r; r \<leftarrow> expect '' ('' r;
          (cols, r) \<leftarrow> items parse_ident '', '' r; r \<leftarrow> expect '') VALUES ('' r;
          (q, r) \<leftarrow> items parse_mark '', '' r; r \<leftarrow> expect '')'' r; Some ((t, cols, length q), r) }"

definition parse_insert :: "string \<Rightarrow> (string \<times> string list \<times> nat) option" where
  "parse_insert s = do { (h, r) \<leftarrow> parse_insert_head s; if r = [] then Some h else None }"

definition parse_upsert :: "string \<Rightarrow> (string \<times> string list \<times> nat \<times> string list \<times> (string \<times> string) list) option" where
  "parse_upsert s =
     do { ((t, cols, n), r) \<leftarrow> parse_insert_head s; r \<leftarrow> expect '' ON CONFLICT('' r;
          (pk, r) \<leftarrow> items parse_ident '', '' r; r \<leftarrow> expect '') DO UPDATE SET '' r;
          (sets, r) \<leftarrow> items parse_set '', '' r; if r = [] then Some (t, cols, n, pk, sets) else None }"

definition parse_by_key :: "string \<Rightarrow> string \<Rightarrow> (string \<times> string list) option" where
  "parse_by_key head s =
     do { r \<leftarrow> expect head s; (t, r) \<leftarrow> parse_ident r; r \<leftarrow> expect '' WHERE '' r;
          (cols, r) \<leftarrow> items parse_where '' AND '' r; if r = [] then Some (t, cols) else None }"

datatype shape = ShEpoch | ShUpsert | ShInsert | ShDelete | ShReadback

definition good_upsert :: "string \<Rightarrow> string list \<Rightarrow> nat \<Rightarrow> string list \<Rightarrow> (string \<times> string) list \<Rightarrow> bool" where
  "good_upsert t cols n pk sets \<longleftrightarrow>
     t \<noteq> embeddings \<and> map_of sync_tables t = Some pk \<and> distinct cols \<and> set pk \<subseteq> set cols \<and> n = length cols \<and>
     map fst sets = map snd sets \<and> fst ` set sets = set cols - set pk \<and> distinct (map fst sets)"

definition good_insert :: "string \<Rightarrow> string list \<Rightarrow> nat \<Rightarrow> bool" where
  "good_insert t cols n \<longleftrightarrow>
     t = embeddings \<and> set (the (map_of sync_tables embeddings)) \<subseteq> set cols \<and> distinct cols \<and> n = length cols"

definition check_statement :: "string \<Rightarrow> shape option" where
  "check_statement sql =
     (if sql = epoch_sql then Some ShEpoch
      else case parse_upsert sql of
          Some (t, cols, n, pk, sets) \<Rightarrow> if good_upsert t cols n pk sets then Some ShUpsert else None
        | None \<Rightarrow>
            (case parse_insert sql of
               Some (t, cols, n) \<Rightarrow> if good_insert t cols n then Some ShInsert else None
             | None \<Rightarrow>
                 (case parse_by_key ''DELETE FROM '' sql of
                    Some (t, cols) \<Rightarrow> if map_of sync_tables t = Some cols then Some ShDelete else None
                  | None \<Rightarrow>
                      (case parse_by_key ''SELECT * FROM '' sql of
                         Some (t, cols) \<Rightarrow> if map_of sync_tables t = Some cols then Some ShReadback else None
                       | None \<Rightarrow> None))))"

section \<open>Parsing what is printed\<close>

lemma expect_append [simp]: "expect p (p @ s) = Some s"
  by (simp add: expect_def)

lemma expect_Some: "expect p s = Some r \<longleftrightarrow> s = p @ r"
  by (auto simp: expect_def starts_with_iff split: if_splits)

lemma is_ident_not_Nil [simp]: "is_ident w \<Longrightarrow> w \<noteq> []"
  by auto

text \<open>A text an identifier cannot run on into.\<close>

definition stops :: "string \<Rightarrow> bool" where
  "stops r \<longleftrightarrow> (case r of [] \<Rightarrow> True | c # _ \<Rightarrow> \<not> ident_char c)"

lemma parse_ident_print: "is_ident w \<Longrightarrow> stops r \<Longrightarrow> parse_ident (w @ r) = Some (w, r)"
proof -
  assume w: "is_ident w" and r: "stops r"
  have "takeWhile ident_char (w @ r) = w"
    using is_ident_all [OF w] r by (cases r) (auto simp: stops_def list_all_iff takeWhile_append)
  then show ?thesis using w by (simp add: parse_ident_def)
qed

lemma parse_ident_Some: "parse_ident s = Some (w, r) \<Longrightarrow> s = w @ r \<and> is_ident w \<and> stops r"
proof -
  assume p: "parse_ident s = Some (w, r)"
  then have w: "w = takeWhile ident_char s" "is_ident w" and r: "r = drop (length w) s"
    by (auto simp: parse_ident_def Let_def split: if_splits)
  have d: "r = dropWhile ident_char s" unfolding r w(1) by (metis append_eq_conv_conj takeWhile_dropWhile_id)
  have "stops (dropWhile ident_char s)" by (induction s) (auto simp: stops_def)
  then have "stops r" by (simp add: d)
  then show ?thesis using w r by (metis append_take_drop_id takeWhile_eq_take)
qed

lemma stops_simps [simp]:
  "stops []" "stops (CHR '' '' # s)" "stops (CHR '','' # s)" "stops (CHR '')'' # s)" "stops (CHR ''('' # s)"
  by (simp_all add: stops_def text_simps)

lemma parse_set_print: "is_ident a \<Longrightarrow> is_ident b \<Longrightarrow> stops r \<Longrightarrow> parse_set (set_item (a, b) @ r) = Some ((a, b), r)"
  using expect_append [of "'' = excluded.''" "b @ r"]
  by (simp add: parse_set_def set_item_def parse_ident_print del: expect_append)

lemma parse_where_print: "is_ident a \<Longrightarrow> parse_where (where_item a @ r) = Some (a, r)"
  using expect_append [of "'' = ?''" r]
  by (simp add: parse_where_def where_item_def parse_ident_print del: expect_append)

lemma parse_mark_print: "parse_mark (''?'' @ r) = Some (''?'', r)"
  by (simp add: parse_mark_def expect_def starts_with_def)

lemma parse_set_Some: "parse_set s = Some (ab, r) \<Longrightarrow> s = set_item ab @ r \<and> is_ident (fst ab) \<and> is_ident (snd ab)"
  by (auto simp: parse_set_def set_item_def expect_Some dest!: parse_ident_Some split: bind_splits)

lemma parse_where_Some: "parse_where s = Some (a, r) \<Longrightarrow> s = where_item a @ r \<and> is_ident a"
  by (auto simp: parse_where_def where_item_def expect_Some dest!: parse_ident_Some split: bind_splits)

lemma parse_mark_Some: "parse_mark s = Some (q, r) \<Longrightarrow> s = ''?'' @ r \<and> q = ''?''"
  by (auto simp: parse_mark_def expect_Some)

text \<open>Lists: the separator starts with a character that stops, and what follows the list is no separator.\<close>

lemma parse_list_print:
  assumes "\<And>x r. x \<in> set xs \<Longrightarrow> stops r \<Longrightarrow> item (pr x @ r) = Some (x, r)"
    and "xs \<noteq> []" and "length xs \<le> n" and "stops rest" and "\<not> starts_with sep rest" and "\<And>s. stops (sep @ s)"
  shows "parse_list n item sep (str_join sep (map pr xs) @ rest) = Some (xs, rest)"
  using assms
proof (induction xs arbitrary: n)
  case (Cons x xs)
  from Cons.prems(3) obtain k where n: "n = Suc k" by (cases n) auto
  show ?case
  proof (cases xs)
    case Nil
    then show ?thesis using Cons.prems n by simp
  next
    case (Cons y ys)
    then have "str_join sep (map pr (x # xs)) @ rest = pr x @ sep @ (str_join sep (map pr xs) @ rest)" by simp
    then show ?thesis using Cons.prems Cons.IH [of k] n Cons by (simp del: str_join.simps)
  qed
qed simp

lemma parse_list_Some:
  assumes "\<And>s x r. item s = Some (x, r) \<Longrightarrow> s = pr x @ r \<and> P x" and "parse_list n item sep s = Some (xs, r)"
  shows "s = str_join sep (map pr xs) @ r \<and> xs \<noteq> [] \<and> (\<forall>x \<in> set xs. P x)"
  using assms(2)
proof (induction n arbitrary: s xs)
  case (Suc n)
  from Suc.prems obtain x r1 where x: "item s = Some (x, r1)" by (auto split: bind_splits)
  note s = assms(1) [OF x]
  show ?case
  proof (cases "starts_with sep r1")
    case True
    then obtain r2 where r2: "r1 = sep @ r2" by (auto simp: starts_with_iff)
    with Suc.prems x True obtain ys where ys: "parse_list n item sep r2 = Some (ys, r)" "xs = x # ys"
      by (auto split: bind_splits)
    from Suc.IH [OF ys(1)] s r2 ys(2) show ?thesis by (cases ys) auto
  next
    case False
    with Suc.prems x have "xs = [x]" "r1 = r" by auto
    with s show ?thesis by simp
  qed
qed simp

lemma join_length: "(\<And>x. x \<in> set xs \<Longrightarrow> pr x \<noteq> []) \<Longrightarrow> length xs \<le> length (str_join sep (map pr xs))"
proof (induction xs)
  case (Cons x xs)
  then have p: "0 < length (pr x)" and le: "length xs \<le> length (str_join sep (map pr xs))" by auto
  show ?case
  proof (cases xs)
    case Nil
    then show ?thesis using p by (simp add: Suc_le_eq)
  next
    case Cons
    have "length (pr x) + length (str_join sep (map pr xs)) \<le> length (str_join sep (map pr (x # xs)))"
      unfolding Cons by simp
    moreover have "length (x # xs) \<le> length (pr x) + length (str_join sep (map pr xs))"
      using p le by (simp only: list.size)
    ultimately show ?thesis by (metis order_trans)
  qed
qed simp

lemma items_print:
  assumes "\<And>x r. x \<in> set xs \<Longrightarrow> stops r \<Longrightarrow> item (pr x @ r) = Some (x, r)" and "\<And>x. x \<in> set xs \<Longrightarrow> pr x \<noteq> []"
    and "xs \<noteq> []" and "stops rest" and "\<not> starts_with sep rest" and "\<And>s. stops (sep @ s)"
  shows "items item sep (str_join sep (map pr xs) @ rest) = Some (xs, rest)"
  unfolding items_def
  by (rule parse_list_print [OF assms(1,3) _ assms(4-6)]) (use join_length [of xs pr sep] assms(2) in auto)

lemma items_Some:
  assumes "\<And>s x r. item s = Some (x, r) \<Longrightarrow> s = pr x @ r \<and> P x" and "items item sep s = Some (xs, r)"
  shows "s = str_join sep (map pr xs) @ r \<and> xs \<noteq> [] \<and> (\<forall>x \<in> set xs. P x)"
  by (rule parse_list_Some [where item = item and n = "Suc (length s)"])
    (use assms in \<open>auto simp only: items_def\<close>)

section \<open>What the checker accepts\<close>

lemma parse_insert_head_Some:
  assumes "parse_insert_head s = Some ((t, cols, n), r)"
  shows "s = insert_sql t cols n @ r \<and> is_ident t \<and> (\<forall>c \<in> set cols. is_ident c) \<and> cols \<noteq> []"
proof -
  from assms obtain r1 r2 r3 q r4 where
    a: "parse_ident r1 = Some (t, '' ('' @ r2)" "s = ''INSERT INTO '' @ r1"
    and c: "items parse_ident '', '' r2 = Some (cols, '') VALUES ('' @ r3)"
    and q: "items parse_mark '', '' r3 = Some (q, r4)" and r: "r4 = '')'' @ r" and n: "n = length q"
    by (auto simp: parse_insert_head_def expect_Some split: bind_splits)
  have cs: "r2 = str_join '', '' (map (\<lambda>x. x) cols) @ '') VALUES ('' @ r3 \<and> cols \<noteq> [] \<and> (\<forall>x \<in> set cols. is_ident x)"
    by (rule items_Some [where item = parse_ident, OF _ c]) (auto dest: parse_ident_Some)
  have qs: "r3 = str_join '', '' (map (\<lambda>x. ''?'') q) @ r4 \<and> q \<noteq> [] \<and> (\<forall>x \<in> set q. True)"
    by (rule items_Some [where item = parse_mark, OF _ q]) (auto dest: parse_mark_Some)
  from parse_ident_Some [OF a(1)] have t: "is_ident t" "r1 = t @ '' ('' @ r2" by auto
  show ?thesis using cs qs t a(2) r n by (simp add: insert_sql_def cols_sql_def marks_sql_def map_replicate_const)
qed

lemma parse_insert_head_print:
  assumes "is_ident t" and "\<And>c. c \<in> set cols \<Longrightarrow> is_ident c" and "cols \<noteq> []" and "0 < n"
  shows "parse_insert_head (insert_sql t cols n @ r) = Some ((t, cols, n), r)"
proof -
  let ?v = "str_join '', '' (map (\<lambda>x. x) (replicate n ''?'')) @ '')'' @ r"
  have 1: "items parse_ident '', '' (str_join '', '' (map (\<lambda>x. x) cols) @ '') VALUES ('' @ ?v)
             = Some (cols, '') VALUES ('' @ ?v)"
    by (rule items_print) (use assms in \<open>auto simp: parse_ident_print starts_with_def dest: is_ident_not_Nil\<close>)
  have 2: "items parse_mark '', '' ?v = Some (replicate n ''?'', '')'' @ r)"
  proof (rule items_print)
    show "parse_mark (x @ r) = Some (x, r)" if "x \<in> set (replicate n ''?'')" for x r
      using that parse_mark_print by (auto simp: set_replicate_conv_if split: if_splits)
  qed (use assms(4) in \<open>auto simp: starts_with_def\<close>)
  have s: "insert_sql t cols n @ r
      = ''INSERT INTO '' @ (t @ ('' ('' @ (str_join '', '' (map (\<lambda>x. x) cols) @ ('') VALUES ('' @ ?v))))"
    by (simp add: insert_sql_def cols_sql_def marks_sql_def)
  show ?thesis
    unfolding s parse_insert_head_def
    apply (simp only: expect_append bind_simps Option.bind.simps)
    apply (subst parse_ident_print [OF assms(1)])
     apply (simp only: append.simps stops_simps)
    apply (simp only: expect_append Option.bind.simps 1 2 prod.case length_replicate)
    done
qed

lemma parse_by_key_Some:
  assumes "parse_by_key h s = Some (t, cols)"
  shows "s = h @ t @ '' WHERE '' @ where_sql cols \<and> is_ident t \<and> cols \<noteq> []"
proof -
  from assms obtain r1 r2 where a: "parse_ident r1 = Some (t, '' WHERE '' @ r2)" "s = h @ r1"
    and c: "items parse_where '' AND '' r2 = Some (cols, [])"
    by (auto simp: parse_by_key_def expect_Some split: bind_splits if_splits)
  have "r2 = str_join '' AND '' (map where_item cols) @ [] \<and> cols \<noteq> [] \<and> (\<forall>x \<in> set cols. is_ident x)"
    by (rule items_Some [where item = parse_where, OF _ c]) (auto dest: parse_where_Some)
  then show ?thesis using parse_ident_Some [OF a(1)] a(2) by (simp add: where_sql_def)
qed

lemma parse_by_key_print:
  assumes "is_ident t" and "\<And>c. c \<in> set cols \<Longrightarrow> is_ident c" and "cols \<noteq> []"
  shows "parse_by_key h (h @ t @ '' WHERE '' @ where_sql cols) = Some (t, cols)"
proof -
  have 1: "items parse_where '' AND '' (str_join '' AND '' (map where_item cols) @ []) = Some (cols, [])"
  proof (rule items_print)
    show "parse_where (where_item x @ r) = Some (x, r)" if "x \<in> set cols" for x r
      using assms(2) that by (simp add: parse_where_print)
  qed (simp_all add: assms(3) where_item_def starts_with_def)
  have "parse_ident (t @ '' WHERE '' @ where_sql cols) = Some (t, '' WHERE '' @ where_sql cols)"
    by (rule parse_ident_print) (simp_all add: assms)
  with 1 show ?thesis by (simp add: parse_by_key_def where_sql_def del: append.simps)
qed

lemma parse_insert_print:
  assumes "is_ident t" and "\<And>c. c \<in> set cols \<Longrightarrow> is_ident c" and "cols \<noteq> []" and "0 < n"
  shows "parse_insert (insert_sql t cols n) = Some (t, cols, n)" and "parse_upsert (insert_sql t cols n) = None"
  using parse_insert_head_print [OF assms, of "[]"]
  by (simp_all add: parse_insert_def parse_upsert_def expect_def starts_with_def)

lemma parse_upsert_print:
  assumes "is_ident t" and "\<And>c. c \<in> set cols \<Longrightarrow> is_ident c" and "cols \<noteq> []" and "0 < n"
    and "\<And>c. c \<in> set pk \<Longrightarrow> is_ident c" and "pk \<noteq> []"
    and "\<And>a b. (a, b) \<in> set sets \<Longrightarrow> is_ident a \<and> is_ident b" and "sets \<noteq> []"
  shows "parse_upsert (upsert_sql t cols n pk sets) = Some (t, cols, n, pk, sets)"
proof -
  let ?s = "str_join '', '' (map set_item sets)"
  let ?v = "str_join '', '' (map (\<lambda>x. x) pk) @ '') DO UPDATE SET '' @ ?s"
  have 1: "items parse_ident '', '' ?v = Some (pk, '') DO UPDATE SET '' @ ?s)"
    by (rule items_print) (use assms in \<open>auto simp: parse_ident_print starts_with_def dest: is_ident_not_Nil\<close>)
  have 2: "items parse_set '', '' (?s @ []) = Some (sets, [])"
  proof (rule items_print)
    show "parse_set (set_item x @ r) = Some (x, r)" if "x \<in> set sets" "stops r" for x r
      using assms(7) that by (cases x) (simp add: parse_set_print)
  qed (simp_all add: assms(8) set_item_def starts_with_def)
  have s: "upsert_sql t cols n pk sets = insert_sql t cols n @ ('' ON CONFLICT('' @ ?v)"
    by (simp add: upsert_sql_def cols_sql_def)
  have 3: "parse_insert_head (insert_sql t cols n @ ('' ON CONFLICT('' @ ?v)) = Some ((t, cols, n), '' ON CONFLICT('' @ ?v)"
    by (rule parse_insert_head_print) (use assms in auto)
  show ?thesis
    using 2 unfolding s parse_upsert_def 3
    by (simp only: expect_append Option.bind.simps 1 prod.case append_Nil2 if_True simp_thms)
qed

lemma parse_upsert_Some:
  assumes "parse_upsert s = Some (t, cols, n, pk, sets)"
  shows "s = upsert_sql t cols n pk sets \<and> is_ident t \<and> (\<forall>c \<in> set cols. is_ident c) \<and> cols \<noteq> [] \<and> sets \<noteq> []"
proof -
  from assms obtain r1 r2 r3 where h: "parse_insert_head s = Some ((t, cols, n), '' ON CONFLICT('' @ r1)"
    and p: "items parse_ident '', '' r1 = Some (pk, '') DO UPDATE SET '' @ r3)"
    and u: "items parse_set '', '' r3 = Some (sets, [])"
    by (auto simp: parse_upsert_def expect_Some split: bind_splits if_splits)
  have ps: "r1 = str_join '', '' (map (\<lambda>x. x) pk) @ '') DO UPDATE SET '' @ r3 \<and> pk \<noteq> [] \<and> (\<forall>x \<in> set pk. is_ident x)"
    by (rule items_Some [where item = parse_ident, OF _ p]) (auto dest: parse_ident_Some)
  have us: "r3 = str_join '', '' (map set_item sets) @ [] \<and> sets \<noteq> [] \<and> (\<forall>x \<in> set sets. True)"
    by (rule items_Some [where item = parse_set, OF _ u]) (auto dest: parse_set_Some)
  from parse_insert_head_Some [OF h] ps us show ?thesis by (simp add: upsert_sql_def cols_sql_def)
qed

lemma parse_insert_Some:
  assumes "parse_insert s = Some (t, cols, n)"
  shows "s = insert_sql t cols n \<and> is_ident t \<and> (\<forall>c \<in> set cols. is_ident c) \<and> cols \<noteq> []"
proof -
  from assms have "parse_insert_head s = Some ((t, cols, n), [])"
    by (auto simp: parse_insert_def split: bind_splits if_splits)
  from parse_insert_head_Some [OF this] show ?thesis by simp
qed

lemma sync_table_idents:
  assumes "map_of sync_tables t = Some pk"
  shows "is_ident t" and "\<And>c. c \<in> set pk \<Longrightarrow> is_ident c" and "pk \<noteq> []" and "distinct pk"
proof -
  have all: "list_all (\<lambda>(t, pk). is_ident t \<and> list_all is_ident pk \<and> pk \<noteq> [] \<and> distinct pk) sync_tables"
    by code_simp
  have "(t, pk) \<in> set sync_tables" using assms by (rule map_of_SomeD)
  with all have "is_ident t \<and> list_all is_ident pk \<and> pk \<noteq> [] \<and> distinct pk" by (auto simp: list_all_iff)
  then show "is_ident t" and "\<And>c. c \<in> set pk \<Longrightarrow> is_ident c" and "pk \<noteq> []" and "distinct pk"
    by (auto simp: list_all_iff)
qed

lemma not_an_insert:
  "parse_upsert (''DELETE FROM '' @ s) = None" "parse_insert (''DELETE FROM '' @ s) = None"
  "parse_upsert (''SELECT * FROM '' @ s) = None" "parse_insert (''SELECT * FROM '' @ s) = None"
  "parse_by_key ''DELETE FROM '' (''SELECT * FROM '' @ s) = None"
  by (simp_all add: parse_upsert_def parse_insert_def parse_insert_head_def parse_by_key_def expect_def starts_with_def)

text \<open>The allow-list as the printed shapes: every write and read-back carries the full primary key.\<close>

inductive allowed :: "shape \<Rightarrow> string \<Rightarrow> bool" where
  epoch: "allowed ShEpoch epoch_sql"
| upsert: "\<lbrakk>map_of sync_tables t = Some pk; t \<noteq> embeddings; distinct cols; \<forall>c \<in> set cols. is_ident c;
     set pk \<subseteq> set cols; distinct rest; set rest = set cols - set pk; rest \<noteq> []\<rbrakk>
     \<Longrightarrow> allowed ShUpsert (upsert_sql t cols (length cols) pk (map (\<lambda>c. (c, c)) rest))"
| insert: "\<lbrakk>distinct cols; \<forall>c \<in> set cols. is_ident c; ''memory_id'' \<in> set cols\<rbrakk>
     \<Longrightarrow> allowed ShInsert (insert_sql embeddings cols (length cols))"
| delete: "map_of sync_tables t = Some pk \<Longrightarrow> allowed ShDelete (delete_sql t pk)"
| readback: "map_of sync_tables t = Some pk \<Longrightarrow> allowed ShReadback (readback_sql t pk)"

section \<open>The allow-list\<close>

lemma map_fst_eq_snd: "map fst xs = map snd xs \<Longrightarrow> xs = map (\<lambda>c. (c, c)) (map fst xs)"
  by (induction xs) auto

lemma check_upsert_allowed:
  assumes p: "parse_upsert sql = Some (t, cols, n, pk, sets)" and g: "good_upsert t cols n pk sets"
  shows "allowed ShUpsert sql"
proof -
  note s = parse_upsert_Some [OF p]
  have sets: "sets = map (\<lambda>c. (c, c)) (map fst sets)" using g by (intro map_fst_eq_snd) (simp add: good_upsert_def)
  have "set (map fst sets) = set cols - set pk" "distinct (map fst sets)" "t \<noteq> embeddings"
    "map_of sync_tables t = Some pk" "distinct cols" "set pk \<subseteq> set cols"
    using g unfolding good_upsert_def set_map by blast+
  moreover have "\<forall>c \<in> set cols. is_ident c" "map fst sets \<noteq> []" using s by auto
  ultimately have "allowed ShUpsert (upsert_sql t cols (length cols) pk (map (\<lambda>c. (c, c)) (map fst sets)))"
    by (intro allowed.upsert)
  then show ?thesis using s g sets by (simp add: good_upsert_def)
qed

lemma check_insert_allowed:
  assumes p: "parse_insert sql = Some (t, cols, n)" and g: "good_insert t cols n"
  shows "allowed ShInsert sql"
proof -
  have pk: "map_of sync_tables embeddings = Some [''memory_id'']" by code_simp
  from parse_insert_Some [OF p] g pk have "sql = insert_sql embeddings cols (length cols)"
    and "distinct cols" "\<forall>c \<in> set cols. is_ident c" "''memory_id'' \<in> set cols"
    by (auto simp: good_insert_def)
  then show ?thesis by (simp add: allowed.insert)
qed

lemma check_by_key_allowed:
  assumes "map_of sync_tables t = Some cols"
  shows "parse_by_key ''DELETE FROM '' sql = Some (t, cols) \<Longrightarrow> allowed ShDelete sql"
    and "parse_by_key ''SELECT * FROM '' sql = Some (t, cols) \<Longrightarrow> allowed ShReadback sql"
  using allowed.delete [OF assms] allowed.readback [OF assms]
  by (auto dest!: parse_by_key_Some simp: delete_sql_def readback_sql_def)

lemma checked_is_allowed: "check_statement sql = Some sh \<Longrightarrow> allowed sh sql"
  unfolding check_statement_def
  by (auto split: if_splits option.splits prod.splits
      intro: allowed.epoch check_upsert_allowed check_insert_allowed check_by_key_allowed)

lemma embeddings_ident [simp]: "is_ident embeddings"
  by code_simp

lemma epoch_differs:
  "upsert_sql t cols n pk sets \<noteq> epoch_sql" "insert_sql t cols n \<noteq> epoch_sql"
  "delete_sql t pk \<noteq> epoch_sql" "readback_sql t pk \<noteq> epoch_sql"
  by (simp_all add: upsert_sql_def insert_sql_def delete_sql_def readback_sql_def epoch_sql_def)

lemma allowed_is_checked: "allowed sh sql \<Longrightarrow> check_statement sql = Some sh"
proof (induction rule: allowed.induct)
  case epoch
  then show ?case by (simp add: check_statement_def)
next
  case (upsert t pk cols rest)
  note t = sync_table_idents [OF upsert(1)]
  let ?sets = "map (\<lambda>c. (c, c)) rest"
  have c: "cols \<noteq> []" using t(3) upsert(5) by auto
  have r: "\<And>c. c \<in> set rest \<Longrightarrow> is_ident c" using upsert(4,7) by auto
  have "parse_upsert (upsert_sql t cols (length cols) pk ?sets) = Some (t, cols, length cols, pk, ?sets)"
    by (rule parse_upsert_print) (use t c r upsert in auto)
  moreover have "good_upsert t cols (length cols) pk ?sets"
    using upsert by (simp add: good_upsert_def comp_def image_image)
  ultimately show ?case by (simp add: check_statement_def epoch_differs)
next
  case (insert cols)
  have c: "cols \<noteq> []" using insert(3) by auto
  have "set (the (map_of sync_tables embeddings)) = {''memory_id''}" by code_simp
  with insert have "good_insert embeddings cols (length cols)" by (simp add: good_insert_def)
  moreover have "parse_insert (insert_sql embeddings cols (length cols)) = Some (embeddings, cols, length cols)"
    and "parse_upsert (insert_sql embeddings cols (length cols)) = None"
    by (rule parse_insert_print; use insert c in simp)+
  ultimately show ?case by (simp add: check_statement_def epoch_differs)
next
  case (delete t pk)
  note t = sync_table_idents [OF delete]
  have "parse_by_key ''DELETE FROM '' (delete_sql t pk) = Some (t, pk)"
    unfolding delete_sql_def by (rule parse_by_key_print) (use t in auto)
  with delete show ?case
    using not_an_insert(1,2) [of "t @ '' WHERE '' @ where_sql pk"] epoch_differs(3) [of t pk]
    by (simp add: check_statement_def delete_sql_def)
next
  case (readback t pk)
  note t = sync_table_idents [OF readback]
  have "parse_by_key ''SELECT * FROM '' (readback_sql t pk) = Some (t, pk)"
    unfolding readback_sql_def by (rule parse_by_key_print) (use t in auto)
  with readback show ?case
    using not_an_insert(3-5) [of "t @ '' WHERE '' @ where_sql pk"] epoch_differs(4) [of t pk]
    by (simp add: check_statement_def readback_sql_def)
qed

text \<open>C16: The checker of the replicator accepts a text exactly when it is one of the allow-listed shapes,
  printed over a replicated table: the epoch query, an upsert of distinct columns that holds the whole
  primary key and assigns every other column from \<open>excluded\<close>, an insert into the embeddings, and a
  delete or a read-back by the full primary key.\<close>

theorem checker_is_the_allow_list: "check_statement sql = Some sh \<longleftrightarrow> allowed sh sql"
  using checked_is_allowed allowed_is_checked by blast

section \<open>The builder stays inside the allow-list\<close>

lemma all_some_length: "all_some xs = Some ys \<Longrightarrow> length ys = length xs"
  by (induction xs arbitrary: ys) (auto split: bind_splits)

lemma no_semicolon_ident: "is_ident w \<Longrightarrow> CHR '';'' \<notin> set w"
proof
  assume "is_ident w" and "CHR '';'' \<in> set w"
  then have "ident_char (CHR '';'')" using is_ident_all [of w] by (auto simp: list_all_iff)
  then show False by code_simp
qed

lemma set_str_join: "c \<in> set (str_join sep xs) \<Longrightarrow> c \<in> set sep \<or> (\<exists>x \<in> set xs. c \<in> set x)"
  by (induction sep xs rule: str_join.induct) auto

text \<open>Every statement the builder produces for a replicated row passes the checker, with the shape
  its case calls for: a delete when the local row is gone, a delete and an insert for the embeddings
  (whose update trigger would clear a column), an upsert for every other table.\<close>

theorem built_statements_pass:
  assumes b: "build_statements tbl pk row columns = Some sts"
    and cols: "distinct columns" "\<forall>c \<in> set columns. is_ident c"
    and more: "\<forall>r. row = Some r \<longrightarrow> tbl \<noteq> embeddings \<longrightarrow>
                 (\<exists>c \<in> set columns. map_of r c \<noteq> None \<and> c \<notin> set (the (map_of sync_tables tbl)))"
  shows "map (\<lambda>s. check_statement (fst s)) sts =
     (if row = None then [Some ShDelete]
      else if tbl = embeddings then [Some ShDelete, Some ShInsert] else [Some ShUpsert])"
proof -
  from b obtain pk_cols where t: "map_of sync_tables tbl = Some pk_cols"
    by (auto simp: build_statements_def split: bind_splits)
  from b t obtain key where key: "all_some (map json_safe pk) = Some key"
    by (auto simp: build_statements_def split: bind_splits if_splits)
  have del: "check_statement (delete_sql tbl pk_cols) = Some ShDelete"
    by (rule allowed_is_checked [OF allowed.delete [OF t]])
  show ?thesis
  proof (cases row)
    case None
    then show ?thesis using b t key del by (auto simp: build_statements_def split: if_splits)
  next
    case (Some r)
    define cs where "cs = filter (\<lambda>c. map_of r c \<noteq> None) columns"
    define vals where "vals = all_some (map (\<lambda>c. json_safe (the (map_of r c))) cs)"
    define rest where "rest = filter (\<lambda>c. c \<notin> set pk_cols) cs"
    have b': "Some sts = (if length pk \<noteq> length pk_cols then None
       else if \<not> list_all ident_match cs \<or> \<not> set pk_cols \<subseteq> set cs then None
       else vals \<bind> (\<lambda>vals. if tbl = embeddings
            then Some [(delete_sql tbl pk_cols, key), (insert_sql tbl cs (length cs), vals)]
            else Some [(upsert_sql tbl cs (length cs) pk_cols (map (\<lambda>c. (c, c)) rest), vals)]))"
      using b unfolding build_statements_def Some t key Let_def rest_def vals_def cs_def
      by (simp only: Option.bind.simps option.case split: if_split)
    then have pk: "set pk_cols \<subseteq> set cs" by (metis option.distinct(1))
    from b' have sts: "map fst sts = (if tbl = embeddings then [delete_sql tbl pk_cols, insert_sql tbl cs (length cs)]
                else [upsert_sql tbl cs (length cs) pk_cols (map (\<lambda>c. (c, c)) rest)])"
      by (cases vals) (auto split: if_splits)
    have cs: "distinct cs" "\<forall>c \<in> set cs. is_ident c" using cols by (auto simp: cs_def)
    have "map check_statement (map fst sts) =
       (if tbl = embeddings then [Some ShDelete, Some ShInsert] else [Some ShUpsert])"
    proof (cases "tbl = embeddings")
      case True
      have "map_of sync_tables embeddings = Some [''memory_id'']" by code_simp
      with t True pk have "''memory_id'' \<in> set cs" by auto
      with cs True sts del allowed_is_checked [OF allowed.insert [of cs]] show ?thesis by simp
    next
      case False
      then obtain c where "c \<in> set columns" "map_of r c \<noteq> None" "c \<notin> set pk_cols" using more Some t by auto
      then have "c \<in> set rest" by (simp add: rest_def cs_def)
      then have "rest \<noteq> []" by auto
      then have "allowed ShUpsert (upsert_sql tbl cs (length cs) pk_cols (map (\<lambda>c. (c, c)) rest))"
        using t False cs pk by (intro allowed.upsert) (auto simp: rest_def)
      then show ?thesis using False sts by (simp add: allowed_is_checked)
    qed
    then show ?thesis using Some by (simp add: comp_def)
  qed
qed

theorem built_statements_pass_witness:
  "map (\<lambda>s. check_statement (fst s))
     (the (build_statements ''memories'' [VInt 7] (Some [(''id'', VInt 7), (''content'', VText ''x'')]) [''id'', ''content'']))
   = [Some ShUpsert]"
proof -
  let ?r = "[(''id'', VInt 7), (''content'', VText ''x'')] :: row"
  have n: "''memories'' \<noteq> embeddings" by code_simp
  have b: "build_statements ''memories'' [VInt 7] (Some ?r) [''id'', ''content'']
      = Some (the (build_statements ''memories'' [VInt 7] (Some ?r) [''id'', ''content'']))" by code_simp
  show ?thesis
    using built_statements_pass [OF b] n by (simp add: sync_tables_def text_simps)
qed

lemma no_semicolon_lists:
  assumes "\<forall>c \<in> set cols. is_ident c"
  shows "CHR '';'' \<notin> set (cols_sql cols)" and "CHR '';'' \<notin> set (where_sql cols)"
    and "CHR '';'' \<notin> set (str_join '', '' (map set_item (map (\<lambda>c. (c, c)) cols)))"
proof -
  have n: "CHR '';'' \<notin> set c" if "c \<in> set cols" for c using assms that no_semicolon_ident by blast
  show "CHR '';'' \<notin> set (cols_sql cols)" and "CHR '';'' \<notin> set (where_sql cols)"
    and "CHR '';'' \<notin> set (str_join '', '' (map set_item (map (\<lambda>c. (c, c)) cols)))"
    using n by (auto simp: cols_sql_def where_sql_def where_item_def set_item_def dest!: set_str_join)
qed

lemma no_semicolon_marks: "CHR '';'' \<notin> set (marks_sql n)"
  by (auto simp: marks_sql_def dest!: set_str_join)

text \<open>An accepted text is one statement: it contains no semicolon, so a second statement cannot be
  smuggled in after it.\<close>

theorem accepted_is_one_statement:
  assumes "check_statement sql = Some sh"
  shows "CHR '';'' \<notin> set sql"
  using checked_is_allowed [OF assms]
proof cases
  case epoch
  then show ?thesis by (simp add: epoch_sql_def)
next
  case (upsert t pk cols rest)
  note t = sync_table_idents [OF upsert(3)]
  have "\<forall>c \<in> set rest. is_ident c" using upsert by auto
  with t upsert show ?thesis
    by (auto simp: upsert_sql_def insert_sql_def no_semicolon_lists no_semicolon_marks no_semicolon_ident
        simp del: map_map)
next
  case (insert cols)
  then show ?thesis
    by (auto simp: insert_sql_def no_semicolon_lists no_semicolon_marks no_semicolon_ident)
next
  case (delete t pk)
  then show ?thesis using sync_table_idents [OF delete(3)]
    by (auto simp: delete_sql_def no_semicolon_lists no_semicolon_ident)
next
  case (readback t pk)
  then show ?thesis using sync_table_idents [OF readback(3)]
    by (auto simp: readback_sql_def no_semicolon_lists no_semicolon_ident)
qed

theorem accepted_is_one_statement_witness:
  "CHR '';'' \<notin> set (delete_sql ''tombstones'' [''content_hash'', ''memory_id''])"
proof -
  have "check_statement (delete_sql ''tombstones'' [''content_hash'', ''memory_id'']) = Some ShDelete" by code_simp
  then show ?thesis by (rule accepted_is_one_statement)
qed

end
