(* ===== verification/Replica_Batch.thy ===== *)
theory Replica_Batch
  imports Replica_Statements "HOL-Library.Multiset" "HOL-Library.Product_Lexorder" "HOL-Library.List_Lexorder" "HOL-Library.Char_ord"
begin

text \<open>
  One replication batch (\<open>memora/replicator.py\<close>): \<open>read_batch\<close> takes the next outbox rows,
  coalesces them per key, reads each key's current local row, adds the parents of child upserts,
  orders the keys by dependency and builds the statements; \<open>delete_guard_detail\<close> bounds its
  deletes.  The theory shows that sending a batch in this order to a database that enforces the
  foreign keys succeeds and leaves every key of the batch equal to its local row.
\<close>

section \<open>The local store\<close>

text \<open>
  An outbox row names a table and a primary key; the triggers write the key as one canonical JSON
  array, so its decoded list stands for the text.  A table maps each primary key to its row; \<open>=\<close>
  never matches a NULL.  \<open>ls_next\<close> is the sequence number the next outbox row gets
  (\<open>AUTOINCREMENT\<close>: no number is used twice).
\<close>

record outrow =
  ob_seq :: int
  ob_tbl :: string
  ob_pk :: "sval list"
  ob_created :: rat

record lstore =
  ls_outbox :: "outrow list"
  ls_next :: int
  ls_tables :: "(string, (sval list, row) dict) dict"
  ls_columns :: "(string, string list) dict"

definition ls_table :: "lstore \<Rightarrow> string \<Rightarrow> (sval list, row) dict" where
  "ls_table st t = (case map_of (ls_tables st) t of None \<Rightarrow> [] | Some d \<Rightarrow> d)"

definition table_columns :: "lstore \<Rightarrow> string \<Rightarrow> string list" where
  "table_columns st t = (case map_of (ls_columns st) t of None \<Rightarrow> [] | Some cs \<Rightarrow> cs)"

definition local_row :: "lstore \<Rightarrow> string \<Rightarrow> sval list \<Rightarrow> row option" where
  "local_row st t pk = (if VNull \<in> set pk then None else map_of (ls_table st t) pk)"

section \<open>Batches\<close>

record rkey =
  k_seq :: int
  k_tbl :: string
  k_pk :: "sval list"
  k_row :: "row option"
  k_statements :: "stmt list"

record batch =
  b_lo :: int
  b_hi :: int
  b_keys :: "rkey list"
  b_deletes :: "(string, nat) dict"

definition b_statements :: "batch \<Rightarrow> stmt list" where
  "b_statements b = concat (map k_statements (b_keys b))"

definition fk_parent :: string where
  "fk_parent = ''memories''"

definition fk_children :: "string list" where
  "fk_children = [''memories_embeddings'', ''memories_crossrefs'']"

definition outbox_rows :: "lstore \<Rightarrow> int \<Rightarrow> nat \<Rightarrow> int option \<Rightarrow> outrow list" where
  "outbox_rows st cursor limit hi_cap =
     take limit (sort_key ob_seq (filter (\<lambda>r. cursor < ob_seq r \<and>
       (case hi_cap of None \<Rightarrow> True | Some h \<Rightarrow> ob_seq r \<le> h)) (ls_outbox st)))"

definition latest_keys :: "outrow list \<Rightarrow> (int \<times> string \<times> sval list) list" where
  "latest_keys rows =
     sort_key fst (map (\<lambda>((t, pk), sq). (sq, t, pk)) (dict_of (map (\<lambda>r. ((ob_tbl r, ob_pk r), ob_seq r)) rows)))"

definition key_id :: "rkey \<Rightarrow> string \<times> sval list" where
  "key_id k = (k_tbl k, k_pk k)"

text \<open>\<open>_add_parents\<close>: the parents already named, the parents added, and the keys as changed.\<close>

fun parents_loop :: "lstore \<Rightarrow> rkey list \<Rightarrow> (string \<times> sval list) list \<Rightarrow> rkey list \<times> rkey list" where
  "parents_loop st [] present = ([], [])"
| "parents_loop st (k # ks) present =
     (case k_row k of
        None \<Rightarrow> (let (ks', extra) = parents_loop st ks present in (k # ks', extra))
      | Some r \<Rightarrow>
          if k_tbl k \<notin> set fk_children then (let (ks', extra) = parents_loop st ks present in (k # ks', extra))
          else let pid = (case map_of r ''memory_id'' of None \<Rightarrow> VNull | Some v \<Rightarrow> v); key = (fk_parent, [pid]) in
            if key \<in> set present then (let (ks', extra) = parents_loop st ks present in (k # ks', extra))
            else (case local_row st fk_parent [pid] of
                None \<Rightarrow> (let (ks', extra) = parents_loop st ks present in (k\<lparr>k_row := None\<rparr> # ks', extra))
              | Some p \<Rightarrow>
                  (let (ks', extra) = parents_loop st ks (key # present);
                       added = \<lparr>k_seq = k_seq k, k_tbl = fk_parent, k_pk = [pid], k_row = Some p, k_statements = []\<rparr>
                   in (k # ks', added # extra))))"

definition add_parents :: "lstore \<Rightarrow> rkey list \<Rightarrow> rkey list" where
  "add_parents st ks = (let (ks', extra) = parents_loop st ks (map key_id ks) in ks' @ extra)"

definition phase :: "rkey \<Rightarrow> nat" where
  "phase k = (if k_tbl k = fk_parent then if k_row k \<noteq> None then 0 else 2 else 1)"

text \<open>The statements of one key; a statement the checker refuses raises.\<close>

definition key_statements :: "lstore \<Rightarrow> rkey \<Rightarrow> rkey option" where
  "key_statements st k =
     do { sts \<leftarrow> build_statements (k_tbl k) (k_pk k) (k_row k) (table_columns st (k_tbl k));
          if list_all (\<lambda>s. check_statement (fst s) \<noteq> None) sts then Some (k\<lparr>k_statements := sts\<rparr>) else None }"

definition count_delete :: "rkey \<Rightarrow> (string, nat) dict \<Rightarrow> (string, nat) dict" where
  "count_delete k d =
     (if k_row k = None
      then dict_set (k_tbl k) ((case map_of d (k_tbl k) of None \<Rightarrow> 0 | Some n \<Rightarrow> n) + 1) d else d)"

definition read_batch :: "lstore \<Rightarrow> int \<Rightarrow> nat \<Rightarrow> int option \<Rightarrow> batch option option" where
  "read_batch st cursor limit hi_cap =
     (let rows = outbox_rows st cursor limit hi_cap in
      if rows = [] then Some None
      else let keys = latest_keys rows in
        if \<not> list_all (\<lambda>(sq, t, pk). map_of sync_tables t \<noteq> None) keys then None
        else let ks = map (\<lambda>(sq, t, pk). \<lparr>k_seq = sq, k_tbl = t, k_pk = pk, k_row = local_row st t pk,
                           k_statements = []\<rparr>) keys;
                 ordered = sort_key (\<lambda>k. (phase k, k_seq k)) (add_parents st ks)
             in do { built \<leftarrow> all_some (map (key_statements st) ordered);
                     Some (Some \<lparr>b_lo = ob_seq (hd rows), b_hi = ob_seq (last rows), b_keys = built,
                                 b_deletes = fold count_delete ordered []\<rparr>) })"

section \<open>The delete guard\<close>

definition delete_guard_rows :: nat where
  "delete_guard_rows = 50"

text \<open>\<open>n > 0.01 * total\<close>: the product with the float next above one hundredth rounds to the exact
  hundredth on every multiple of a hundred, so the comparison is the exact one.\<close>

definition over_guard :: "nat \<Rightarrow> nat \<Rightarrow> bool" where
  "over_guard n m \<longleftrightarrow> delete_guard_rows < n \<or> m < 100 * n"

record guard_detail =
  gd_tbl :: string
  gd_deletes :: nat
  gd_total :: nat

definition delete_guard_detail :: "lstore \<Rightarrow> batch \<Rightarrow> guard_detail option" where
  "delete_guard_detail st b =
     map_option (\<lambda>(t, n). \<lparr>gd_tbl = t, gd_deletes = n, gd_total = length (ls_table st t) + n\<rparr>)
       (find (\<lambda>(t, n). over_guard n (length (ls_table st t) + n)) (sort_key fst (b_deletes b)))"

text \<open>\<open>attempt_id\<close>: a digest of the range and of the set of keys the batch deletes.\<close>

definition net_deletes :: "batch \<Rightarrow> (string \<times> sval list) set" where
  "net_deletes b = key_id ` set (filter (\<lambda>k. k_row k = None) (b_keys b))"

definition attempt_id :: "(int \<times> int \<times> (string \<times> sval list) set \<Rightarrow> string) \<Rightarrow> batch \<Rightarrow> string" where
  "attempt_id digest b = digest (b_lo b, b_hi b, net_deletes b)"

section \<open>Comparing a read-back row\<close>

definition as_rat :: "sval \<Rightarrow> rat option" where
  "as_rat v = (case v of VInt n \<Rightarrow> Some (of_int n) | VReal q \<Rightarrow> Some q | _ \<Rightarrow> None)"

text \<open>\<open>float(a) == float(b)\<close> on two numbers: \<open>rnd\<close> is the rounding of a number to a float.\<close>

definition same_value :: "(rat \<Rightarrow> rat) \<Rightarrow> sval \<Rightarrow> sval \<Rightarrow> bool" where
  "same_value rnd a b =
     (case (as_rat a, as_rat b) of (Some x, Some y) \<Rightarrow> rnd x = rnd y | _ \<Rightarrow> a = b)"

definition same_row :: "(rat \<Rightarrow> rat) \<Rightarrow> row option \<Rightarrow> row option \<Rightarrow> bool" where
  "same_row rnd local remote =
     (case (local, remote) of
        (Some l, Some r) \<Rightarrow>
          list_all (\<lambda>(c, v). case map_of r c of None \<Rightarrow> False | Some w \<Rightarrow> same_value rnd v w) l
      | (None, None) \<Rightarrow> True
      | _ \<Rightarrow> False)"

section \<open>What a batch holds\<close>

lemma all_some_list_all2: "all_some (map f xs) = Some ys \<longleftrightarrow> list_all2 (\<lambda>x y. f x = Some y) xs ys"
proof (induction xs arbitrary: ys)
  case (Cons x xs)
  then show ?case by (cases "f x"; cases "all_some (map f xs)") (auto simp: list_all2_Cons1)
qed auto

lemma key_statements_same:
  "key_statements st k = Some k' \<Longrightarrow> key_id k' = key_id k \<and> k_row k' = k_row k \<and> k_seq k' = k_seq k \<and> phase k' = phase k"
  by (auto simp: key_statements_def key_id_def phase_def split: bind_splits if_splits)

lemma list_all2_map_eq: "list_all2 R xs ys \<Longrightarrow> (\<And>x y. R x y \<Longrightarrow> f x = g y) \<Longrightarrow> map f xs = map g ys"
  by (induction rule: list_all2_induct) auto

text \<open>The stated facts of a batch: \<open>rows\<close> are the outbox rows it covers, \<open>ks\<close> the keys before their statements.\<close>

definition raw_keys :: "lstore \<Rightarrow> outrow list \<Rightarrow> rkey list" where
  "raw_keys st rows = map (\<lambda>(sq, t, pk). \<lparr>k_seq = sq, k_tbl = t, k_pk = pk, k_row = local_row st t pk,
     k_statements = []\<rparr>) (latest_keys rows)"

definition ordered_keys :: "lstore \<Rightarrow> outrow list \<Rightarrow> rkey list" where
  "ordered_keys st rows = sort_key (\<lambda>k. (phase k, k_seq k)) (add_parents st (raw_keys st rows))"

lemma read_batch_Some:
  assumes "read_batch st cursor limit cap = Some (Some b)"
  obtains rows where "rows = outbox_rows st cursor limit cap" "rows \<noteq> []"
    "\<forall>(sq, t, pk) \<in> set (latest_keys rows). map_of sync_tables t \<noteq> None"
    "list_all2 (\<lambda>k k'. key_statements st k = Some k') (ordered_keys st rows) (b_keys b)"
    "b_lo b = ob_seq (hd rows)" "b_hi b = ob_seq (last rows)" "b_deletes b = fold count_delete (ordered_keys st rows) []"
proof -
  from assms show thesis
    unfolding read_batch_def Let_def
    by (intro that [of "outbox_rows st cursor limit cap"])
      (auto simp: ordered_keys_def raw_keys_def list_all_iff simp flip: all_some_list_all2 split: if_splits bind_splits)
qed

lemma fst_fold_dict_set: "fst ` set (fold (\<lambda>(k, v). dict_set k v) kvs d) = fst ` set kvs \<union> fst ` set d"
  by (induction kvs arbitrary: d) (auto simp: case_prod_beta)

lemma wf_fold_dict_set: "dict_wf d \<Longrightarrow> dict_wf (fold (\<lambda>(k, v). dict_set k v) kvs d)"
  by (induction kvs arbitrary: d) (auto simp: case_prod_beta distinct_update)

lemma set_latest_keys: "(\<lambda>(sq, t, pk). (t, pk)) ` set (latest_keys rows) = (\<lambda>r. (ob_tbl r, ob_pk r)) ` set rows"
proof -
  let ?kvs = "map (\<lambda>r. ((ob_tbl r, ob_pk r), ob_seq r)) rows"
  have "(\<lambda>(sq, t, pk). (t, pk)) ` set (latest_keys rows) = fst ` set (dict_of ?kvs)"
    unfolding latest_keys_def set_sort set_map image_image by (rule image_cong) auto
  also have "\<dots> = fst ` set ?kvs" unfolding dict_of_def fst_fold_dict_set by simp
  also have "\<dots> = (\<lambda>r. (ob_tbl r, ob_pk r)) ` set rows" by (simp only: set_map image_image fst_conv)
  finally show ?thesis .
qed

lemma distinct_latest_keys: "distinct (map (\<lambda>(sq, t, pk). (t, pk)) (latest_keys rows))"
proof -
  let ?d = "dict_of (map (\<lambda>r. ((ob_tbl r, ob_pk r), ob_seq r)) rows)"
  have m: "mset (map (\<lambda>(sq, t, pk). (t, pk)) (latest_keys rows)) = mset (map fst ?d)"
    by (simp add: latest_keys_def case_prod_beta multiset.map_comp comp_def)
  have "dict_wf ?d" unfolding dict_of_def by (rule wf_fold_dict_set) simp
  then show ?thesis using mset_eq_imp_distinct_iff [OF m] by blast
qed

lemma raw_keys_ids:
  "key_id ` set (raw_keys st rows) = (\<lambda>r. (ob_tbl r, ob_pk r)) ` set rows" "distinct (map key_id (raw_keys st rows))"
proof -
  have m: "map key_id (raw_keys st rows) = map (\<lambda>(sq, t, pk). (t, pk)) (latest_keys rows)"
    by (auto simp: raw_keys_def key_id_def)
  show "distinct (map key_id (raw_keys st rows))" unfolding m by (rule distinct_latest_keys)
  show "key_id ` set (raw_keys st rows) = (\<lambda>r. (ob_tbl r, ob_pk r)) ` set rows"
    using set_latest_keys [of rows] m by (metis list.set_map)
qed

text \<open>
  A local store the triggers and the foreign keys of SQLite maintain: each row holds its own primary
  key, no key contains a NULL, all rows of a table have its columns, there is a column beyond the
  key, and every child has its parent.
\<close>

definition row_ok :: "lstore \<Rightarrow> string \<Rightarrow> sval list \<Rightarrow> row \<Rightarrow> bool" where
  "row_ok st t pk r \<longleftrightarrow> map_of sync_tables t \<noteq> None \<and> VNull \<notin> set pk \<and> map fst r = table_columns st t \<and>
     map (map_of r) (the (map_of sync_tables t)) = map Some pk"

definition store_ok :: "lstore \<Rightarrow> bool" where
  "store_ok st \<longleftrightarrow>
     (\<forall>t \<in> set (map fst sync_tables). distinct (table_columns st t) \<and> list_all is_ident (table_columns st t) \<and>
        set (the (map_of sync_tables t)) \<subset> set (table_columns st t) \<and>
        (\<forall>(pk, r) \<in> set (ls_table st t). row_ok st t pk r)) \<and>
     (\<forall>t \<in> set fk_children. \<forall>(pk, r) \<in> set (ls_table st t). map_of (ls_table st fk_parent) pk \<noteq> None) \<and>
     (\<forall>r \<in> set (ls_outbox st). VNull \<notin> set (ob_pk r))"

lemma fk_tables:
  "map_of sync_tables fk_parent = Some [''id'']"
  "t \<in> set fk_children \<Longrightarrow> map_of sync_tables t = Some [''memory_id'']" "fk_parent \<notin> set fk_children"
  by (auto simp: sync_tables_def fk_parent_def fk_children_def)

lemma synced_in_tables: "map_of sync_tables t = Some pkc \<Longrightarrow> t \<in> set (map fst sync_tables)"
  by (metis domI dom_map_of_conv_image_fst list.set_map)

lemma local_row_Some: "local_row st t pk = Some r \<Longrightarrow> (pk, r) \<in> set (ls_table st t) \<and> VNull \<notin> set pk"
  by (auto simp: local_row_def dest: map_of_SomeD split: if_splits)

lemma child_has_parent:
  assumes ok: "store_ok st" and t: "t \<in> set fk_children" and r: "local_row st t pk = Some r"
  shows "\<exists>v. pk = [v] \<and> map_of r ''memory_id'' = Some v \<and> local_row st fk_parent [v] \<noteq> None"
proof -
  note f = fk_tables(2) [OF t] and m = local_row_Some [OF r]
  have "t \<in> set (map fst sync_tables)" using f by (rule synced_in_tables)
  with ok m have "row_ok st t pk r" unfolding store_ok_def by fast
  with f obtain v where "pk = [v]" "map_of r ''memory_id'' = Some v" by (auto simp: row_ok_def)
  moreover have "map_of (ls_table st fk_parent) pk \<noteq> None" using ok t m unfolding store_ok_def by fast
  ultimately show ?thesis using m by (auto simp: local_row_def)
qed

lemma no_orphan:
  assumes "store_ok st" and "t \<in> set fk_children" and "local_row st fk_parent pk = None"
  shows "local_row st t pk = None"
proof (rule ccontr)
  assume "local_row st t pk \<noteq> None"
  then obtain r where "local_row st t pk = Some r" by auto
  with child_has_parent [OF assms(1,2) this] assms(3) show False by auto
qed

definition reads_local :: "lstore \<Rightarrow> rkey \<Rightarrow> bool" where
  "reads_local st k \<longleftrightarrow> k_row k = local_row st (k_tbl k) (k_pk k)"

lemma parents_loop_ok:
  assumes "store_ok st" and "\<forall>k \<in> set ks. reads_local st k" and "parents_loop st ks present = (ks', extra)"
  shows "ks' = ks \<and> (\<forall>e \<in> set extra. k_tbl e = fk_parent \<and> k_row e \<noteq> None \<and> reads_local st e \<and> key_id e \<notin> set present) \<and>
    distinct (map key_id extra) \<and>
    (\<forall>k \<in> set ks. k_tbl k \<in> set fk_children \<longrightarrow> k_row k \<noteq> None \<longrightarrow>
       (fk_parent, k_pk k) \<in> set present \<union> key_id ` set extra)"
  using assms(2,3)
proof (induction ks arbitrary: present ks' extra)
  case Nil
  then show ?case by simp
next
  case (Cons k ks)
  show ?case
  proof (cases "k_row k = None \<or> k_tbl k \<notin> set fk_children")
    case True
    then obtain ks1 where l: "parents_loop st ks present = (ks1, extra)" "ks' = k # ks1"
      using Cons.prems(2) by (auto split: option.splits prod.splits)
    with Cons.IH [OF _ l(1)] Cons.prems(1) True show ?thesis by auto
  next
    case False
    then obtain r where r: "k_row k = Some r" and t: "k_tbl k \<in> set fk_children" by auto
    then have loc: "local_row st (k_tbl k) (k_pk k) = Some r" using Cons.prems(1) by (simp add: reads_local_def)
    obtain v p where v: "k_pk k = [v]" "map_of r ''memory_id'' = Some v" "local_row st fk_parent [v] = Some p"
      using child_has_parent [OF assms(1) t loc] by auto
    let ?key = "(fk_parent, [v])"
    let ?e = "\<lparr>k_seq = k_seq k, k_tbl = fk_parent, k_pk = [v], k_row = Some p, k_statements = []\<rparr>"
    show ?thesis
    proof (cases "?key \<in> set present")
      case True
      then obtain ks1 where l: "parents_loop st ks present = (ks1, extra)" "ks' = k # ks1"
        using Cons.prems(2) r t v by (auto split: prod.splits)
      with Cons.IH [OF _ l(1)] Cons.prems(1) True v show ?thesis by auto
    next
      case new: False
      then obtain ks1 ex1 where l: "parents_loop st ks (?key # present) = (ks1, ex1)" "ks' = k # ks1" "extra = ?e # ex1"
        using Cons.prems(2) r t v by (auto split: prod.splits)
      have e: "key_id ?e = ?key" "reads_local st ?e" using v by (simp_all add: key_id_def reads_local_def)
      show ?thesis using Cons.IH [OF _ l(1)] Cons.prems(1) new v e unfolding l(2,3) by auto
    qed
  qed
qed

lemma add_parents_ok:
  assumes "store_ok st" and "\<forall>k \<in> set ks. reads_local st k" and "distinct (map key_id ks)"
  shows "distinct (map key_id (add_parents st ks)) \<and> (\<forall>k \<in> set (add_parents st ks). reads_local st k) \<and>
    (\<forall>k \<in> set (add_parents st ks). k_tbl k \<in> set fk_children \<longrightarrow> k_row k \<noteq> None \<longrightarrow>
       (\<exists>p \<in> set (add_parents st ks). key_id p = (fk_parent, k_pk k) \<and> k_row p \<noteq> None)) \<and>
    set ks \<subseteq> set (add_parents st ks) \<and> (\<forall>k \<in> set (add_parents st ks). k \<in> set ks \<or> k_tbl k = fk_parent \<and> k_row k \<noteq> None)"
proof -
  obtain ks' extra where l: "parents_loop st ks (map key_id ks) = (ks', extra)" by fastforce
  note p = parents_loop_ok [OF assms(1,2) l]
  have a: "add_parents st ks = ks @ extra" using p l by (simp add: add_parents_def)
  have present: "k_row q \<noteq> None" if "q \<in> set ks" "key_id q = (fk_parent, k_pk k)" "k \<in> set ks"
      "k_tbl k \<in> set fk_children" "k_row k \<noteq> None" for q k
  proof -
    from that assms(2) obtain r where "local_row st (k_tbl k) (k_pk k) = Some r" by (auto simp: reads_local_def)
    with child_has_parent [OF assms(1) that(4)] have "local_row st fk_parent (k_pk k) \<noteq> None" by fastforce
    with that(1,2) assms(2) show ?thesis by (auto simp: reads_local_def key_id_def)
  qed
  have child: "\<exists>q \<in> set (ks @ extra). key_id q = (fk_parent, k_pk k) \<and> k_row q \<noteq> None"
    if k: "k \<in> set (ks @ extra)" "k_tbl k \<in> set fk_children" "k_row k \<noteq> None" for k
  proof -
    have "k \<in> set ks" using k p fk_tables(3) by auto
    with p k have "(fk_parent, k_pk k) \<in> key_id ` set ks \<union> key_id ` set extra" by auto
    then consider q where "q \<in> set ks" "key_id q = (fk_parent, k_pk k)" | q where "q \<in> set extra" "key_id q = (fk_parent, k_pk k)"
      by auto
    then show ?thesis using present [OF _ _ \<open>k \<in> set ks\<close> k(2,3)] p by cases auto
  qed
  show ?thesis unfolding a using p assms child by auto
qed

section \<open>The replica\<close>

text \<open>
  D1 is a parameter: \<open>exec\<close> runs one statement (\<^const>\<open>None\<close> is an error of the statement) and
  \<open>look\<close> reads the row of a key.  The laws are what SQLite documents of a DELETE by the full
  primary key (children of a deleted memory cascade), of an UPSERT of every column and of an INSERT
  of an absent key, when a written child has its parent.
\<close>

type_synonym 'r exec_fn = "stmt \<Rightarrow> 'r \<Rightarrow> 'r option"
type_synonym 'r look_fn = "'r \<Rightarrow> string \<Rightarrow> sval list \<Rightarrow> row option"

definition holds_row :: "row \<Rightarrow> row option \<Rightarrow> bool" where
  "holds_row l x \<longleftrightarrow> (case x of None \<Rightarrow> False | Some r \<Rightarrow> list_all (\<lambda>(c, v). map_of r c = Some v) l)"

definition agrees :: "row option \<Rightarrow> row option \<Rightarrow> bool" where
  "agrees local remote \<longleftrightarrow> (case local of None \<Rightarrow> remote = None | Some l \<Rightarrow> holds_row l remote)"

definition unchanged_but :: "'r look_fn \<Rightarrow> string \<times> sval list \<Rightarrow> 'r \<Rightarrow> 'r \<Rightarrow> bool" where
  "unchanged_but look key r r' \<longleftrightarrow> (\<forall>t k. (t, k) \<noteq> key \<longrightarrow> look r' t k = look r t k)"

definition parent_there :: "'r look_fn \<Rightarrow> 'r \<Rightarrow> string \<Rightarrow> sval list \<Rightarrow> bool" where
  "parent_there look r t key \<longleftrightarrow> (t \<in> set fk_children \<longrightarrow> look r fk_parent key \<noteq> None)"

definition names_key :: "string \<Rightarrow> sval list \<Rightarrow> string list \<Rightarrow> sval list \<Rightarrow> bool" where
  "names_key t key cols vals \<longleftrightarrow> map_of sync_tables t \<noteq> None \<and> distinct cols \<and> list_all is_ident cols \<and>
     set (the (map_of sync_tables t)) \<subset> set cols \<and> length vals = length cols \<and> VNull \<notin> set key \<and>
     map (map_of (zip cols vals)) (the (map_of sync_tables t)) = map Some key"

definition delete_law :: "'r exec_fn \<Rightarrow> 'r look_fn \<Rightarrow> bool" where
  "delete_law exec look \<longleftrightarrow> (\<forall>t pkc key r. map_of sync_tables t = Some pkc \<longrightarrow> length key = length pkc \<longrightarrow> VNull \<notin> set key \<longrightarrow>
     (\<exists>r'. exec (delete_sql t pkc, key) r = Some r' \<and>
        (\<forall>t' k. look r' t' k = (if (t', k) = (t, key) \<or> t = fk_parent \<and> t' \<in> set fk_children \<and> k = key then None
                                 else look r t' k))))"

definition upsert_law :: "'r exec_fn \<Rightarrow> 'r look_fn \<Rightarrow> bool" where
  "upsert_law exec look \<longleftrightarrow> (\<forall>t pkc key cols vals r. names_key t key cols vals \<longrightarrow> map_of sync_tables t = Some pkc \<longrightarrow>
     t \<noteq> embeddings \<longrightarrow> parent_there look r t key \<longrightarrow>
     (\<exists>r'. exec (upsert_sql t cols (length cols) pkc (map (\<lambda>c. (c, c)) (filter (\<lambda>c. c \<notin> set pkc) cols)), vals) r = Some r' \<and>
        holds_row (zip cols vals) (look r' t key) \<and> unchanged_but look (t, key) r r'))"

definition insert_law :: "'r exec_fn \<Rightarrow> 'r look_fn \<Rightarrow> bool" where
  "insert_law exec look \<longleftrightarrow> (\<forall>key cols vals r. names_key embeddings key cols vals \<longrightarrow> look r embeddings key = None \<longrightarrow>
     parent_there look r embeddings key \<longrightarrow>
     (\<exists>r'. exec (insert_sql embeddings cols (length cols), vals) r = Some r' \<and>
        holds_row (zip cols vals) (look r' embeddings key) \<and> unchanged_but look (embeddings, key) r r'))"

definition replica_laws :: "'r exec_fn \<Rightarrow> 'r look_fn \<Rightarrow> bool" where
  "replica_laws exec look \<longleftrightarrow> delete_law exec look \<and> upsert_law exec look \<and> insert_law exec look"

fun exec_all :: "'r exec_fn \<Rightarrow> stmt list \<Rightarrow> 'r \<Rightarrow> 'r option" where
  "exec_all exec [] r = Some r"
| "exec_all exec (s # ss) r = do { r' \<leftarrow> exec s r; exec_all exec ss r' }"

lemma exec_all_append: "exec_all exec (xs @ ys) r = do { r' \<leftarrow> exec_all exec xs r; exec_all exec ys r' }"
  by (induction xs arbitrary: r) (auto split: bind_splits)

section \<open>The effect of one key\<close>

lemma json_safe_Some: "json_safe v = Some w \<Longrightarrow> w = v"
  by (cases v) (auto simp: json_safe_def)

lemma all_some_json_safe: "all_some (map (\<lambda>x. json_safe (f x)) xs) = Some ys \<Longrightarrow> ys = map f xs"
  unfolding all_some_list_all2 by (induction rule: list_all2_induct) (auto dest: json_safe_Some)

lemma key_statements_delete:
  assumes "key_statements st k = Some k'" and "k_row k = None"
  shows "\<exists>pkc. map_of sync_tables (k_tbl k) = Some pkc \<and> length (k_pk k) = length pkc \<and>
    k_statements k' = [(delete_sql (k_tbl k) pkc, k_pk k)]"
  using assms all_some_json_safe [where f = id]
  by (fastforce simp: key_statements_def build_statements_def split: bind_splits if_splits)

lemma zip_map_of: "distinct (map fst r) \<Longrightarrow> zip (map fst r) (map (\<lambda>c. the (map_of r c)) (map fst r)) = r"
proof (rule nth_equalityI)
  fix i assume d: "distinct (map fst r)" and "i < length (zip (map fst r) (map (\<lambda>c. the (map_of r c)) (map fst r)))"
  then have i: "i < length r" by simp
  have "map_of r (fst (r ! i)) = Some (snd (r ! i))" by (rule map_of_is_SomeI) (use d i in auto)
  then show "zip (map fst r) (map (\<lambda>c. the (map_of r c)) (map fst r)) ! i = r ! i" using i by simp
qed simp

lemma store_columns:
  assumes "store_ok st" and t: "map_of sync_tables t = Some pkc"
  shows "distinct (table_columns st t)" "list_all is_ident (table_columns st t)" "set pkc \<subset> set (table_columns st t)"
    and "\<And>pk r. (pk, r) \<in> set (ls_table st t) \<Longrightarrow> row_ok st t pk r"
proof -
  have "distinct (table_columns st t) \<and> list_all is_ident (table_columns st t) \<and>
        set (the (map_of sync_tables t)) \<subset> set (table_columns st t) \<and>
        (\<forall>(pk, r) \<in> set (ls_table st t). row_ok st t pk r)"
    using assms(1) synced_in_tables [OF t] unfolding store_ok_def by blast
  with t show "distinct (table_columns st t)" "list_all is_ident (table_columns st t)" "set pkc \<subset> set (table_columns st t)"
    and "\<And>pk r. (pk, r) \<in> set (ls_table st t) \<Longrightarrow> row_ok st t pk r" by auto
qed

lemma key_statements_write:
  assumes ok: "store_ok st" and b: "key_statements st k = Some k'" and r: "k_row k = Some row" and loc: "reads_local st k"
  defines "cols \<equiv> table_columns st (k_tbl k)"
  shows "\<exists>pkc vals. map_of sync_tables (k_tbl k) = Some pkc \<and> length (k_pk k) = length pkc \<and>
    names_key (k_tbl k) (k_pk k) cols vals \<and> zip cols vals = row \<and>
    k_statements k' = (if k_tbl k = embeddings
      then [(delete_sql embeddings pkc, k_pk k), (insert_sql embeddings cols (length cols), vals)]
      else [(upsert_sql (k_tbl k) cols (length cols) pkc (map (\<lambda>c. (c, c)) (filter (\<lambda>c. c \<notin> set pkc) cols)), vals)])"
proof -
  let ?t = "k_tbl k" let ?vals = "map (\<lambda>c. the (map_of row c)) cols"
  from b obtain sts where sts: "build_statements ?t (k_pk k) (Some row) cols = Some sts" and k': "k_statements k' = sts"
    using r by (auto simp: key_statements_def cols_def split: bind_splits if_splits)
  then obtain pkc where t: "map_of sync_tables ?t = Some pkc" and len: "length (k_pk k) = length pkc"
    by (auto simp: build_statements_def split: bind_splits if_splits)
  have rk: "(k_pk k, row) \<in> set (ls_table st ?t)" using loc r local_row_Some by (metis reads_local_def)
  then have rok: "row_ok st ?t (k_pk k) row" by (rule store_columns(4) [OF ok t])
  have cols: "distinct cols" "list_all is_ident cols" "set pkc \<subset> set cols"
    using store_columns [OF ok t] by (simp_all add: cols_def)
  have fst: "map fst row = cols" using rok by (simp add: row_ok_def cols_def)
  have keep: "filter (\<lambda>c. map_of row c \<noteq> None) cols = cols"
    unfolding fst [symmetric] by (auto simp: filter_id_conv map_of_eq_None_iff)
  have zip: "zip cols ?vals = row" using zip_map_of [of row] cols(1) fst by simp
  have names: "names_key ?t (k_pk k) cols ?vals"
    using rok t cols unfolding names_key_def zip by (simp add: row_ok_def)
  have key: "all_some (map json_safe (k_pk k)) = Some y \<Longrightarrow> y = k_pk k" for y
    using all_some_json_safe [where f = id] by fastforce
  have vals: "all_some (map (\<lambda>c. json_safe (the (map_of row c))) cols) = Some y \<Longrightarrow> y = ?vals" for y
    by (rule all_some_json_safe)
  have "sts = (if ?t = embeddings
      then [(delete_sql ?t pkc, k_pk k), (insert_sql ?t cols (length cols), ?vals)]
      else [(upsert_sql ?t cols (length cols) pkc (map (\<lambda>c. (c, c)) (filter (\<lambda>c. c \<notin> set pkc) cols)), ?vals)])"
    using sts key vals unfolding build_statements_def t Option.bind.simps option.case Let_def keep
    by (auto split: bind_splits if_splits)
  with t len names zip k' show ?thesis by (intro exI [of _ pkc] exI [of _ ?vals]) simp
qed

lemma key_delete_effect:
  assumes "delete_law exec look" and "key_statements st k = Some k'" and "k_row k = None" and "VNull \<notin> set (k_pk k)"
  shows "\<exists>r'. exec_all exec (k_statements k') r = Some r' \<and>
    (\<forall>t pk. look r' t pk = (if (t, pk) = key_id k \<or> k_tbl k = fk_parent \<and> t \<in> set fk_children \<and> pk = k_pk k then None
                             else look r t pk))"
proof -
  obtain pkc where p: "map_of sync_tables (k_tbl k) = Some pkc" "length (k_pk k) = length pkc"
    "k_statements k' = [(delete_sql (k_tbl k) pkc, k_pk k)]"
    using key_statements_delete [OF assms(2,3)] by blast
  with assms(1,4) obtain r' where "exec (delete_sql (k_tbl k) pkc, k_pk k) r = Some r'"
    "\<forall>t' pk. look r' t' pk = (if (t', pk) = (k_tbl k, k_pk k) \<or> k_tbl k = fk_parent \<and> t' \<in> set fk_children \<and> pk = k_pk k
       then None else look r t' pk)"
    unfolding delete_law_def by meson
  then show ?thesis using p(3) by (auto simp: key_id_def)
qed

lemma key_write_effect:
  assumes laws: "replica_laws exec look" and ok: "store_ok st" and b: "key_statements st k = Some k'"
    and w: "k_row k = Some row" and loc: "reads_local st k" and par: "parent_there look r (k_tbl k) (k_pk k)"
  shows "\<exists>r'. exec_all exec (k_statements k') r = Some r' \<and> holds_row row (look r' (k_tbl k) (k_pk k)) \<and>
    unchanged_but look (key_id k) r r'"
proof -
  let ?cols = "table_columns st (k_tbl k)"
  obtain pkc vals where p: "map_of sync_tables (k_tbl k) = Some pkc" "length (k_pk k) = length pkc"
    "names_key (k_tbl k) (k_pk k) ?cols vals" "zip ?cols vals = row"
    and sts: "k_statements k' = (if k_tbl k = embeddings
      then [(delete_sql embeddings pkc, k_pk k), (insert_sql embeddings ?cols (length ?cols), vals)]
      else [(upsert_sql (k_tbl k) ?cols (length ?cols) pkc (map (\<lambda>c. (c, c)) (filter (\<lambda>c. c \<notin> set pkc) ?cols)), vals)])"
    using key_statements_write [OF ok b w loc] by blast
  show ?thesis
  proof (cases "k_tbl k = embeddings")
    case False
    then show ?thesis using laws p par sts unfolding replica_laws_def upsert_law_def key_id_def by fastforce
  next
    case True
    have nn: "VNull \<notin> set (k_pk k)" using p(3) by (simp add: names_key_def)
    have e: "embeddings \<noteq> fk_parent" by code_simp
    from laws p(1,2) nn True obtain r1 where r1: "exec (delete_sql embeddings pkc, k_pk k) r = Some r1"
      "\<forall>t' pk. look r1 t' pk = (if (t', pk) = (embeddings, k_pk k) \<or> embeddings = fk_parent \<and> t' \<in> set fk_children \<and> pk = k_pk k
         then None else look r t' pk)"
      unfolding replica_laws_def delete_law_def by metis
    then have gone: "look r1 embeddings (k_pk k) = None" "unchanged_but look (embeddings, k_pk k) r r1"
      using e by (auto simp: unchanged_but_def)
    have "parent_there look r1 embeddings (k_pk k)"
      using par True gone(2) e by (auto simp: parent_there_def unchanged_but_def)
    with laws p(3,4) gone(1) True obtain r' where
      r': "exec (insert_sql embeddings ?cols (length ?cols), vals) r1 = Some r'"
      "holds_row row (look r' embeddings (k_pk k))" "unchanged_but look (embeddings, k_pk k) r1 r'"
      unfolding replica_laws_def insert_law_def by metis
    then show ?thesis using r1(1) gone(2) True sts
      by (intro exI [of _ r']) (simp add: unchanged_but_def key_id_def)
  qed
qed

section \<open>The effect of the batch\<close>

abbreviation builds :: "lstore \<Rightarrow> rkey list \<Rightarrow> rkey list \<Rightarrow> bool" where
  "builds st \<equiv> list_all2 (\<lambda>k k'. key_statements st k = Some k')"

definition batch_keys_ok :: "lstore \<Rightarrow> rkey list \<Rightarrow> bool" where
  "batch_keys_ok st ks \<longleftrightarrow> distinct (map key_id ks) \<and> (\<forall>k \<in> set ks. reads_local st k \<and> VNull \<notin> set (k_pk k))"

lemma batch_keys_ok_Cons: "batch_keys_ok st (k # ks) \<longleftrightarrow>
    key_id k \<notin> key_id ` set ks \<and> reads_local st k \<and> VNull \<notin> set (k_pk k) \<and> batch_keys_ok st ks"
  by (auto simp: batch_keys_ok_def)

lemma key_effect:
  assumes laws: "replica_laws exec look" and ok: "store_ok st" and b: "key_statements st k = Some k'"
    and k: "reads_local st k" "VNull \<notin> set (k_pk k)" "phase k \<noteq> 2"
    and par: "k_row k \<noteq> None \<longrightarrow> parent_there look r (k_tbl k) (k_pk k)"
  shows "\<exists>r'. exec_all exec (k_statements k') r = Some r' \<and> agrees (k_row k) (look r' (k_tbl k) (k_pk k)) \<and>
    unchanged_but look (key_id k) r r'"
proof (cases "k_row k")
  case None
  then have "k_tbl k \<noteq> fk_parent" using k(3) by (auto simp: phase_def)
  moreover obtain r' where "exec_all exec (k_statements k') r = Some r'"
    "\<forall>t pk. look r' t pk = (if (t, pk) = key_id k \<or> k_tbl k = fk_parent \<and> t \<in> set fk_children \<and> pk = k_pk k then None
                             else look r t pk)"
    using key_delete_effect [OF conjunct1 [OF laws [unfolded replica_laws_def]] b None k(2), of r] by blast
  ultimately show ?thesis
    by (intro exI [of _ r']) (simp add: agrees_def unchanged_but_def key_id_def None)
next
  case (Some row)
  with key_write_effect [OF laws ok b Some k(1)] par show ?thesis by (auto simp: agrees_def)
qed

lemma agrees_present: "agrees (Some l) x \<Longrightarrow> x \<noteq> None"
  by (cases x) (simp_all add: agrees_def holds_row_def)

lemma write_keys:
  assumes laws: "replica_laws exec look" and ok: "store_ok st" and "builds st ks ks'" and "batch_keys_ok st ks"
    and "\<forall>k \<in> set ks. phase k \<noteq> 2"
    and "\<forall>k \<in> set ks. k_row k \<noteq> None \<longrightarrow> parent_there look r (k_tbl k) (k_pk k)"
  shows "\<exists>r'. exec_all exec (concat (map k_statements ks')) r = Some r' \<and>
    (\<forall>k \<in> set ks. agrees (k_row k) (look r' (k_tbl k) (k_pk k))) \<and>
    (\<forall>t pk. (t, pk) \<notin> key_id ` set ks \<longrightarrow> look r' t pk = look r t pk)"
  using assms(3-6)
proof (induction ks ks' arbitrary: r rule: list_all2_induct)
  case Nil
  then show ?case by simp
next
  case (Cons k ks k' ks')
  note kok = Cons.prems(1) [unfolded batch_keys_ok_Cons]
  obtain r1 where r1: "exec_all exec (k_statements k') r = Some r1" "agrees (k_row k) (look r1 (k_tbl k) (k_pk k))"
    "unchanged_but look (key_id k) r r1"
    using key_effect [OF laws ok Cons.hyps(1), of r] kok Cons.prems(2,3) laws by auto
  have par: "parent_there look r1 (k_tbl q) (k_pk q)" if "q \<in> set ks" "k_row q \<noteq> None" for q
  proof (cases "key_id k = (fk_parent, k_pk q)")
    case True
    then obtain l where "k_row k = Some l" using Cons.prems(2) by (cases "k_row k") (auto simp: phase_def key_id_def)
    with r1(2) True show ?thesis by (auto simp: parent_there_def key_id_def dest: agrees_present)
  next
    case False
    then have "look r1 fk_parent (k_pk q) = look r fk_parent (k_pk q)" using r1(3) by (simp add: unchanged_but_def)
    with Cons.prems(3) that show ?thesis by (auto simp: parent_there_def)
  qed
  obtain r' where r': "exec_all exec (concat (map k_statements ks')) r1 = Some r'"
    "\<forall>k \<in> set ks. agrees (k_row k) (look r' (k_tbl k) (k_pk k))"
    "\<forall>t pk. (t, pk) \<notin> key_id ` set ks \<longrightarrow> look r' t pk = look r1 t pk"
    using Cons.IH [of r1] kok Cons.prems(2) par by auto
  have "agrees (k_row k) (look r' (k_tbl k) (k_pk k))" using r'(3) r1(2) kok by (simp add: key_id_def)
  moreover have "look r' t pk = look r t pk" if "(t, pk) \<notin> key_id ` set (k # ks)" for t pk
    using that r'(3) r1(3) by (auto simp: unchanged_but_def)
  ultimately show ?case using r1(1) r' by (intro exI [of _ r']) (auto simp: exec_all_append)
qed

lemma delete_parents:
  assumes laws: "replica_laws exec look" and "builds st ks ks'" and "batch_keys_ok st ks"
    and "\<forall>k \<in> set ks. k_tbl k = fk_parent \<and> k_row k = None"
  shows "\<exists>r'. exec_all exec (concat (map k_statements ks')) r = Some r' \<and>
    (\<forall>t pk. look r' t pk = (if (t, pk) \<in> key_id ` set ks \<or> t \<in> set fk_children \<and> (fk_parent, pk) \<in> key_id ` set ks
       then None else look r t pk))"
  using assms(2-4)
proof (induction ks ks' arbitrary: r rule: list_all2_induct)
  case Nil
  then show ?case by simp
next
  case (Cons k ks k' ks')
  note kok = Cons.prems(1) [unfolded batch_keys_ok_Cons]
  have k: "k_tbl k = fk_parent" "k_row k = None" "key_id k = (fk_parent, k_pk k)" using Cons.prems(2) by (auto simp: key_id_def)
  obtain r1 where r1: "exec_all exec (k_statements k') r = Some r1"
    "\<forall>t pk. look r1 t pk = (if (t, pk) = key_id k \<or> k_tbl k = fk_parent \<and> t \<in> set fk_children \<and> pk = k_pk k then None
                             else look r t pk)"
    using key_delete_effect [OF conjunct1 [OF laws [unfolded replica_laws_def]] Cons.hyps(1) k(2), of r] kok by blast
  obtain r' where r': "exec_all exec (concat (map k_statements ks')) r1 = Some r'"
    "\<forall>t pk. look r' t pk = (if (t, pk) \<in> key_id ` set ks \<or> t \<in> set fk_children \<and> (fk_parent, pk) \<in> key_id ` set ks
       then None else look r1 t pk)"
    using Cons.IH [of r1] kok Cons.prems(2) by auto
  then show ?case using r1 k by (intro exI [of _ r']) (auto simp: exec_all_append)
qed

lemma sorted_split:
  "sorted (map f xs) \<Longrightarrow> xs = filter (\<lambda>x. f x < n) xs @ filter (\<lambda>x. \<not> f x < n) xs" for f :: "'a \<Rightarrow> nat"
proof (induction xs)
  case (Cons x xs)
  show ?case
  proof (cases "f x < n")
    case False
    then have "filter (\<lambda>x. f x < n) xs = []" using Cons.prems by (auto simp: filter_empty_conv)
    with Cons False show ?thesis by simp
  qed (use Cons in simp)
qed simp

lemma ordered_keys_ok:
  assumes ok: "store_ok st" and rows: "rows = outbox_rows st cursor limit cap"
  defines "ks \<equiv> ordered_keys st rows"
  shows "batch_keys_ok st ks" "sorted (map phase ks)"
    "\<And>r. r \<in> set rows \<Longrightarrow> (ob_tbl r, ob_pk r) \<in> key_id ` set ks"
    "\<And>k. k \<in> set ks \<Longrightarrow> k_row k = None \<Longrightarrow> key_id k \<in> (\<lambda>r. (ob_tbl r, ob_pk r)) ` set rows"
    "\<And>k. k \<in> set ks \<Longrightarrow> k_tbl k \<in> set fk_children \<Longrightarrow> k_row k \<noteq> None \<Longrightarrow>
       \<exists>p \<in> set ks. key_id p = (fk_parent, k_pk k) \<and> k_row p \<noteq> None"
    "\<And>k. k \<in> set ks \<Longrightarrow> k_tbl k \<noteq> fk_parent \<Longrightarrow> key_id k \<in> (\<lambda>r. (ob_tbl r, ob_pk r)) ` set rows"
proof -
  let ?raw = "raw_keys st rows"
  have "\<forall>k \<in> set ?raw. reads_local st k" by (auto simp: raw_keys_def reads_local_def)
  note a = add_parents_ok [OF ok this raw_keys_ids(2)]
  have set: "set ks = set (add_parents st ?raw)" by (simp add: ks_def ordered_keys_def)
  have "mset (map key_id ks) = mset (map key_id (add_parents st ?raw))" by (simp add: ks_def ordered_keys_def)
  then have d: "distinct (map key_id ks)" using a mset_eq_imp_distinct_iff by blast
  have "set rows \<subseteq> set (ls_outbox st)" unfolding rows outbox_rows_def by (auto dest: in_set_takeD)
  then have "VNull \<notin> set (ob_pk r)" if "r \<in> set rows" for r using ok that by (auto simp: store_ok_def)
  then have raw: "VNull \<notin> set (k_pk k)" if "k \<in> set ?raw" for k
    using raw_keys_ids(1) [of st rows] that by (force simp: key_id_def)
  have "VNull \<notin> set (k_pk k)" if "k \<in> set ks" for k
  proof (cases "k \<in> set ?raw")
    case False
    with a that set obtain row where "k_row k = Some row" "reads_local st k" by blast
    then show ?thesis using local_row_Some by (metis reads_local_def)
  qed (rule raw)
  with d a set show "batch_keys_ok st ks" by (simp add: batch_keys_ok_def)
  have "sorted (map (\<lambda>k. (phase k, k_seq k)) ks)" by (simp add: ks_def ordered_keys_def)
  then show "sorted (map phase ks)" by (induction ks) auto
  show "(ob_tbl r, ob_pk r) \<in> key_id ` set ks" if "r \<in> set rows" for r
  proof -
    have "(ob_tbl r, ob_pk r) \<in> key_id ` set ?raw" unfolding raw_keys_ids(1) using that by (rule imageI)
    then show ?thesis using a set by (metis image_mono subset_iff)
  qed
  have named: "key_id k \<in> (\<lambda>r. (ob_tbl r, ob_pk r)) ` set rows" if "k \<in> set ?raw" for k
  proof -
    have "key_id k \<in> key_id ` set ?raw" using that by (rule imageI)
    then show ?thesis by (simp only: raw_keys_ids(1))
  qed
  show "key_id k \<in> (\<lambda>r. (ob_tbl r, ob_pk r)) ` set rows" if "k \<in> set ks" "k_row k = None" for k
    by (rule named) (use that a set in blast)
  show "key_id k \<in> (\<lambda>r. (ob_tbl r, ob_pk r)) ` set rows" if "k \<in> set ks" "k_tbl k \<noteq> fk_parent" for k
    by (rule named) (use that a set in blast)
  show "\<exists>p \<in> set ks. key_id p = (fk_parent, k_pk k) \<and> k_row p \<noteq> None"
    if "k \<in> set ks" "k_tbl k \<in> set fk_children" "k_row k \<noteq> None" for k
    using that a set by blast
qed

lemma phase_cases: "phase k = 0 \<longleftrightarrow> k_tbl k = fk_parent \<and> k_row k \<noteq> None"
  "phase k = 2 \<longleftrightarrow> k_tbl k = fk_parent \<and> k_row k = None" "phase k \<le> 2"
  by (auto simp: phase_def)

text \<open>Sending the ordered keys of a store: first the parent upserts, then the rest, then the parent deletes.\<close>

lemma ordered_keys_send:
  assumes laws: "replica_laws exec look" and ok: "store_ok st" and bs: "builds st ks ks'"
    and kok: "batch_keys_ok st ks" and srt: "sorted (map phase ks)"
    and par: "\<And>k. k \<in> set ks \<Longrightarrow> k_tbl k \<in> set fk_children \<Longrightarrow> k_row k \<noteq> None \<Longrightarrow>
       \<exists>p \<in> set ks. key_id p = (fk_parent, k_pk k) \<and> k_row p \<noteq> None"
  shows "\<exists>r'. exec_all exec (concat (map k_statements ks')) r = Some r' \<and>
    (\<forall>k \<in> set ks. agrees (k_row k) (look r' (k_tbl k) (k_pk k))) \<and>
    (\<forall>t pk. (t, pk) \<notin> key_id ` set ks \<longrightarrow> look r' t pk = look r t pk \<or>
       look r' t pk = None \<and> t \<in> set fk_children \<and> local_row st fk_parent pk = None)"
proof -
  define A where "A = filter (\<lambda>k. phase k < 1) ks"
  define R where "R = filter (\<lambda>k. \<not> phase k < 1) ks"
  define B where "B = filter (\<lambda>k. phase k < 2) R"
  define C where "C = filter (\<lambda>k. \<not> phase k < 2) R"
  have "ks = A @ R" unfolding A_def R_def by (rule sorted_split [OF srt])
  moreover have "R = B @ C" unfolding B_def C_def
    by (rule sorted_split) (use srt in \<open>simp add: R_def sorted_filter\<close>)
  ultimately have ks: "ks = A @ B @ C" by simp
  from bs obtain A' B' C' where parts: "ks' = A' @ B' @ C'" "builds st A A'" "builds st B B'" "builds st C C'"
    unfolding ks list_all2_append1 by blast
  have sub: "batch_keys_ok st A" "batch_keys_ok st B" "batch_keys_ok st C" using kok by (auto simp: ks batch_keys_ok_def)
  have dis: "key_id ` set A \<inter> key_id ` set B = {}" "key_id ` set C \<inter> (key_id ` set A \<union> key_id ` set B) = {}"
    using kok by (auto simp: ks batch_keys_ok_def)
  have A: "k_tbl k = fk_parent \<and> k_row k \<noteq> None" if "k \<in> set A" for k
    using that phase_cases(1) [of k] by (simp add: A_def)
  have B: "k_tbl k \<noteq> fk_parent" if "k \<in> set B" for k
    using that phase_cases(1,2) [of k] by (auto simp: B_def R_def)
  have C: "k_tbl k = fk_parent \<and> k_row k = None" if "k \<in> set C" for k
    using that phase_cases(2,3) [of k] by (auto simp: C_def R_def)
  obtain r1 where r1: "exec_all exec (concat (map k_statements A')) r = Some r1"
    "\<forall>k \<in> set A. agrees (k_row k) (look r1 (k_tbl k) (k_pk k))"
    "\<forall>t pk. (t, pk) \<notin> key_id ` set A \<longrightarrow> look r1 t pk = look r t pk"
    using write_keys [OF laws ok parts(2) sub(1), of r] A phase_cases(2) fk_tables(3) by (fastforce simp: parent_there_def)
  have "parent_there look r1 (k_tbl k) (k_pk k)" if k: "k \<in> set B" "k_row k \<noteq> None" for k
  proof (cases "k_tbl k \<in> set fk_children")
    case True
    then obtain p where p: "p \<in> set ks" "key_id p = (fk_parent, k_pk k)" "k_row p \<noteq> None"
      using par [of k] k by (auto simp: ks)
    then have "p \<in> set A" using B [of p] C [of p] by (auto simp: ks key_id_def)
    then have "agrees (k_row p) (look r1 fk_parent (k_pk k))" using r1(2) p(2) by (auto simp: key_id_def)
    then show ?thesis using p(3) by (auto simp: parent_there_def dest: agrees_present)
  qed (simp add: parent_there_def)
  then obtain r2 where r2: "exec_all exec (concat (map k_statements B')) r1 = Some r2"
    "\<forall>k \<in> set B. agrees (k_row k) (look r2 (k_tbl k) (k_pk k))"
    "\<forall>t pk. (t, pk) \<notin> key_id ` set B \<longrightarrow> look r2 t pk = look r1 t pk"
    using write_keys [OF laws ok parts(3) sub(2), of r1] B phase_cases(2) by blast
  obtain r3 where r3: "exec_all exec (concat (map k_statements C')) r2 = Some r3"
    "\<forall>t pk. look r3 t pk = (if (t, pk) \<in> key_id ` set C \<or> t \<in> set fk_children \<and> (fk_parent, pk) \<in> key_id ` set C
       then None else look r2 t pk)"
    using delete_parents [OF laws parts(4) sub(3)] C by blast
  have goneC: "local_row st fk_parent pk = None" if "(fk_parent, pk) \<in> key_id ` set C" for pk
    using that sub(3) C by (auto simp: key_id_def batch_keys_ok_def reads_local_def)
  have loc: "k_row k = local_row st (k_tbl k) (k_pk k)" if "k \<in> set ks" for k
    using kok that by (simp add: batch_keys_ok_def reads_local_def)
  have pre: "agrees (k_row k) (look r2 (k_tbl k) (k_pk k))" if "k \<in> set A \<union> set B" for k
  proof (cases "k \<in> set B")
    case False
    then have a: "k \<in> set A" using that by blast
    then have "(k_tbl k, k_pk k) \<notin> key_id ` set B" using dis(1) by (auto simp: key_id_def)
    then have "look r2 (k_tbl k) (k_pk k) = look r1 (k_tbl k) (k_pk k)" using r2(3) by blast
    with r1(2) a show ?thesis by simp
  qed (use r2(2) in blast)
  have "agrees (k_row k) (look r3 (k_tbl k) (k_pk k))" if k: "k \<in> set ks" for k
  proof (cases "k \<in> set C")
    case True
    with r3(2) C show ?thesis by (auto simp: agrees_def key_id_def)
  next
    case False
    then have ab: "k \<in> set A \<union> set B" using k by (simp add: ks)
    then have nC: "key_id k \<notin> key_id ` set C" using dis(2) by blast
    show ?thesis
    proof (cases "k_tbl k \<in> set fk_children \<and> (fk_parent, k_pk k) \<in> key_id ` set C")
      case True
      have "local_row st (k_tbl k) (k_pk k) = None"
        by (rule no_orphan [OF ok conjunct1 [OF True] goneC [OF conjunct2 [OF True]]])
      then have "k_row k = None" using loc [OF k] by (simp only:)
      moreover have "look r3 (k_tbl k) (k_pk k) = None"
        using True r3(2) [rule_format, of "k_tbl k" "k_pk k"] by (simp only: if_True simp_thms)
      ultimately show ?thesis by (simp only: agrees_def option.case)
    next
      case False
      have "(k_tbl k, k_pk k) \<notin> key_id ` set C" using nC by (simp only: key_id_def not_False_eq_True)
      then have "look r3 (k_tbl k) (k_pk k) = look r2 (k_tbl k) (k_pk k)"
        using False r3(2) [rule_format, of "k_tbl k" "k_pk k"] by (simp only: if_False simp_thms)
      then show ?thesis using pre [OF ab] by (simp only:)
    qed
  qed
  moreover have "look r3 t pk = look r t pk \<or> look r3 t pk = None \<and> t \<in> set fk_children \<and> local_row st fk_parent pk = None"
    if out: "(t, pk) \<notin> key_id ` set ks" for t pk
  proof -
    have n: "(t, pk) \<notin> key_id ` set A" "(t, pk) \<notin> key_id ` set B" "(t, pk) \<notin> key_id ` set C"
      using out unfolding ks by auto
    then have "look r2 t pk = look r t pk" using r1(3) r2(3) by (simp only: not_False_eq_True)
    moreover have "look r3 t pk = (if t \<in> set fk_children \<and> (fk_parent, pk) \<in> key_id ` set C then None else look r2 t pk)"
      using r3(2) [rule_format, of t pk] n(3) by (simp only: simp_thms)
    ultimately show ?thesis
      using goneC [of pk] by (cases "t \<in> set fk_children \<and> (fk_parent, pk) \<in> key_id ` set C") simp_all
  qed
  moreover have "exec_all exec (concat (map k_statements ks')) r = Some r3"
    using r1(1) r2(1) r3(1) by (simp add: parts(1) exec_all_append)
  ultimately show ?thesis by blast
qed

section \<open>Properties\<close>

definition batch_ids :: "batch \<Rightarrow> (string \<times> sval list) set" where
  "batch_ids b = key_id ` set (b_keys b)"

lemma builds_same:
  assumes "builds st ks ks'"
  shows "map key_id ks' = map key_id ks" "map k_row ks' = map k_row ks" "map phase ks' = map phase ks"
proof -
  have e: "map f ks' = map f ks" if "\<And>k k'. key_statements st k = Some k' \<Longrightarrow> f k' = f k" for f :: "rkey \<Rightarrow> 'b"
    using assms that by (induction rule: list_all2_induct) auto
  show "map key_id ks' = map key_id ks" "map phase ks' = map phase ks"
    by (rule e; simp add: key_statements_same)+
  show "map k_row ks' = map k_row ks" using assms by (induction rule: list_all2_induct) (auto dest: key_statements_same)
qed

text \<open>A batch reaches the replica in dependency order: parent upserts come first and parent deletes
  last, so every child the batch writes comes after the upsert of its parent, which the batch always carries,
  and a parent is deleted after every other key of the batch.\<close>

theorem batch_dependency_order:
  assumes "store_ok st" and "read_batch st cursor limit cap = Some (Some b)"
  shows "sorted (map phase (b_keys b)) \<and>
    (\<forall>k \<in> set (b_keys b). k_tbl k \<in> set fk_children \<longrightarrow> k_row k \<noteq> None \<longrightarrow>
       (\<exists>p \<in> set (b_keys b). key_id p = (fk_parent, k_pk k) \<and> k_row p \<noteq> None \<and> phase p < phase k))"
proof -
  obtain rows where rows: "rows = outbox_rows st cursor limit cap" and bs: "builds st (ordered_keys st rows) (b_keys b)"
    using read_batch_Some [OF assms(2)] by blast
  note o = ordered_keys_ok [OF assms(1) rows] and same = builds_same [OF bs]
  have idx: "\<exists>q \<in> set (ordered_keys st rows). key_id q = key_id k \<and> k_row q = k_row k" if "k \<in> set (b_keys b)" for k
    using bs that by (induction rule: list_all2_induct) (auto dest: key_statements_same)
  have conv: "\<exists>q \<in> set (b_keys b). key_id q = key_id k \<and> k_row q = k_row k" if "k \<in> set (ordered_keys st rows)" for k
    using bs that by (induction rule: list_all2_induct) (auto dest: key_statements_same)
  have "\<exists>p \<in> set (b_keys b). key_id p = (fk_parent, k_pk k) \<and> k_row p \<noteq> None \<and> phase p < phase k"
    if k: "k \<in> set (b_keys b)" "k_tbl k \<in> set fk_children" "k_row k \<noteq> None" for k
  proof -
    from idx [OF k(1)] obtain q where q: "q \<in> set (ordered_keys st rows)" "k_tbl q = k_tbl k" "k_pk q = k_pk k" "k_row q = k_row k"
      by (auto simp: key_id_def)
    with o(5) [of q] k obtain p0 where "p0 \<in> set (ordered_keys st rows)" "key_id p0 = (fk_parent, k_pk k)" "k_row p0 \<noteq> None"
      by auto
    with conv [of p0] obtain p where p: "p \<in> set (b_keys b)" "key_id p = (fk_parent, k_pk k)" "k_row p \<noteq> None" by metis
    have "k_tbl k \<noteq> fk_parent" using k(2) fk_tables(3) by metis
    then have "phase p < phase k" using p by (simp add: phase_def key_id_def)
    with p show ?thesis by blast
  qed
  with o(2) same(3) show ?thesis by simp
qed

lemma batch_effect:
  assumes "replica_laws exec look" and "store_ok st" and "read_batch st cursor limit cap = Some (Some b)"
  shows "\<exists>r'. exec_all exec (b_statements b) r = Some r' \<and>
    (\<forall>t pk. agrees (local_row st t pk) (look r' t pk) \<or> (t, pk) \<notin> batch_ids b \<and> look r' t pk = look r t pk)"
proof -
  obtain rows where rows: "rows = outbox_rows st cursor limit cap" and bs: "builds st (ordered_keys st rows) (b_keys b)"
    using read_batch_Some [OF assms(3)] by blast
  let ?ks = "ordered_keys st rows"
  note o = ordered_keys_ok [OF assms(2) rows]
  obtain r' where r': "exec_all exec (b_statements b) r = Some r'"
    "\<forall>k \<in> set ?ks. agrees (k_row k) (look r' (k_tbl k) (k_pk k))"
    "\<forall>t pk. (t, pk) \<notin> key_id ` set ?ks \<longrightarrow> look r' t pk = look r t pk \<or>
       look r' t pk = None \<and> t \<in> set fk_children \<and> local_row st fk_parent pk = None"
    using ordered_keys_send [OF assms(1,2) bs o(1,2,5), of r] unfolding b_statements_def by blast
  have ids: "batch_ids b = key_id ` set ?ks" unfolding batch_ids_def using builds_same(1) [OF bs] by (metis list.set_map)
  have "agrees (local_row st t pk) (look r' t pk) \<or> (t, pk) \<notin> batch_ids b \<and> look r' t pk = look r t pk" for t pk
  proof (cases "(t, pk) \<in> batch_ids b")
    case True
    then show ?thesis
      using r'(2) o(1) unfolding ids by (auto simp: key_id_def batch_keys_ok_def reads_local_def)
  next
    case False
    then have "look r' t pk = look r t pk \<or> look r' t pk = None \<and> t \<in> set fk_children \<and> local_row st fk_parent pk = None"
      using r'(3) unfolding ids by simp
    moreover have "local_row st t pk = None" if "t \<in> set fk_children" "local_row st fk_parent pk = None"
      using that by (rule no_orphan [OF assms(2)])
    ultimately show ?thesis using False by (cases "look r' t pk = look r t pk") (auto simp: agrees_def)
  qed
  with r'(1) show ?thesis by blast
qed


section \<open>A replica that runs the texts\<close>

text \<open>
  An in-memory database for the examples: it parses each text with the checker's parsers and runs it
  on one row per table and key, enforcing the foreign keys.
\<close>

type_synonym mem = "(string \<times> sval list, row) dict"

definition mem_look :: "mem look_fn" where
  "mem_look r t k = map_of r (t, k)"

definition mem_put :: "string \<Rightarrow> string list \<Rightarrow> sval list \<Rightarrow> mem \<Rightarrow> mem option" where
  "mem_put t cols vals r =
     (let row = zip cols vals; key = map (\<lambda>c. the (map_of row c)) (the (map_of sync_tables t)) in
      if t \<in> set fk_children \<and> mem_look r fk_parent key = None then None else Some (dict_set (t, key) row r))"

definition mem_delete :: "string \<Rightarrow> sval list \<Rightarrow> mem \<Rightarrow> mem" where
  "mem_delete t key r =
     filter (\<lambda>((t', k), row). \<not> ((t', k) = (t, key) \<or> t = fk_parent \<and> t' \<in> set fk_children \<and> k = key)) r"

definition mem_exec :: "mem exec_fn" where
  "mem_exec s r =
     (case parse_upsert (fst s) of
        Some (t, cols, n, pk, sets) \<Rightarrow> mem_put t cols (snd s) r
      | None \<Rightarrow>
         (case parse_insert (fst s) of
            Some (t, cols, n) \<Rightarrow> mem_put t cols (snd s) r
          | None \<Rightarrow>
             (case parse_by_key ''DELETE FROM '' (fst s) of
                Some (t, cols) \<Rightarrow> Some (mem_delete t (snd s) r)
              | None \<Rightarrow> Some r)))"

lemma map_of_filter_key: "map_of (filter (\<lambda>(k, v). P k) r) k = (if P k then map_of r k else None)"
  by (induction r) auto

lemma mem_look_delete:
  "mem_look (mem_delete t key r) t' k =
     (if (t', k) = (t, key) \<or> t = fk_parent \<and> t' \<in> set fk_children \<and> k = key then None else mem_look r t' k)"
proof -
  let ?P = "\<lambda>p. \<not> (p = (t, key) \<or> t = fk_parent \<and> fst p \<in> set fk_children \<and> snd p = key)"
  have "mem_delete t key r = filter (\<lambda>(p, row). ?P p) r"
    unfolding mem_delete_def by (rule filter_cong) auto
  then show ?thesis using map_of_filter_key [of ?P r "(t', k)"] by (simp add: mem_look_def)
qed

lemma mem_put_names:
  assumes "names_key t key cols vals" and "parent_there mem_look r t key"
  shows "\<exists>r'. mem_put t cols vals r = Some r' \<and> holds_row (zip cols vals) (mem_look r' t key) \<and>
    unchanged_but mem_look (t, key) r r'"
proof -
  have m: "map (map_of (zip cols vals)) (the (map_of sync_tables t)) = map Some key" using assms(1) by (simp add: names_key_def)
  have "map (\<lambda>c. the (map_of (zip cols vals) c)) (the (map_of sync_tables t)) = map the (map (map_of (zip cols vals)) (the (map_of sync_tables t)))"
    by simp
  also have "\<dots> = key" unfolding m by (simp add: comp_def)
  finally have k: "map (\<lambda>c. the (map_of (zip cols vals) c)) (the (map_of sync_tables t)) = key" .
  have d: "distinct (map fst (zip cols vals))" using assms(1) by (simp add: names_key_def)
  have "holds_row (zip cols vals) (Some (zip cols vals))"
    unfolding holds_row_def option.case list_all_iff by (auto intro: map_of_is_SomeI [OF d])
  then show ?thesis using assms(2) unfolding mem_put_def Let_def k
    by (auto simp: parent_there_def unchanged_but_def mem_look_def)
qed

lemma mem_exec_laws: "replica_laws mem_exec mem_look"
  unfolding replica_laws_def
proof (intro conjI)
  show "delete_law mem_exec mem_look"
    unfolding delete_law_def
  proof (intro allI impI)
    fix t pkc key and r :: mem
    assume t: "map_of sync_tables t = Some pkc"
    note i = sync_table_idents [OF t]
    have "parse_by_key ''DELETE FROM '' (delete_sql t pkc) = Some (t, pkc)"
      unfolding delete_sql_def by (rule parse_by_key_print) (use i in auto)
    then have "mem_exec (delete_sql t pkc, key) r = Some (mem_delete t key r)"
      using not_an_insert(1,2) [of "t @ '' WHERE '' @ where_sql pkc"] by (simp add: mem_exec_def delete_sql_def)
    then show "\<exists>r'. mem_exec (delete_sql t pkc, key) r = Some r' \<and> (\<forall>t' k. mem_look r' t' k =
      (if (t', k) = (t, key) \<or> t = fk_parent \<and> t' \<in> set fk_children \<and> k = key then None else mem_look r t' k))"
      by (intro exI [of _ "mem_delete t key r"]) (simp only: mem_look_delete simp_thms)
  qed
  show "upsert_law mem_exec mem_look"
    unfolding upsert_law_def
  proof (intro allI impI)
    fix t pkc key cols vals and r :: mem
    assume n: "names_key t key cols vals" and t: "map_of sync_tables t = Some pkc" and p: "parent_there mem_look r t key"
    let ?sets = "map (\<lambda>c. (c, c)) (filter (\<lambda>c. c \<notin> set pkc) cols)"
    note i = sync_table_idents [OF t]
    have c: "list_all is_ident cols" "set pkc \<subset> set cols" using n t by (auto simp: names_key_def)
    then have "filter (\<lambda>c. c \<notin> set pkc) cols \<noteq> []" by (auto simp: filter_empty_conv)
    then have "parse_upsert (upsert_sql t cols (length cols) pkc ?sets) = Some (t, cols, length cols, pkc, ?sets)"
      by (intro parse_upsert_print) (use i c in \<open>auto simp: list_all_iff\<close>)
    then show "\<exists>r'. mem_exec (upsert_sql t cols (length cols) pkc ?sets, vals) r = Some r' \<and>
        holds_row (zip cols vals) (mem_look r' t key) \<and> unchanged_but mem_look (t, key) r r'"
      using mem_put_names [OF n p] by (simp add: mem_exec_def)
  qed
  show "insert_law mem_exec mem_look"
    unfolding insert_law_def
  proof (intro allI impI)
    fix key cols vals and r :: mem
    assume n: "names_key embeddings key cols vals" and p: "parent_there mem_look r embeddings key"
    have c: "list_all is_ident cols" "cols \<noteq> []" using n by (auto simp: names_key_def)
    have "parse_insert (insert_sql embeddings cols (length cols)) = Some (embeddings, cols, length cols)"
      and "parse_upsert (insert_sql embeddings cols (length cols)) = None"
      by (rule parse_insert_print; use c in \<open>simp add: list_all_iff\<close>)+
    then show "\<exists>r'. mem_exec (insert_sql embeddings cols (length cols), vals) r = Some r' \<and>
        holds_row (zip cols vals) (mem_look r' embeddings key) \<and> unchanged_but mem_look (embeddings, key) r r'"
      using mem_put_names [OF n p] by (simp add: mem_exec_def)
  qed
qed

text \<open>Memory 1 and its references were written, memory 2 was deleted; the outbox has memory 1 twice.\<close>

definition ex_memory :: row where
  "ex_memory = [(''id'', VInt 1), (''content'', VText ''one'')]"

definition ex_refs_row :: row where
  "ex_refs_row = [(''memory_id'', VInt 1), (''related'', VText ''[]'')]"

definition ex_local :: lstore where
  "ex_local = \<lparr>ls_outbox =
       [\<lparr>ob_seq = 1, ob_tbl = ''memories'', ob_pk = [VInt 2], ob_created = 0\<rparr>,
        \<lparr>ob_seq = 2, ob_tbl = ''memories_crossrefs'', ob_pk = [VInt 1], ob_created = 0\<rparr>],
     ls_next = 3, ls_tables = [(''memories'', [([VInt 1], ex_memory)]), (''memories_crossrefs'', [([VInt 1], ex_refs_row)])],
     ls_columns = [(''memories'', [''id'', ''content'']), (''memories_crossrefs'', [''memory_id'', ''related'']),
       (''memories_embeddings'', [''memory_id'', ''vec'']), (''tombstones'', [''content_hash'', ''memory_id'', ''reason'']),
       (''tombstone_components'', [''memory_id'', ''reason'']), (''memories_actions'', [''id'', ''action'']),
       (''memories_meta'', [''key'', ''value''])]\<rparr>"

definition ex_batch :: batch where
  "ex_batch = the (the (read_batch ex_local 0 100 None))"

lemma ex_local_ok: "store_ok ex_local"
  by code_simp

lemma ex_batch_read: "read_batch ex_local 0 100 None = Some (Some ex_batch)"
  by code_simp

theorem batch_dependency_order_witness: "sorted (map phase (b_keys ex_batch)) \<and> map key_id (b_keys ex_batch) =
    [(''memories'', [VInt 1]), (''memories_crossrefs'', [VInt 1]), (''memories'', [VInt 2])]"
proof -
  have "map key_id (b_keys ex_batch) = [(''memories'', [VInt 1]), (''memories_crossrefs'', [VInt 1]), (''memories'', [VInt 2])]"
    by code_simp
  with batch_dependency_order [OF ex_local_ok ex_batch_read] show ?thesis by blast
qed


section \<open>A batch cut short\<close>

text \<open>What any prefix of a batch leaves: a key of an outbox row of the batch, an unchanged key, or an equal one.\<close>

lemma sorted_before:
  "sorted (map f (xs @ ys)) \<Longrightarrow> x \<in> set xs \<Longrightarrow> y \<in> set (xs @ ys) \<Longrightarrow> f y < f x \<Longrightarrow> y \<in> set xs" for f :: "'a \<Rightarrow> nat"
  by (auto simp: sorted_append) (metis leD)

lemma take_concat_map:
  "\<exists>m j. take n (concat (map g xs)) = concat (map g (take m xs)) @ take j (if m < length xs then g (xs ! m) else []) \<and>
     (m < length xs \<longrightarrow> j < length (g (xs ! m)))"
proof (induction xs arbitrary: n)
  case (Cons x xs)
  show ?case
  proof (cases "n < length (g x)")
    case True
    then show ?thesis by (intro exI [of _ 0] exI [of _ n]) simp
  next
    case False
    obtain m j where m: "take (n - length (g x)) (concat (map g xs)) =
        concat (map g (take m xs)) @ take j (if m < length xs then g (xs ! m) else [])"
      "m < length xs \<longrightarrow> j < length (g (xs ! m))" using Cons by blast
    then show ?thesis using False by (intro exI [of _ "Suc m"] exI [of _ j]) simp
  qed
qed simp

lemma short_key:
  assumes laws: "replica_laws exec look" and ok: "store_ok st" and b: "key_statements st k = Some k'"
    and k: "reads_local st k" "VNull \<notin> set (k_pk k)" and j: "j < length (k_statements k')"
  shows "\<exists>r'. exec_all exec (take j (k_statements k')) r = Some r' \<and>
    (r' = r \<or> k_tbl k \<noteq> fk_parent \<and> unchanged_but look (key_id k) r r')"
proof (cases "k_row k")
  case None
  then show ?thesis using key_statements_delete [OF b] j by auto
next
  case (Some row)
  let ?cols = "table_columns st (k_tbl k)"
  obtain pkc vals where p: "map_of sync_tables (k_tbl k) = Some pkc" "length (k_pk k) = length pkc"
    and sts: "k_statements k' = (if k_tbl k = embeddings
      then [(delete_sql embeddings pkc, k_pk k), (insert_sql embeddings ?cols (length ?cols), vals)]
      else [(upsert_sql (k_tbl k) ?cols (length ?cols) pkc (map (\<lambda>c. (c, c)) (filter (\<lambda>c. c \<notin> set pkc) ?cols)), vals)])"
    using key_statements_write [OF ok b Some k(1)] by blast
  have e: "embeddings \<noteq> fk_parent" by code_simp
  show ?thesis
  proof (cases "j = 0")
    case False
    then have emb: "k_tbl k = embeddings" and one: "j = 1" using sts j by (auto split: if_splits)
    obtain r' where "exec (delete_sql embeddings pkc, k_pk k) r = Some r'"
      "\<forall>t' q. look r' t' q = (if (t', q) = (embeddings, k_pk k) \<or> embeddings = fk_parent \<and> t' \<in> set fk_children \<and> q = k_pk k
         then None else look r t' q)"
      using laws p k(2) emb unfolding replica_laws_def delete_law_def by metis
    then show ?thesis using sts emb one e by (auto simp: unchanged_but_def key_id_def)
  qed simp
qed

lemma short_batch:
  assumes laws: "replica_laws exec look" and ok: "store_ok st" and rows: "rows = outbox_rows st cursor limit cap"
    and bs: "builds st (ordered_keys st rows) ks'"
  shows "\<exists>r'. exec_all exec (take n (concat (map k_statements ks'))) r = Some r' \<and>
    (\<forall>t pk. (t, pk) \<in> (\<lambda>r. (ob_tbl r, ob_pk r)) ` set rows \<or> agrees (local_row st t pk) (look r' t pk) \<or>
       look r' t pk = look r t pk)"
proof -
  let ?ks = "ordered_keys st rows"
  note o = ordered_keys_ok [OF ok rows]
  have len: "length ks' = length ?ks" using bs by (simp add: list_all2_lengthD)
  obtain m j where mj: "take n (concat (map k_statements ks')) = concat (map k_statements (take m ks')) @
      take j (if m < length ks' then k_statements (ks' ! m) else [])"
    "m < length ks' \<longrightarrow> j < length (k_statements (ks' ! m))"
    using take_concat_map [of n k_statements ks'] by blast
  have "batch_keys_ok st (take m ?ks)" using o(1) by (auto simp: batch_keys_ok_def take_map [symmetric] dest: in_set_takeD)
  moreover have "sorted (map phase (take m ?ks))" using o(2) by (simp add: take_map [symmetric] sorted_wrt_take)
  moreover have "\<exists>p \<in> set (take m ?ks). key_id p = (fk_parent, k_pk k) \<and> k_row p \<noteq> None"
    if k: "k \<in> set (take m ?ks)" "k_tbl k \<in> set fk_children" "k_row k \<noteq> None" for k
  proof -
    obtain p where p: "p \<in> set ?ks" "key_id p = (fk_parent, k_pk k)" "k_row p \<noteq> None"
      using o(5) [OF in_set_takeD [OF k(1)] k(2,3)] by blast
    have "k_tbl k \<noteq> fk_parent" using k(2) fk_tables(3) by metis
    then have "phase p < phase k" using p by (simp add: phase_def key_id_def)
    then have "p \<in> set (take m ?ks)"
      using sorted_before [of phase "take m ?ks" "drop m ?ks" k p] o(2) k(1) p(1) by simp
    with p show ?thesis by blast
  qed
  ultimately obtain r1 where r1: "exec_all exec (concat (map k_statements (take m ks'))) r = Some r1"
    "\<forall>k \<in> set (take m ?ks). agrees (k_row k) (look r1 (k_tbl k) (k_pk k))"
    "\<forall>t pk. (t, pk) \<notin> key_id ` set (take m ?ks) \<longrightarrow> look r1 t pk = look r t pk \<or>
       look r1 t pk = None \<and> t \<in> set fk_children \<and> local_row st fk_parent pk = None"
    using ordered_keys_send [OF laws ok list_all2_takeI [OF bs], of m r] by blast
  have eff: "agrees (local_row st t pk) (look r1 t pk) \<or> look r1 t pk = look r t pk" for t pk
  proof (cases "(t, pk) \<in> key_id ` set (take m ?ks)")
    case True
    then obtain k where k: "k \<in> set (take m ?ks)" "t = k_tbl k" "pk = k_pk k" by (auto simp: key_id_def)
    then have "reads_local st k" using o(1) by (auto simp: batch_keys_ok_def dest: in_set_takeD)
    moreover have "agrees (k_row k) (look r1 t pk)" using r1(2) k by blast
    ultimately show ?thesis using k(2,3) by (simp add: reads_local_def)
  next
    case False
    then have "look r1 t pk = look r t pk \<or> look r1 t pk = None \<and> t \<in> set fk_children \<and> local_row st fk_parent pk = None"
      using r1(3) by simp
    moreover have "local_row st t pk = None" if "t \<in> set fk_children" "local_row st fk_parent pk = None"
      using that by (rule no_orphan [OF ok])
    ultimately show ?thesis by (cases "look r1 t pk = look r t pk") (auto simp: agrees_def)
  qed
  show ?thesis
  proof (cases "m < length ks'")
    case False
    then show ?thesis using r1(1) eff mj(1) by (auto simp: exec_all_append)
  next
    case True
    let ?k = "?ks ! m"
    have k: "?k \<in> set ?ks" "key_statements st ?k = Some (ks' ! m)"
      using True len bs by (auto simp: list_all2_conv_all_nth)
    then have kk: "reads_local st ?k" "VNull \<notin> set (k_pk ?k)" using o(1) by (auto simp: batch_keys_ok_def)
    obtain r' where r': "exec_all exec (take j (k_statements (ks' ! m))) r1 = Some r'"
      "r' = r1 \<or> k_tbl ?k \<noteq> fk_parent \<and> unchanged_but look (key_id ?k) r1 r'"
      using short_key [OF laws ok k(2) kk] mj(2) True by blast
    have "(t, pk) \<in> (\<lambda>r. (ob_tbl r, ob_pk r)) ` set rows \<or> look r' t pk = look r1 t pk" for t pk
    proof (cases "(t, pk) = key_id ?k \<and> k_tbl ?k \<noteq> fk_parent")
      case True
      then have "(t, pk) \<in> (\<lambda>r. (ob_tbl r, ob_pk r)) ` set rows" using o(6) [OF k(1)] by simp
      then show ?thesis by blast
    next
      case False
      then show ?thesis using r'(2) by (auto simp: unchanged_but_def)
    qed
    then show ?thesis using r1(1) r'(1) eff mj(1) True
      by (intro exI [of _ r']) (simp add: exec_all_append, metis)
  qed
qed

section \<open>The rows a batch covers\<close>

lemma sorted_take_covers:
  "sorted (map f xs) \<Longrightarrow> distinct (map f xs) \<Longrightarrow> 0 < n \<Longrightarrow> x \<in> set xs \<Longrightarrow> f x \<le> f (last (take n xs)) \<Longrightarrow> x \<in> set (take n xs)"
  for f :: "'a \<Rightarrow> int"
proof (rule ccontr)
  assume s: "sorted (map f xs)" "distinct (map f xs)" and n: "0 < n" and x: "x \<in> set xs" "f x \<le> f (last (take n xs))"
    and out: "x \<notin> set (take n xs)"
  have split: "map f xs = map f (take n xs) @ map f (drop n xs)" by (simp flip: map_append)
  have d: "x \<in> set (drop n xs)" using x(1) out by (metis Un_iff append_take_drop_id set_append)
  have "take n xs \<noteq> []" using n x(1) by auto
  then have l: "last (take n xs) \<in> set (take n xs)" by simp
  have "f (last (take n xs)) \<le> f x" using s(1) d l unfolding split sorted_append by auto
  with x(2) have "f x = f (last (take n xs))" by simp
  moreover have "set (map f (take n xs)) \<inter> set (map f (drop n xs)) = {}" using s(2) unfolding split distinct_append by blast
  ultimately show False using d l by (metis IntI empty_iff imageI list.set_map)
qed

lemma outbox_rows_cover:
  assumes d: "distinct (map ob_seq (ls_outbox st))" and rows: "rows = outbox_rows st cursor limit cap" "rows \<noteq> []"
    and x: "x \<in> set (ls_outbox st)" "cursor < ob_seq x" "ob_seq x \<le> ob_seq (last rows)"
  shows "x \<in> set rows"
proof -
  let ?all = "filter (\<lambda>r. cursor < ob_seq r \<and> (case cap of None \<Rightarrow> True | Some h \<Rightarrow> ob_seq r \<le> h)) (ls_outbox st)"
  have r: "rows = take limit (sort_key ob_seq ?all)" by (simp add: rows(1) outbox_rows_def)
  have "last rows \<in> set rows" using rows(2) by (rule last_in_set)
  then have "last rows \<in> set (take limit (sort_key ob_seq ?all))" by (simp only: r)
  then have "last rows \<in> set (sort_key ob_seq ?all)" by (rule in_set_takeD)
  then have l: "last rows \<in> set ?all" by (simp only: set_sort)
  then have "x \<in> set ?all" using x by (auto split: option.splits)
  moreover have "distinct (map ob_seq (sort_key ob_seq ?all))"
  proof -
    have "mset (map ob_seq (sort_key ob_seq ?all)) = mset (map ob_seq ?all)" by simp
    moreover have "distinct (map ob_seq ?all)" using d by (rule distinct_map_filter)
    ultimately show ?thesis using mset_eq_imp_distinct_iff by blast
  qed
  moreover have "0 < limit" using rows(2) r by (cases limit) auto
  ultimately show ?thesis
    using sorted_take_covers [of ob_seq "sort_key ob_seq ?all" limit x] x(3) unfolding r by simp
qed

lemma outbox_rows_all:
  "length (filter (\<lambda>r. cursor < ob_seq r \<and> ob_seq r \<le> h) (ls_outbox st)) \<le> limit \<Longrightarrow>
     set (outbox_rows st cursor limit (Some h)) = {x \<in> set (ls_outbox st). cursor < ob_seq x \<and> ob_seq x \<le> h}"
  by (auto simp: outbox_rows_def)

lemma row_in_batch:
  assumes "store_ok st" and b: "read_batch st cursor limit cap = Some (Some b)" and "x \<in> set (outbox_rows st cursor limit cap)"
  shows "(ob_tbl x, ob_pk x) \<in> batch_ids b"
proof -
  obtain rows where rows: "rows = outbox_rows st cursor limit cap" and bs: "builds st (ordered_keys st rows) (b_keys b)"
    using read_batch_Some [OF b] by blast
  have "batch_ids b = key_id ` set (ordered_keys st rows)"
    unfolding batch_ids_def using builds_same(1) [OF bs] by (metis list.set_map)
  then show ?thesis using ordered_keys_ok(3) [OF assms(1) rows] assms(3) rows by simp
qed

lemma batch_key_local:
  assumes "store_ok st" and b: "read_batch st cursor limit cap = Some (Some b)" and "(t, pk) \<in> batch_ids b"
  shows "\<exists>k \<in> set (b_keys b). k_tbl k = t \<and> k_pk k = pk \<and> k_row k = local_row st t pk"
proof -
  obtain rows where rows: "rows = outbox_rows st cursor limit cap" and bs: "builds st (ordered_keys st rows) (b_keys b)"
    using read_batch_Some [OF b] by blast
  from assms(3) obtain k' where k': "k' \<in> set (b_keys b)" "t = k_tbl k'" "pk = k_pk k'"
    by (auto simp: batch_ids_def key_id_def)
  then obtain i where i: "i < length (b_keys b)" "k' = b_keys b ! i" by (metis in_set_conv_nth)
  let ?q = "ordered_keys st rows ! i"
  have q: "?q \<in> set (ordered_keys st rows)" "key_statements st ?q = Some k'"
    using bs i by (auto simp: list_all2_conv_all_nth)
  then have "reads_local st ?q" using ordered_keys_ok(1) [OF assms(1) rows] by (simp add: batch_keys_ok_def)
  then show ?thesis using key_statements_same [OF q(2)] k' by (intro bexI [OF _ k'(1)]) (simp add: reads_local_def key_id_def)
qed

end
