(* ===== verification/Replica_Cycle.thy ===== *)
theory Replica_Cycle
  imports Replica_Batch
begin

text \<open>
  The replicator of one store (\<open>StoreReplicator\<close> of \<open>memora/replicator.py\<close>): one cycle of
  its loop in log and in write mode, with the in-flight marker, the send, the ack and the
  reconciliation of an unknown outcome, and the operator actions on its durable state.  The replica
  (D1) is the parameter \<open>exec\<close>, \<open>look\<close> of the batch theory; every answer of the outside
  world in a cycle is a field of its \<open>io\<close> record.
\<close>

section \<open>State\<close>

datatype halt_reason =
    HaltConfigUri string
  | HaltNoEpoch
  | HaltStatement
  | HaltGuard guard_detail string
  | HaltForeign int int

record marker =
  mk_id :: string
  mk_lo :: int
  mk_hi :: int
  mk_epoch_before :: int

text \<open>The row of \<open>sync_state\<close>; its log-only and reporting columns are left out.\<close>

record sync_state =
  ss_halted :: "halt_reason option"
  ss_uri :: string
  ss_acked :: int
  ss_log_cursor :: int
  ss_consumed :: int
  ss_epoch_expected :: "int option"
  ss_inflight :: "marker option"
  ss_last_error :: "string option"
  ss_allow :: "string option"
  ss_unverified :: nat
  ss_compare_runs :: "(string, rat) dict"
  ss_would_halt :: "string list"

text \<open>What the process keeps in memory, and its configuration.\<close>

record rep =
  rp_relaxed :: "int option"
  rp_probed :: bool
  rp_next_probe :: rat
  rp_marker :: "string option"

datatype rmode = LogMode | WriteMode

record cfg =
  cf_mode :: rmode
  cf_uri :: string
  cf_batch_rows :: nat

record log_record =
  lr_attempt :: string
  lr_seq :: int
  lr_index :: nat
  lr_key :: "string \<times> sval list"
  lr_stmt :: stmt

record 'r world =
  rw_local :: lstore
  rw_sync :: sync_state
  rw_rep :: rep
  rw_remote :: 'r
  rw_log :: "log_record list"

datatype outcome = Halted | Idle | Logged | Sent | ReconciledAcked | ReconciledResend | Raised

datatype event =
    EvEnter | EvLeave | EvProbe "stmt list" | EvMarker string | EvEpoch int | EvSend "stmt list" | EvAck int | EvClear

text \<open>
  The answers of one cycle.  \<open>ci_others\<close> are the local writes other connections commit while the
  replicator is sending; a failed send has run some prefix of the batch; \<open>ci_reads\<close> is how many
  read-backs answer before one fails.
\<close>

datatype send_result = SendAll "int option" | SendFailed nat

datatype probe_result = ProbeOk | ProbeRefused | ProbeUnproven string

record cycle_io =
  ci_now :: rat
  ci_uuid :: string
  ci_pre :: "int option"
  ci_send :: send_result
  ci_probe :: probe_result
  ci_others :: "lstore \<Rightarrow> lstore"
  ci_reads :: "nat option"
  ci_post_epoch :: "int option"

section \<open>Halting and the next batch\<close>

definition halt_with :: "halt_reason \<Rightarrow> 'r world \<Rightarrow> 'r world" where
  "halt_with reason w = w\<lparr>rw_sync := (rw_sync w)\<lparr>ss_halted := Some reason\<rparr>\<rparr>"

definition would_halt :: "string \<Rightarrow> 'r world \<Rightarrow> 'r world" where
  "would_halt attempt w =
     (let s = rw_sync w in
      if attempt \<in> set (ss_would_halt s) then w
      else w\<lparr>rw_sync := s\<lparr>ss_would_halt := ss_would_halt s @ [attempt]\<rparr>\<rparr>)"

definition next_batch :: "(int \<times> int \<times> (string \<times> sval list) set \<Rightarrow> string) \<Rightarrow> cfg \<Rightarrow> int \<Rightarrow> 'r world \<Rightarrow>
    batch option \<times> outcome \<times> 'r world" where
  "next_batch digest cfg cursor w =
     (case read_batch (rw_local w) cursor (cf_batch_rows cfg) None of
        None \<Rightarrow> (None, Halted, halt_with HaltStatement w)
      | Some None \<Rightarrow> (None, Idle, w)
      | Some (Some b) \<Rightarrow>
          (case delete_guard_detail (rw_local w) b of
             None \<Rightarrow> (Some b, Idle, w)
           | Some d \<Rightarrow>
               if ss_allow (rw_sync w) = Some (attempt_id digest b) then (Some b, Idle, w)
               else if cf_mode cfg = LogMode then (Some b, Idle, would_halt (attempt_id digest b) w)
               else (None, Halted, halt_with (HaltGuard d (attempt_id digest b)) w)))"

section \<open>Log mode\<close>

definition log_records :: "string \<Rightarrow> batch \<Rightarrow> log_record list" where
  "log_records attempt b =
     concat (map (\<lambda>k. map (\<lambda>(i, s). \<lparr>lr_attempt = attempt, lr_seq = k_seq k, lr_index = i, lr_key = key_id k, lr_stmt = s\<rparr>)
       (List.enumerate 0 (k_statements k))) (b_keys b))"

text \<open>The log is appended and synced before the cursor moves; a crash between the two repeats the range.\<close>

definition log_append :: "(int \<times> int \<times> (string \<times> sval list) set \<Rightarrow> string) \<Rightarrow> batch \<Rightarrow> 'r world \<Rightarrow> 'r world" where
  "log_append digest b w = w\<lparr>rw_log := rw_log w @ log_records (attempt_id digest b) b\<rparr>"

definition log_advance :: "int \<Rightarrow> 'r world \<Rightarrow> 'r world" where
  "log_advance hi w = w\<lparr>rw_sync := (rw_sync w)\<lparr>ss_log_cursor := hi, ss_allow := None\<rparr>\<rparr>"

definition log_cycle :: "(int \<times> int \<times> (string \<times> sval list) set \<Rightarrow> string) \<Rightarrow> cfg \<Rightarrow> 'r world \<Rightarrow>
    outcome \<times> 'r world \<times> event list" where
  "log_cycle digest cfg w =
     (case next_batch digest cfg (ss_log_cursor (rw_sync w)) w of
        (None, out, w') \<Rightarrow> (out, w', [])
      | (Some b, _, w') \<Rightarrow> (Logged, log_advance (b_hi b) (log_append digest b w'), []))"

text \<open>\<open>iter_log\<close>: the records in order, each (seq, key, index) once.\<close>

definition lr_id :: "log_record \<Rightarrow> int \<times> (string \<times> sval list) \<times> nat" where
  "lr_id r = (lr_seq r, lr_key r, lr_index r)"

fun iter_log :: "(int \<times> (string \<times> sval list) \<times> nat) list \<Rightarrow> log_record list \<Rightarrow> log_record list" where
  "iter_log seen [] = []"
| "iter_log seen (r # rs) = (if lr_id r \<in> set seen then iter_log seen rs else r # iter_log (lr_id r # seen) rs)"

section \<open>Write mode\<close>

definition probe_write :: "cycle_io \<Rightarrow> 'r world \<Rightarrow> bool \<times> 'r world \<times> event list" where
  "probe_write io w =
     (let ev = [EvEnter, EvProbe (the write_probe_statements), EvLeave]; rp = rw_rep w in
      case ci_probe io of
        ProbeOk \<Rightarrow> (False, w\<lparr>rw_rep := rp\<lparr>rp_probed := True\<rparr>\<rparr>, ev)
      | ProbeRefused \<Rightarrow> (True, w, ev)
      | ProbeUnproven msg \<Rightarrow>
          (False, w\<lparr>rw_rep := rp\<lparr>rp_next_probe := ci_now io + 30\<rparr>,
                    rw_sync := (rw_sync w)\<lparr>ss_last_error := Some (take 500 (''write capability unproven: '' @ msg))\<rparr>\<rparr>, ev))"

text \<open>
  \<open>execute_batch\<close>: every text is checked before anything is sent.  The last statement of the body
  is the epoch query, which changes nothing.
\<close>

definition with_epoch :: "stmt list \<Rightarrow> stmt list" where
  "with_epoch sts = sts @ [(epoch_sql, [])]"

definition execute_batch :: "'r exec_fn \<Rightarrow> stmt list \<Rightarrow> send_result \<Rightarrow> 'r \<Rightarrow> ('r \<times> bool) option" where
  "execute_batch exec sts res r =
     (if \<not> list_all (\<lambda>s. check_statement (fst s) \<noteq> None) (with_epoch sts) then None
      else case res of
          SendAll _ \<Rightarrow> (case exec_all exec sts r of None \<Rightarrow> Some (r, False) | Some r' \<Rightarrow> Some (r', True))
        | SendFailed n \<Rightarrow> (case exec_all exec (take n sts) r of None \<Rightarrow> Some (r, False) | Some r' \<Rightarrow> Some (r', False)))"

definition compare_run_stale :: rat where
  "compare_run_stale = 1"

text \<open>The age of an outbox row is in days (julian days).\<close>

definition prunable :: "rat \<Rightarrow> sync_state \<Rightarrow> int \<Rightarrow> outrow \<Rightarrow> bool" where
  "prunable now s hi r \<longleftrightarrow>
     ob_seq r \<le> min hi (ss_consumed s) \<and> ob_created r < now - 1 \<and>
     list_all (\<lambda>(run, started). now - compare_run_stale < started \<longrightarrow> ob_created r < started) (ss_compare_runs s)"

definition ack :: "rat \<Rightarrow> int \<Rightarrow> int \<Rightarrow> bool \<Rightarrow> 'r world \<Rightarrow> 'r world" where
  "ack now hi post unverified w =
     (let s = rw_sync w; l = rw_local w;
          s' = s\<lparr>ss_acked := hi, ss_epoch_expected := Some post, ss_inflight := None, ss_last_error := None,
                 ss_allow := None, ss_unverified := ss_unverified s + (if unverified then 1 else 0)\<rparr>
      in w\<lparr>rw_sync := s', rw_local := l\<lparr>ls_outbox := filter (\<lambda>r. \<not> prunable now s' hi r) (ls_outbox l)\<rparr>,
           rw_rep := (rw_rep w)\<lparr>rp_marker := None\<rparr>\<rparr>)"

definition set_marker :: "marker \<Rightarrow> 'r world \<Rightarrow> 'r world" where
  "set_marker m w = w\<lparr>rw_sync := (rw_sync w)\<lparr>ss_inflight := Some m\<rparr>,
                      rw_rep := (rw_rep w)\<lparr>rp_marker := Some (mk_id m)\<rparr>\<rparr>"

definition clear_marker :: "'r world \<Rightarrow> 'r world" where
  "clear_marker w = w\<lparr>rw_sync := (rw_sync w)\<lparr>ss_inflight := None\<rparr>, rw_rep := (rw_rep w)\<lparr>rp_marker := None\<rparr>\<rparr>"

definition foreign_writer :: "int option \<Rightarrow> int \<Rightarrow> int \<Rightarrow> bool" where
  "foreign_writer relaxed expected pre \<longleftrightarrow>
     (case relaxed of None \<Rightarrow> pre \<noteq> expected | Some before \<Rightarrow> pre < before)"

definition others_write :: "cycle_io \<Rightarrow> 'r world \<Rightarrow> 'r world" where
  "others_write io w = w\<lparr>rw_local := ci_others io (rw_local w)\<rparr>"

definition send_batch :: "'r exec_fn \<Rightarrow> cycle_io \<Rightarrow> batch \<Rightarrow> int \<Rightarrow> 'r world \<Rightarrow> outcome \<times> 'r world \<times> event list" where
  "send_batch exec io b expected w =
     (case ci_pre io of
        None \<Rightarrow> (Raised, w, [])
      | Some pre \<Rightarrow>
          if foreign_writer (rp_relaxed (rw_rep w)) expected pre
          then (Halted, halt_with (HaltForeign expected pre) w, [EvEpoch pre])
          else (case execute_batch exec (b_statements b) (ci_send io) (rw_remote w) of
              None \<Rightarrow> (Raised, w, [EvEpoch pre])
            | Some (r', ok) \<Rightarrow>
                let w' = w\<lparr>rw_remote := r'\<rparr>; ev = [EvEpoch pre, EvSend (with_epoch (b_statements b))] in
                (case (ok, ci_send io) of
                   (True, SendAll (Some post)) \<Rightarrow>
                     (Sent, ack (ci_now io) (b_hi b) post False (w'\<lparr>rw_rep := (rw_rep w')\<lparr>rp_relaxed := None\<rparr>\<rparr>),
                      ev @ [EvAck (b_hi b)])
                 | _ \<Rightarrow> (Raised, w', ev))))"

definition write_cycle :: "'r exec_fn \<Rightarrow> (int \<times> int \<times> (string \<times> sval list) set \<Rightarrow> string) \<Rightarrow> cfg \<Rightarrow> cycle_io \<Rightarrow>
    'r world \<Rightarrow> outcome \<times> 'r world \<times> event list" where
  "write_cycle exec digest cfg io w =
     (case next_batch digest cfg (ss_acked (rw_sync w)) w of
        (None, out, w') \<Rightarrow> (out, w', [])
      | (Some b, _, w1) \<Rightarrow>
          (case ss_epoch_expected (rw_sync w1) of
             None \<Rightarrow> (Halted, halt_with HaltNoEpoch w1, [])
           | Some expected \<Rightarrow>
               let m = \<lparr>mk_id = ci_uuid io, mk_lo = b_lo b, mk_hi = b_hi b, mk_epoch_before = expected\<rparr>;
                   (out, w', ev) = send_batch exec io b expected (others_write io (set_marker m w1))
               in (out, w', [EvEnter, EvMarker (mk_id m)] @ ev @ [EvLeave])))"

section \<open>Reconciling an unknown outcome\<close>

text \<open>The read-back stops at the first difference; \<^const>\<open>None\<close> is a read that failed.\<close>

fun read_back :: "'r look_fn \<Rightarrow> (rat \<Rightarrow> rat) \<Rightarrow> 'r \<Rightarrow> nat option \<Rightarrow> rkey list \<Rightarrow> bool option" where
  "read_back look rnd r reads [] = Some True"
| "read_back look rnd r reads (k # ks) =
     (if reads = Some 0 then None
      else if same_row rnd (k_row k) (look r (k_tbl k) (k_pk k))
      then read_back look rnd r (map_option (\<lambda>n. n - 1) reads) ks else Some False)"

definition reconcile_limit :: nat where
  "reconcile_limit = 1000000"

definition reconcile :: "'r look_fn \<Rightarrow> (rat \<Rightarrow> rat) \<Rightarrow> cycle_io \<Rightarrow> marker \<Rightarrow> 'r world \<Rightarrow> outcome \<times> 'r world \<times> event list" where
  "reconcile look rnd io m w =
     (case read_batch (rw_local w) (mk_lo m - 1) reconcile_limit (Some (mk_hi m)) of
        None \<Rightarrow> (Raised, w, [EvEnter, EvLeave])
      | Some b \<Rightarrow>
          (case read_back look rnd (rw_remote w) (ci_reads io) (case b of None \<Rightarrow> [] | Some b \<Rightarrow> b_keys b) of
             None \<Rightarrow> (Raised, w, [EvEnter, EvLeave])
           | Some True \<Rightarrow>
               (case ci_post_epoch io of
                  None \<Rightarrow> (Raised, w, [EvEnter, EvLeave])
                | Some post \<Rightarrow> (ReconciledAcked, ack (ci_now io) (mk_hi m) post True w, [EvEnter, EvAck (mk_hi m), EvLeave]))
           | Some False \<Rightarrow>
               (ReconciledResend, clear_marker (w\<lparr>rw_rep := (rw_rep w)\<lparr>rp_relaxed := Some (mk_epoch_before m)\<rparr>\<rparr>),
                [EvEnter, EvClear, EvLeave])))"

section \<open>One cycle\<close>

definition run_once :: "'r exec_fn \<Rightarrow> 'r look_fn \<Rightarrow> (rat \<Rightarrow> rat) \<Rightarrow> (int \<times> int \<times> (string \<times> sval list) set \<Rightarrow> string) \<Rightarrow>
    cfg \<Rightarrow> cycle_io \<Rightarrow> 'r world \<Rightarrow> outcome \<times> 'r world \<times> event list" where
  "run_once exec look rnd digest cfg io w =
     (let s = rw_sync w in
      if ss_halted s \<noteq> None then (Halted, w, [])
      else if ss_uri s \<noteq> cf_uri cfg then (Halted, halt_with (HaltConfigUri (ss_uri s)) w, [])
      else if cf_mode cfg = LogMode then log_cycle digest cfg w
      else case ss_inflight s of
          Some m \<Rightarrow> reconcile look rnd io m w
        | None \<Rightarrow>
            let (refused, w1, ev1) =
                  (if \<not> rp_probed (rw_rep w) \<and> rp_next_probe (rw_rep w) \<le> ci_now io then probe_write io w else (False, w, []))
            in if refused then (Raised, w1, ev1)
               else let (out, w2, ev2) = write_cycle exec digest cfg io w1 in (out, w2, ev1 @ ev2))"

text \<open>A process death loses the memory; \<open>_open\<close> reads the durable marker back.\<close>

definition restart :: "'r world \<Rightarrow> 'r world" where
  "restart w = w\<lparr>rw_rep := \<lparr>rp_relaxed = None, rp_probed = False, rp_next_probe = 0,
     rp_marker = map_option mk_id (ss_inflight (rw_sync w))\<rparr>\<rparr>"

section \<open>Operator actions\<close>

definition resume :: "int option \<Rightarrow> string option \<Rightarrow> sync_state \<Rightarrow> sync_state option" where
  "resume accept_epoch allow s =
     (case ss_halted s of
        None \<Rightarrow> None
      | Some (HaltForeign _ _) \<Rightarrow>
          (case accept_epoch of None \<Rightarrow> None | Some e \<Rightarrow> Some (s\<lparr>ss_halted := None, ss_epoch_expected := Some e\<rparr>))
      | Some (HaltGuard _ attempt) \<Rightarrow>
          if allow = Some attempt then Some (s\<lparr>ss_halted := None, ss_allow := Some attempt\<rparr>) else None
      | Some _ \<Rightarrow> Some (s\<lparr>ss_halted := None\<rparr>))"

definition begin_compare :: "string \<Rightarrow> rat \<Rightarrow> sync_state \<Rightarrow> sync_state" where
  "begin_compare run now s =
     s\<lparr>ss_compare_runs := dict_set run now (filter (\<lambda>(r, started). now - started \<le> compare_run_stale) (ss_compare_runs s))\<rparr>"

definition abort_compare :: "string \<Rightarrow> sync_state \<Rightarrow> sync_state" where
  "abort_compare run s = s\<lparr>ss_compare_runs := dict_pop run (ss_compare_runs s)\<rparr>"

text \<open>
  A verified report: its file, hash, snapshot and store were checked by reading them; what is left
  is its run, its age, its outcome and the head it covers.
\<close>

datatype compare_mode = CmpBarrier | CmpNightly | CmpLog

record compare_report =
  cr_uri :: string
  cr_run :: string
  cr_mode :: compare_mode
  cr_clean :: bool
  cr_head :: "int option"

definition compare_max_run :: rat where
  "compare_max_run = 1 / 2"

definition record_compare :: "compare_report \<Rightarrow> rat \<Rightarrow> sync_state \<Rightarrow> sync_state option" where
  "record_compare rep now s =
     (if cr_uri rep \<noteq> ss_uri s then None
      else case map_of (ss_compare_runs s) (cr_run rep) of
          None \<Rightarrow> None
        | Some started \<Rightarrow>
            if compare_max_run < now - started then None
            else let s' = s\<lparr>ss_compare_runs := dict_pop (cr_run rep) (ss_compare_runs s)\<rparr> in
              if cr_clean rep \<and> cr_mode rep \<in> {CmpBarrier, CmpNightly} then
                (case cr_head rep of
                   None \<Rightarrow> None
                 | Some h \<Rightarrow> if h < 0 \<or> ss_acked s < h then None
                             else Some (s'\<lparr>ss_consumed := max (ss_consumed s) h\<rparr>))
              else Some s')"

section \<open>The invariant of replication\<close>

definition sync_meta_excluded :: "string list" where
  "sync_meta_excluded = [''embedding_change_epoch'', ''embedding_rebuild_lease'', ''embedding_integrity'']"

definition replicated :: "string \<Rightarrow> sval list \<Rightarrow> bool" where
  "replicated t pk \<longleftrightarrow> map_of sync_tables t \<noteq> None \<and> VNull \<notin> set pk \<and>
     \<not> (t = ''memories_meta'' \<and> pk \<in> (\<lambda>k. [VText k]) ` set sync_meta_excluded)"

text \<open>
  What the triggers guarantee of the writes of other connections: rows are appended to the outbox
  under fresh numbers, and a replicated key whose row changes is among them.
\<close>

definition local_writes :: "lstore \<Rightarrow> lstore \<Rightarrow> bool" where
  "local_writes l l' \<longleftrightarrow> store_ok l' \<and> ls_next l \<le> ls_next l' \<and>
     (\<exists>new. ls_outbox l' = ls_outbox l @ new \<and> distinct (map ob_seq new) \<and>
        (\<forall>x \<in> set new. ls_next l \<le> ob_seq x \<and> ob_seq x < ls_next l') \<and>
        (\<forall>t pk. replicated t pk \<longrightarrow> local_row l' t pk \<noteq> local_row l t pk \<longrightarrow>
           (t, pk) \<in> (\<lambda>x. (ob_tbl x, ob_pk x)) ` set new))"

definition in_sync :: "'r look_fn \<Rightarrow> (rat \<Rightarrow> rat) \<Rightarrow> 'r world \<Rightarrow> string \<Rightarrow> sval list \<Rightarrow> bool" where
  "in_sync look rnd w t pk \<longleftrightarrow> same_row rnd (local_row (rw_local w) t pk) (look (rw_remote w) t pk)"

definition pending :: "lstore \<Rightarrow> int \<Rightarrow> string \<Rightarrow> sval list \<Rightarrow> bool" where
  "pending l acked t pk \<longleftrightarrow> (\<exists>x \<in> set (ls_outbox l). ob_tbl x = t \<and> ob_pk x = pk \<and> acked < ob_seq x)"

definition outbox_ok :: "lstore \<Rightarrow> bool" where
  "outbox_ok l \<longleftrightarrow> store_ok l \<and> distinct (map ob_seq (ls_outbox l)) \<and> (\<forall>x \<in> set (ls_outbox l). ob_seq x < ls_next l)"

definition covered :: "'r look_fn \<Rightarrow> (rat \<Rightarrow> rat) \<Rightarrow> lstore \<Rightarrow> int \<Rightarrow> 'r \<Rightarrow> bool" where
  "covered look rnd l acked r \<longleftrightarrow>
     (\<forall>t pk. replicated t pk \<longrightarrow> same_row rnd (local_row l t pk) (look r t pk) \<or> pending l acked t pk)"

definition marker_ok :: "lstore \<Rightarrow> int \<Rightarrow> marker \<Rightarrow> bool" where
  "marker_ok l acked m \<longleftrightarrow> acked < mk_lo m \<and> mk_lo m \<le> mk_hi m \<and> mk_hi m < ls_next l \<and>
     length (filter (\<lambda>x. mk_lo m - 1 < ob_seq x \<and> ob_seq x \<le> mk_hi m) (ls_outbox l)) \<le> reconcile_limit \<and>
     (\<forall>x \<in> set (ls_outbox l). acked < ob_seq x \<longrightarrow> mk_lo m \<le> ob_seq x)"

definition rep_inv :: "'r look_fn \<Rightarrow> (rat \<Rightarrow> rat) \<Rightarrow> 'r world \<Rightarrow> bool" where
  "rep_inv look rnd w \<longleftrightarrow>
     (let l = rw_local w; s = rw_sync w in
      outbox_ok l \<and> ss_acked s < ls_next l \<and> ss_consumed s \<le> ss_acked s \<and> covered look rnd l (ss_acked s) (rw_remote w) \<and>
      rp_marker (rw_rep w) = map_option mk_id (ss_inflight s) \<and>
      (\<forall>m. ss_inflight s = Some m \<longrightarrow> marker_ok l (ss_acked s) m))"

lemma same_value_refl [simp]: "same_value rnd v v"
  by (simp add: same_value_def split: option.splits)

lemma agrees_same_row: "agrees l r \<Longrightarrow> same_row rnd l r"
  by (auto simp: agrees_def holds_row_def same_row_def list_all_iff split: option.splits)

lemma local_writes_outbox: "outbox_ok l \<Longrightarrow> local_writes l l' \<Longrightarrow> outbox_ok l'"
  by (fastforce simp: outbox_ok_def local_writes_def)

lemma local_writes_covered:
  assumes "outbox_ok l" and w: "local_writes l l'" and acked: "acked < ls_next l" and c: "covered look rnd l acked r"
  shows "covered look rnd l' acked r"
  unfolding covered_def
proof (intro allI impI)
  fix t pk assume rep: "replicated t pk"
  from w obtain new where new: "ls_outbox l' = ls_outbox l @ new" "\<forall>x \<in> set new. ls_next l \<le> ob_seq x"
    "\<forall>t pk. replicated t pk \<longrightarrow> local_row l' t pk \<noteq> local_row l t pk \<longrightarrow> (t, pk) \<in> (\<lambda>x. (ob_tbl x, ob_pk x)) ` set new"
    unfolding local_writes_def by blast
  show "same_row rnd (local_row l' t pk) (look r t pk) \<or> pending l' acked t pk"
  proof (cases "local_row l' t pk = local_row l t pk")
    case True
    with c rep new(1) show ?thesis by (auto simp: covered_def pending_def)
  next
    case False
    then obtain x where "x \<in> set new" "ob_tbl x = t" "ob_pk x = pk" using new(3) rep by auto
    then have "pending l' acked t pk" using new(1,2) acked by (fastforce simp: pending_def)
    then show ?thesis ..
  qed
qed

lemma local_writes_marker:
  assumes "local_writes l l'" and m: "marker_ok l acked m"
  shows "marker_ok l' acked m"
proof -
  from assms(1) obtain new where new: "ls_outbox l' = ls_outbox l @ new" "\<forall>x \<in> set new. ls_next l \<le> ob_seq x"
    and le: "ls_next l \<le> ls_next l'" unfolding local_writes_def by blast
  have "filter (\<lambda>x. mk_lo m - 1 < ob_seq x \<and> ob_seq x \<le> mk_hi m) new = []"
    using new(2) m by (fastforce simp: marker_ok_def filter_empty_conv)
  then show ?thesis using m new le by (fastforce simp: marker_ok_def)
qed

lemma rep_inv_local:
  assumes "rep_inv look rnd w" and "local_writes (rw_local w) l'"
  shows "rep_inv look rnd (w\<lparr>rw_local := l'\<rparr>)"
proof -
  have "ls_next (rw_local w) \<le> ls_next l'" using assms(2) by (simp add: local_writes_def)
  then show ?thesis
    using assms local_writes_outbox local_writes_covered local_writes_marker
    unfolding rep_inv_def Let_def by (fastforce simp: )
qed

text \<open>An acknowledgement: everything up to \<open>hi\<close> must be equal or named by a later outbox row.\<close>

lemma rep_inv_ack:
  assumes "outbox_ok (rw_local w)" and "covered look rnd (rw_local w) hi (rw_remote w)" and "hi < ls_next (rw_local w)"
    and "ss_consumed (rw_sync w) \<le> hi"
  shows "rep_inv look rnd (ack now hi post u w)"
proof -
  let ?w = "ack now hi post u w"
  have p: "pending (rw_local ?w) hi t pk" if "pending (rw_local w) hi t pk" for t pk
    using that by (auto simp: pending_def ack_def Let_def prunable_def)
  have row: "local_row (rw_local ?w) t pk = local_row (rw_local w) t pk" for t pk
    by (simp add: ack_def Let_def local_row_def ls_table_def)
  have "store_ok (rw_local ?w)" using assms(1)
    unfolding outbox_ok_def store_ok_def ack_def Let_def by (simp add: row_ok_def ls_table_def table_columns_def)
  moreover have "distinct (map ob_seq (ls_outbox (rw_local ?w)))"
    using assms(1) by (simp add: outbox_ok_def ack_def Let_def distinct_map_filter)
  moreover have "covered look rnd (rw_local ?w) hi (rw_remote w)"
    using assms(2) p unfolding covered_def row by blast
  ultimately show ?thesis using assms(1,3,4)
    by (simp add: rep_inv_def outbox_ok_def ack_def Let_def)
qed

lemma rep_inv_frame:
  "rep_inv look rnd w \<Longrightarrow> rw_local w' = rw_local w \<Longrightarrow> rw_remote w' = rw_remote w \<Longrightarrow>
     ss_acked (rw_sync w') = ss_acked (rw_sync w) \<Longrightarrow> ss_consumed (rw_sync w') \<le> ss_acked (rw_sync w) \<Longrightarrow>
     ss_inflight (rw_sync w') = ss_inflight (rw_sync w) \<Longrightarrow> rp_marker (rw_rep w') = rp_marker (rw_rep w) \<Longrightarrow> rep_inv look rnd w'"
  by (simp add: rep_inv_def Let_def)

lemma rep_inv_consumed: "rep_inv look rnd w \<Longrightarrow> ss_consumed (rw_sync w) \<le> ss_acked (rw_sync w)"
  by (simp add: rep_inv_def Let_def)

lemma rep_inv_halt: "rep_inv look rnd w \<Longrightarrow> rep_inv look rnd (halt_with reason w)"
  by (rule rep_inv_frame [of look rnd w]) (simp_all add: halt_with_def rep_inv_consumed)

lemma next_batch_world:
  assumes "next_batch digest cfg cursor w = (b, out, w')"
  shows "rw_local w' = rw_local w \<and> rw_remote w' = rw_remote w \<and> rw_rep w' = rw_rep w \<and>
    ss_acked (rw_sync w') = ss_acked (rw_sync w) \<and> ss_consumed (rw_sync w') = ss_consumed (rw_sync w) \<and>
    ss_inflight (rw_sync w') = ss_inflight (rw_sync w) \<and> ss_epoch_expected (rw_sync w') = ss_epoch_expected (rw_sync w) \<and>
    (\<forall>x. b = Some x \<longrightarrow> read_batch (rw_local w) cursor (cf_batch_rows cfg) None = Some (Some x))"
  using assms
  by (auto simp: next_batch_def halt_with_def would_halt_def Let_def split: option.splits if_splits)

lemma rep_inv_next_batch: "rep_inv look rnd w \<Longrightarrow> next_batch digest cfg cursor w = (b, out, w') \<Longrightarrow> rep_inv look rnd w'"
  by (rule rep_inv_frame [of look rnd w]) (simp_all add: next_batch_world rep_inv_consumed)

lemma batch_rows:
  assumes o: "outbox_ok l" and b: "read_batch l cursor limit None = Some (Some b)"
  shows "cursor < b_lo b \<and> b_lo b \<le> b_hi b \<and> b_hi b < ls_next l \<and>
    (\<forall>x \<in> set (ls_outbox l). cursor < ob_seq x \<longrightarrow> b_lo b \<le> ob_seq x) \<and>
    (\<forall>x \<in> set (ls_outbox l). cursor < ob_seq x \<longrightarrow> ob_seq x \<le> b_hi b \<longrightarrow> (ob_tbl x, ob_pk x) \<in> batch_ids b) \<and>
    length (filter (\<lambda>x. b_lo b - 1 < ob_seq x \<and> ob_seq x \<le> b_hi b) (ls_outbox l)) \<le> limit"
proof -
  obtain rows where rows: "rows = outbox_rows l cursor limit None" "rows \<noteq> []" "b_lo b = ob_seq (hd rows)" "b_hi b = ob_seq (last rows)"
    using read_batch_Some [OF b] by blast
  let ?all = "filter (\<lambda>r. cursor < ob_seq r) (ls_outbox l)"
  have r: "rows = take limit (sort_key ob_seq ?all)" by (simp add: rows(1) outbox_rows_def)
  have sub: "set rows \<subseteq> set ?all" unfolding r by (auto dest: in_set_takeD)
  have srt: "sorted (map ob_seq (sort_key ob_seq ?all))" by simp
  then have "sorted (map ob_seq rows)" unfolding r take_map [symmetric] by (rule sorted_wrt_take)
  then have lohi: "b_lo b \<le> b_hi b"
    unfolding rows(3,4) using rows(2) by (cases rows) auto
  have hd: "hd rows \<in> set ?all" by (rule subsetD [OF sub hd_in_set [OF rows(2)]])
  have last: "last rows \<in> set ?all" by (rule subsetD [OF sub last_in_set [OF rows(2)]])
  have "0 < limit" using rows(2) r by (cases limit) simp_all
  then have hdeq: "hd rows = hd (sort_key ob_seq ?all)" unfolding r by (rule hd_take)
  have lo: "b_lo b \<le> ob_seq x" if "x \<in> set (ls_outbox l)" "cursor < ob_seq x" for x
  proof -
    have "x \<in> set (sort_key ob_seq ?all)" using that by simp
    then obtain y ys where ys: "sort_key ob_seq ?all = y # ys" by (cases "sort_key ob_seq ?all") auto
    with srt \<open>x \<in> set (sort_key ob_seq ?all)\<close> have "ob_seq y \<le> ob_seq x" by auto
    then show ?thesis using hdeq ys rows(3) by simp
  qed
  have cover: "x \<in> set rows" if "x \<in> set (ls_outbox l)" "cursor < ob_seq x" "ob_seq x \<le> b_hi b" for x
    using outbox_rows_cover [of l rows cursor limit None x] o rows that by (simp add: outbox_ok_def)
  have "set (filter (\<lambda>x. b_lo b - 1 < ob_seq x \<and> ob_seq x \<le> b_hi b) (ls_outbox l)) \<subseteq> set rows"
    using cover hd rows(3) by fastforce
  moreover have "distinct (ls_outbox l)" using o by (simp add: outbox_ok_def distinct_map)
  ultimately have "length (filter (\<lambda>x. b_lo b - 1 < ob_seq x \<and> ob_seq x \<le> b_hi b) (ls_outbox l)) \<le> card (set rows)"
    by (metis List.finite_set card_mono distinct_card distinct_filter)
  also have "\<dots> \<le> limit" using card_length [of rows] r by simp
  finally have len: "length (filter (\<lambda>x. b_lo b - 1 < ob_seq x \<and> ob_seq x \<le> b_hi b) (ls_outbox l)) \<le> limit" .
  have ids: "(ob_tbl x, ob_pk x) \<in> batch_ids b" if "x \<in> set (ls_outbox l)" "cursor < ob_seq x" "ob_seq x \<le> b_hi b" for x
    using row_in_batch [of l cursor limit None b x] cover [OF that] o b rows(1) by (simp add: outbox_ok_def)
  have "cursor < b_lo b" "b_hi b < ls_next l" using hd last o rows(3,4) by (auto simp: outbox_ok_def)
  with lohi lo ids len show ?thesis by blast
qed

text \<open>After the whole batch every replicated key is equal or named by a later outbox row.\<close>

lemma covered_after_send:
  assumes laws: "replica_laws exec look" and o: "outbox_ok l" and b: "read_batch l acked limit None = Some (Some b)"
    and c: "covered look rnd l acked r" and e: "exec_all exec (b_statements b) r = Some r'"
  shows "covered look rnd l (b_hi b) r'"
  unfolding covered_def
proof (intro allI impI)
  fix t pk assume rep: "replicated t pk"
  have ok: "store_ok l" using o by (simp add: outbox_ok_def)
  have eff: "agrees (local_row l t pk) (look r' t pk) \<or> (t, pk) \<notin> batch_ids b \<and> look r' t pk = look r t pk"
    using batch_effect [OF laws ok b, of r] e by auto
  show "same_row rnd (local_row l t pk) (look r' t pk) \<or> pending l (b_hi b) t pk"
  proof (cases "agrees (local_row l t pk) (look r' t pk)")
    case False
    with eff have out: "(t, pk) \<notin> batch_ids b" "look r' t pk = look r t pk" by auto
    have "pending l (b_hi b) t pk" if "pending l acked t pk"
    proof -
      from that obtain x where x: "x \<in> set (ls_outbox l)" "ob_tbl x = t" "ob_pk x = pk" "acked < ob_seq x"
        unfolding pending_def by blast
      with batch_rows [OF o b] out(1) have "\<not> ob_seq x \<le> b_hi b" by blast
      with x show ?thesis by (auto simp: pending_def)
    qed
    with c rep out(2) show ?thesis by (auto simp: covered_def)
  qed (simp add: agrees_same_row)
qed

text \<open>After any prefix of the batch nothing that was covered is lost.\<close>

lemma covered_after_prefix:
  assumes laws: "replica_laws exec look" and o: "outbox_ok l" and b: "read_batch l acked limit None = Some (Some b)"
    and c: "covered look rnd l acked r" and e: "exec_all exec (take n (b_statements b)) r = Some r'"
  shows "covered look rnd l acked r'"
  unfolding covered_def
proof (intro allI impI)
  fix t pk assume rep: "replicated t pk"
  have ok: "store_ok l" using o by (simp add: outbox_ok_def)
  obtain rows where rows: "rows = outbox_rows l acked limit None" and bs: "builds l (ordered_keys l rows) (b_keys b)"
    using read_batch_Some [OF b] by blast
  have "(t, pk) \<in> (\<lambda>r. (ob_tbl r, ob_pk r)) ` set rows \<or> agrees (local_row l t pk) (look r' t pk) \<or> look r' t pk = look r t pk"
    using short_batch [OF laws ok rows bs, of n r] e unfolding b_statements_def by auto
  moreover have "pending l acked t pk" if "(t, pk) \<in> (\<lambda>r. (ob_tbl r, ob_pk r)) ` set rows"
    using that unfolding rows outbox_rows_def pending_def by (auto dest!: in_set_takeD)
  ultimately show "same_row rnd (local_row l t pk) (look r' t pk) \<or> pending l acked t pk"
    using c rep agrees_same_row unfolding covered_def by metis
qed

section \<open>Every cycle keeps the invariant\<close>

lemma others_write_fields [simp]:
  "rw_sync (others_write io w) = rw_sync w" "rw_rep (others_write io w) = rw_rep w"
  "rw_remote (others_write io w) = rw_remote w" "rw_local (others_write io w) = ci_others io (rw_local w)"
  by (simp_all add: others_write_def)

lemma set_marker_fields [simp]:
  "rw_local (set_marker m w) = rw_local w" "rw_remote (set_marker m w) = rw_remote w"
  "ss_acked (rw_sync (set_marker m w)) = ss_acked (rw_sync w)" "ss_consumed (rw_sync (set_marker m w)) = ss_consumed (rw_sync w)"
  "ss_inflight (rw_sync (set_marker m w)) = Some m" "rp_relaxed (rw_rep (set_marker m w)) = rp_relaxed (rw_rep w)"
  by (simp_all add: set_marker_def)

lemma rep_inv_set_marker:
  assumes inv: "rep_inv look rnd w" and b: "read_batch (rw_local w) (ss_acked (rw_sync w)) limit None = Some (Some b)"
    and limit: "limit \<le> reconcile_limit" and m: "mk_lo m = b_lo b" "mk_hi m = b_hi b"
  shows "rep_inv look rnd (set_marker m w)"
proof -
  have "outbox_ok (rw_local w)" using inv by (simp add: rep_inv_def Let_def)
  from batch_rows [OF this b] have "marker_ok (rw_local w) (ss_acked (rw_sync w)) m"
    using limit m by (simp add: marker_ok_def)
  then show ?thesis using inv by (simp add: rep_inv_def Let_def set_marker_def)
qed

lemma execute_batch_cases:
  assumes "execute_batch exec sts res r = Some (r', ok)"
  obtains "ok" "exec_all exec sts r = Some r'" "\<exists>post. res = SendAll post"
    | n where "\<not> ok" "exec_all exec (take n sts) r = Some r'"
  using assms
proof (cases res)
  case (SendAll post)
  show thesis
  proof (cases "exec_all exec sts r")
    case None
    then show thesis using assms SendAll that(2) [of 0] by (auto simp: execute_batch_def split: if_splits)
  qed (use assms SendAll that(1) in \<open>auto simp: execute_batch_def split: if_splits\<close>)
next
  case (SendFailed n)
  show thesis
  proof (cases "exec_all exec (take n sts) r")
    case None
    then show thesis using assms SendFailed that(2) [of 0] by (auto simp: execute_batch_def split: if_splits)
  qed (use assms SendFailed that(2) [of n] in \<open>auto simp: execute_batch_def split: if_splits\<close>)
qed

text \<open>The send runs on the batch read before the other connections wrote.\<close>

lemma rep_inv_send:
  assumes laws: "replica_laws exec look" and inv: "rep_inv look rnd w" and l: "outbox_ok l" "local_writes l (rw_local w)"
    and b: "read_batch l (ss_acked (rw_sync w)) limit None = Some (Some b)" and acked: "ss_acked (rw_sync w) < ls_next l"
    and c: "covered look rnd l (ss_acked (rw_sync w)) (rw_remote w)"
    and s: "send_batch exec io b expected w = (out, w', ev)"
  shows "rep_inv look rnd w'"
proof -
  have moved: "rep_inv look rnd (w\<lparr>rw_remote := r'\<rparr>)"
    if "exec_all exec (take n (b_statements b)) (rw_remote w) = Some r'" for n r'
  proof -
    have "covered look rnd (rw_local w) (ss_acked (rw_sync w)) r'"
      by (rule local_writes_covered [OF l acked covered_after_prefix [OF laws l(1) b c that]])
    then show ?thesis using inv by (simp add: rep_inv_def Let_def)
  qed
  have acks: "rep_inv look rnd (ack now (b_hi b) post u w1)"
    if "exec_all exec (b_statements b) (rw_remote w) = Some r'" and "rw_local w1 = rw_local w" "rw_remote w1 = r'"
      "rw_sync w1 = rw_sync w" for r' now post u and w1 :: "'a world"
  proof (rule rep_inv_ack)
    note rows = batch_rows [OF l(1) b]
    have hi: "b_hi b < ls_next l" using rows by simp
    show "outbox_ok (rw_local w1)" using inv that(2) by (simp add: rep_inv_def Let_def)
    show "covered look rnd (rw_local w1) (b_hi b) (rw_remote w1)"
      unfolding that(2,3) by (rule local_writes_covered [OF l hi covered_after_send [OF laws l(1) b c that(1)]])
    show "b_hi b < ls_next (rw_local w1)" using hi l(2) that(2) by (simp add: local_writes_def)
    show "ss_consumed (rw_sync w1) \<le> b_hi b" using rep_inv_consumed [OF inv] rows that(4) by simp
  qed
  show ?thesis
  proof (cases "ci_pre io")
    case None
    then show ?thesis using s inv by (simp add: send_batch_def)
  next
    case (Some pre)
    show ?thesis
    proof (cases "foreign_writer (rp_relaxed (rw_rep w)) expected pre")
      case True
      then show ?thesis using s Some rep_inv_halt [OF inv] by (auto simp: send_batch_def)
    next
      case go: False
      show ?thesis
      proof (cases "execute_batch exec (b_statements b) (ci_send io) (rw_remote w)")
        case None
        then show ?thesis using s Some go inv by (auto simp: send_batch_def)
      next
        case ran: (Some rok)
        obtain r' ok where rok: "rok = (r', ok)" by fastforce
        show ?thesis using execute_batch_cases [OF ran [unfolded rok]]
        proof cases
          case 1
          then have keep: "rep_inv look rnd (w\<lparr>rw_remote := r'\<rparr>)" using moved [of "length (b_statements b)" r'] by simp
          from 1 obtain post where "ci_send io = SendAll post" by blast
          then show ?thesis
            using s Some go ran rok 1(1) keep acks [OF 1(2)]
            by (cases post) (auto simp: send_batch_def Let_def)
        next
          case (2 n)
          then show ?thesis using s Some go ran rok moved [OF 2(2)]
            by (auto simp: send_batch_def Let_def split: send_result.splits option.splits)
        qed
      qed
    qed
  qed
qed

lemma rep_inv_write_cycle:
  assumes laws: "replica_laws exec look" and limit: "cf_batch_rows cfg \<le> reconcile_limit" and inv: "rep_inv look rnd w"
    and others: "local_writes (rw_local w) (ci_others io (rw_local w))"
    and s: "write_cycle exec digest cfg io w = (out, w', ev)"
  shows "rep_inv look rnd w'"
proof -
  obtain mb out1 w1 where nb: "next_batch digest cfg (ss_acked (rw_sync w)) w = (mb, out1, w1)" by (metis prod_cases3)
  note inv1 = rep_inv_next_batch [OF inv nb] and same = next_batch_world [OF nb]
  show ?thesis
  proof (cases mb)
    case None
    then show ?thesis using s nb inv1 by (simp add: write_cycle_def)
  next
    case b: (Some b)
    show ?thesis
    proof (cases "ss_epoch_expected (rw_sync w1)")
      case None
      then show ?thesis using s nb b rep_inv_halt [OF inv1] by (auto simp: write_cycle_def)
    next
      case (Some expected)
      let ?m = "\<lparr>mk_id = ci_uuid io, mk_lo = b_lo b, mk_hi = b_hi b, mk_epoch_before = expected\<rparr>"
      let ?w2 = "set_marker ?m w1" let ?w3 = "others_write io ?w2"
      have rb: "read_batch (rw_local w1) (ss_acked (rw_sync w1)) (cf_batch_rows cfg) None = Some (Some b)" using same b by simp
      have inv2: "rep_inv look rnd ?w2" by (rule rep_inv_set_marker [OF inv1 rb limit]) simp_all
      have lw: "local_writes (rw_local w1) (ci_others io (rw_local w1))" using others same by simp
      have inv3: "rep_inv look rnd ?w3"
        unfolding others_write_def by (rule rep_inv_local [OF inv2]) (simp add: lw)
      obtain out3 w3 ev3 where send: "send_batch exec io b expected ?w3 = (out3, w3, ev3)" by (metis prod_cases3)
      have "rep_inv look rnd w3"
        by (rule rep_inv_send [OF laws inv3 _ _ _ _ _ send, of "rw_local w1" "cf_batch_rows cfg"])
          (use inv1 lw rb in \<open>simp_all add: rep_inv_def Let_def\<close>)
      then show ?thesis using s nb b Some send by (simp add: write_cycle_def Let_def)
    qed
  qed
qed

lemma read_back_True:
  "read_back look rnd r reads ks = Some True \<Longrightarrow> k \<in> set ks \<Longrightarrow> same_row rnd (k_row k) (look r (k_tbl k) (k_pk k))"
  by (induction look rnd r reads ks rule: read_back.induct) (auto split: if_splits)

lemma reconcile_covered:
  assumes inv: "rep_inv look rnd w" and m: "ss_inflight (rw_sync w) = Some m"
    and rb: "read_batch (rw_local w) (mk_lo m - 1) reconcile_limit (Some (mk_hi m)) = Some b"
    and eq: "read_back look rnd (rw_remote w) reads (case b of None \<Rightarrow> [] | Some b \<Rightarrow> b_keys b) = Some True"
  shows "covered look rnd (rw_local w) (mk_hi m) (rw_remote w)"
  unfolding covered_def
proof (intro allI impI)
  fix t pk assume rep: "replicated t pk"
  let ?l = "rw_local w" let ?rows = "outbox_rows ?l (mk_lo m - 1) reconcile_limit (Some (mk_hi m))"
  have mok: "marker_ok ?l (ss_acked (rw_sync w)) m" and ok: "store_ok ?l"
    using inv m by (simp_all add: rep_inv_def Let_def outbox_ok_def)
  have rows: "set ?rows = {x \<in> set (ls_outbox ?l). mk_lo m - 1 < ob_seq x \<and> ob_seq x \<le> mk_hi m}"
    by (rule outbox_rows_all) (use mok in \<open>simp add: marker_ok_def\<close>)
  show "same_row rnd (local_row ?l t pk) (look (rw_remote w) t pk) \<or> pending ?l (mk_hi m) t pk"
  proof (cases "pending ?l (ss_acked (rw_sync w)) t pk \<and> \<not> pending ?l (mk_hi m) t pk")
    case False
    with inv rep show ?thesis by (auto simp: rep_inv_def Let_def covered_def)
  next
    case True
    then obtain x where x: "x \<in> set (ls_outbox ?l)" "ob_tbl x = t" "ob_pk x = pk" "ss_acked (rw_sync w) < ob_seq x" "ob_seq x \<le> mk_hi m"
      by (auto simp: pending_def not_less)
    with mok have "mk_lo m \<le> ob_seq x" unfolding marker_ok_def by blast
    with x rows have xin: "x \<in> set ?rows" by simp
    then have "?rows \<noteq> []" by auto
    then obtain bb where bb: "b = Some bb" using rb by (cases b) (auto simp: read_batch_def Let_def split: if_splits bind_splits)
    have "(t, pk) \<in> batch_ids bb" using row_in_batch [OF ok rb [unfolded bb] xin] x by simp
    then obtain k where "k \<in> set (b_keys bb)" "k_tbl k = t" "k_pk k = pk" "k_row k = local_row ?l t pk"
      using batch_key_local [OF ok rb [unfolded bb]] by blast
    then show ?thesis using read_back_True [OF eq, of k] bb by auto
  qed
qed

lemma rep_inv_reconcile:
  assumes inv: "rep_inv look rnd w" and m: "ss_inflight (rw_sync w) = Some m" and s: "reconcile look rnd io m w = (out, w', ev)"
  shows "rep_inv look rnd w'"
proof -
  let ?rb = "read_batch (rw_local w) (mk_lo m - 1) reconcile_limit (Some (mk_hi m))"
  have mok: "marker_ok (rw_local w) (ss_acked (rw_sync w)) m" using inv m by (simp add: rep_inv_def Let_def)
  have clear: "rep_inv look rnd (clear_marker (w\<lparr>rw_rep := (rw_rep w)\<lparr>rp_relaxed := x\<rparr>\<rparr>))" for x
    using inv by (simp add: rep_inv_def Let_def clear_marker_def)
  show ?thesis
  proof (cases ?rb)
    case None
    then show ?thesis using s inv by (simp add: reconcile_def)
  next
    case (Some b)
    let ?verdict = "read_back look rnd (rw_remote w) (ci_reads io) (case b of None \<Rightarrow> [] | Some b \<Rightarrow> b_keys b)"
    consider "?verdict = None" | "?verdict = Some False" | "?verdict = Some True" by (cases ?verdict) auto
    then show ?thesis
    proof cases
      case 1
      then show ?thesis using s Some inv by (simp add: reconcile_def)
    next
      case 2
      then show ?thesis using s Some clear by (auto simp: reconcile_def)
    next
      case 3
      have "rep_inv look rnd (ack (ci_now io) (mk_hi m) post True w)" for post
        by (rule rep_inv_ack [OF _ reconcile_covered [OF inv m Some 3]])
          (use inv mok in \<open>simp_all add: rep_inv_def Let_def marker_ok_def\<close>)
      then show ?thesis using s Some 3 inv by (cases "ci_post_epoch io") (auto simp: reconcile_def)
    qed
  qed
qed

lemma rep_inv_log_cycle:
  assumes inv: "rep_inv look rnd w" and s: "log_cycle digest cfg w = (out, w', ev)"
  shows "rep_inv look rnd w'"
proof -
  obtain mb out1 w1 where nb: "next_batch digest cfg (ss_log_cursor (rw_sync w)) w = (mb, out1, w1)" by (metis prod_cases3)
  note inv1 = rep_inv_next_batch [OF inv nb]
  have "rep_inv look rnd (log_advance hi (log_append digest b w1))" for hi b
    by (rule rep_inv_frame [OF inv1]) (simp_all add: log_advance_def log_append_def rep_inv_consumed [OF inv1])
  then show ?thesis using s nb inv1 by (auto simp: log_cycle_def split: option.splits)
qed

lemma probe_write_world:
  assumes "probe_write io w = (refused, w', ev)"
  shows "rw_local w' = rw_local w \<and> rw_remote w' = rw_remote w \<and> ss_acked (rw_sync w') = ss_acked (rw_sync w) \<and>
    ss_consumed (rw_sync w') = ss_consumed (rw_sync w) \<and> ss_inflight (rw_sync w') = ss_inflight (rw_sync w) \<and>
    rp_marker (rw_rep w') = rp_marker (rw_rep w) \<and> rp_relaxed (rw_rep w') = rp_relaxed (rw_rep w) \<and>
    ss_epoch_expected (rw_sync w') = ss_epoch_expected (rw_sync w) \<and>
    (\<forall>e \<in> set ev. e \<in> {EvEnter, EvProbe (the write_probe_statements), EvLeave})"
  using assms by (auto simp: probe_write_def Let_def split: probe_result.splits)

lemma rep_inv_run_once:
  assumes laws: "replica_laws exec look" and limit: "cf_batch_rows cfg \<le> reconcile_limit" and inv: "rep_inv look rnd w"
    and others: "local_writes (rw_local w) (ci_others io (rw_local w))"
    and s: "run_once exec look rnd digest cfg io w = (out, w', ev)"
  shows "rep_inv look rnd w'"
proof (cases "ss_halted (rw_sync w) \<noteq> None \<or> ss_uri (rw_sync w) \<noteq> cf_uri cfg")
  case True
  then show ?thesis using s inv rep_inv_halt [OF inv] by (auto simp: run_once_def Let_def split: if_splits)
next
  case go: False
  show ?thesis
  proof (cases "cf_mode cfg")
    case LogMode
    then show ?thesis using s go rep_inv_log_cycle [OF inv] by (simp add: run_once_def Let_def)
  next
    case wm: WriteMode
    show ?thesis
    proof (cases "ss_inflight (rw_sync w)")
      case (Some m)
      then show ?thesis using s go wm rep_inv_reconcile [OF inv Some] by (simp add: run_once_def Let_def)
    next
      case none: None
      let ?probe = "\<not> rp_probed (rw_rep w) \<and> rp_next_probe (rw_rep w) \<le> ci_now io"
      obtain refused w1 ev1 where p: "(if ?probe then probe_write io w else (False, w, [])) = (refused, w1, ev1)"
        by (metis prod_cases3)
      have w1: "rep_inv look rnd w1 \<and> rw_local w1 = rw_local w"
      proof (cases ?probe)
        case True
        with p have pw: "probe_write io w = (refused, w1, ev1)" by simp
        note same = probe_write_world [OF pw]
        show ?thesis using rep_inv_frame [OF inv] same rep_inv_consumed [OF inv] by simp
      qed (use p inv in auto)
      obtain out2 w2 ev2 where wc: "write_cycle exec digest cfg io w1 = (out2, w2, ev2)" by (metis prod_cases3)
      have "rep_inv look rnd w2" by (rule rep_inv_write_cycle [OF laws limit _ _ wc]) (use w1 others in simp_all)
      then show ?thesis using s go wm none p wc w1 by (auto simp: run_once_def Let_def split: if_splits)
    qed
  qed
qed

section \<open>Histories\<close>

text \<open>
  The world of one store: cycles (with any answers of the outside and any local writes in between),
  local writes, process deaths, and the operator's actions.
\<close>

inductive rep_step :: "'r exec_fn \<Rightarrow> 'r look_fn \<Rightarrow> (rat \<Rightarrow> rat) \<Rightarrow> (int \<times> int \<times> (string \<times> sval list) set \<Rightarrow> string) \<Rightarrow>
    cfg \<Rightarrow> 'r world \<Rightarrow> 'r world \<Rightarrow> bool" for exec look rnd digest cfg where
  cycle: "run_once exec look rnd digest cfg io w = (out, w', ev) \<Longrightarrow> local_writes (rw_local w) (ci_others io (rw_local w)) \<Longrightarrow>
     rep_step exec look rnd digest cfg w w'"
| local_write: "local_writes (rw_local w) l' \<Longrightarrow> rep_step exec look rnd digest cfg w (w\<lparr>rw_local := l'\<rparr>)"
| crash: "rep_step exec look rnd digest cfg w (restart w)"
| resume: "resume epoch allow (rw_sync w) = Some s' \<Longrightarrow> rep_step exec look rnd digest cfg w (w\<lparr>rw_sync := s'\<rparr>)"
| begin_cmp: "rep_step exec look rnd digest cfg w (w\<lparr>rw_sync := begin_compare run now (rw_sync w)\<rparr>)"
| abort_cmp: "rep_step exec look rnd digest cfg w (w\<lparr>rw_sync := abort_compare run (rw_sync w)\<rparr>)"
| record_cmp: "record_compare report now (rw_sync w) = Some s' \<Longrightarrow> rep_step exec look rnd digest cfg w (w\<lparr>rw_sync := s'\<rparr>)"

text \<open>A store as the seed leaves it: nothing acknowledged, no marker, and the replica covered by the outbox.\<close>

definition installed :: "'r look_fn \<Rightarrow> (rat \<Rightarrow> rat) \<Rightarrow> 'r world \<Rightarrow> bool" where
  "installed look rnd w \<longleftrightarrow> outbox_ok (rw_local w) \<and> ss_acked (rw_sync w) = 0 \<and> ss_consumed (rw_sync w) = 0 \<and>
     0 < ls_next (rw_local w) \<and> ss_inflight (rw_sync w) = None \<and> rp_marker (rw_rep w) = None \<and>
     covered look rnd (rw_local w) 0 (rw_remote w)"

inductive rep_reachable :: "'r exec_fn \<Rightarrow> 'r look_fn \<Rightarrow> (rat \<Rightarrow> rat) \<Rightarrow> (int \<times> int \<times> (string \<times> sval list) set \<Rightarrow> string) \<Rightarrow>
    cfg \<Rightarrow> 'r world \<Rightarrow> bool" for exec look rnd digest cfg where
  start: "installed look rnd w \<Longrightarrow> rep_reachable exec look rnd digest cfg w"
| step: "rep_reachable exec look rnd digest cfg w \<Longrightarrow> rep_step exec look rnd digest cfg w w' \<Longrightarrow>
     rep_reachable exec look rnd digest cfg w'"

lemma resume_keeps:
  "resume epoch allow s = Some s' \<Longrightarrow> ss_acked s' = ss_acked s \<and> ss_consumed s' = ss_consumed s \<and> ss_inflight s' = ss_inflight s"
  by (auto simp: resume_def split: option.splits halt_reason.splits if_splits)

lemma record_compare_keeps:
  "record_compare rep now s = Some s' \<Longrightarrow> ss_acked s' = ss_acked s \<and> ss_inflight s' = ss_inflight s \<and>
     ss_consumed s \<le> ss_consumed s' \<and> (ss_consumed s \<le> ss_acked s \<longrightarrow> ss_consumed s' \<le> ss_acked s)"
  by (auto simp: record_compare_def Let_def split: option.splits if_splits)

lemma rep_inv_step:
  assumes laws: "replica_laws exec look" and limit: "cf_batch_rows cfg \<le> reconcile_limit" and inv: "rep_inv look rnd w"
    and s: "rep_step exec look rnd digest cfg w w'"
  shows "rep_inv look rnd w'"
  using s
proof cases
  case (cycle io out ev)
  then show ?thesis using rep_inv_run_once [OF laws limit inv] by blast
next
  case (local_write l')
  then show ?thesis using rep_inv_local [OF inv] by simp
next
  case crash
  then show ?thesis using inv by (simp add: rep_inv_def Let_def restart_def)
next
  case (resume epoch allow s')
  show ?thesis unfolding resume(1)
    by (rule rep_inv_frame [OF inv]) (simp_all add: resume_keeps [OF resume(2)] rep_inv_consumed [OF inv])
next
  case (begin_cmp run now)
  show ?thesis unfolding begin_cmp
    by (rule rep_inv_frame [OF inv]) (simp_all add: begin_compare_def rep_inv_consumed [OF inv])
next
  case (abort_cmp run)
  show ?thesis unfolding abort_cmp
    by (rule rep_inv_frame [OF inv]) (simp_all add: abort_compare_def rep_inv_consumed [OF inv])
next
  case (record_cmp report now s')
  show ?thesis unfolding record_cmp(1)
    by (rule rep_inv_frame [OF inv])
      (simp_all add: record_compare_keeps [OF record_cmp(2)] rep_inv_consumed [OF inv])
qed

lemma reachable_inv:
  assumes "replica_laws exec look" and "cf_batch_rows cfg \<le> reconcile_limit" and "rep_reachable exec look rnd digest cfg w"
  shows "rep_inv look rnd w"
  using assms(3)
proof induction
  case (start w)
  then show ?case by (simp add: installed_def rep_inv_def Let_def)
next
  case (step w w')
  then show ?case using rep_inv_step [OF assms(1,2)] by blast
qed

section \<open>Properties\<close>


lemma read_batch_idle:
  "read_batch l cursor limit None = Some None \<Longrightarrow> 0 < limit \<Longrightarrow> x \<in> set (ls_outbox l) \<Longrightarrow> ob_seq x \<le> cursor"
proof (rule ccontr)
  assume r: "read_batch l cursor limit None = Some None" and l: "0 < limit" and x: "x \<in> set (ls_outbox l)" "\<not> ob_seq x \<le> cursor"
  have "outbox_rows l cursor limit None = []" using r by (auto simp: read_batch_def Let_def split: if_splits bind_splits)
  with l have "sort_key ob_seq (filter (\<lambda>r. cursor < ob_seq r) (ls_outbox l)) = []" by (simp add: outbox_rows_def)
  then have "filter (\<lambda>r. cursor < ob_seq r) (ls_outbox l) = []" by (metis set_empty2 set_sort set_empty)
  with x show False by (auto simp: filter_empty_conv)
qed

lemma send_batch_out: "send_batch exec io b expected w = (out, w', ev) \<Longrightarrow> out \<in> {Raised, Halted, Sent}"
  by (auto simp: send_batch_def Let_def split: option.splits if_splits prod.splits send_result.splits bool.splits)

lemma next_batch_out:
  "next_batch digest cfg cursor w = (None, out, w') \<Longrightarrow> out = Idle \<Longrightarrow>
     read_batch (rw_local w) cursor (cf_batch_rows cfg) None = Some None \<and> w' = w"
  by (auto simp: next_batch_def split: option.splits if_splits)

lemma write_cycle_idle:
  assumes "write_cycle exec digest cfg io w = (Idle, w', ev)"
  shows "read_batch (rw_local w) (ss_acked (rw_sync w)) (cf_batch_rows cfg) None = Some None \<and> w' = w"
proof -
  obtain mb out1 w1 where nb: "next_batch digest cfg (ss_acked (rw_sync w)) w = (mb, out1, w1)" by (metis prod_cases3)
  have "mb = None"
    using assms nb by (auto simp: write_cycle_def Let_def split: option.splits prod.splits dest!: send_batch_out)
  with assms nb next_batch_out [of digest cfg _ w out1 w1] show ?thesis by (auto simp: write_cycle_def)
qed


lemma send_batch_sent:
  assumes "send_batch exec io b expected w = (out, w', ev)" and "EvSend sts \<in> set ev"
  shows "\<exists>pre. ci_pre io = Some pre \<and> \<not> foreign_writer (rp_relaxed (rw_rep w)) expected pre \<and> sts = with_epoch (b_statements b) \<and>
    ev = [EvEpoch pre, EvSend sts] @ (if out = Sent then [EvAck (b_hi b)] else []) \<and>
    (if out = Sent then ss_acked (rw_sync w') = b_hi b \<and> ss_inflight (rw_sync w') = None
     else out = Raised \<and> rw_sync w' = rw_sync w)"
  using assms
  by (auto simp: send_batch_def Let_def ack_def split: option.splits if_splits prod.splits send_result.splits bool.splits)

lemma next_batch_guard:
  "next_batch digest cfg cursor w = (Some b, out, w') \<Longrightarrow> cf_mode cfg = WriteMode \<Longrightarrow>
     read_batch (rw_local w) cursor (cf_batch_rows cfg) None = Some (Some b) \<and> w' = w \<and>
     (delete_guard_detail (rw_local w) b = None \<or> ss_allow (rw_sync w) = Some (attempt_id digest b))"
  by (auto simp: next_batch_def split: option.splits if_splits)


text \<open>a marker is settled only by reading the replica back: with a marker set, a cycle sends nothing,
  and it acknowledges the marker's range only when every key of the range has its local row on the
  replica, or clears the marker to send again when one differs.\<close>

theorem marker_settled_by_read_back:
  assumes "run_once exec look rnd digest cfg io w = (out, w', ev)" and "cf_mode cfg = WriteMode"
    and "ss_inflight (rw_sync w) = Some m"
  shows "rw_remote w' = rw_remote w \<and> list_all (\<lambda>e. \<forall>sts. e \<noteq> EvSend sts) ev \<and>
    (ss_acked (rw_sync w') \<noteq> ss_acked (rw_sync w) \<longrightarrow> out = ReconciledAcked) \<and>
    (out = ReconciledAcked \<longrightarrow> ss_acked (rw_sync w') = mk_hi m \<and> ss_inflight (rw_sync w') = None \<and>
       (\<forall>b. read_batch (rw_local w) (mk_lo m - 1) reconcile_limit (Some (mk_hi m)) = Some (Some b) \<longrightarrow>
          (\<forall>k \<in> set (b_keys b). same_row rnd (k_row k) (look (rw_remote w) (k_tbl k) (k_pk k))))) \<and>
    (out = ReconciledResend \<longrightarrow> ss_inflight (rw_sync w') = None \<and> rp_relaxed (rw_rep w') = Some (mk_epoch_before m) \<and>
       (\<exists>b. read_batch (rw_local w) (mk_lo m - 1) reconcile_limit (Some (mk_hi m)) = Some (Some b) \<and>
          (\<exists>k \<in> set (b_keys b). \<not> same_row rnd (k_row k) (look (rw_remote w) (k_tbl k) (k_pk k)))))"
proof (cases "ss_halted (rw_sync w) \<noteq> None \<or> ss_uri (rw_sync w) \<noteq> cf_uri cfg")
  case True
  then show ?thesis using assms(1) by (auto simp: run_once_def Let_def halt_with_def split: if_splits)
next
  case False
  then have r: "reconcile look rnd io m w = (out, w', ev)" using assms by (simp add: run_once_def Let_def)
  have diff: "\<exists>k \<in> set ks. \<not> same_row rnd (k_row k) (look r (k_tbl k) (k_pk k))" if "read_back look rnd r reads ks = Some False" for r reads ks
    using that by (induction look rnd r reads ks rule: read_back.induct) (auto split: if_splits)
  show ?thesis
    using r by (auto simp: reconcile_def ack_def clear_marker_def Let_def
        split: option.splits bool.splits dest: read_back_True diff)
qed

text \<open>How a cycle can change the outbox: not at all, by the rows others append, or by one ack.\<close>

definition kept_or_acked :: "rat \<Rightarrow> 'r world \<Rightarrow> 'r world \<Rightarrow> bool" where
  "kept_or_acked now w w' \<longleftrightarrow> set (ls_outbox (rw_local w)) \<subseteq> set (ls_outbox (rw_local w')) \<or>
     (\<exists>hi post u w1. w' = ack now hi post u w1 \<and> ss_consumed (rw_sync w1) = ss_consumed (rw_sync w) \<and>
        ss_compare_runs (rw_sync w1) = ss_compare_runs (rw_sync w) \<and> set (ls_outbox (rw_local w)) \<subseteq> set (ls_outbox (rw_local w1)))"

lemma kept_or_acked_ack:
  "ss_consumed (rw_sync w1) = ss_consumed (rw_sync w) \<Longrightarrow> ss_compare_runs (rw_sync w1) = ss_compare_runs (rw_sync w) \<Longrightarrow>
     set (ls_outbox (rw_local w)) \<subseteq> set (ls_outbox (rw_local w1)) \<Longrightarrow> kept_or_acked now w (ack now hi post u w1)"
  by (auto simp: kept_or_acked_def)

lemma kept_or_acked_same: "set (ls_outbox (rw_local w)) \<subseteq> set (ls_outbox (rw_local w')) \<Longrightarrow> kept_or_acked now w w'"
  by (simp add: kept_or_acked_def)

lemma kept_or_acked_trans:
  "set (ls_outbox (rw_local w)) \<subseteq> set (ls_outbox (rw_local w1)) \<Longrightarrow> ss_consumed (rw_sync w1) = ss_consumed (rw_sync w) \<Longrightarrow>
     ss_compare_runs (rw_sync w1) = ss_compare_runs (rw_sync w) \<Longrightarrow> kept_or_acked now w1 w2 \<Longrightarrow> kept_or_acked now w w2"
  unfolding kept_or_acked_def by (metis subset_trans)

lemma send_batch_outbox: "send_batch exec io b expected w = (out, w', ev) \<Longrightarrow> kept_or_acked (ci_now io) w w'"
  by (auto simp: send_batch_def Let_def halt_with_def kept_or_acked_ack kept_or_acked_same
      split: option.splits if_splits prod.splits send_result.splits bool.splits)

lemma next_batch_runs:
  "next_batch digest cfg cursor w = (b, out, w') \<Longrightarrow> ss_compare_runs (rw_sync w') = ss_compare_runs (rw_sync w)"
  by (auto simp: next_batch_def halt_with_def would_halt_def Let_def split: option.splits if_splits)

lemma write_cycle_outbox:
  assumes wc: "write_cycle exec digest cfg io w = (out, w', ev)" and others: "\<forall>l. set (ls_outbox l) \<subseteq> set (ls_outbox (ci_others io l))"
  shows "kept_or_acked (ci_now io) w w'"
proof -
  obtain mb out1 w1 where nb: "next_batch digest cfg (ss_acked (rw_sync w)) w = (mb, out1, w1)" by (metis prod_cases3)
  note same = next_batch_world [OF nb] next_batch_runs [OF nb]
  show ?thesis
  proof (cases "mb = None \<or> ss_epoch_expected (rw_sync w1) = None")
    case True
    then have "rw_local w' = rw_local w"
      using wc nb same by (auto simp: write_cycle_def halt_with_def split: option.splits)
    then show ?thesis by (simp add: kept_or_acked_same)
  next
    case False
    then obtain b expected where b: "mb = Some b" "ss_epoch_expected (rw_sync w1) = Some expected" by auto
    let ?m = "\<lparr>mk_id = ci_uuid io, mk_lo = b_lo b, mk_hi = b_hi b, mk_epoch_before = expected\<rparr>"
    let ?w = "others_write io (set_marker ?m w1)"
    obtain out4 ev4 where sb: "send_batch exec io b expected ?w = (out4, w', ev4)"
      using wc nb b by (auto simp: write_cycle_def Let_def split: prod.splits)
    show ?thesis
      by (rule kept_or_acked_trans [OF _ _ _ send_batch_outbox [OF sb]]) (use others same in \<open>simp_all add: set_marker_def\<close>)
  qed
qed

lemma run_once_outbox:
  assumes s: "run_once exec look rnd digest cfg io w = (out, w', ev)" and mode: "cf_mode cfg = WriteMode"
    and others: "\<forall>l. set (ls_outbox l) \<subseteq> set (ls_outbox (ci_others io l))"
  shows "kept_or_acked (ci_now io) w w'"
proof (cases "ss_halted (rw_sync w) \<noteq> None \<or> ss_uri (rw_sync w) \<noteq> cf_uri cfg")
  case True
  then have "rw_local w' = rw_local w" using s by (auto simp: run_once_def Let_def halt_with_def split: if_splits)
  then show ?thesis by (simp add: kept_or_acked_same)
next
  case go: False
  show ?thesis
  proof (cases "ss_inflight (rw_sync w)")
    case (Some m)
    then have "reconcile look rnd io m w = (out, w', ev)" using s go mode by (simp add: run_once_def Let_def)
    then show ?thesis
      by (auto simp: reconcile_def clear_marker_def kept_or_acked_ack kept_or_acked_same split: option.splits bool.splits)
  next
    case none: None
    let ?probe = "\<not> rp_probed (rw_rep w) \<and> rp_next_probe (rw_rep w) \<le> ci_now io"
    obtain refused w1 ev1 where p: "(if ?probe then probe_write io w else (False, w, [])) = (refused, w1, ev1)" by (metis prod_cases3)
    have same: "rw_local w1 = rw_local w" "ss_consumed (rw_sync w1) = ss_consumed (rw_sync w)"
      "ss_compare_runs (rw_sync w1) = ss_compare_runs (rw_sync w)"
      using p by (auto simp: probe_write_def Let_def split: if_splits probe_result.splits)
    obtain out2 w2 ev2 where wc: "write_cycle exec digest cfg io w1 = (out2, w2, ev2)" by (metis prod_cases3)
    have "w' = w1 \<or> w' = w2" using s go none mode p wc by (auto simp: run_once_def Let_def split: if_splits)
    then show ?thesis
      using kept_or_acked_trans [OF _ _ _ write_cycle_outbox [OF wc others], of w] same kept_or_acked_same [of w w1] by auto
  qed
qed

text \<open>pruning keeps what is still needed: a cycle removes an outbox row only when the row is
  acknowledged after it and was consumed by a clean compare, is more than a day old, and is older than
  every compare still running.\<close>

theorem prune_keeps_needed:
  assumes "run_once exec look rnd digest cfg io w = (out, w', ev)" and "cf_mode cfg = WriteMode"
    and "\<forall>l. set (ls_outbox l) \<subseteq> set (ls_outbox (ci_others io l))"
    and "x \<in> set (ls_outbox (rw_local w))" and "x \<notin> set (ls_outbox (rw_local w'))"
  shows "ob_seq x \<le> ss_acked (rw_sync w') \<and> ob_seq x \<le> ss_consumed (rw_sync w) \<and> ob_created x < ci_now io - 1 \<and>
    (\<forall>(run, started) \<in> set (ss_compare_runs (rw_sync w)). ci_now io - compare_run_stale < started \<longrightarrow> ob_created x < started)"
proof -
  from run_once_outbox [OF assms(1-3)] assms(4,5) obtain hi post u w1 where
    a: "w' = ack (ci_now io) hi post u w1" "ss_consumed (rw_sync w1) = ss_consumed (rw_sync w)"
      "ss_compare_runs (rw_sync w1) = ss_compare_runs (rw_sync w)" "x \<in> set (ls_outbox (rw_local w1))"
    by (auto simp: kept_or_acked_def)
  then show ?thesis using assms(5) by (auto simp: ack_def Let_def prunable_def list_all_iff)
qed

lemma iter_log_append: "iter_log seen (xs @ ys) = iter_log seen xs @ iter_log (rev (map lr_id (iter_log seen xs)) @ seen) ys"
  by (induction seen xs rule: iter_log.induct) auto

lemma iter_log_seen: "lr_id ` set ys \<subseteq> set seen \<Longrightarrow> iter_log seen ys = []"
  by (induction seen ys rule: iter_log.induct) auto

lemma iter_log_ids: "lr_id ` set (iter_log seen xs) \<union> set seen = lr_id ` set xs \<union> set seen"
  by (induction seen xs rule: iter_log.induct) auto

lemma iter_log_mono: "set seen = set seen' \<Longrightarrow> iter_log seen xs = iter_log seen' xs"
  by (induction seen xs arbitrary: seen' rule: iter_log.induct) auto

text \<open>Reading the log drops exactly what was logged before: every record is kept once per sequence
  number, key and index, the first one, so a range a crash made the replicator append again (wherever it
  lands) does not change what is read.\<close>

theorem log_repeat_harmless:
  assumes "lr_id ` set again \<subseteq> lr_id ` set xs"
  shows "iter_log [] (xs @ again @ ys) = iter_log [] (xs @ ys) \<and> distinct (map lr_id (iter_log [] xs)) \<and>
    lr_id ` set (iter_log [] xs) = lr_id ` set xs"
proof -
  let ?seen = "rev (map lr_id (iter_log [] xs)) @ []"
  have ids: "set ?seen = lr_id ` set xs" using iter_log_ids [of "[]" xs] by simp
  have "iter_log ?seen (again @ ys) = iter_log ?seen ys"
    using iter_log_seen [of again ?seen] assms ids by (simp add: iter_log_append)
  moreover have "distinct (map lr_id (iter_log seen zs)) \<and> lr_id ` set (iter_log seen zs) \<inter> set seen = {}" for seen zs
    by (induction seen zs rule: iter_log.induct) auto
  ultimately show ?thesis using ids by (simp add: iter_log_append [of "[]" xs])
qed

lemma next_batch_log:
  "next_batch digest cfg cursor w = (mb, out, w') \<Longrightarrow> rw_log w' = rw_log w"
  by (auto simp: next_batch_def halt_with_def would_halt_def Let_def split: option.splits if_splits)

text \<open>Log mode only logs: a log-mode cycle sends nothing, touches neither the replica nor the local rows
  nor the marker, and when it logs, it appends one record per statement of its batch before the log cursor
  moves to the end of the batch.\<close>

theorem log_mode_only_logs:
  assumes "run_once exec look rnd digest cfg io w = (out, w', ev)" and "cf_mode cfg = LogMode"
  shows "ev = [] \<and> rw_remote w' = rw_remote w \<and> rw_local w' = rw_local w \<and>
    ss_inflight (rw_sync w') = ss_inflight (rw_sync w) \<and> ss_acked (rw_sync w') = ss_acked (rw_sync w) \<and>
    (if out = Logged then \<exists>b. read_batch (rw_local w) (ss_log_cursor (rw_sync w)) (cf_batch_rows cfg) None = Some (Some b) \<and>
       rw_log w' = rw_log w @ log_records (attempt_id digest b) b \<and> ss_log_cursor (rw_sync w') = b_hi b
     else rw_log w' = rw_log w)"
proof (cases "ss_halted (rw_sync w) \<noteq> None \<or> ss_uri (rw_sync w) \<noteq> cf_uri cfg")
  case True
  then show ?thesis using assms by (auto simp: run_once_def Let_def halt_with_def split: if_splits)
next
  case False
  then have lc: "log_cycle digest cfg w = (out, w', ev)" using assms by (simp add: run_once_def Let_def)
  obtain mb out1 w1 where nb: "next_batch digest cfg (ss_log_cursor (rw_sync w)) w = (mb, out1, w1)" by (metis prod_cases3)
  have "mb = None \<Longrightarrow> out1 \<noteq> Logged" using nb by (auto simp: next_batch_def split: option.splits if_splits)
  then show ?thesis
    using lc nb next_batch_world [OF nb] next_batch_log [OF nb]
    by (cases mb) (auto simp: log_cycle_def log_advance_def log_append_def)
qed

text \<open>a compare never consumes past the acknowledged head and never goes back: recording a report keeps
  the head, consumes nothing on a report that is not a clean barrier or nightly one, and refuses a report of
  another replica, an unknown or expired run, or a head that was not acknowledged.\<close>

theorem compare_consumes_acked_only:
  assumes "record_compare rep now s = Some s'" and "ss_consumed s \<le> ss_acked s"
  shows "ss_acked s' = ss_acked s \<and> ss_consumed s \<le> ss_consumed s' \<and> ss_consumed s' \<le> ss_acked s' \<and>
    cr_uri rep = ss_uri s \<and> (\<exists>started. map_of (ss_compare_runs s) (cr_run rep) = Some started \<and> now - started \<le> compare_max_run) \<and>
    map_of (ss_compare_runs s') (cr_run rep) = None \<and>
    (if cr_clean rep \<and> cr_mode rep \<noteq> CmpLog then \<exists>h. cr_head rep = Some h \<and> h \<le> ss_consumed s'
     else ss_consumed s' = ss_consumed s)"
  using assms by (cases "cr_mode rep") (auto simp: record_compare_def Let_def split: option.splits if_splits)

section \<open>Examples\<close>

text \<open>
  A seeded store whose memory 2 was deleted and whose memory 1 got references since.  The delete guard
  trips on so small a table, so the operator allowed the attempt.
\<close>

definition ex_remote :: mem where
  "ex_remote = [((''memories'', [VInt 1]), ex_memory), ((''memories'', [VInt 2]), [(''id'', VInt 2), (''content'', VText ''two'')])]"

definition ex_sync :: sync_state where
  "ex_sync = \<lparr>ss_halted = None, ss_uri = ''d1://a/b'', ss_acked = 0, ss_log_cursor = 0, ss_consumed = 0,
     ss_epoch_expected = Some 7, ss_inflight = None, ss_last_error = None, ss_allow = Some ''a'', ss_unverified = 0,
     ss_compare_runs = [(''r'', 9)], ss_would_halt = []\<rparr>"

definition ex_world :: "mem world" where
  "ex_world = \<lparr>rw_local = ex_local, rw_sync = ex_sync,
     rw_rep = \<lparr>rp_relaxed = None, rp_probed = True, rp_next_probe = 0, rp_marker = None\<rparr>,
     rw_remote = ex_remote, rw_log = []\<rparr>"

definition ex_cfg :: cfg where
  "ex_cfg = \<lparr>cf_mode = WriteMode, cf_uri = ''d1://a/b'', cf_batch_rows = 100\<rparr>"

definition ex_io :: "send_result \<Rightarrow> cycle_io" where
  "ex_io res = \<lparr>ci_now = 10, ci_uuid = ''u'', ci_pre = Some 7, ci_send = res, ci_probe = ProbeOk, ci_others = id,
     ci_reads = None, ci_post_epoch = Some 9\<rparr>"

abbreviation ex_run :: "cycle_io \<Rightarrow> mem world \<Rightarrow> outcome \<times> mem world \<times> event list" where
  "ex_run \<equiv> run_once mem_exec mem_look id (\<lambda>_. ''a'') ex_cfg"

text \<open>After a cycle whose send fails after one statement, after the reconciliation, and after the send that works.\<close>

definition ex_marker :: marker where
  "ex_marker = \<lparr>mk_id = ''u'', mk_lo = 1, mk_hi = 2, mk_epoch_before = 7\<rparr>"

definition ex_failed :: "mem world" where
  "ex_failed = set_marker ex_marker ex_world"

definition ex_cleared :: "mem world" where
  "ex_cleared = ex_world\<lparr>rw_rep := (rw_rep ex_world)\<lparr>rp_relaxed := Some 7\<rparr>\<rparr>"

definition ex_sent :: "mem world" where
  "ex_sent = ex_world\<lparr>rw_sync := ex_sync\<lparr>ss_acked := 2, ss_epoch_expected := Some 8, ss_allow := None\<rparr>,
     rw_remote := [((''memories'', [VInt 1]), ex_memory), ((''memories_crossrefs'', [VInt 1]), ex_refs_row)]\<rparr>"

lemma local_writes_refl: "store_ok l \<Longrightarrow> local_writes l l"
  by (simp add: local_writes_def)

lemma ex_installed: "installed mem_look id ex_world"
proof -
  have t: "map_of (ls_table ex_local t) k = None" if "(t, k) \<noteq> (''memories'', [VInt 1])" "(t, k) \<noteq> (''memories_crossrefs'', [VInt 1])" for t k
    using that by (auto simp: ls_table_def ex_local_def)
  have "covered mem_look id ex_local 0 ex_remote"
    unfolding covered_def
  proof (intro allI impI)
    fix t k
    consider "(t, k) = (''memories'', [VInt 1])" | "(t, k) = (''memories'', [VInt 2])" | "(t, k) = (''memories_crossrefs'', [VInt 1])"
      | "(t, k) \<notin> {(''memories'', [VInt 1]), (''memories'', [VInt 2]), (''memories_crossrefs'', [VInt 1])}" by blast
    then show "same_row id (local_row ex_local t k) (mem_look ex_remote t k) \<or> pending ex_local 0 t k"
    proof cases
      case 1
      have "same_row id (local_row ex_local ''memories'' [VInt 1]) (mem_look ex_remote ''memories'' [VInt 1])" by code_simp
      with 1 show ?thesis by simp
    next
      case 4
      then have "local_row ex_local t k = None" using t by (auto simp: local_row_def)
      moreover have "mem_look ex_remote t k = None" using 4 by (auto simp: ex_remote_def mem_look_def)
      ultimately show ?thesis by (simp add: same_row_def)
    qed (simp_all add: pending_def ex_local_def)
  qed
  moreover have "outbox_ok ex_local" using ex_local_ok by (simp add: outbox_ok_def ex_local_def)
  ultimately show ?thesis by (simp add: installed_def ex_world_def ex_sync_def ex_local_def)
qed

text \<open>The pieces of the cycles, evaluated one at a time.\<close>

lemma ex_pieces:
  "delete_guard_detail ex_local ex_batch = Some \<lparr>gd_tbl = ''memories'', gd_deletes = 1, gd_total = 2\<rparr>"
  "b_lo ex_batch = 1" "b_hi ex_batch = 2"
  "execute_batch mem_exec (b_statements ex_batch) (SendFailed 1) ex_remote = Some (ex_remote, False)"
  "execute_batch mem_exec (b_statements ex_batch) (SendAll (Some 8)) ex_remote = Some (rw_remote ex_sent, True)"
  "read_back mem_look id ex_remote None (b_keys ex_batch) = Some False"
  "read_batch ex_local 2 100 None = Some None"
  by code_simp+

lemma ex_range: "read_batch ex_local 0 reconcile_limit (Some 2) = Some (Some ex_batch)"
proof -
  have "outbox_rows ex_local 0 reconcile_limit (Some 2) = outbox_rows ex_local 0 100 None"
    by (simp add: outbox_rows_def ex_local_def reconcile_limit_def)
  then have "read_batch ex_local 0 reconcile_limit (Some 2) = read_batch ex_local 0 100 None" by (simp only: read_batch_def)
  then show ?thesis by (simp add: ex_batch_read)
qed

lemma ex_next: "rw_local w = ex_local \<Longrightarrow> ss_allow (rw_sync w) = Some ''a'' \<Longrightarrow>
    next_batch (\<lambda>_. ''a'') ex_cfg 0 w = (Some ex_batch, Idle, w)"
  by (simp add: next_batch_def ex_cfg_def ex_batch_read ex_pieces attempt_id_def)

lemma ex_cycles:
  "ex_run (ex_io (SendFailed 1)) ex_world =
     (Raised, ex_failed, [EvEnter, EvMarker ''u'', EvEpoch 7, EvSend (with_epoch (b_statements ex_batch)), EvLeave])"
  "ex_run (ex_io (SendFailed 1)) ex_failed = (ReconciledResend, ex_cleared, [EvEnter, EvClear, EvLeave])"
  "ex_run (ex_io (SendAll (Some 8))) ex_cleared = (Sent, ex_sent,
     [EvEnter, EvMarker ''u'', EvEpoch 7, EvSend (with_epoch (b_statements ex_batch)), EvAck 2, EvLeave])"
  "ex_run (ex_io (SendAll (Some 8))) ex_sent = (Idle, ex_sent, [])"
proof -
  note defs = run_once_def write_cycle_def send_batch_def reconcile_def ex_io_def ex_world_def ex_sync_def ex_failed_def
    ex_cleared_def ex_marker_def set_marker_def clear_marker_def others_write_def foreign_writer_def Let_def
  have cfg: "cf_uri ex_cfg = ''d1://a/b''" "cf_mode ex_cfg = WriteMode" "cf_batch_rows ex_cfg = 100" by (simp_all add: ex_cfg_def)
  show "ex_run (ex_io (SendFailed 1)) ex_world =
     (Raised, ex_failed, [EvEnter, EvMarker ''u'', EvEpoch 7, EvSend (with_epoch (b_statements ex_batch)), EvLeave])"
    by (simp add: defs cfg ex_next ex_range ex_pieces del: One_nat_def)
  show "ex_run (ex_io (SendFailed 1)) ex_failed = (ReconciledResend, ex_cleared, [EvEnter, EvClear, EvLeave])"
    by (simp add: defs cfg ex_next ex_range ex_pieces del: One_nat_def)
  have "filter (\<lambda>r. \<not> prunable 10 s 2 r) (ls_outbox ex_local) = ls_outbox ex_local" if "ss_consumed s = 0" for s
    using that by (simp add: prunable_def ex_local_def)
  then show "ex_run (ex_io (SendAll (Some 8))) ex_cleared = (Sent, ex_sent,
     [EvEnter, EvMarker ''u'', EvEpoch 7, EvSend (with_epoch (b_statements ex_batch)), EvAck 2, EvLeave])"
    by (simp add: defs cfg ex_next ex_range ex_pieces ack_def ex_sent_def)
  show "ex_run (ex_io (SendAll (Some 8))) ex_sent = (Idle, ex_sent, [])"
    by (simp add: defs cfg ex_pieces ex_sent_def next_batch_def)
qed

lemma ex_step:
  assumes "rep_reachable mem_exec mem_look id (\<lambda>_. ''a'') ex_cfg w" and "store_ok (rw_local w)"
  shows "rep_reachable mem_exec mem_look id (\<lambda>_. ''a'') ex_cfg (fst (snd (ex_run (ex_io res) w)))"
proof (rule rep_reachable.step [OF assms(1)])
  obtain out w' ev where r: "ex_run (ex_io res) w = (out, w', ev)" by (metis prod_cases3)
  have "ci_others (ex_io res) = id" by (simp add: ex_io_def)
  then show "rep_step mem_exec mem_look id (\<lambda>_. ''a'') ex_cfg w (fst (snd (ex_run (ex_io res) w)))"
    unfolding r snd_conv fst_conv by (intro rep_step.cycle [OF r]) (simp add: local_writes_refl [OF assms(2)])
qed

lemma ex_reachable:
  "rep_reachable mem_exec mem_look id (\<lambda>_. ''a'') ex_cfg ex_failed" "rep_reachable mem_exec mem_look id (\<lambda>_. ''a'') ex_cfg ex_sent"
proof -
  have o: "rw_local ex_world = ex_local" "rw_local ex_failed = ex_local" "rw_local ex_cleared = ex_local"
    by (simp_all add: ex_world_def ex_failed_def ex_cleared_def)
  show f: "rep_reachable mem_exec mem_look id (\<lambda>_. ''a'') ex_cfg ex_failed"
    using ex_step [OF rep_reachable.start [OF ex_installed], of "SendFailed 1"] o ex_local_ok by (simp add: ex_cycles del: One_nat_def)
  have "rep_reachable mem_exec mem_look id (\<lambda>_. ''a'') ex_cfg ex_cleared"
    using ex_step [OF f, of "SendFailed 1"] o ex_local_ok by (simp add: ex_cycles del: One_nat_def)
  from ex_step [OF this, of "SendAll (Some 8)"] show "rep_reachable mem_exec mem_look id (\<lambda>_. ''a'') ex_cfg ex_sent"
    using o ex_local_ok by (simp add: ex_cycles del: One_nat_def)
qed




theorem marker_settled_by_read_back_witness:
  "ss_inflight (rw_sync ex_cleared) = None \<and> rp_relaxed (rw_rep ex_cleared) = Some 7"
proof -
  have m: "ss_inflight (rw_sync ex_failed) = Some ex_marker" by (simp add: ex_failed_def)
  have mode: "cf_mode ex_cfg = WriteMode" by (simp add: ex_cfg_def)
  show ?thesis using marker_settled_by_read_back [OF ex_cycles(2) mode m] by (simp add: ex_marker_def)
qed

text \<open>The same store once a clean compare consumed everything: the next ack prunes.\<close>

definition ex_consumed :: "mem world" where
  "ex_consumed = ex_cleared\<lparr>rw_sync := (rw_sync ex_cleared)\<lparr>ss_consumed := 2\<rparr>\<rparr>"

theorem prune_keeps_needed_witness: "ob_seq (hd (ls_outbox ex_local)) \<le> ss_consumed (rw_sync ex_consumed)"
proof -
  let ?x = "hd (ls_outbox ex_local)" let ?io = "ex_io (SendAll (Some 8))"
  obtain out w' ev where s: "ex_run ?io ex_consumed = (out, w', ev)" by (metis prod_cases3)
  have mode: "cf_mode ex_cfg = WriteMode" and uri: "cf_uri ex_cfg = ''d1://a/b''" by (simp_all add: ex_cfg_def)
  have others: "\<forall>l. set (ls_outbox l) \<subseteq> set (ls_outbox (ci_others ?io l))" by (simp add: ex_io_def)
  have x: "?x \<in> set (ls_outbox (rw_local ex_consumed))"
    by (simp add: ex_consumed_def ex_cleared_def ex_world_def ex_local_def)
  have "filter (\<lambda>r. \<not> prunable 10 s 2 r) (ls_outbox ex_local) = []" if "ss_consumed s = 2" "ss_compare_runs s = [(''r'', 9)]" for s
    using that by (simp add: prunable_def ex_local_def compare_run_stale_def)
  then have "ls_outbox (rw_local (fst (snd (ex_run ?io ex_consumed)))) = []"
    by (simp add: run_once_def write_cycle_def send_batch_def ex_io_def ex_consumed_def ex_cleared_def ex_world_def ex_sync_def
        set_marker_def others_write_def foreign_writer_def Let_def mode uri ex_next ex_pieces ack_def)
  then have gone: "?x \<notin> set (ls_outbox (rw_local w'))" using s by simp
  show ?thesis using prune_keeps_needed [OF s mode others x gone] by blast
qed

theorem log_repeat_harmless_witness:
  "iter_log [] (log_records ''a'' ex_batch @ log_records ''b'' ex_batch @ []) = iter_log [] (log_records ''a'' ex_batch @ [])"
proof -
  have "map lr_id (log_records ''b'' ex_batch) = map lr_id (log_records ''a'' ex_batch)" by code_simp
  then have "lr_id ` set (log_records ''b'' ex_batch) \<subseteq> lr_id ` set (log_records ''a'' ex_batch)" by (metis order_refl set_map)
  from log_repeat_harmless [OF this] show ?thesis by blast
qed

theorem log_mode_only_logs_witness:
  "rw_remote (fst (snd (run_once mem_exec mem_look id (\<lambda>_. ''a'') (ex_cfg\<lparr>cf_mode := LogMode\<rparr>) (ex_io (SendFailed 0)) ex_world)))
   = ex_remote"
proof -
  let ?cfg = "ex_cfg\<lparr>cf_mode := LogMode\<rparr>"
  obtain out w' ev where s: "run_once mem_exec mem_look id (\<lambda>_. ''a'') ?cfg (ex_io (SendFailed 0)) ex_world = (out, w', ev)"
    by (metis prod_cases3)
  have mode: "cf_mode ?cfg = LogMode" by simp
  show ?thesis using log_mode_only_logs [OF s mode] s by (simp add: ex_world_def)
qed

theorem compare_consumes_acked_only_witness:
  "ss_consumed (the (record_compare \<lparr>cr_uri = ''d1://a/b'', cr_run = ''r'', cr_mode = CmpBarrier, cr_clean = True, cr_head = Some 2\<rparr>
     (19 / 2) (ex_sync\<lparr>ss_acked := 3\<rparr>))) \<le> 3"
proof -
  let ?rep = "\<lparr>cr_uri = ''d1://a/b'', cr_run = ''r'', cr_mode = CmpBarrier, cr_clean = True, cr_head = Some 2\<rparr>"
  let ?s = "ex_sync\<lparr>ss_acked := 3\<rparr>"
  have "record_compare ?rep (19 / 2) ?s \<noteq> None" by code_simp
  then obtain s' where s': "record_compare ?rep (19 / 2) ?s = Some s'" by auto
  have c: "ss_consumed ?s \<le> ss_acked ?s" by (simp add: ex_sync_def)
  show ?thesis using compare_consumes_acked_only [OF s' c] s' by simp
qed

end
