(* ===== verification/Store_Compare.thy ===== *)
theory Store_Compare
  imports Replica_Cycle
begin

text \<open>
  The comparison of a local store with D1 (\<open>memora/compare.py\<close>, \<open>D1Reader.all_rows\<close> and \<open>_norm\<close> of
  \<open>memora/local_primary.py\<close>): the rows of both sides, the comparison key by key, the nightly and the barrier
  compare, the file of the last nights, and how a run ends.  The local side is one consistent snapshot; D1 is
  read page by page while the replicator goes on writing, so every page is an argument of its own.  Clocks,
  polls and Python's \<open>str\<close> (which only orders the reports) are arguments; an exception is \<^const>\<open>None\<close>.
\<close>

section \<open>The order of keys\<close>

text \<open>Numbers are ordered by value whatever their type, texts after them: the order \<open>sorted\<close> gives keys of one kind.\<close>

fun value_rank :: "sval \<Rightarrow> nat \<times> rat \<times> nat \<times> string" where
  "value_rank VNull = (0, 0, 0, [])"
| "value_rank (VInt n) = (1, of_int n, 0, [])"
| "value_rank (VReal q) = (1, q, 1, [])"
| "value_rank (VText s) = (2, 0, 0, s)"
| "value_rank (VBlob s) = (3, 0, 0, s)"

lemma value_rank_inject: "value_rank v = value_rank w \<Longrightarrow> v = w"
  by (cases v; cases w) auto

instantiation sval :: linorder
begin

definition less_eq_sval :: "sval \<Rightarrow> sval \<Rightarrow> bool" where
  "v \<le> w \<longleftrightarrow> value_rank v \<le> value_rank w"

definition less_sval :: "sval \<Rightarrow> sval \<Rightarrow> bool" where
  "v < w \<longleftrightarrow> value_rank v < value_rank w"

instance
  by standard (auto simp: less_eq_sval_def less_sval_def intro: value_rank_inject)

end

section \<open>Rows\<close>

definition whole :: "rat \<Rightarrow> bool" where
  "whole q \<longleftrightarrow> snd (quotient_of q) = 1"

definition norm_value :: "sval \<Rightarrow> sval" where
  "norm_value v = (case v of VReal q \<Rightarrow> if whole q then VInt \<lfloor>q\<rfloor> else v | _ \<Rightarrow> v)"

text \<open>\<open>row.get(c)\<close>: a missing column reads as NULL.\<close>

definition row_get :: "row \<Rightarrow> string \<Rightarrow> sval" where
  "row_get r c = (case map_of r c of None \<Rightarrow> VNull | Some v \<Rightarrow> v)"

record side =
  sd_rows :: "(string, (sval list, row) dict) dict"
  sd_columns :: "(string, string list) dict"

definition keep_row :: "string \<Rightarrow> row \<Rightarrow> bool" where
  "keep_row t r \<longleftrightarrow> \<not> (t = ''memories_meta'' \<and> row_get r ''key'' \<in> VText ` set sync_meta_excluded)"

text \<open>A tuple of values is a dictionary key; \<open>1\<close> and \<open>1.0\<close> are the same key, so the normalised values stand for it.\<close>

definition row_key :: "string \<Rightarrow> row \<Rightarrow> sval list option" where
  "row_key t r = all_some (map (\<lambda>c. map_option norm_value (map_of r c)) (the (map_of sync_tables t)))"

definition side_rows :: "string \<Rightarrow> row list \<Rightarrow> (sval list, row) dict option" where
  "side_rows t rows =
     map_option dict_of (all_some (map (\<lambda>r. map_option (\<lambda>k. (k, map (map_prod id norm_value) r)) (row_key t r))
       (filter (keep_row t) rows)))"

definition table_side :: "string \<Rightarrow> string list \<Rightarrow> row list option \<Rightarrow> (string \<times> (sval list, row) dict) option" where
  "table_side t columns rows =
     (if columns = [] then Some (t, []) else do { rs \<leftarrow> rows; d \<leftarrow> side_rows t rs; Some (t, d) })"

definition file_side :: "lstore \<Rightarrow> side option" where
  "file_side l =
     do { rows \<leftarrow> all_some (map (\<lambda>(t, _). table_side t (table_columns l t) (Some (map snd (ls_table l t)))) sync_tables);
          Some \<lparr>sd_rows = rows, sd_columns = map (\<lambda>(t, _). (t, table_columns l t)) sync_tables\<rparr> }"

text \<open>
  \<open>all_rows\<close>: one request per page.  The \<open>i\<close>th element is what the whole ordered table is when the \<open>i\<close>th
  request runs; a list that is too short is a read that did not finish.
\<close>

definition page_rows :: nat where
  "page_rows = 500"

fun read_pages :: "nat \<Rightarrow> nat \<Rightarrow> row list list \<Rightarrow> row list option" where
  "read_pages limit offset [] = None"
| "read_pages limit offset (tbl # later) =
     (let page = take limit (drop offset tbl) in
      if length page < limit then Some page
      else map_option (\<lambda>rest. page @ rest) (read_pages limit (offset + limit) later))"

record d1_reader =
  rd_tables :: "string list"
  rd_columns :: "string \<Rightarrow> string list"
  rd_pages :: "string \<Rightarrow> row list list"

definition d1_side :: "d1_reader \<Rightarrow> side option" where
  "d1_side rd =
     (let columns = (\<lambda>t. if t \<in> set (rd_tables rd) then rd_columns rd t else []) in
      do { rows \<leftarrow> all_some (map (\<lambda>(t, _).
             if t \<notin> set (rd_tables rd) then Some (t, [])
             else do { rs \<leftarrow> read_pages page_rows 0 (rd_pages rd t); d \<leftarrow> side_rows t rs; Some (t, d) }) sync_tables);
           Some \<lparr>sd_rows = rows, sd_columns = map (\<lambda>(t, _). (t, columns t)) sync_tables\<rparr> })"

section \<open>The comparison\<close>

record table_report =
  tr_local :: nat
  tr_d1 :: nat
  tr_columns_only_local :: "string list"
  tr_columns_only_d1 :: "string list"
  tr_only_local :: "sval list list"
  tr_only_d1 :: "sval list list"
  tr_changed :: "(sval list \<times> string list) list"
  tr_provenance :: "(sval list \<times> string list) list"
  tr_excluded :: nat

record body =
  bd_clean :: bool
  bd_diffs :: nat
  bd_missing_vectors :: nat
  bd_tables :: "(string, table_report) dict"

definition provenance :: "string list" where
  "provenance = [''representation'', ''dimension'', ''encoding_source'', ''writer_token'']"

definition changed_columns :: "row \<Rightarrow> row \<Rightarrow> string list" where
  "changed_columns l r = sort (filter (\<lambda>c. row_get l c \<noteq> row_get r c) (uniq (map fst l @ map fst r)))"

definition sorted_minus :: "string list \<Rightarrow> string list \<Rightarrow> string list" where
  "sorted_minus xs ys = sort (filter (\<lambda>c. c \<notin> set ys) (uniq xs))"

text \<open>The body of the loop over the keys of one table: the table's report and the missing vectors so far.\<close>

definition compare_key :: "string \<Rightarrow> (string \<times> sval list) set \<Rightarrow> (sval list, row) dict \<Rightarrow> (sval list, row) dict \<Rightarrow>
    sval list \<Rightarrow> table_report \<times> nat \<Rightarrow> table_report \<times> nat" where
  "compare_key t skip lrows orows pk st =
     (let (e, missing) = st in
      if (t, pk) \<in> skip then (e\<lparr>tr_excluded := tr_excluded e + 1\<rparr>, missing)
      else case (map_of lrows pk, map_of orows pk) of
          (lrow, None) \<Rightarrow>
            (e\<lparr>tr_only_local := tr_only_local e @ [pk]\<rparr>,
             if t = embeddings \<and> row_get (case lrow of None \<Rightarrow> [] | Some r \<Rightarrow> r) ''embedding'' \<noteq> VNull then missing + 1 else missing)
        | (None, Some _) \<Rightarrow> (e\<lparr>tr_only_d1 := tr_only_d1 e @ [pk]\<rparr>, missing)
        | (Some l, Some r) \<Rightarrow>
            let changed = changed_columns l r in
            if changed = [] then (e, missing)
            else (e\<lparr>tr_changed := tr_changed e @ [(pk, changed)],
                    tr_provenance := tr_provenance e @ (if t = embeddings \<and> set changed \<subseteq> set provenance then [(pk, changed)] else [])\<rparr>,
                  if t = embeddings \<and> row_get l ''embedding'' \<noteq> VNull \<and> row_get r ''embedding'' = VNull then missing + 1 else missing))"

definition compared_keys :: "(sval \<Rightarrow> string) \<Rightarrow> (sval list, row) dict \<Rightarrow> (sval list, row) dict \<Rightarrow> sval list list" where
  "compared_keys str lrows orows = sort_key (map str) (uniq (map fst lrows @ map fst orows))"

definition dict_get :: "'v \<Rightarrow> ('k, 'v) dict \<Rightarrow> 'k \<Rightarrow> 'v" where
  "dict_get d m k = (case map_of m k of None \<Rightarrow> d | Some v \<Rightarrow> v)"

definition empty_report :: "side \<Rightarrow> side \<Rightarrow> string \<Rightarrow> table_report" where
  "empty_report local other t =
     \<lparr>tr_local = length (dict_get [] (sd_rows local) t), tr_d1 = length (dict_get [] (sd_rows other) t),
      tr_columns_only_local = sorted_minus (dict_get [] (sd_columns local) t) (dict_get [] (sd_columns other) t),
      tr_columns_only_d1 = sorted_minus (dict_get [] (sd_columns other) t) (dict_get [] (sd_columns local) t),
      tr_only_local = [], tr_only_d1 = [], tr_changed = [], tr_provenance = [], tr_excluded = 0\<rparr>"

definition compare_table :: "(sval \<Rightarrow> string) \<Rightarrow> (string \<times> sval list) set \<Rightarrow> side \<Rightarrow> side \<Rightarrow> string \<Rightarrow> nat \<Rightarrow> table_report \<times> nat" where
  "compare_table str skip local other t missing =
     (let lrows = dict_get [] (sd_rows local) t; orows = dict_get [] (sd_rows other) t in
      fold (compare_key t skip lrows orows) (compared_keys str lrows orows) (empty_report local other t, missing))"

definition report_diffs :: "table_report \<Rightarrow> nat" where
  "report_diffs e = length (tr_columns_only_local e) + length (tr_columns_only_d1 e) +
     length (tr_only_local e) + length (tr_only_d1 e) + length (tr_changed e)"

definition add_table :: "(sval \<Rightarrow> string) \<Rightarrow> (string \<times> sval list) set \<Rightarrow> side \<Rightarrow> side \<Rightarrow> string \<Rightarrow>
    (string, table_report) dict \<times> nat \<times> nat \<Rightarrow> (string, table_report) dict \<times> nat \<times> nat" where
  "add_table str skip local other t st =
     (let (tables, diffs, missing) = st; (e, missing') = compare_table str skip local other t missing
      in (tables @ [(t, e)], diffs + report_diffs e, missing'))"

definition compare_sides :: "(sval \<Rightarrow> string) \<Rightarrow> side \<Rightarrow> side \<Rightarrow> (string \<times> sval list) list \<Rightarrow> body" where
  "compare_sides str local other exclude =
     (let skip = (\<lambda>(t, pk). (t, map norm_value pk)) ` set exclude;
          (tables, diffs, missing) = fold (add_table str skip local other) (map fst sync_tables) ([], 0, 0)
      in \<lparr>bd_clean = (diffs = 0), bd_diffs = diffs, bd_missing_vectors = missing, bd_tables = tables\<rparr>)"

section \<open>The store's sync state\<close>

text \<open>The highest outbox number ever assigned: \<open>sqlite_sequence\<close> survives pruning.\<close>

definition store_head :: "lstore \<Rightarrow> int" where
  "store_head l = max (ls_next l - 1) (fold max (map ob_seq (ls_outbox l)) 0)"

definition keys_after :: "lstore \<Rightarrow> int \<Rightarrow> (string \<times> sval list) list" where
  "keys_after l seq = map (\<lambda>r. (ob_tbl r, ob_pk r)) (filter (\<lambda>r. seq < ob_seq r) (ls_outbox l))"

text \<open>\<open>_wait\<close>: each poll is the condition's answer and the clock read after it when it was no.\<close>

fun wait_for :: "rat \<Rightarrow> (bool \<times> rat) list \<Rightarrow> bool option" where
  "wait_for deadline [] = None"
| "wait_for deadline ((ready, clock) # polls) =
     (if ready then Some True else if deadline \<le> clock then Some False else wait_for deadline polls)"

section \<open>Barrier\<close>

text \<open>
  What one barrier compare meets: the answers of the barrier's four checks, the polls of the drain (acked,
  head, clock), the store at the snapshot and the reader.
\<close>

record barrier_io =
  bi_holds :: "bool \<times> bool \<times> bool \<times> bool"
  bi_start :: rat
  bi_polls :: "(int \<times> int \<times> rat) list"
  bi_store :: lstore
  bi_acked :: int
  bi_reader :: d1_reader

record run_result =
  rr_head :: int
  rr_excluded :: "(string \<times> sval list) list"
  rr_body :: "body option"

definition barrier_compare :: "(sval \<Rightarrow> string) \<Rightarrow> rat \<Rightarrow> barrier_io \<Rightarrow> (run_result \<times> int option) option" where
  "barrier_compare str timeout io =
     (let (before, drained, snapped, done') = bi_holds io in
      if \<not> before then None
      else if wait_for (bi_start io + timeout) (map (\<lambda>(acked, head, clock). (head \<le> acked, clock)) (bi_polls io)) \<noteq> Some True
      then None
      else if \<not> drained \<or> bi_acked io < store_head (bi_store io) \<or> \<not> snapped then None
      else do { d1 \<leftarrow> d1_side (bi_reader io);
                local \<leftarrow> (if done' then file_side (bi_store io) else None);
                (let b = compare_sides str local d1 []; h = store_head (bi_store io)
                 in Some (\<lparr>rr_head = h, rr_excluded = [], rr_body = Some b\<rparr>,
                          if bd_clean b then Some h else None)) })"

section \<open>Nightly\<close>

text \<open>
  One attempt: the snapshot, the polls of the acknowledged number (acked, clock), the reader, and the live
  store when the keys written since are read, which is after D1.
\<close>

record nightly_io =
  ni_store :: lstore
  ni_start :: rat
  ni_polls :: "(int \<times> rat) list"
  ni_reader :: d1_reader
  ni_live :: lstore

definition nightly_once :: "(sval \<Rightarrow> string) \<Rightarrow> rat \<Rightarrow> nightly_io \<Rightarrow> run_result option" where
  "nightly_once str timeout io =
     (let h = store_head (ni_store io) in
      case wait_for (ni_start io + timeout) (map (\<lambda>(acked, clock). (h \<le> acked, clock)) (ni_polls io)) of
        None \<Rightarrow> None
      | Some False \<Rightarrow> Some \<lparr>rr_head = h, rr_excluded = [], rr_body = None\<rparr>
      | Some True \<Rightarrow>
          do { d1 \<leftarrow> d1_side (ni_reader io);
               local \<leftarrow> file_side (ni_store io);
               (let k = sort (uniq (keys_after (ni_live io) h))
                in Some \<lparr>rr_head = h, rr_excluded = k, rr_body = Some (compare_sides str local d1 k)\<rparr>) })"

definition clean_run :: "run_result \<Rightarrow> bool" where
  "clean_run r = (case rr_body r of None \<Rightarrow> False | Some b \<Rightarrow> bd_clean b)"

text \<open>The file of the last nights; \<^const>\<open>None\<close> is a file that is missing or does not parse.\<close>

record night_state =
  nt_night :: "string option"
  nt_keys :: "(string \<times> sval list) list"
  nt_previous :: "(string option \<times> (string \<times> sval list) list) option"

definition previous_night_keys :: "night_state option \<Rightarrow> string \<Rightarrow> (string \<times> sval list) list" where
  "previous_night_keys st night =
     (case st of
        None \<Rightarrow> []
      | Some s \<Rightarrow> if nt_night s \<noteq> Some night then nt_keys s
                  else (case nt_previous s of None \<Rightarrow> [] | Some (_, ks) \<Rightarrow> ks))"

definition save_night :: "night_state option \<Rightarrow> string \<Rightarrow> (string \<times> sval list) list \<Rightarrow> (string \<times> sval list) list \<Rightarrow> night_state" where
  "save_night st night keys previous =
     (let before = (case st of None \<Rightarrow> None | Some s \<Rightarrow> nt_night s) in
      \<lparr>nt_night = Some night, nt_keys = keys,
       nt_previous = (if before = Some night then (case st of None \<Rightarrow> None | Some s \<Rightarrow> nt_previous s) else Some (before, previous))\<rparr>)"

record night_report =
  nr_run :: run_result
  nr_attempts :: nat
  nr_hot :: "(string \<times> sval list) list"
  nr_consumed :: "int option"

definition nightly_compare :: "(sval \<Rightarrow> string) \<Rightarrow> ((string \<times> sval list) \<Rightarrow> string) \<Rightarrow> rat \<Rightarrow> string \<Rightarrow> nightly_io \<Rightarrow> nightly_io \<Rightarrow>
    night_state option \<Rightarrow> (night_report \<times> night_state option) option" where
  "nightly_compare str order timeout night first second st =
     do { one \<leftarrow> nightly_once str timeout first;
          (n, run) \<leftarrow> (if rr_body one = None \<or> clean_run one then Some (1, one)
                       else map_option (Pair 2) (nightly_once str timeout second));
          (let prev = previous_night_keys st night; keys = rr_excluded run in
           Some (\<lparr>nr_run = run, nr_attempts = n, nr_hot = sort_key order (filter (\<lambda>k. k \<in> set prev) keys),
                  nr_consumed = (if clean_run run then Some (rr_head run) else None)\<rparr>,
                 if rr_body run = None then st else Some (save_night st night keys prev))) }"

section \<open>A run and its record\<close>

text \<open>
  \<open>run_compare\<close> on the store's state when the run ends: a run that raised or was skipped, and one whose
  report is refused, take their registration back.
\<close>

definition conclude_run :: "string \<Rightarrow> string \<Rightarrow> compare_mode \<Rightarrow> run_result option \<Rightarrow> rat \<Rightarrow> sync_state \<Rightarrow> bool \<times> sync_state" where
  "conclude_run uri run mode result now s =
     (case result of
        None \<Rightarrow> (False, abort_compare run s)
      | Some r \<Rightarrow>
          if rr_body r = None then (False, abort_compare run s)
          else (case record_compare \<lparr>cr_uri = uri, cr_run = run, cr_mode = mode, cr_clean = clean_run r,
                                     cr_head = Some (rr_head r)\<rparr> now s of
                  None \<Rightarrow> (False, abort_compare run s)
                | Some s' \<Rightarrow> (True, s')))"

end
