(* ===== verification/Compare_Quiet.thy ===== *)
theory Compare_Quiet
  imports Store_Compare
begin

text \<open>
  What the comparison of a store with D1 promises: a clean report is exactly equality of everything that was not
  excluded, the replicator's own delay is never reported as a difference, and the file of the nights is
  unaffected by repeating a night.
\<close>

section \<open>One table\<close>

definition absent_on_d1 :: "string \<Rightarrow> (string \<times> sval list) set \<Rightarrow> (sval list, row) dict \<Rightarrow> sval list \<Rightarrow> bool" where
  "absent_on_d1 t skip orows pk \<longleftrightarrow> (t, pk) \<notin> skip \<and> map_of orows pk = None"

definition absent_locally :: "string \<Rightarrow> (string \<times> sval list) set \<Rightarrow> (sval list, row) dict \<Rightarrow> (sval list, row) dict \<Rightarrow> sval list \<Rightarrow> bool" where
  "absent_locally t skip lrows orows pk \<longleftrightarrow> (t, pk) \<notin> skip \<and> map_of lrows pk = None \<and> map_of orows pk \<noteq> None"

definition row_changes :: "string \<Rightarrow> (string \<times> sval list) set \<Rightarrow> (sval list, row) dict \<Rightarrow> (sval list, row) dict \<Rightarrow> sval list \<Rightarrow> string list" where
  "row_changes t skip lrows orows pk =
     (case (map_of lrows pk, map_of orows pk) of
        (Some l, Some r) \<Rightarrow> if (t, pk) \<in> skip then [] else changed_columns l r
      | _ \<Rightarrow> [])"

lemma fold_compare_key:
  fixes lrows orows :: "(sval list, row) dict"
  assumes "fold (compare_key t skip lrows orows) ks (e, n) = (e', n')"
  shows "tr_only_local e' = tr_only_local e @ filter (absent_on_d1 t skip orows) ks \<and>
    tr_only_d1 e' = tr_only_d1 e @ filter (absent_locally t skip lrows orows) ks \<and>
    tr_changed e' = tr_changed e @ map (\<lambda>pk. (pk, row_changes t skip lrows orows pk))
      (filter (\<lambda>pk. row_changes t skip lrows orows pk \<noteq> []) ks) \<and>
    tr_columns_only_local e' = tr_columns_only_local e \<and> tr_columns_only_d1 e' = tr_columns_only_d1 e"
  using assms
proof (induction ks arbitrary: e n)
  case Nil
  then show ?case by simp
next
  case (Cons pk ks)
  obtain e1 n1 where one: "compare_key t skip lrows orows pk (e, n) = (e1, n1)" by fastforce
  with Cons have ih: "fold (compare_key t skip lrows orows) ks (e1, n1) = (e', n')" by simp
  show ?case
    using Cons.IH [OF ih] one
    by (cases "map_of lrows pk"; cases "map_of orows pk")
      (auto simp: compare_key_def absent_on_d1_def absent_locally_def row_changes_def Let_def split: if_splits)
qed

abbreviation side_table :: "side \<Rightarrow> string \<Rightarrow> (sval list, row) dict" where
  "side_table s t \<equiv> dict_get [] (sd_rows s) t"

abbreviation side_columns :: "side \<Rightarrow> string \<Rightarrow> string list" where
  "side_columns s t \<equiv> dict_get [] (sd_columns s) t"

lemma set_compared_keys: "set (compared_keys str lrows orows) = fst ` set lrows \<union> fst ` set orows"
  by (simp add: compared_keys_def)

definition table_lists :: "(sval \<Rightarrow> string) \<Rightarrow> (string \<times> sval list) set \<Rightarrow> side \<Rightarrow> side \<Rightarrow> string \<Rightarrow> table_report \<Rightarrow> bool" where
  "table_lists str skip l r t e \<longleftrightarrow>
     (let ks = compared_keys str (side_table l t) (side_table r t);
          ch = row_changes t skip (side_table l t) (side_table r t) in
      tr_only_local e = filter (absent_on_d1 t skip (side_table r t)) ks \<and>
      tr_only_d1 e = filter (absent_locally t skip (side_table l t) (side_table r t)) ks \<and>
      tr_changed e = map (\<lambda>pk. (pk, ch pk)) (filter (\<lambda>pk. ch pk \<noteq> []) ks) \<and>
      tr_columns_only_local e = sorted_minus (side_columns l t) (side_columns r t) \<and>
      tr_columns_only_d1 e = sorted_minus (side_columns r t) (side_columns l t))"

lemma compare_table_lists:
  assumes "compare_table str skip l r t n = (e, n')"
  shows "table_lists str skip l r t e"
  using fold_compare_key [OF assms [unfolded compare_table_def Let_def]]
  by (simp add: table_lists_def Let_def empty_report_def)

section \<open>All tables\<close>

abbreviation skip_set :: "(string \<times> sval list) list \<Rightarrow> (string \<times> sval list) set" where
  "skip_set exclude \<equiv> (\<lambda>(t, pk). (t, map norm_value pk)) ` set exclude"

lemma fold_tables:
  assumes "fold (add_table str skip l r) ts (tables0, d0, m0) = (tables, d, m)"
  shows "\<exists>es. tables = tables0 @ zip ts es \<and> length es = length ts \<and> list_all2 (table_lists str skip l r) ts es \<and>
    d = d0 + sum_list (map report_diffs es)"
  using assms
proof (induction ts arbitrary: tables0 d0 m0)
  case Nil
  then show ?case by simp
next
  case (Cons t ts)
  obtain e m1 where one: "compare_table str skip l r t m0 = (e, m1)" by fastforce
  with Cons.prems have "fold (add_table str skip l r) ts (tables0 @ [(t, e)], d0 + report_diffs e, m1) = (tables, d, m)"
    unfolding fold_Cons comp_def by (simp only: add_table_def [of _ _ _ _ t] one Let_def case_prod_conv)
  from Cons.IH [OF this] obtain es where "tables = (tables0 @ [(t, e)]) @ zip ts es" "length es = length ts"
    "list_all2 (table_lists str skip l r) ts es" "d = d0 + report_diffs e + sum_list (map report_diffs es)" by blast
  with compare_table_lists [OF one] show ?case by (intro exI [of _ "e # es"]) simp
qed

lemma compare_sides_tables:
  "\<exists>es. bd_tables (compare_sides str l r exclude) = zip (map fst sync_tables) es \<and>
     list_all2 (table_lists str (skip_set exclude) l r) (map fst sync_tables) es \<and>
     bd_diffs (compare_sides str l r exclude) = sum_list (map report_diffs es) \<and>
     (bd_clean (compare_sides str l r exclude) \<longleftrightarrow> bd_diffs (compare_sides str l r exclude) = 0)"
proof -
  let ?res = "fold (add_table str (skip_set exclude) l r) (map fst sync_tables) ([], 0, 0)"
  obtain tables d m where f: "?res = (tables, d, m)" by (cases ?res)
  from fold_tables [OF f] obtain es where es: "tables = zip (map fst sync_tables) es"
    "list_all2 (table_lists str (skip_set exclude) l r) (map fst sync_tables) es" "d = sum_list (map report_diffs es)"
    unfolding append_Nil add_0 by blast
  have "compare_sides str l r exclude = \<lparr>bd_clean = (d = 0), bd_diffs = d, bd_missing_vectors = m, bd_tables = tables\<rparr>"
    unfolding compare_sides_def Let_def f by simp
  then show ?thesis using es by (intro exI [of _ es]) (simp only: body.simps simp_thms)
qed

lemma table_report_lists:
  assumes "map_of (bd_tables (compare_sides str l r exclude)) t = Some e"
  shows "table_lists str (skip_set exclude) l r t e"
proof -
  obtain es where es: "bd_tables (compare_sides str l r exclude) = zip (map fst sync_tables) es"
    "list_all2 (table_lists str (skip_set exclude) l r) (map fst sync_tables) es"
    using compare_sides_tables by blast
  from assms have "(t, e) \<in> set (zip (map fst sync_tables) es)" unfolding es(1) by (rule map_of_SomeD)
  then obtain i where "i < length es" "i < length sync_tables" "t = map fst sync_tables ! i" "e = es ! i"
    by (auto simp: set_zip)
  then show ?thesis using es(2) by (auto simp: list_all2_conv_all_nth)
qed

text \<open>What the report of one table says when it shows no difference.\<close>

definition rows_match :: "row option \<Rightarrow> row option \<Rightarrow> bool" where
  "rows_match l r \<longleftrightarrow>
     (case (l, r) of
        (None, None) \<Rightarrow> True
      | (Some x, Some y) \<Rightarrow> \<forall>c. row_get x c = row_get y c
      | _ \<Rightarrow> False)"

lemma changed_columns_set: "set (changed_columns l r) = {c. row_get l c \<noteq> row_get r c}"
proof -
  have "c \<in> fst ` set x" if "row_get x c \<noteq> VNull" for x c
  proof (rule ccontr)
    assume "c \<notin> fst ` set x"
    then have "map_of x c = None" by (rule map_of_eq_None_iff [THEN iffD2])
    with that show False by (simp add: row_get_def)
  qed
  note col = this
  show ?thesis
  proof (rule set_eqI)
    fix c
    show "c \<in> set (changed_columns l r) \<longleftrightarrow> c \<in> {c. row_get l c \<noteq> row_get r c}"
      using col [of l c] col [of r c] unfolding changed_columns_def
      by (cases "row_get l c = VNull"; cases "row_get r c = VNull") auto
  qed
qed

lemma changed_columns_empty: "changed_columns l r = [] \<longleftrightarrow> (\<forall>c. row_get l c = row_get r c)"
  using changed_columns_set [of l r] by (metis (mono_tags, lifting) empty_Collect_eq set_empty)

lemma sorted_minus_empty: "sorted_minus xs ys = [] \<longleftrightarrow> set xs \<subseteq> set ys"
proof -
  have "set (sorted_minus xs ys) = set xs - set ys" by (auto simp: sorted_minus_def)
  then show ?thesis by (metis Diff_eq_empty_iff set_empty)
qed

lemma no_diffs_iff:
  assumes "table_lists str skip l r t e"
  shows "report_diffs e = 0 \<longleftrightarrow> set (side_columns l t) = set (side_columns r t) \<and>
    (\<forall>pk. (t, pk) \<notin> skip \<longrightarrow> rows_match (map_of (side_table l t) pk) (map_of (side_table r t) pk))"
    (is "_ \<longleftrightarrow> ?cols \<and> (\<forall>pk. ?ok pk)")
proof -
  let ?ks = "compared_keys str (side_table l t) (side_table r t)"
  let ?good = "\<lambda>pk. \<not> absent_on_d1 t skip (side_table r t) pk \<and> \<not> absent_locally t skip (side_table l t) (side_table r t) pk \<and>
    row_changes t skip (side_table l t) (side_table r t) pk = []"
  have "report_diffs e = 0 \<longleftrightarrow> ?cols \<and> (\<forall>pk \<in> set ?ks. ?good pk)"
    using assms unfolding table_lists_def Let_def report_diffs_def
    by (auto simp: sorted_minus_empty filter_empty_conv)
  moreover have "?good pk \<longleftrightarrow> ?ok pk" if "pk \<in> set ?ks" for pk
  proof -
    have "map_of (side_table l t) pk \<noteq> None \<or> map_of (side_table r t) pk \<noteq> None"
      using that unfolding set_compared_keys map_of_eq_None_iff by simp
    then show ?thesis
      by (cases "map_of (side_table l t) pk"; cases "map_of (side_table r t) pk")
        (auto simp: absent_on_d1_def absent_locally_def row_changes_def rows_match_def changed_columns_empty)
  qed
  moreover have "?ok pk" if "pk \<notin> set ?ks" for pk
  proof -
    have "map_of (side_table l t) pk = None" "map_of (side_table r t) pk = None"
      using that by (simp_all add: set_compared_keys map_of_eq_None_iff)
    then show ?thesis by (simp add: rows_match_def)
  qed
  ultimately show ?thesis by blast
qed

lemma clean_iff_no_diffs:
  "list_all2 P ts es \<Longrightarrow> (\<And>t e. t \<in> set ts \<Longrightarrow> P t e \<Longrightarrow> f e = 0 \<longleftrightarrow> Q t) \<Longrightarrow> sum_list (map f es) = (0::nat) \<longleftrightarrow> (\<forall>t \<in> set ts. Q t)"
  by (induction rule: list_all2_induct) auto

text \<open>C31: a comparison is clean exactly when the two sides are equal: every replicated table has the same
  columns on both sides, and every key that is not excluded is on both sides or on neither, with the same
  normalised value in every column.\<close>

theorem compare_clean_exact:
  "bd_clean (compare_sides str l r exclude) \<longleftrightarrow>
     (\<forall>t \<in> fst ` set sync_tables. set (side_columns l t) = set (side_columns r t) \<and>
        (\<forall>pk. (t, pk) \<notin> skip_set exclude \<longrightarrow> rows_match (map_of (side_table l t) pk) (map_of (side_table r t) pk)))"
proof -
  obtain es where es: "list_all2 (table_lists str (skip_set exclude) l r) (map fst sync_tables) es"
    "bd_diffs (compare_sides str l r exclude) = sum_list (map report_diffs es)"
    "bd_clean (compare_sides str l r exclude) \<longleftrightarrow> bd_diffs (compare_sides str l r exclude) = 0"
    using compare_sides_tables by blast
  from clean_iff_no_diffs [OF es(1) no_diffs_iff] show ?thesis unfolding es(2,3) set_map by simp
qed

section \<open>The rows of a side\<close>

definition named_key :: "string \<Rightarrow> row \<Rightarrow> sval list \<Rightarrow> bool" where
  "named_key t r k \<longleftrightarrow> map (map_of r) (the (map_of sync_tables t)) = map Some k \<and> map norm_value k = k"

definition norm_row :: "row \<Rightarrow> row" where
  "norm_row r = map (map_prod id norm_value) r"

lemma all_some_map: "(\<And>x. x \<in> set xs \<Longrightarrow> f x = Some (g x)) \<Longrightarrow> all_some (map f xs) = Some (map g xs)"
  by (induction xs) auto

lemma named_key_row_key: "named_key t r k \<Longrightarrow> row_key t r = Some k"
proof -
  assume n: "named_key t r k"
  let ?pkc = "the (map_of sync_tables t)"
  have "map (\<lambda>c. map_option norm_value (map_of r c)) ?pkc = map (map_option norm_value) (map (map_of r) ?pkc)" by simp
  also have "\<dots> = map (map_option norm_value) (map Some k)" using n by (simp only: named_key_def)
  also have "\<dots> = map Some (map norm_value k)" by simp
  also have "\<dots> = map Some k" using n by (simp only: named_key_def)
  finally show ?thesis using all_some_map [of k Some id] by (simp add: row_key_def)
qed

lemma side_rows_dict:
  assumes "dict_wf d" and "\<forall>(k, r) \<in> set d. named_key t r k"
  shows "side_rows t (map snd d) = Some (map (\<lambda>(k, r). (k, norm_row r)) (filter (\<lambda>(k, r). keep_row t r) d))"
proof -
  let ?d = "filter (\<lambda>(k, r). keep_row t r) d" let ?out = "map (\<lambda>(k, r). (k, norm_row r)) ?d"
  have f: "filter (keep_row t) (map snd d) = map snd ?d" by (simp add: filter_map comp_def case_prod_unfold)
  have "all_some (map (\<lambda>x. map_option (\<lambda>k. (k, map (map_prod id norm_value) (snd x))) (row_key t (snd x))) ?d) = Some ?out"
    by (rule all_some_map) (use assms(2) named_key_row_key in \<open>fastforce simp: norm_row_def\<close>)
  moreover have "dict_of ?out = ?out"
    by (rule dict_of_distinct) (simp add: case_prod_beta comp_def distinct_map_filter [OF assms(1)])
  ultimately show ?thesis unfolding side_rows_def f by (simp add: comp_def)
qed

lemma map_of_kept:
  "dict_wf d \<Longrightarrow> map_of (map (\<lambda>(k, r). (k, g r)) (filter (\<lambda>(k, r). P r) d)) k =
     (case map_of d k of None \<Rightarrow> None | Some r \<Rightarrow> if P r then Some (g r) else None)"
  by (induction d) (auto simp: map_of_eq_None_iff rev_image_eqI split: option.splits)

lemma meta_key: "map_of sync_tables ''memories_meta'' = Some [''key'']"
  by (simp add: sync_tables_def)

lemma keep_row_replicated:
  assumes "named_key t r k" and "VNull \<notin> set k" and "map_of sync_tables t \<noteq> None"
  shows "keep_row t r \<longleftrightarrow> replicated t k"
proof (cases "t = ''memories_meta''")
  case True
  with assms(1) meta_key obtain v where "k = [v]" "map_of r ''key'' = Some v" by (auto simp: named_key_def)
  then show ?thesis using assms True by (auto simp: keep_row_def replicated_def row_get_def)
qed (use assms in \<open>simp add: keep_row_def replicated_def\<close>)

text \<open>A table as a dictionary of its keys, all integers or texts, and what one side holds of it.\<close>

definition keyed_table :: "string \<Rightarrow> (sval list, row) dict \<Rightarrow> bool" where
  "keyed_table t d \<longleftrightarrow> dict_wf d \<and> (\<forall>(k, r) \<in> set d. named_key t r k \<and> VNull \<notin> set k)"

lemma side_rows_keyed:
  assumes d: "keyed_table t d" and t: "map_of sync_tables t \<noteq> None"
  shows "\<exists>out. side_rows t (map snd d) = Some out \<and>
    (\<forall>k. map_of out k = (if replicated t k then map_option norm_row (map_of d k) else None))"
proof -
  let ?out = "map (\<lambda>(k, r). (k, norm_row r)) (filter (\<lambda>(k, r). keep_row t r) d)"
  have "map_of ?out k = (if replicated t k then map_option norm_row (map_of d k) else None)" for k
  proof (cases "map_of d k")
    case None
    then show ?thesis using d map_of_kept [of d norm_row "keep_row t" k] by (simp add: keyed_table_def)
  next
    case (Some r)
    then have "named_key t r k" "VNull \<notin> set k" using d by (auto simp: keyed_table_def dest: map_of_SomeD)
    then show ?thesis using Some d keep_row_replicated [OF _ _ t] map_of_kept [of d norm_row "keep_row t" k]
      by (simp add: keyed_table_def)
  qed
  moreover have "side_rows t (map snd d) = Some ?out"
    by (rule side_rows_dict) (use d in \<open>auto simp: keyed_table_def\<close>)
  ultimately show ?thesis by blast
qed

lemma map_of_table_map: "map_of (map (\<lambda>(t, x). (t, D t)) ts) t = (if t \<in> fst ` set ts then Some (D t) else None)"
  by (induction ts) auto

lemma dict_get_table_map: "t \<in> fst ` set ts \<Longrightarrow> dict_get z (map (\<lambda>(t, x). (t, D t)) ts) t = D t"
  by (simp add: dict_get_def map_of_table_map)

lemma synced_iff: "map_of sync_tables t \<noteq> None \<longleftrightarrow> t \<in> fst ` set sync_tables"
  by (simp add: map_of_eq_None_iff)

definition snapshot_ok :: "lstore \<Rightarrow> bool" where
  "snapshot_ok l \<longleftrightarrow> (\<forall>t \<in> fst ` set sync_tables. dict_wf (ls_table l t) \<and> (\<forall>k \<in> fst ` set (ls_table l t). map norm_value k = k))"

lemma store_keyed:
  assumes "store_ok l" and "snapshot_ok l" and t: "map_of sync_tables t \<noteq> None"
  shows "keyed_table t (ls_table l t)" "table_columns l t \<noteq> []"
proof -
  have m: "t \<in> set (map fst sync_tables)" using t synced_iff by simp
  with assms(1) have "\<forall>(k, r) \<in> set (ls_table l t). row_ok l t k r" and "table_columns l t \<noteq> []"
    unfolding store_ok_def by fastforce+
  then show "keyed_table t (ls_table l t)" "table_columns l t \<noteq> []"
    using assms(2) m by (fastforce simp: keyed_table_def snapshot_ok_def named_key_def row_ok_def)+
qed

lemma file_side_local:
  assumes "store_ok l" and "snapshot_ok l"
  shows "\<exists>s. file_side l = Some s \<and> (\<forall>t k. map_of sync_tables t \<noteq> None \<longrightarrow>
    map_of (side_table s t) k = (if replicated t k then map_option norm_row (local_row l t k) else None))"
proof -
  have "\<forall>t. \<exists>out. map_of sync_tables t \<noteq> None \<longrightarrow> side_rows t (map snd (ls_table l t)) = Some out \<and>
      (\<forall>k. map_of out k = (if replicated t k then map_option norm_row (map_of (ls_table l t) k) else None))"
    using side_rows_keyed [OF store_keyed(1) [OF assms]] by blast
  then obtain D where D: "\<And>t. map_of sync_tables t \<noteq> None \<Longrightarrow> side_rows t (map snd (ls_table l t)) = Some (D t) \<and>
      (\<forall>k. map_of (D t) k = (if replicated t k then map_option norm_row (map_of (ls_table l t) k) else None))" by metis
  let ?s = "\<lparr>sd_rows = map (\<lambda>(t, x). (t, D t)) sync_tables, sd_columns = map (\<lambda>(t, x). (t, table_columns l t)) sync_tables\<rparr>"
  have "all_some (map (\<lambda>(t, x). table_side t (table_columns l t) (Some (map snd (ls_table l t)))) sync_tables)
      = Some (map (\<lambda>(t, x). (t, D t)) sync_tables)"
    by (rule all_some_map) (use D synced_iff store_keyed(2) [OF assms] in \<open>force simp: table_side_def\<close>)
  then have "file_side l = Some ?s" by (simp add: file_side_def)
  moreover have "map_of (side_table ?s t) k = (if replicated t k then map_option norm_row (local_row l t k) else None)"
    if "map_of sync_tables t \<noteq> None" for t k
    using that D [OF that] synced_iff [of t]
    by (auto simp: dict_get_table_map local_row_def replicated_def)
  ultimately show ?thesis by blast
qed

section \<open>Reading D1\<close>

lemma read_pages_stable:
  "0 < limit \<Longrightarrow> length xs < n * limit + offset \<Longrightarrow> 0 < n \<Longrightarrow> read_pages limit offset (replicate n xs) = Some (drop offset xs)"
proof (induction n arbitrary: offset)
  case (Suc n)
  let ?page = "take limit (drop offset xs)"
  show ?case
  proof (cases "length ?page < limit")
    case True
    then show ?thesis by (simp add: Let_def min_def split: if_splits)
  next
    case False
    then have "limit \<le> length xs - offset" by simp
    moreover from this have "0 < n" using Suc.prems by (cases n) auto
    ultimately have "read_pages limit (offset + limit) (replicate n xs) = Some (drop (offset + limit) xs)"
      using Suc.prems by (intro Suc.IH) auto
    moreover have "?page @ drop (offset + limit) xs = drop offset xs"
      by (metis add.commute append_take_drop_id drop_drop)
    ultimately show ?thesis using False by (simp add: Let_def)
  qed
qed simp

text \<open>
  What D1 answers when a whole table is read from one of its states: \<open>SELECT *\<close> gives each of its rows once.
  The pages of one table come from one state, tables need not.
\<close>

definition reads_table :: "'r look_fn \<Rightarrow> d1_reader \<Rightarrow> string \<Rightarrow> 'r \<Rightarrow> bool" where
  "reads_table look rd t r \<longleftrightarrow> t \<in> set (rd_tables rd) \<and>
     (\<exists>d n. keyed_table t d \<and> (\<forall>k. VNull \<notin> set k \<longrightarrow> map_of d k = look r t k) \<and>
        rd_pages rd t = replicate n (map snd d) \<and> 0 < n \<and> length d < n * page_rows)"

lemma d1_side_rows:
  assumes "\<And>t. map_of sync_tables t \<noteq> None \<Longrightarrow> reads_table look rd t (rs t)"
  shows "\<exists>s. d1_side rd = Some s \<and> (\<forall>t k. map_of sync_tables t \<noteq> None \<longrightarrow>
    map_of (side_table s t) k = (if replicated t k then map_option norm_row (look (rs t) t k) else None))"
proof -
  have "\<exists>out. read_pages page_rows 0 (rd_pages rd t) \<bind> side_rows t = Some out \<and>
      (\<forall>k. map_of out k = (if replicated t k then map_option norm_row (look (rs t) t k) else None))"
    if t: "map_of sync_tables t \<noteq> None" for t
  proof -
    obtain d n where d: "keyed_table t d" "\<forall>k. VNull \<notin> set k \<longrightarrow> map_of d k = look (rs t) t k"
      "rd_pages rd t = replicate n (map snd d)" "0 < n" "length d < n * page_rows"
      using assms [OF t] unfolding reads_table_def by blast
    have "read_pages page_rows 0 (rd_pages rd t) = Some (map snd d)"
      using read_pages_stable [of page_rows "map snd d" n 0] d(3-5) by (simp add: page_rows_def)
    then show ?thesis using side_rows_keyed [OF d(1) t] d(2) by (auto simp: replicated_def)
  qed
  then obtain D where D: "\<And>t. map_of sync_tables t \<noteq> None \<Longrightarrow> read_pages page_rows 0 (rd_pages rd t) \<bind> side_rows t = Some (D t) \<and>
      (\<forall>k. map_of (D t) k = (if replicated t k then map_option norm_row (look (rs t) t k) else None))" by metis
  let ?cols = "\<lambda>t. if t \<in> set (rd_tables rd) then rd_columns rd t else []"
  let ?s = "\<lparr>sd_rows = map (\<lambda>(t, x). (t, D t)) sync_tables, sd_columns = map (\<lambda>(t, x). (t, ?cols t)) sync_tables\<rparr>"
  have present: "t \<in> set (rd_tables rd)" if "map_of sync_tables t \<noteq> None" for t
    using assms [OF that] by (simp add: reads_table_def)
  have "all_some (map (\<lambda>(t, x). if t \<notin> set (rd_tables rd) then Some (t, [])
      else do { rs \<leftarrow> read_pages page_rows 0 (rd_pages rd t); d \<leftarrow> side_rows t rs; Some (t, d) }) sync_tables)
      = Some (map (\<lambda>(t, x). (t, D t)) sync_tables)"
  proof (rule all_some_map)
    fix p assume p: "p \<in> set sync_tables"
    obtain t pk where tp: "p = (t, pk)" by (cases p)
    then have t: "map_of sync_tables t \<noteq> None" using p synced_iff by force
    from D [OF t] obtain rows where "read_pages page_rows 0 (rd_pages rd t) = Some rows" "side_rows t rows = Some (D t)"
      by (auto split: bind_splits)
    then show "(case p of (t, x) \<Rightarrow> if t \<notin> set (rd_tables rd) then Some (t, [])
      else do { rs \<leftarrow> read_pages page_rows 0 (rd_pages rd t); d \<leftarrow> side_rows t rs; Some (t, d) })
      = Some (case p of (t, x) \<Rightarrow> (t, D t))"
      using present [OF t] tp by simp
  qed
  then have "d1_side rd = Some ?s" by (simp add: d1_side_def Let_def)
  moreover have "map_of (side_table ?s t) k = (if replicated t k then map_option norm_row (look (rs t) t k) else None)"
    if "map_of sync_tables t \<noteq> None" for t k
    using that D [OF that] synced_iff [of t] by (simp add: dict_get_table_map)
  ultimately show ?thesis by blast
qed

section \<open>What changes while a compare runs\<close>

text \<open>The changes one cycle makes to the local store: the writes of others in the cycle, then at most one pruning.\<close>

definition pruned :: "rat \<Rightarrow> lstore \<Rightarrow> lstore \<Rightarrow> bool" where
  "pruned now l l' \<longleftrightarrow> l' = l \<or> (\<exists>s hi. l' = l\<lparr>ls_outbox := filter (\<lambda>r. \<not> prunable now s hi r) (ls_outbox l)\<rparr>)"

lemma pruned_refl [simp]: "pruned now l l"
  by (simp add: pruned_def)

lemma pruned_ack [simp]: "rw_local w = l \<Longrightarrow> pruned now l (rw_local (ack now hi post u w))"
  unfolding pruned_def ack_def Let_def by auto

lemma run_once_local:
  assumes "run_once exec look rnd digest cfg io w = (out, w', ev)"
  shows "\<exists>l. (l = rw_local w \<or> l = ci_others io (rw_local w)) \<and> pruned (ci_now io) l (rw_local w')"
proof -
  have send: "pruned (ci_now io) (rw_local v) (rw_local v')"
    if "send_batch exec io b e v = (out', v', ev')" for b e v v' out' ev'
    using that by (auto simp: send_batch_def halt_with_def Let_def
        split: option.splits if_splits prod.splits send_result.splits bool.splits)
  have wrote: "\<exists>l. (l = rw_local v \<or> l = ci_others io (rw_local v)) \<and> pruned (ci_now io) l (rw_local v')"
    if wc: "write_cycle exec digest cfg io v = (out', v', ev')" for v v' out' ev'
  proof -
    obtain mb out1 w1 where nb: "next_batch digest cfg (ss_acked (rw_sync v)) v = (mb, out1, w1)" by (metis prod_cases3)
    note same = next_batch_world [OF nb]
    show ?thesis
    proof (cases "mb = None \<or> ss_epoch_expected (rw_sync w1) = None")
      case True
      then show ?thesis using wc nb same by (auto simp: write_cycle_def halt_with_def split: option.splits)
    next
      case False
      then obtain b e where b: "mb = Some b" "ss_epoch_expected (rw_sync w1) = Some e" by auto
      let ?m = "\<lparr>mk_id = ci_uuid io, mk_lo = b_lo b, mk_hi = b_hi b, mk_epoch_before = e\<rparr>"
      obtain out3 w3 ev3 where s: "send_batch exec io b e (others_write io (set_marker ?m w1)) = (out3, w3, ev3)" by (metis prod_cases3)
      then have "v' = w3" using wc nb b by (simp add: write_cycle_def Let_def)
      then show ?thesis using send [OF s] same by auto
    qed
  qed
  show ?thesis
  proof (cases "ss_halted (rw_sync w) \<noteq> None \<or> ss_uri (rw_sync w) \<noteq> cf_uri cfg \<or> cf_mode cfg = LogMode")
    case True
    have "rw_local w' = rw_local w" if "log_cycle digest cfg w = (out, w', ev)"
      using that next_batch_world [of digest cfg "ss_log_cursor (rw_sync w)" w]
      by (auto simp: log_cycle_def log_advance_def log_append_def split: option.splits prod.splits)
    with assms True show ?thesis by (auto simp: run_once_def halt_with_def Let_def split: if_splits)
  next
    case False
    then have wm: "cf_mode cfg = WriteMode" by (cases "cf_mode cfg") auto
    show ?thesis
    proof (cases "ss_inflight (rw_sync w)")
      case (Some m)
      then have "reconcile look rnd io m w = (out, w', ev)" using assms False wm by (simp add: run_once_def Let_def)
      then show ?thesis
        by (auto simp: reconcile_def clear_marker_def Let_def split: option.splits bool.splits)
    next
      case None
      let ?probe = "\<not> rp_probed (rw_rep w) \<and> rp_next_probe (rw_rep w) \<le> ci_now io"
      obtain refused w1 ev1 where p: "(if ?probe then probe_write io w else (False, w, [])) = (refused, w1, ev1)" by (metis prod_cases3)
      have w1: "rw_local w1 = rw_local w" using p probe_write_world [of io w refused w1 ev1] by (cases ?probe) auto
      obtain out2 w2 ev2 where wc: "write_cycle exec digest cfg io w1 = (out2, w2, ev2)" by (metis prod_cases3)
      have "w' = (if refused then w1 else w2)" using assms False wm None p wc by (auto simp: run_once_def Let_def)
      then show ?thesis using wrote [OF wc] w1 by (cases refused) auto
    qed
  qed
qed

lemma run_once_acked:
  assumes inv: "rep_inv look rnd w" and "run_once exec look rnd digest cfg io w = (out, w', ev)"
  shows "ss_acked (rw_sync w) \<le> ss_acked (rw_sync w')"
proof -
  have o: "outbox_ok (rw_local w)" using inv by (simp add: rep_inv_def Let_def)
  show ?thesis
  proof (cases "ss_halted (rw_sync w) \<noteq> None \<or> ss_uri (rw_sync w) \<noteq> cf_uri cfg \<or> cf_mode cfg = LogMode")
    case True
    have "ss_acked (rw_sync w') = ss_acked (rw_sync w)" if "log_cycle digest cfg w = (out, w', ev)"
      using that next_batch_world [of digest cfg "ss_log_cursor (rw_sync w)" w]
      by (auto simp: log_cycle_def log_advance_def log_append_def split: option.splits prod.splits)
    with assms(2) True show ?thesis by (auto simp: run_once_def halt_with_def Let_def split: if_splits)
  next
    case False
    then have wm: "cf_mode cfg = WriteMode" by (cases "cf_mode cfg") auto
    show ?thesis
    proof (cases "ss_inflight (rw_sync w)")
      case (Some m)
      then have "marker_ok (rw_local w) (ss_acked (rw_sync w)) m" using inv by (simp add: rep_inv_def Let_def)
      then have "ss_acked (rw_sync w) < mk_lo m \<and> mk_lo m \<le> mk_hi m" by (simp add: marker_ok_def)
      moreover have "reconcile look rnd io m w = (out, w', ev)" using assms(2) False wm Some by (simp add: run_once_def Let_def)
      ultimately show ?thesis
        by (auto simp: reconcile_def ack_def clear_marker_def Let_def split: option.splits bool.splits)
    next
      case None
      let ?probe = "\<not> rp_probed (rw_rep w) \<and> rp_next_probe (rw_rep w) \<le> ci_now io"
      obtain refused w1 ev1 where p: "(if ?probe then probe_write io w else (False, w, [])) = (refused, w1, ev1)" by (metis prod_cases3)
      have w1: "rw_local w1 = rw_local w \<and> ss_acked (rw_sync w1) = ss_acked (rw_sync w)"
        using p probe_write_world [of io w refused w1 ev1] by (cases ?probe) auto
      obtain out2 w2 ev2 where wc: "write_cycle exec digest cfg io w1 = (out2, w2, ev2)" by (metis prod_cases3)
      obtain mb out1 w3 where nb: "next_batch digest cfg (ss_acked (rw_sync w1)) w1 = (mb, out1, w3)" by (metis prod_cases3)
      note same = next_batch_world [OF nb]
      have "ss_acked (rw_sync w1) \<le> ss_acked (rw_sync w2)"
      proof (cases "mb = None \<or> ss_epoch_expected (rw_sync w3) = None")
        case True
        then show ?thesis using wc nb same by (auto simp: write_cycle_def halt_with_def split: option.splits)
      next
        case b: False
        then obtain b e where b: "mb = Some b" "ss_epoch_expected (rw_sync w3) = Some e" by auto
        let ?m = "\<lparr>mk_id = ci_uuid io, mk_lo = b_lo b, mk_hi = b_hi b, mk_epoch_before = e\<rparr>"
        obtain out4 w4 ev4 where s: "send_batch exec io b e (others_write io (set_marker ?m w3)) = (out4, w4, ev4)" by (metis prod_cases3)
        have "read_batch (rw_local w1) (ss_acked (rw_sync w1)) (cf_batch_rows cfg) None = Some (Some b)" using same b by simp
        then have "ss_acked (rw_sync w1) < b_hi b" using batch_rows [of "rw_local w1"] o w1 by fastforce
        moreover have "ss_acked (rw_sync w4) \<in> {ss_acked (rw_sync w3), b_hi b}"
          using s by (auto simp: send_batch_def halt_with_def ack_def Let_def
              split: option.splits if_splits prod.splits send_result.splits bool.splits)
        moreover have "w2 = w4" using wc nb b s by (simp add: write_cycle_def Let_def)
        ultimately show ?thesis using same by auto
      qed
      moreover have "w' = (if refused then w1 else w2)" using assms(2) False wm None p wc by (auto simp: run_once_def Let_def)
      ultimately show ?thesis using w1 by auto
    qed
  qed
qed


text \<open>
  The steps of the world while one compare runs.  \<open>start\<close> is when its snapshot is taken: every outbox row
  written since was created at \<open>start\<close> or later, and every cycle runs within a day of it.
\<close>

definition written_since :: "rat \<Rightarrow> lstore \<Rightarrow> lstore \<Rightarrow> bool" where
  "written_since start l l' \<longleftrightarrow> (\<forall>x \<in> set (ls_outbox l') - set (ls_outbox l). start \<le> ob_created x)"

inductive run_step :: "'r exec_fn \<Rightarrow> 'r look_fn \<Rightarrow> (rat \<Rightarrow> rat) \<Rightarrow> (int \<times> int \<times> (string \<times> sval list) set \<Rightarrow> string) \<Rightarrow>
    cfg \<Rightarrow> rat \<Rightarrow> 'r world \<Rightarrow> 'r world \<Rightarrow> bool" for exec look rnd digest cfg start where
  cycle: "run_once exec look rnd digest cfg io w = (out, w', ev) \<Longrightarrow> local_writes (rw_local w) (ci_others io (rw_local w)) \<Longrightarrow>
     written_since start (rw_local w) (ci_others io (rw_local w)) \<Longrightarrow> ci_now io \<le> start + 1 \<Longrightarrow>
     run_step exec look rnd digest cfg start w w'"
| local_write: "local_writes (rw_local w) l' \<Longrightarrow> written_since start (rw_local w) l' \<Longrightarrow>
     run_step exec look rnd digest cfg start w (w\<lparr>rw_local := l'\<rparr>)"
| crash: "run_step exec look rnd digest cfg start w (restart w)"
| resume: "resume epoch allow (rw_sync w) = Some s' \<Longrightarrow> run_step exec look rnd digest cfg start w (w\<lparr>rw_sync := s'\<rparr>)"
| begin_cmp: "run_step exec look rnd digest cfg start w (w\<lparr>rw_sync := begin_compare run now (rw_sync w)\<rparr>)"
| abort_cmp: "run_step exec look rnd digest cfg start w (w\<lparr>rw_sync := abort_compare run (rw_sync w)\<rparr>)"
| record_cmp: "record_compare report now (rw_sync w) = Some s' \<Longrightarrow>
     run_step exec look rnd digest cfg start w (w\<lparr>rw_sync := s'\<rparr>)"

lemma run_step_rep_step:
  "run_step exec look rnd digest cfg start w w' \<Longrightarrow> rep_step exec look rnd digest cfg w w'"
  by (induction rule: run_step.induct) (auto intro: rep_step.intros)

text \<open>The store since a snapshot \<open>l0\<close> with head \<open>h\<close>: what changed is in the outbox above \<open>h\<close>, and nothing there is old.\<close>

definition since :: "lstore \<Rightarrow> int \<Rightarrow> rat \<Rightarrow> lstore \<Rightarrow> bool" where
  "since l0 h start l \<longleftrightarrow> h < ls_next l \<and> (\<forall>x \<in> set (ls_outbox l). h < ob_seq x \<longrightarrow> start \<le> ob_created x) \<and>
     (\<forall>t pk. replicated t pk \<longrightarrow> local_row l t pk \<noteq> local_row l0 t pk \<longrightarrow> (t, pk) \<in> set (keys_after l h))"

lemma keys_after_set: "set (keys_after l h) = {(ob_tbl x, ob_pk x) | x. x \<in> set (ls_outbox l) \<and> h < ob_seq x}"
  by (auto simp: keys_after_def)

lemma since_local:
  assumes s: "since l0 h start l" and w: "local_writes l l'" and c: "written_since start l l'"
  shows "since l0 h start l' \<and> set (keys_after l h) \<subseteq> set (keys_after l' h)"
proof -
  from w obtain new where new: "ls_outbox l' = ls_outbox l @ new" "\<forall>x \<in> set new. ls_next l \<le> ob_seq x"
    "\<forall>t pk. replicated t pk \<longrightarrow> local_row l' t pk \<noteq> local_row l t pk \<longrightarrow> (t, pk) \<in> (\<lambda>x. (ob_tbl x, ob_pk x)) ` set new"
    and le: "ls_next l \<le> ls_next l'" unfolding local_writes_def by blast
  have h: "h < ls_next l" using s by (simp add: since_def)
  have sub: "set (keys_after l h) \<subseteq> set (keys_after l' h)" using new(1) by (auto simp: keys_after_def)
  have k: "(t, pk) \<in> set (keys_after l' h)" if "replicated t pk" "local_row l' t pk \<noteq> local_row l t pk" for t pk
    using new that h by (fastforce simp: keys_after_set)
  have "(t, pk) \<in> set (keys_after l' h)" if "replicated t pk" "local_row l' t pk \<noteq> local_row l0 t pk" for t pk
    using that k [of t pk] s sub unfolding since_def by (cases "local_row l' t pk = local_row l t pk") auto
  moreover have "start \<le> ob_created x" if "x \<in> set (ls_outbox l')" "h < ob_seq x" for x
    using s c that unfolding since_def written_since_def by (cases "x \<in> set (ls_outbox l)") auto
  ultimately show ?thesis using sub h le by (simp add: since_def)
qed

lemma since_pruned:
  assumes s: "since l0 h start l" and p: "pruned now l l'" and now: "now \<le> start + 1"
  shows "since l0 h start l' \<and> set (keys_after l h) \<subseteq> set (keys_after l' h)"
proof -
  have stays: "x \<in> set (ls_outbox l')" if "x \<in> set (ls_outbox l)" "h < ob_seq x" for x
  proof -
    from s that have "start \<le> ob_created x" by (simp add: since_def)
    then have "\<not> prunable now st hi x" for st hi using now by (simp add: prunable_def)
    then show ?thesis using p that(1) by (auto simp: pruned_def)
  qed
  have sub: "set (ls_outbox l') \<subseteq> set (ls_outbox l)" and row: "local_row l' = local_row l" and n: "ls_next l' = ls_next l"
    using p by (auto simp: pruned_def local_row_def ls_table_def fun_eq_iff)
  have "set (keys_after l h) \<subseteq> set (keys_after l' h)" using stays unfolding keys_after_set by blast
  moreover have "\<forall>x \<in> set (ls_outbox l'). h < ob_seq x \<longrightarrow> start \<le> ob_created x" using s sub unfolding since_def by blast
  ultimately show ?thesis using s unfolding since_def row n by blast
qed

lemma run_step_since:
  assumes "run_step exec look rnd digest cfg start w w'" and s: "since l0 h start (rw_local w)"
  shows "since l0 h start (rw_local w') \<and> set (keys_after (rw_local w) h) \<subseteq> set (keys_after (rw_local w') h)"
  using assms(1)
proof cases
  case (cycle io out ev)
  obtain l where l: "l = rw_local w \<or> l = ci_others io (rw_local w)" "pruned (ci_now io) l (rw_local w')"
    using run_once_local [OF cycle(1)] by blast
  have "since l0 h start l \<and> set (keys_after (rw_local w) h) \<subseteq> set (keys_after l h)"
    using l(1) s since_local [OF s cycle(2,3)] by auto
  with since_pruned [OF _ l(2) cycle(4), of l0 h] show ?thesis by blast
next
  case (local_write l')
  with since_local [OF s, of l'] show ?thesis by simp
qed (use s in \<open>auto simp: restart_def\<close>)

lemma run_step_acked:
  assumes "run_step exec look rnd digest cfg start w w'" and "rep_inv look rnd w"
  shows "ss_acked (rw_sync w) \<le> ss_acked (rw_sync w')"
  using assms(1)
proof cases
  case (cycle io out ev)
  show ?thesis by (rule run_once_acked [OF assms(2) cycle(1)])
qed (auto simp: restart_def resume_keeps record_compare_keeps begin_compare_def abort_compare_def)

lemma run_path:
  assumes laws: "replica_laws exec look" and limit: "cf_batch_rows cfg \<le> reconcile_limit"
    and "(run_step exec look rnd digest cfg start)\<^sup>*\<^sup>* w w'" and "rep_inv look rnd w" and "since l0 h start (rw_local w)"
  shows "rep_inv look rnd w' \<and> since l0 h start (rw_local w') \<and> ss_acked (rw_sync w) \<le> ss_acked (rw_sync w') \<and>
    set (keys_after (rw_local w) h) \<subseteq> set (keys_after (rw_local w') h)"
  using assms(3)
proof (induction rule: rtranclp_induct)
  case base
  then show ?case using assms(4,5) by simp
next
  case (step v v')
  then show ?case
    using run_step_acked [OF step(2)] run_step_since [OF step(2), of l0 h] rep_inv_step [OF laws limit _ run_step_rep_step [OF step(2)]]
    by fastforce
qed


lemma reachable_next: "rep_reachable exec look rnd digest cfg w \<Longrightarrow> 0 < ls_next (rw_local w)"
proof (induction rule: rep_reachable.induct)
  case (start w)
  then show ?case by (simp add: installed_def)
next
  case (step w w')
  from step(2) show ?case
  proof cases
    case (cycle io out ev)
    obtain l where l: "l = rw_local w \<or> l = ci_others io (rw_local w)" "pruned (ci_now io) l (rw_local w')"
      using run_once_local [OF cycle(1)] by blast
    have "ls_next (rw_local w') = ls_next l" using l(2) by (auto simp: pruned_def)
    moreover have "ls_next (rw_local w) \<le> ls_next l" using l(1) cycle(2) by (auto simp: local_writes_def)
    ultimately show ?thesis using step(3) by simp
  qed (use step(3) in \<open>auto simp: local_writes_def restart_def\<close>)
qed

lemma fold_max_le: "(\<forall>x \<in> set xs. x \<le> b) \<Longrightarrow> a \<le> b \<Longrightarrow> fold max xs a \<le> b" for a :: int
  by (induction xs arbitrary: a) auto

lemma store_head_next: "outbox_ok l \<Longrightarrow> 0 < ls_next l \<Longrightarrow> store_head l = ls_next l - 1"
  using fold_max_le [of "map ob_seq (ls_outbox l)" "ls_next l - 1" 0] by (fastforce simp: store_head_def outbox_ok_def)

lemma since_start: "outbox_ok l \<Longrightarrow> 0 < ls_next l \<Longrightarrow> since l (store_head l) start l"
  using store_head_next [of l] by (fastforce simp: since_def outbox_ok_def)

text \<open>
  One attempt beside the running store: the snapshot is taken at \<open>w1\<close>, no poll sees more than what is
  acknowledged at \<open>w2\<close>, the table \<open>t\<close> is read from the replica as it is at \<open>wt t\<close>, and the keys written since
  are read at \<open>w4\<close>.
\<close>

definition nightly_seen :: "'r exec_fn \<Rightarrow> 'r look_fn \<Rightarrow> (rat \<Rightarrow> rat) \<Rightarrow> (int \<times> int \<times> (string \<times> sval list) set \<Rightarrow> string) \<Rightarrow>
    cfg \<Rightarrow> rat \<Rightarrow> nightly_io \<Rightarrow> 'r world \<Rightarrow> 'r world \<Rightarrow> (string \<Rightarrow> 'r world) \<Rightarrow> 'r world \<Rightarrow> bool" where
  "nightly_seen exec look rnd digest cfg start io w1 w2 wt w4 \<longleftrightarrow>
     (let path = (run_step exec look rnd digest cfg start)\<^sup>*\<^sup>* in
      ni_store io = rw_local w1 \<and> ni_live io = rw_local w4 \<and> path w1 w2 \<and>
      (\<forall>(acked, clock) \<in> set (ni_polls io). acked \<le> ss_acked (rw_sync w2)) \<and>
      (\<forall>t. path w2 (wt t) \<and> path (wt t) w4) \<and>
      (\<forall>t \<in> fst ` set sync_tables. reads_table look (ni_reader io) t (rw_remote (wt t))))"

lemma wait_for_ready: "wait_for deadline polls = Some True \<Longrightarrow> \<exists>clock. (True, clock) \<in> set polls"
  by (induction deadline polls rule: wait_for.induct) (auto split: if_splits)

text \<open>The heart of the matter: a key that was not written since the snapshot has its snapshot row on the replica.\<close>

lemma unwritten_key_equal:
  assumes laws: "replica_laws exec look" and limit: "cf_batch_rows cfg \<le> reconcile_limit"
    and reach: "rep_reachable exec look rnd digest cfg w1" and seen: "nightly_seen exec look rnd digest cfg start io w1 w2 wt w4"
    and wait: "wait_for deadline (map (\<lambda>(acked, clock). (store_head (ni_store io) \<le> acked, clock)) (ni_polls io)) = Some True"
    and rep: "replicated t pk" and k: "(t, pk) \<notin> set (keys_after (ni_live io) (store_head (ni_store io)))"
  shows "same_row rnd (local_row (rw_local w1) t pk) (look (rw_remote (wt t)) t pk)"
proof -
  let ?h = "store_head (rw_local w1)" let ?path = "(run_step exec look rnd digest cfg start)\<^sup>*\<^sup>*"
  have io: "ni_store io = rw_local w1" "ni_live io = rw_local w4" and p: "?path w1 w2" "?path w2 (wt t)" "?path (wt t) w4"
    and polls: "\<forall>(acked, clock) \<in> set (ni_polls io). acked \<le> ss_acked (rw_sync w2)"
    using seen by (simp_all add: nightly_seen_def Let_def)
  have inv1: "rep_inv look rnd w1" by (rule reachable_inv [OF laws limit reach])
  then have "outbox_ok (rw_local w1)" by (simp add: rep_inv_def Let_def)
  then have s1: "since (rw_local w1) ?h start (rw_local w1)" by (rule since_start [OF _ reachable_next [OF reach]])
  from run_path [OF laws limit p(1) inv1 s1] have 2: "rep_inv look rnd w2" "since (rw_local w1) ?h start (rw_local w2)" by simp_all
  from run_path [OF laws limit p(2) this] have 3: "rep_inv look rnd (wt t)" "since (rw_local w1) ?h start (rw_local (wt t))"
    "ss_acked (rw_sync w2) \<le> ss_acked (rw_sync (wt t))" by simp_all
  from run_path [OF laws limit p(3) 3(1,2)] have 4: "set (keys_after (rw_local (wt t)) ?h) \<subseteq> set (keys_after (rw_local w4) ?h)" by simp
  have out: "(t, pk) \<notin> set (keys_after (rw_local (wt t)) ?h)" using k 4 unfolding io by blast
  have acked: "?h \<le> ss_acked (rw_sync (wt t))"
    using wait_for_ready [OF wait] polls 3(3) unfolding io by fastforce
  have "\<not> pending (rw_local (wt t)) (ss_acked (rw_sync (wt t))) t pk"
    using out acked unfolding keys_after_set pending_def by fastforce
  then have "same_row rnd (local_row (rw_local (wt t)) t pk) (look (rw_remote (wt t)) t pk)"
    using 3(1) rep by (auto simp: rep_inv_def Let_def covered_def)
  moreover have "local_row (rw_local (wt t)) t pk = local_row (rw_local w1) t pk"
    using 3(2) rep out by (auto simp: since_def)
  ultimately show ?thesis by simp
qed

lemma map_of_norm_row: "map_of (norm_row r) c = map_option norm_value (map_of r c)"
  by (induction r) (auto simp: norm_row_def)

definition rounding_or_extra :: "(rat \<Rightarrow> rat) \<Rightarrow> row \<Rightarrow> row \<Rightarrow> string \<Rightarrow> bool" where
  "rounding_or_extra rnd l r c \<longleftrightarrow> map_of l c = None \<or>
     (\<exists>v w x y. map_of l c = Some v \<and> map_of r c = Some w \<and> as_rat v = Some x \<and> as_rat w = Some y \<and> x \<noteq> y \<and> rnd x = rnd y)"

lemma norm_value_as_rat: "as_rat v = Some x \<Longrightarrow> as_rat w = Some x \<Longrightarrow> norm_value v = norm_value w"
proof -
  have i: "norm_value (VReal q) = VInt n" if "q = of_int n" for q n
    using that by (simp add: norm_value_def whole_def)
  assume "as_rat v = Some x" "as_rat w = Some x"
  then show ?thesis using i by (cases v; cases w) (auto simp: as_rat_def norm_value_def [of "VInt _"])
qed

lemma same_row_changes:
  assumes "same_row rnd (Some l) (Some r)" and "c \<in> set (changed_columns (norm_row l) (norm_row r))"
  shows "rounding_or_extra rnd l r c"
proof (cases "map_of l c")
  case None
  then show ?thesis by (simp add: rounding_or_extra_def)
next
  case (Some v)
  then have "(c, v) \<in> set l" by (rule map_of_SomeD)
  with assms(1) obtain w where w: "map_of r c = Some w" "same_value rnd v w"
    by (fastforce simp: same_row_def list_all_iff split: option.splits)
  have "norm_value v \<noteq> norm_value w"
    using assms(2) Some w(1) by (simp add: changed_columns_set row_get_def map_of_norm_row)
  then show ?thesis using Some w norm_value_as_rat [of v _ w]
    by (auto simp: rounding_or_extra_def same_value_def split: option.splits)
qed



section \<open>Examples\<close>

text \<open>
  The synchronised store of the replicator's example, in which another connection changes memory 1 after the
  snapshot: the key is excluded, everything else is compared.
\<close>

definition ex_changed :: lstore where
  "ex_changed = ex_local\<lparr>ls_outbox := ls_outbox ex_local @ [\<lparr>ob_seq = 3, ob_tbl = ''memories'', ob_pk = [VInt 1], ob_created = 10\<rparr>],
     ls_next := 4,
     ls_tables := [(''memories'', [([VInt 1], [(''id'', VInt 1), (''content'', VText ''other'')])]), (''memories_crossrefs'', [([VInt 1], ex_refs_row)])]\<rparr>"

definition ex_tables :: "string \<Rightarrow> (sval list, row) dict" where
  "ex_tables t = (if t = ''memories'' then [([VInt 1], ex_memory)] else if t = ''memories_crossrefs'' then [([VInt 1], ex_refs_row)] else [])"

definition ex_reader :: d1_reader where
  "ex_reader = \<lparr>rd_tables = map fst sync_tables, rd_columns = table_columns ex_local, rd_pages = (\<lambda>t. [map snd (ex_tables t)])\<rparr>"

definition ex_nightly :: nightly_io where
  "ex_nightly = \<lparr>ni_store = ex_local, ni_start = 0, ni_polls = [(1, 1), (2, 2)], ni_reader = ex_reader, ni_live = ex_changed\<rparr>"

lemma ex_changed_writes: "local_writes ex_local ex_changed" "written_since 10 ex_local ex_changed"
proof -
  have "local_row ex_changed t pk = local_row ex_local t pk" if "(t, pk) \<noteq> (''memories'', [VInt 1])" for t pk
    using that by (auto simp: local_row_def ls_table_def ex_changed_def ex_local_def)
  moreover have "store_ok ex_changed" by code_simp
  ultimately show "local_writes ex_local ex_changed"
    unfolding local_writes_def by (intro conjI exI [of _ "[\<lparr>ob_seq = 3, ob_tbl = ''memories'', ob_pk = [VInt 1], ob_created = 10\<rparr>]"])
      (auto simp: ex_changed_def ex_local_def)
  show "written_since 10 ex_local ex_changed" by code_simp
qed

lemma ex_reads: "t \<in> fst ` set sync_tables \<Longrightarrow> reads_table mem_look ex_reader t (rw_remote ex_sent)"
proof -
  assume t: "t \<in> fst ` set sync_tables"
  have "list_all (\<lambda>t. keyed_table t (ex_tables t)) (map fst sync_tables)" by code_simp
  then have "keyed_table t (ex_tables t)" using t unfolding list_all_iff set_map by blast
  moreover have "map_of (ex_tables t) k = mem_look (rw_remote ex_sent) t k" for k
    by (simp add: mem_look_def ex_sent_def ex_tables_def)
  ultimately show ?thesis using t unfolding reads_table_def
    by (intro conjI exI [of _ "ex_tables t"] exI [of _ 1]) (auto simp: ex_reader_def ex_tables_def page_rows_def)
qed


text \<open>The two sides of the example with memory 1 excluded, and without.\<close>

theorem compare_clean_exact_witness:
  "bd_clean (compare_sides (\<lambda>_. []) (the (file_side ex_changed)) (the (d1_side ex_reader)) [(''memories'', [VInt 1])]) \<and>
   \<not> bd_clean (compare_sides (\<lambda>_. []) (the (file_side ex_changed)) (the (d1_side ex_reader)) []) \<and>
   rows_match (map_of (side_table (the (file_side ex_changed)) ''memories_crossrefs'') [VInt 1])
     (map_of (side_table (the (d1_side ex_reader)) ''memories_crossrefs'') [VInt 1])"
proof -
  let ?l = "the (file_side ex_changed)" and ?d = "the (d1_side ex_reader)"
  have c: "bd_clean (compare_sides (\<lambda>_. []) ?l ?d [(''memories'', [VInt 1])])" "\<not> bd_clean (compare_sides (\<lambda>_. []) ?l ?d [])"
    by code_simp+
  have "''memories_crossrefs'' \<in> fst ` set sync_tables" by code_simp
  with c(1) [unfolded compare_clean_exact] have "rows_match (map_of (side_table ?l ''memories_crossrefs'') [VInt 1])
     (map_of (side_table ?d ''memories_crossrefs'') [VInt 1])" by fastforce
  with c show ?thesis by blast
qed

text \<open>
  The pages of one table are separate requests.  A row the replicator deletes in front of the next page moves the
  rows behind it up: the read misses a row that nobody touched, and the compare reports it as missing on D1.
\<close>

lemma paged_read_skips:
  assumes "1 < limit" and "length xs = limit"
  shows "read_pages limit 0 [x # xs @ [y], xs @ [y]] = Some (x # butlast xs @ [y])"
proof -
  have "take limit (x # xs @ [y]) = x # butlast xs" using assms by (cases limit) (simp_all add: butlast_conv_take)
  moreover have "length (x # butlast xs) = limit" using assms by simp
  moreover have "drop limit (xs @ [y]) = [y]" using assms(2) by simp
  ultimately show ?thesis using assms(1) by (simp add: Let_def del: length_butlast)
qed

lemma rerun_keeps_previous_night:
  "previous_night_keys (Some (save_night st night keys (previous_night_keys st night))) night = previous_night_keys st night"
  by (cases st) (auto simp: previous_night_keys_def save_night_def Let_def)

end
