(* ===== verification/Corpus_Cache.thy ===== *)
theory Corpus_Cache
  imports Memora_Prelude "HOL-Library.Product_Lexorder" "HOL-Library.List_Lexorder" "HOL-Library.Char_ord"
begin

text \<open>
  The corpus snapshot of a store and its process-wide cache (\<open>memora/storage.py\<close>, \<open>_CorpusSnapshot\<close>,
  \<open>_load_corpus_snapshot\<close> and \<open>_corpus_base\<close>): the paged load with its repair of missing vectors, the epoch that
  proves a cached snapshot current, the retries of a load that other clients disturb, and the byte budget.
  Before every statement other clients may change the store, as the list of a world says.  JSON columns stand for
  the values they decode to; the embedding model and the sizes are the fields of \<open>codec\<close>.  The epoch row, when
  there is one, holds an integer; the recording of a store's first model stamp is not modelled.
\<close>

section \<open>The store\<close>

record corpus_row =
  xr_id :: int
  xr_content :: string
  xr_created :: "string option"
  xr_meta :: "json option"
  xr_tags :: "json option"
  xr_vec :: "string option"
  xr_repr :: "string option"
  xr_source :: "string option"

record corpus_db =
  xd_rows :: "corpus_row list"
  xd_model :: "string option"
  xd_epoch :: "int option"

record corpus_world =
  xw_db :: corpus_db
  xw_others :: "(corpus_db \<Rightarrow> corpus_db) list"

text \<open>\<open>cd_compute\<close> raises, or gives the stored text of the vector, which is none for an empty vector.\<close>

record 'v codec =
  cd_parse :: "string \<Rightarrow> 'v"
  cd_compute :: "string \<Rightarrow> json option \<Rightarrow> json \<Rightarrow> string option option"
  cd_repr :: "string \<Rightarrow> string"
  cd_components :: "'v \<Rightarrow> nat"
  cd_length :: "json \<Rightarrow> nat"

definition at_statement :: "corpus_world \<Rightarrow> corpus_world" where
  "at_statement w = (case xw_others w of [] \<Rightarrow> w | f # fs \<Rightarrow> \<lparr>xw_db = f (xw_db w), xw_others = fs\<rparr>)"

text \<open>A vector this process stores; the triggers advance the epoch.\<close>

definition put_vector :: "'v codec \<Rightarrow> int \<Rightarrow> string option \<Rightarrow> corpus_db \<Rightarrow> corpus_db" where
  "put_vector cd mid raw d =
     d\<lparr>xd_rows := map (\<lambda>r. if xr_id r = mid
         then r\<lparr>xr_vec := raw, xr_repr := Some (case raw of None \<Rightarrow> ''empty'' | Some t \<Rightarrow> cd_repr cd t), xr_source := Some ''python''\<rparr>
         else r) (xd_rows d),
       xd_epoch := map_option (\<lambda>e. e + 1) (xd_epoch d)\<rparr>"

section \<open>Snapshots\<close>

text \<open>A vector that is \<^const>\<open>None\<close> is the certified-empty marker.\<close>

record 'v corpus_entry =
  en_id :: int
  en_vector :: "'v option"
  en_created :: "string option"
  en_type :: json
  en_source :: "string option"
  en_meta :: "json option"
  en_tags :: json

record 'v corpus_snapshot =
  sn_entries :: "(int, 'v corpus_entry) dict"
  sn_key :: "string option"
  sn_unscored :: nat
  sn_unrepaired :: nat

definition parse_tags :: "json option \<Rightarrow> json" where
  "parse_tags t = (case t of None \<Rightarrow> JList [] | Some j \<Rightarrow> j)"

definition metadata_type :: "json option \<Rightarrow> json" where
  "metadata_type m = (case m of Some (JObj d) \<Rightarrow> json_get ''type'' d | _ \<Rightarrow> JNull)"

definition metadata_dict :: "json option \<Rightarrow> json option" where
  "metadata_dict m = (case m of Some (JObj d) \<Rightarrow> Some (JObj d) | _ \<Rightarrow> None)"

definition pending_import :: "json option \<Rightarrow> bool" where
  "pending_import m = (case m of Some (JObj d) \<Rightarrow> ''import_attempt'' \<in> fst ` set d | _ \<Rightarrow> False)"

definition snapshot_append :: "'v corpus_entry \<Rightarrow> (int, 'v corpus_entry) dict \<Rightarrow> (int, 'v corpus_entry) dict" where
  "snapshot_append e es = dict_set (en_id e) e es"

text \<open>The vector a row holds: none, the marker, or a vector.\<close>

definition row_vector :: "'v codec \<Rightarrow> corpus_row \<Rightarrow> 'v option option" where
  "row_vector cd r =
     (case xr_vec r of
        Some (c # cs) \<Rightarrow> Some (Some (cd_parse cd (c # cs)))
      | _ \<Rightarrow> if xr_repr r = Some ''empty'' \<and> xr_source r = Some ''python'' then Some None else None)"

definition row_entry :: "corpus_row \<Rightarrow> 'v option \<Rightarrow> 'v corpus_entry" where
  "row_entry r v = \<lparr>en_id = xr_id r, en_vector = v, en_created = xr_created r, en_type = metadata_type (xr_meta r),
     en_source = xr_source r, en_meta = xr_meta r, en_tags = parse_tags (xr_tags r)\<rparr>"

section \<open>Loading\<close>

text \<open>The body of the loop over a page: the entries so far and the rows to repair.\<close>

definition load_row :: "'v codec \<Rightarrow> corpus_row \<Rightarrow> (int, 'v corpus_entry) dict \<times> corpus_row list \<Rightarrow>
    (int, 'v corpus_entry) dict \<times> corpus_row list" where
  "load_row cd r st =
     (let (es, repair) = st in
      if pending_import (xr_meta r) then st
      else case row_vector cd r of
          None \<Rightarrow> (es, repair @ [r])
        | Some v \<Rightarrow> (snapshot_append (row_entry r v) es, repair))"

definition select_page :: "nat \<Rightarrow> int \<Rightarrow> corpus_db \<Rightarrow> corpus_row list" where
  "select_page n after d = take n (sort_key xr_id (filter (\<lambda>r. after < xr_id r) (xd_rows d)))"

lemma filter_drops: "\<forall>x \<in> set xs. Q x \<longrightarrow> P x \<Longrightarrow> y \<in> set xs \<Longrightarrow> P y \<Longrightarrow> \<not> Q y \<Longrightarrow> length (filter Q xs) < length (filter P xs)"
proof (induction xs)
  case (Cons x xs)
  have "length (filter Q xs) \<le> length (filter P xs)"
    using Cons.prems(1) by (induction xs) auto
  then show ?case using Cons by auto
qed simp

function load_pages :: "'v codec \<Rightarrow> nat \<Rightarrow> int \<Rightarrow> corpus_world \<Rightarrow> (int, 'v corpus_entry) dict \<times> corpus_row list \<Rightarrow>
    ((int, 'v corpus_entry) dict \<times> corpus_row list) \<times> corpus_world" where
  "load_pages cd n after w st =
     (let w' = at_statement w; page = select_page n after (xw_db w'); st' = fold (load_row cd) page st in
      if page = [] \<or> length page < n then (st', w')
      else load_pages cd n (xr_id (last page)) w' st')"
  by pat_completeness auto

termination
proof (relation "measures [\<lambda>(cd, n, after, w, st). length (xw_others w),
    \<lambda>(cd, n, after, w, st). length (filter (\<lambda>r. after < xr_id r) (xd_rows (xw_db w)))]")
  fix cd :: "'v codec" and n after w st w' page st'
  assume w': "w' = at_statement w" and page: "page = select_page n after (xw_db w')" and go: "\<not> (page = [] \<or> length page < n)"
  show "((cd, n, xr_id (last page), w', st'), cd, n, after, w, st) \<in> measures [\<lambda>(cd, n, after, w, st). length (xw_others w),
    \<lambda>(cd, n, after, w, st). length (filter (\<lambda>r. after < xr_id r) (xd_rows (xw_db w)))]"
  proof (cases "xw_others w")
    case Nil
    then have same: "w' = w" by (simp add: w' at_statement_def)
    have "last page \<in> set page" using go by simp
    then have "last page \<in> set (sort_key xr_id (filter (\<lambda>r. after < xr_id r) (xd_rows (xw_db w))))"
      unfolding page select_page_def same by (rule in_set_takeD)
    then have l: "last page \<in> set (xd_rows (xw_db w))" "after < xr_id (last page)" by auto
    have "length (filter (\<lambda>r. xr_id (last page) < xr_id r) (xd_rows (xw_db w))) < length (filter (\<lambda>r. after < xr_id r) (xd_rows (xw_db w)))"
      by (rule filter_drops [OF _ l(1)]) (use l(2) in auto)
    then show ?thesis by (simp add: same)
  next
    case (Cons f fs)
    then show ?thesis by (simp add: w' at_statement_def)
  qed
qed simp

declare load_pages.simps [simp del]

text \<open>
  \<open>_repair_corpus_embeddings\<close>: the rows of one batch are read again; a row's vector is computed, stored and appended.
  The second list is the caller's \<open>empty_sink\<close>.
\<close>

definition repair_row :: "'v codec \<Rightarrow> corpus_row list \<Rightarrow> corpus_row \<Rightarrow>
    (int, 'v corpus_entry) dict \<times> 'v option corpus_entry list \<Rightarrow> corpus_world \<Rightarrow>
    ((int, 'v corpus_entry) dict \<times> 'v option corpus_entry list) option \<times> corpus_world" where
  "repair_row cd todo r st w =
     (let (es, sink) = st; tags = parse_tags (xr_tags r) in
      case cd_compute cd (xr_content r) (metadata_dict (xr_meta r)) tags of
        None \<Rightarrow> (None, w)
      | Some raw \<Rightarrow>
          let w' = at_statement w in
          if xr_id r \<notin> xr_id ` set (xd_rows (xw_db w')) then (None, w')
          else let first = find (\<lambda>q. xr_id q = xr_id r) (rev todo);
                   e = \<lparr>en_id = xr_id r, en_vector = map_option (cd_parse cd) raw,
                        en_created = (case first of None \<Rightarrow> None | Some q \<Rightarrow> xr_created q),
                        en_type = metadata_type (case first of None \<Rightarrow> None | Some q \<Rightarrow> xr_meta q),
                        en_source = Some ''python'', en_meta = xr_meta r, en_tags = tags\<rparr>;
                   w'' = w'\<lparr>xw_db := put_vector cd (xr_id r) raw (xw_db w')\<rparr>
               in (Some (snapshot_append e es,
                     if raw = None
                     then sink @ [\<lparr>en_id = en_id e, en_vector = Some None, en_created = en_created e, en_type = en_type e,
                                   en_source = en_source e, en_meta = en_meta e, en_tags = tags\<rparr>]
                     else sink), w''))"

fun repair_rows :: "'v codec \<Rightarrow> corpus_row list \<Rightarrow> corpus_row list \<Rightarrow>
    (int, 'v corpus_entry) dict \<times> 'v option corpus_entry list \<Rightarrow> corpus_world \<Rightarrow>
    ((int, 'v corpus_entry) dict \<times> 'v option corpus_entry list) option \<times> corpus_world" where
  "repair_rows cd todo [] st w = (Some st, w)"
| "repair_rows cd todo (r # rs) st w =
     (case repair_row cd todo r st w of
        (None, w') \<Rightarrow> (None, w')
      | (Some st', w') \<Rightarrow> repair_rows cd todo rs st' w')"

fun repair_batches :: "'v codec \<Rightarrow> corpus_row list \<Rightarrow> int list list \<Rightarrow>
    (int, 'v corpus_entry) dict \<times> 'v option corpus_entry list \<Rightarrow> corpus_world \<Rightarrow>
    ((int, 'v corpus_entry) dict \<times> 'v option corpus_entry list) option \<times> corpus_world" where
  "repair_batches cd todo [] st w = (Some st, w)"
| "repair_batches cd todo (ids # bs) st w =
     (let w' = at_statement w; rows = filter (\<lambda>r. xr_id r \<in> set ids) (xd_rows (xw_db w')) in
      case repair_rows cd todo rows st w' of
        (None, w'') \<Rightarrow> (None, w'')
      | (Some st', w'') \<Rightarrow> repair_batches cd todo bs st' w'')"

definition max_bound_params :: nat where
  "max_bound_params = 100"

definition load_snapshot :: "'v codec \<Rightarrow> nat \<Rightarrow> bool \<Rightarrow> corpus_world \<Rightarrow>
    ('v corpus_snapshot \<times> 'v option corpus_entry list) option \<times> corpus_world" where
  "load_snapshot cd n repair_missing w =
     (let ((es, todo), w1) = load_pages cd n 0 w ([], []);
          (res, w2) = (if todo \<noteq> [] \<and> repair_missing
                       then repair_batches cd todo (chunked max_bound_params (map xr_id todo)) (es, []) w1
                       else (Some (es, []), w1));
          unrepaired = (if repair_missing then 0 else length todo)
      in (map_option (\<lambda>(es', sink). (\<lparr>sn_entries = es', sn_key = None,
            sn_unscored = unrepaired + length (filter (\<lambda>(i, e). en_vector e = None) es'),
            sn_unrepaired = unrepaired\<rparr>, sink)) res, w2))"

section \<open>The cache\<close>

record 'v cached =
  cc_snapshot :: "'v corpus_snapshot"
  cc_epoch :: int
  cc_bytes :: nat

text \<open>The cache, least recently used first.\<close>

type_synonym 'v cache = "(string, 'v cached) dict"

definition budget_bytes :: "rat option \<Rightarrow> nat" where
  "budget_bytes mb =
     (let m = (case mb of None \<Rightarrow> 384 | Some m \<Rightarrow> if 0 < m \<and> m \<le> 1048576 then m else 384) in nat \<lfloor>m * 1024 * 1024\<rfloor>)"

definition estimate_bytes :: "'v codec \<Rightarrow> 'v corpus_snapshot \<Rightarrow> nat" where
  "estimate_bytes cd s =
     sum_list (map (\<lambda>(i, e). 400 + (case en_vector e of None \<Rightarrow> 0 | Some v \<Rightarrow> 91 * cd_components cd v) +
       (case en_meta e of None \<Rightarrow> 0 | Some m \<Rightarrow> cd_length cd m) +
       (case en_tags e of JList ts \<Rightarrow> 80 * length ts | _ \<Rightarrow> 0)) (sn_entries s))"

definition move_to_end :: "string \<Rightarrow> 'v cache \<Rightarrow> 'v cache" where
  "move_to_end k c = (case map_of c k of None \<Rightarrow> c | Some e \<Rightarrow> dict_pop k c @ [(k, e)])"

definition cache_get :: "string \<Rightarrow> int \<Rightarrow> 'v cache \<Rightarrow> 'v corpus_snapshot option \<times> 'v cache" where
  "cache_get k epoch c =
     (case map_of c k of
        None \<Rightarrow> (None, c)
      | Some e \<Rightarrow> if cc_epoch e \<noteq> epoch then (None, c) else (Some (cc_snapshot e), move_to_end k c))"

definition evict_stale_models :: "string \<Rightarrow> string \<Rightarrow> 'v cache \<Rightarrow> 'v cache" where
  "evict_stale_models store k c = filter (\<lambda>(other, e). \<not> (starts_with (store @ ''|'') other \<and> other \<noteq> k)) c"

definition used_bytes :: "'v cache \<Rightarrow> nat" where
  "used_bytes c = sum_list (map (\<lambda>(k, e). cc_bytes e) c)"

fun evict_until :: "nat \<Rightarrow> nat \<Rightarrow> nat \<Rightarrow> 'v cache \<Rightarrow> 'v cache" where
  "evict_until budget need used [] = []"
| "evict_until budget need used ((k, e) # c) =
     (if budget < used + need then evict_until budget need (used - cc_bytes e) c else (k, e) # c)"

definition publish :: "'v codec \<Rightarrow> nat \<Rightarrow> string \<Rightarrow> 'v corpus_snapshot \<Rightarrow> int \<Rightarrow> 'v cache \<Rightarrow> bool \<times> 'v cache" where
  "publish cd budget k s epoch c =
     (let need = estimate_bytes cd s; c1 = dict_pop k c in
      if budget < need then (False, c1)
      else (True, evict_until budget need (used_bytes c1) c1 @ [(k, \<lparr>cc_snapshot = s, cc_epoch = epoch, cc_bytes = need\<rparr>)]))"

definition cache_key :: "string \<Rightarrow> string option \<Rightarrow> string" where
  "cache_key store model = store @ ''|'' @ (case model of None \<Rightarrow> '''' | Some m \<Rightarrow> m)"

definition corpus_meta :: "corpus_world \<Rightarrow> (string option \<times> int option) \<times> corpus_world" where
  "corpus_meta w = (let w' = at_statement w in ((xd_model (xw_db w'), xd_epoch (xw_db w')), w'))"

definition load_retries :: nat where
  "load_retries = 3"

section \<open>A call\<close>

record corpus_cfg =
  xc_store :: string
  xc_page :: nat
  xc_budget :: nat

text \<open>The result of a call: the snapshot and the repaired empty rows, or an exception, with the world and the cache.\<close>

type_synonym 'v corpus_result = "('v corpus_snapshot \<times> 'v option corpus_entry list) option \<times> corpus_world \<times> 'v cache"

definition uncached :: "('v corpus_snapshot \<times> 'v option corpus_entry list) option \<times> corpus_world \<Rightarrow>
    'v option corpus_entry list \<Rightarrow> 'v cache \<Rightarrow> 'v corpus_result" where
  "uncached res sink c = (map_option (\<lambda>(s, fresh). (s\<lparr>sn_key := None\<rparr>, sink @ fresh)) (fst res), snd res, c)"

text \<open>The retries of a cold load: publish only what was loaded under one epoch.\<close>

fun cold_loads :: "'v codec \<Rightarrow> corpus_cfg \<Rightarrow> string \<Rightarrow> nat \<Rightarrow> 'v corpus_snapshot option \<Rightarrow> 'v option corpus_entry list \<Rightarrow>
    corpus_world \<Rightarrow> 'v cache \<Rightarrow> 'v corpus_result" where
  "cold_loads cd cfg k 0 loaded sink w c = (map_option (\<lambda>s. (s\<lparr>sn_key := None\<rparr>, sink)) loaded, w, c)"
| "cold_loads cd cfg k (Suc n) loaded sink w c =
     (let ((_, before), w1) = corpus_meta w in
      case before of
        None \<Rightarrow> uncached (load_snapshot cd (xc_page cfg) True w1) sink c
      | Some b \<Rightarrow>
          (case load_snapshot cd (xc_page cfg) True w1 of
             (None, w2) \<Rightarrow> (None, w2, c)
           | (Some (s, fresh), w2) \<Rightarrow>
               let ((_, after), w3) = corpus_meta w2 in
               (case after of
                  None \<Rightarrow> (Some (s\<lparr>sn_key := None\<rparr>, sink @ fresh), w3, c)
                | Some a \<Rightarrow>
                    if b = a then let s' = s\<lparr>sn_key := Some k\<rparr>
                      in (Some (s', sink @ fresh), w3, snd (publish cd (xc_budget cfg) k s' a c))
                    else cold_loads cd cfg k n (Some s) (sink @ fresh) w3 c)))"

definition ro_key :: "string \<Rightarrow> string" where
  "ro_key k = k @ ''|ro''"

fun read_only_loads :: "'v codec \<Rightarrow> corpus_cfg \<Rightarrow> string \<Rightarrow> nat \<Rightarrow> 'v corpus_snapshot option \<Rightarrow>
    corpus_world \<Rightarrow> 'v cache \<Rightarrow> 'v corpus_result" where
  "read_only_loads cd cfg k 0 loaded w c = (map_option (\<lambda>s. (s\<lparr>sn_key := None\<rparr>, [])) loaded, w, c)"
| "read_only_loads cd cfg k (Suc n) loaded w c =
     (let ((_, before), w1) = corpus_meta w in
      case load_snapshot cd (xc_page cfg) False w1 of
        (None, w2) \<Rightarrow> (None, w2, c)
      | (Some (s, _), w2) \<Rightarrow>
          (case before of
             None \<Rightarrow> (Some (s\<lparr>sn_key := None\<rparr>, []), w2, c)
           | Some b \<Rightarrow>
               let ((_, after), w3) = corpus_meta w2 in
               (case after of
                  None \<Rightarrow> (Some (s\<lparr>sn_key := None\<rparr>, []), w3, c)
                | Some a \<Rightarrow>
                    if b = a then
                      let target = (if sn_unrepaired s = 0 then k else ro_key k);
                          s' = s\<lparr>sn_key := Some target\<rparr>; c' = snd (publish cd (xc_budget cfg) target s' a c)
                      in (Some (s', []), w3, if target = k then dict_pop (ro_key k) c' else c')
                    else read_only_loads cd cfg k n (Some s) w3 c)))"

text \<open>
  \<open>_corpus_base\<close>: \<open>meta\<close> is what the caller already read, and \<open>peers\<close> is what other threads do to the cache
  between the warm lookup and the lock of the cold path.
\<close>

definition corpus_base :: "'v codec \<Rightarrow> corpus_cfg \<Rightarrow> bool \<Rightarrow> (string option \<times> int option) option \<Rightarrow>
    ('v cache \<Rightarrow> 'v cache) \<Rightarrow> corpus_world \<Rightarrow> 'v cache \<Rightarrow> 'v corpus_result" where
  "corpus_base cd cfg read_only meta peers w c =
     (let ((model, stamp), w1) = (case meta of None \<Rightarrow> corpus_meta w | Some m \<Rightarrow> (m, w)) in
      case stamp of
        None \<Rightarrow> uncached (load_snapshot cd (xc_page cfg) (\<not> read_only) w1) [] c
      | Some e \<Rightarrow>
          let k = cache_key (xc_store cfg) model in
          (case cache_get k e c of
             (Some s, c1) \<Rightarrow> (Some (s, []), w1, c1)
           | (None, _) \<Rightarrow>
               let c1 = peers c in
               if read_only then
                 (case cache_get k e c1 of
                    (Some s, c2) \<Rightarrow> (Some (s, []), w1, c2)
                  | (None, _) \<Rightarrow>
                      (case cache_get (ro_key k) e c1 of
                         (Some s, c2) \<Rightarrow> (Some (s, []), w1, c2)
                       | (None, _) \<Rightarrow> read_only_loads cd cfg k load_retries None w1 c1))
               else let c2 = evict_stale_models (xc_store cfg) k c1 in
                 (case cache_get k e c2 of
                    (Some s, c3) \<Rightarrow> (Some (s, []), w1, c3)
                  | (None, _) \<Rightarrow> cold_loads cd cfg k load_retries None [] w1 c2)))"

text \<open>\<open>fork\<close> gives every caller its own copy, so a caller's \<open>append\<close> and \<open>discard\<close> are updates of a value.\<close>

definition invalidate :: "string \<Rightarrow> 'v cache \<Rightarrow> 'v cache" where
  "invalidate k c = dict_pop k c"

text \<open>\<open>search\<close>: every entry in id order, the best by score and then by creation time, ties in id order.\<close>

definition snapshot_search :: "('v \<Rightarrow> rat) \<Rightarrow> nat \<Rightarrow> rat option \<Rightarrow> int list \<Rightarrow> 'v corpus_snapshot \<Rightarrow> (int \<times> rat) list" where
  "snapshot_search score top_k min_score exclude s =
     (let entries = map snd (sort_key fst (sn_entries s));
          scored = List.map_filter (\<lambda>e. if en_id e \<in> set exclude then None
            else case en_vector e of
                None \<Rightarrow> None
              | Some v \<Rightarrow> if (case min_score of None \<Rightarrow> False | Some m \<Rightarrow> score v < m) then None
                          else Some ((score v, case en_created e of None \<Rightarrow> '''' | Some t \<Rightarrow> t), en_id e)) entries
      in map (\<lambda>((sc, created), i). (i, sc)) (take top_k (rev (sort_key fst (rev scored)))))"

end
