(* ===== verification/Corpus_Fresh.thy ===== *)
theory Corpus_Fresh
  imports Corpus_Cache
begin

text \<open>
  What the corpus cache promises: a snapshot that is cached or served from the cache is exactly the store's content
  at a moment of the call, complete for the callers that repair, and the cache stays within its byte budget.
  The proof that two readings of the epoch enclose an unchanged store is the locale \<open>stamped\<close>, interpreted on
  the model of the store.
\<close>

section \<open>Stamps\<close>

text \<open>States with a stamp that only grows, and never changes its content without growing.\<close>

locale stamped =
  fixes leads :: "'d \<Rightarrow> 'd \<Rightarrow> bool" and stamp :: "'d \<Rightarrow> int option" and content :: "'d \<Rightarrow> 'c"
  assumes leads_refl: "leads d d"
    and leads_trans: "leads a b \<Longrightarrow> leads b c \<Longrightarrow> leads a c"
    and stamp_grows: "leads a b \<Longrightarrow> stamp a = Some m \<Longrightarrow> stamp b = Some n \<Longrightarrow> m < n \<or> m = n \<and> content b = content a"
    and stamp_gone: "leads a b \<Longrightarrow> stamp a = None \<Longrightarrow> stamp b = None"
begin

lemma between:
  assumes "leads a b" and "leads b c" and "stamp a = Some m" and "stamp c = Some m"
  shows "stamp b = Some m \<and> content b = content a \<and> content c = content a"
proof -
  obtain n where n: "stamp b = Some n" using stamp_gone [OF assms(2)] assms(4) by (cases "stamp b") auto
  then show ?thesis using stamp_grows [OF assms(1,3) n] stamp_grows [OF assms(2) n assms(4)] by auto
qed

lemma ends_equal: "leads a b \<Longrightarrow> stamp a = Some m \<Longrightarrow> stamp b = Some m \<Longrightarrow> content b = content a"
  using stamp_grows by blast

end

text \<open>
  The changes of a store: the triggers advance the epoch with every change of a memory or a vector, ids are unique
  and positive, and nobody deletes the epoch row and creates it again.
\<close>

definition db_ok :: "corpus_db \<Rightarrow> bool" where
  "db_ok d \<longleftrightarrow> sorted_wrt (<) (map xr_id (xd_rows d)) \<and> (\<forall>r \<in> set (xd_rows d). 0 < xr_id r) \<and>
     (case xd_model d of None \<Rightarrow> True | Some m \<Rightarrow> CHR ''|'' \<notin> set m)"

definition lawful :: "corpus_db \<Rightarrow> corpus_db \<Rightarrow> bool" where
  "lawful d d' \<longleftrightarrow> (db_ok d \<longrightarrow> db_ok d') \<and>
     (case (xd_epoch d, xd_epoch d') of
        (Some e, Some e') \<Rightarrow> e < e' \<or> e = e' \<and> xd_rows d' = xd_rows d
      | (None, Some _) \<Rightarrow> False
      | _ \<Rightarrow> True)"

interpretation epoch: stamped lawful xd_epoch xd_rows
  by unfold_locales (auto simp: lawful_def split: option.splits)

definition others_ok :: "corpus_world \<Rightarrow> bool" where
  "others_ok w \<longleftrightarrow> (\<forall>f \<in> set (xw_others w). \<forall>d. lawful d (f d))"

definition goes :: "corpus_world \<Rightarrow> corpus_world \<Rightarrow> bool" where
  "goes w w' \<longleftrightarrow> lawful (xw_db w) (xw_db w') \<and> set (xw_others w') \<subseteq> set (xw_others w)"

lemma goes_refl [simp]: "goes w w"
  by (simp add: goes_def epoch.leads_refl)

lemma goes_trans: "goes a b \<Longrightarrow> goes b c \<Longrightarrow> goes a c"
  unfolding goes_def using epoch.leads_trans by blast

lemma goes_others: "goes w w' \<Longrightarrow> others_ok w \<Longrightarrow> others_ok w'"
  by (auto simp: goes_def others_ok_def)

lemma goes_ok: "goes w w' \<Longrightarrow> db_ok (xw_db w) \<Longrightarrow> db_ok (xw_db w')"
  by (simp add: goes_def lawful_def)

lemma goes_statement: "others_ok w \<Longrightarrow> goes w (at_statement w)"
  by (cases "xw_others w") (auto simp: goes_def at_statement_def others_ok_def epoch.leads_refl)

lemma goes_put: "goes w (w\<lparr>xw_db := put_vector cd mid raw (xw_db w)\<rparr>)"
proof -
  have "map xr_id (xd_rows (put_vector cd mid raw d)) = map xr_id (xd_rows d)" for d
    by (simp add: put_vector_def comp_def if_distrib [of xr_id] cong: if_cong)
  moreover have "xr_id ` set (xd_rows (put_vector cd mid raw d)) = xr_id ` set (xd_rows d)" for d
    using calculation by (metis list.set_map)
  ultimately have "db_ok d \<Longrightarrow> db_ok (put_vector cd mid raw d)" for d
    unfolding db_ok_def by (metis (no_types, lifting) corpus_db.select_convs(2) corpus_db.surjective corpus_db.update_convs(1,3) imageE image_eqI put_vector_def)
  then show ?thesis by (auto simp: goes_def lawful_def put_vector_def split: option.splits)
qed

section \<open>Loading\<close>

definition exact :: "'v codec \<Rightarrow> corpus_row list \<Rightarrow> (int, 'v corpus_entry) dict" where
  "exact cd rows = List.map_filter (\<lambda>r. if pending_import (xr_meta r) then None
     else map_option (\<lambda>v. (xr_id r, row_entry r v)) (row_vector cd r)) rows"

definition missing :: "'v codec \<Rightarrow> corpus_row list \<Rightarrow> corpus_row list" where
  "missing cd rows = filter (\<lambda>r. \<not> pending_import (xr_meta r) \<and> row_vector cd r = None) rows"

lemma fold_load_rows:
  "distinct (map xr_id rows) \<Longrightarrow> xr_id ` set rows \<inter> fst ` set es = {} \<Longrightarrow>
     fold (load_row cd) rows (es, rep) = (es @ exact cd rows, rep @ missing cd rows)"
proof (induction rows arbitrary: es rep)
  case Nil
  then show ?case by (simp add: exact_def missing_def map_filter_simps)
next
  case (Cons r rows)
  have e: "snapshot_append (row_entry r v) es = es @ [(xr_id r, row_entry r v)]" for v
    unfolding snapshot_append_def using Cons.prems(2) by (subst dict_set_new) (auto simp: row_entry_def)
  show ?case
  proof (cases "pending_import (xr_meta r)")
    case True
    then show ?thesis using Cons by (auto simp: load_row_def exact_def missing_def map_filter_simps)
  next
    case False
    show ?thesis
    proof (cases "row_vector cd r")
      case None
      then show ?thesis using False Cons by (auto simp: load_row_def exact_def missing_def map_filter_simps)
    next
      case (Some v)
      have "fold (load_row cd) rows (es @ [(xr_id r, row_entry r v)], rep) =
          ((es @ [(xr_id r, row_entry r v)]) @ exact cd rows, rep @ missing cd rows)"
        by (rule Cons.IH) (use Cons.prems in auto)
      moreover have "load_row cd r (es, rep) = (es @ [(xr_id r, row_entry r v)], rep)"
        using False Some e by (simp add: load_row_def)
      moreover have "exact cd (r # rows) = (xr_id r, row_entry r v) # exact cd rows" "missing cd (r # rows) = missing cd rows"
        using False Some by (simp_all add: exact_def missing_def map_filter_simps)
      ultimately show ?thesis by simp
    qed
  qed
qed

lemma select_page_sorted:
  assumes "db_ok d"
  shows "select_page n after d = take n (filter (\<lambda>r. after < xr_id r) (xd_rows d))"
proof -
  have "sorted (map xr_id (filter (\<lambda>r. after < xr_id r) (xd_rows d)))"
    using assms strict_sorted_imp_sorted [of "map xr_id (xd_rows d)"] by (auto simp: db_ok_def intro: sorted_filter)
  then show ?thesis by (simp add: select_page_def sorted_sort_id sort_key_id_if_sorted)
qed

lemma sorted_last_le: "sorted_wrt (<) (map f xs) \<Longrightarrow> x \<in> set xs \<Longrightarrow> f x \<le> f (last xs)" for f :: "'a \<Rightarrow> int"
proof (induction xs)
  case (Cons a xs)
  show ?case
  proof (cases "xs = []")
    case False
    then have "last xs \<in> set xs" by simp
    then have "f a < f (last xs)" using Cons.prems(1) by auto
    then have "f a \<le> f (last (a # xs))" using False by simp
    moreover have "f x \<le> f (last (a # xs))" if "x \<in> set xs" using Cons.IH Cons.prems(1) that False by simp
    ultimately show ?thesis using Cons.prems(2) by auto
  qed (use Cons.prems in auto)
qed simp

lemma filter_behind:
  assumes "sorted_wrt (<) (map f xs)" and "n \<noteq> 0" and "n \<le> length (filter (\<lambda>x. (a :: int) < f x) xs)"
  shows "filter (\<lambda>x. f (last (take n (filter (\<lambda>x. a < f x) xs))) < f x) xs = drop n (filter (\<lambda>x. a < f x) xs)"
proof -
  let ?L = "filter (\<lambda>x. a < f x) xs" let ?p = "take n ?L" and ?q = "drop n ?L"
  have s: "sorted_wrt (<) (map f ?L)" using assms(1) by (simp add: sorted_wrt_map sorted_wrt_filter)
  have "?p \<noteq> []" using assms(2,3) by auto
  then have lp: "last ?p \<in> set ?p" by simp
  have split: "sorted_wrt (<) (map f ?p @ map f ?q)" using s by (metis append_take_drop_id map_append)
  then have above: "f (last ?p) < f x" if "x \<in> set ?q" for x using lp that by (auto simp: sorted_wrt_append)
  have below: "\<not> f (last ?p) < f x" if "x \<in> set ?p" for x
    using sorted_last_le [of f ?p x] split that by (auto simp: sorted_wrt_append)
  have "a < f (last ?p)" using lp by (auto dest: in_set_takeD)
  then have "filter (\<lambda>x. f (last ?p) < f x) xs = filter (\<lambda>x. f (last ?p) < f x) ?L"
    by (auto intro: filter_cong)
  also have "\<dots> = filter (\<lambda>x. f (last ?p) < f x) ?p @ filter (\<lambda>x. f (last ?p) < f x) ?q"
    by (metis append_take_drop_id filter_append)
  also have "\<dots> = ?q" using above below by (simp add: filter_id_conv filter_empty_conv)
  finally show ?thesis .
qed


lemma load_pages_goes: "others_ok w \<Longrightarrow> goes w (snd (load_pages cd n after w st))"
proof (induction cd n after w st rule: load_pages.induct)
  case (1 cd n after w st)
  let ?w = "at_statement w"
  have g: "goes w ?w" by (rule goes_statement [OF 1(2)])
  show ?case
  proof (cases "select_page n after (xw_db ?w) = [] \<or> length (select_page n after (xw_db ?w)) < n")
    case True
    then show ?thesis using g by (simp add: load_pages.simps [of cd n after w st] Let_def)
  next
    case False
    from goes_trans [OF g 1(1) [OF refl refl refl False goes_others [OF g 1(2)]]] False show ?thesis
      by (simp add: load_pages.simps [of cd n after w st] Let_def)
  qed
qed

text \<open>A load between two equal readings of the epoch reads every row of the store once.\<close>

lemma load_pages_stable:
  assumes "others_ok w" and "db_ok (xw_db w)" and "0 < n" and "xd_epoch (xw_db w) = Some e"
    and "load_pages cd n after w st = (res, w')" and "xd_epoch (xw_db w') = Some e"
  shows "res = fold (load_row cd) (filter (\<lambda>r. after < xr_id r) (xd_rows (xw_db w))) st \<and> xd_rows (xw_db w') = xd_rows (xw_db w)"
  using assms
proof (induction cd n after w st rule: load_pages.induct)
  case (1 cd n after w st)
  let ?w = "at_statement w" let ?page = "select_page n after (xw_db ?w)" let ?st = "fold (load_row cd) ?page st"
  let ?L = "filter (\<lambda>r. after < xr_id r) (xd_rows (xw_db w))"
  note g = goes_statement [OF "1.prems"(1)]
  note ow = goes_others [OF g "1.prems"(1)] and ok = goes_ok [OF g "1.prems"(2)]
  have later: "goes ?w w'"
  proof (cases "?page = [] \<or> length ?page < n")
    case True
    then show ?thesis using "1.prems"(5) by (simp add: load_pages.simps [of cd n after w st] Let_def)
  next
    case False
    then have "load_pages cd n (xr_id (last ?page)) ?w ?st = (res, w')"
      using "1.prems"(5) by (simp add: load_pages.simps [of cd n after w st] Let_def)
    then show ?thesis using load_pages_goes [OF ow, of cd n "xr_id (last ?page)" ?st] by simp
  qed
  have mid: "xd_epoch (xw_db ?w) = Some e" "xd_rows (xw_db ?w) = xd_rows (xw_db w)" "xd_rows (xw_db w') = xd_rows (xw_db w)"
    using epoch.between [of "xw_db w" "xw_db ?w" "xw_db w'" e] g later "1.prems"(4,6) by (auto simp: goes_def)
  have page: "?page = take n ?L" using select_page_sorted [OF ok, of n after] mid(2) by simp
  show ?case
  proof (cases "?page = [] \<or> length ?page < n")
    case True
    then have "?page = ?L" using page "1.prems"(3) by (auto simp: min_def split: if_splits)
    then show ?thesis using True "1.prems"(5) mid(3) by (simp add: load_pages.simps [of cd n after w st] Let_def)
  next
    case False
    then have next_load: "load_pages cd n (xr_id (last ?page)) ?w ?st = (res, w')"
      using "1.prems"(5) by (simp add: load_pages.simps [of cd n after w st] Let_def)
    from "1.IH" [OF refl refl refl False ow ok "1.prems"(3) mid(1) next_load "1.prems"(6)]
    have res: "res = fold (load_row cd) (filter (\<lambda>r. xr_id (last ?page) < xr_id r) (xd_rows (xw_db w))) ?st"
      unfolding mid(2) by blast
    have full: "n \<le> length ?L" using False page by auto
    have srt: "sorted_wrt (<) (map xr_id (xd_rows (xw_db w)))" using "1.prems"(2) by (simp add: db_ok_def)
    have "filter (\<lambda>r. xr_id (last ?page) < xr_id r) (xd_rows (xw_db w)) = drop n ?L"
      unfolding page by (rule filter_behind [OF srt _ full]) (use "1.prems"(3) in simp)
    then have "res = fold (load_row cd) (drop n ?L) (fold (load_row cd) (take n ?L) st)" using res page by simp
    also have "\<dots> = fold (load_row cd) ?L st" by (metis append_take_drop_id fold_append comp_apply)
    finally show ?thesis using mid(3) by simp
  qed
qed

lemma load_pages_exact:
  assumes "others_ok w" and ok: "db_ok (xw_db w)" and "0 < n" and "xd_epoch (xw_db w) = Some e"
    and "load_pages cd n 0 w ([], []) = ((es, todo), w')" and "xd_epoch (xw_db w') = Some e"
  shows "es = exact cd (xd_rows (xw_db w)) \<and> todo = missing cd (xd_rows (xw_db w)) \<and> xd_rows (xw_db w') = xd_rows (xw_db w)"
proof -
  have all: "filter (\<lambda>r. 0 < xr_id r) (xd_rows (xw_db w)) = xd_rows (xw_db w)" using ok by (simp add: db_ok_def filter_id_conv)
  have d: "distinct (map xr_id (xd_rows (xw_db w)))" using ok strict_sorted_iff [of "map xr_id (xd_rows (xw_db w))"] by (simp add: db_ok_def)
  from load_pages_stable [OF assms] fold_load_rows [OF d, of "[]" cd "[]"] show ?thesis by (simp add: all)
qed

lemma repair_row_goes:
  assumes "others_ok w" and "repair_row cd todo r st w = (res, w')"
  shows "goes w w'"
proof -
  have "goes w (at_statement w)" by (rule goes_statement [OF assms(1)])
  moreover have "goes (at_statement w) ((at_statement w)\<lparr>xw_db := put_vector cd (xr_id r) raw (xw_db (at_statement w))\<rparr>)" for raw
    by (rule goes_put)
  ultimately show ?thesis using assms(2) goes_trans
    by (fastforce simp: repair_row_def Let_def split: option.splits prod.splits if_splits)
qed

lemma repair_rows_goes: "others_ok w \<Longrightarrow> repair_rows cd todo rs st w = (res, w') \<Longrightarrow> goes w w'"
proof (induction cd todo rs st w rule: repair_rows.induct)
  case (2 cd todo r rs st w)
  obtain r1 w1 where one: "repair_row cd todo r st w = (r1, w1)" by fastforce
  note g = repair_row_goes [OF "2.prems"(1) one]
  show ?case
  proof (cases r1)
    case None
    then show ?thesis using one "2.prems"(2) g by simp
  next
    case (Some st1)
    then have "repair_rows cd todo rs st1 w1 = (res, w')" using one "2.prems"(2) by simp
    from goes_trans [OF g "2.IH" [OF one [symmetric, unfolded Some] refl goes_others [OF g "2.prems"(1)] this]] show ?thesis .
  qed
qed simp

lemma repair_batches_goes: "others_ok w \<Longrightarrow> repair_batches cd todo bs st w = (res, w') \<Longrightarrow> goes w w'"
proof (induction cd todo bs st w rule: repair_batches.induct)
  case (2 cd todo ids bs st w)
  let ?w = "at_statement w" let ?rows = "filter (\<lambda>r. xr_id r \<in> set ids) (xd_rows (xw_db ?w))"
  note g0 = goes_statement [OF "2.prems"(1)]
  obtain r1 w1 where one: "repair_rows cd todo ?rows st ?w = (r1, w1)" by fastforce
  have g: "goes w w1" by (rule goes_trans [OF g0 repair_rows_goes [OF goes_others [OF g0 "2.prems"(1)] one]])
  show ?case
  proof (cases r1)
    case None
    then show ?thesis using one "2.prems"(2) g by (simp add: Let_def)
  next
    case (Some st1)
    then have "repair_batches cd todo bs st1 w1 = (res, w')" using one "2.prems"(2) by (simp add: Let_def)
    from goes_trans [OF g "2.IH" [OF refl refl one [symmetric, unfolded Some] refl goes_others [OF g "2.prems"(1)] this]] show ?thesis .
  qed
qed simp


lemma goes_stamp: "goes w w' \<Longrightarrow> xd_epoch (xw_db w) = Some m \<Longrightarrow> xd_epoch (xw_db w') = Some n \<Longrightarrow> m \<le> n"
  unfolding goes_def using epoch.stamp_grows by fastforce

lemma goes_stamp_back: "goes w w' \<Longrightarrow> xd_epoch (xw_db w') = Some n \<Longrightarrow> \<exists>m. xd_epoch (xw_db w) = Some m"
  unfolding goes_def using epoch.stamp_gone by (cases "xd_epoch (xw_db w)") auto

text \<open>A repaired row advances the epoch.\<close>

lemma repair_row_bumps:
  assumes "others_ok w" and "repair_row cd todo r st w = (Some st', w')"
    and "xd_epoch (xw_db w) = Some m" and "xd_epoch (xw_db w') = Some n"
  shows "m < n"
proof -
  obtain raw where w': "w' = (at_statement w)\<lparr>xw_db := put_vector cd (xr_id r) raw (xw_db (at_statement w))\<rparr>"
    using assms(2) by (auto simp: repair_row_def Let_def split: option.splits prod.splits if_splits)
  then have "xd_epoch (xw_db (at_statement w)) = Some (n - 1)"
    using assms(4) by (cases "xd_epoch (xw_db (at_statement w))") (auto simp: put_vector_def)
  from goes_stamp [OF goes_statement [OF assms(1)] assms(3) this] show ?thesis by simp
qed

lemma repair_rows_bumps:
  assumes "others_ok w" and "repair_rows cd todo (r # rs) st w = (Some st', w')"
    and "xd_epoch (xw_db w) = Some m" and "xd_epoch (xw_db w') = Some n"
  shows "m < n"
proof -
  obtain st1 w1 where one: "repair_row cd todo r st w = (Some st1, w1)" and rest: "repair_rows cd todo rs st1 w1 = (Some st', w')"
    using assms(2) by (auto split: option.splits prod.splits)
  note g = repair_rows_goes [OF goes_others [OF repair_row_goes [OF assms(1) one] assms(1)] rest]
  obtain k where k: "xd_epoch (xw_db w1) = Some k" using goes_stamp_back [OF g assms(4)] by blast
  show ?thesis using repair_row_bumps [OF assms(1) one assms(3) k] goes_stamp [OF g k assms(4)] by simp
qed

lemma repair_not_stable:
  assumes o: "others_ok w" and todo: "todo \<noteq> []" "set todo \<subseteq> set (xd_rows (xw_db w))"
    and rep: "repair_batches cd todo (chunked max_bound_params (map xr_id todo)) st w = (Some st', w')"
    and e: "xd_epoch (xw_db w) = Some e" "xd_epoch (xw_db w') = Some e"
  shows False
proof -
  obtain r ts where ts: "todo = r # ts" using todo(1) by (cases todo) auto
  obtain ids bs where c: "chunked max_bound_params (map xr_id todo) = ids # bs" "xr_id r \<in> set ids"
    by (subst (asm) chunked.simps, simp add: ts chunked.simps [of max_bound_params] max_bound_params_def)
  let ?w = "at_statement w" let ?rows = "filter (\<lambda>q. xr_id q \<in> set ids) (xd_rows (xw_db ?w))"
  note g = goes_statement [OF o]
  obtain st1 w1 where one: "repair_rows cd todo ?rows st ?w = (Some st1, w1)" and rest: "repair_batches cd todo bs st1 w1 = (Some st', w')"
    using rep unfolding c(1) by (auto simp: Let_def split: option.splits prod.splits)
  have o1: "others_ok ?w" by (rule goes_others [OF g o])
  note g1 = repair_rows_goes [OF o1 one]
  have o2: "others_ok w1" by (rule goes_others [OF g1 o1])
  note g2 = repair_batches_goes [OF o2 rest]
  have ew: "xd_epoch (xw_db ?w) = Some e" "xd_rows (xw_db ?w) = xd_rows (xw_db w)"
    using epoch.between [of "xw_db w" "xw_db ?w" "xw_db w'" e] g goes_trans [OF g1 g2] e by (auto simp: goes_def)
  have "r \<in> set ?rows" using todo(2) c(2) ts ew(2) by auto
  then obtain q qs where rows: "?rows = q # qs" by (cases ?rows) auto
  obtain k where k: "xd_epoch (xw_db w1) = Some k" using goes_stamp_back [OF g2 e(2)] by blast
  show False using repair_rows_bumps [OF o1 one [unfolded rows] ew(1) k] goes_stamp [OF g2 k e(2)] by simp
qed

lemma load_snapshot_goes: "others_ok w \<Longrightarrow> load_snapshot cd n b w = (res, w') \<Longrightarrow> goes w w'"
proof -
  assume o: "others_ok w" and l: "load_snapshot cd n b w = (res, w')"
  obtain es todo w1 where p: "load_pages cd n 0 w ([], []) = ((es, todo), w1)" by (metis surj_pair)
  have g: "goes w w1" using load_pages_goes [OF o, of cd n 0 "([], [])"] p by simp
  obtain r2 w2 where r: "(if todo \<noteq> [] \<and> b then repair_batches cd todo (chunked max_bound_params (map xr_id todo)) (es, []) w1
      else (Some (es, []), w1)) = (r2, w2)" by fastforce
  have "goes w1 w2"
    using r repair_batches_goes [OF goes_others [OF g o], of cd todo _ "(es, [])" r2 w2] by (auto split: if_splits)
  moreover have "w' = w2" using l p r by (simp add: load_snapshot_def Let_def)
  ultimately show "goes w w'" using goes_trans [OF g] by simp
qed

lemma load_snapshot_exact:
  assumes o: "others_ok w" and ok: "db_ok (xw_db w)" and n: "0 < n" and e: "xd_epoch (xw_db w) = Some e"
    and l: "load_snapshot cd n b w = (Some (s, fresh), w')" and e': "xd_epoch (xw_db w') = Some e"
  shows "sn_entries s = exact cd (xd_rows (xw_db w)) \<and> xd_rows (xw_db w') = xd_rows (xw_db w) \<and>
    (if b then missing cd (xd_rows (xw_db w)) = [] else sn_unrepaired s = length (missing cd (xd_rows (xw_db w))))"
proof -
  obtain es todo w1 where p: "load_pages cd n 0 w ([], []) = ((es, todo), w1)" by (metis surj_pair)
  have g: "goes w w1" using load_pages_goes [OF o, of cd n 0 "([], [])"] p by simp
  let ?r = "if todo \<noteq> [] \<and> b then repair_batches cd todo (chunked max_bound_params (map xr_id todo)) (es, []) w1 else (Some (es, []), w1)"
  obtain r2 w2 where r: "?r = (r2, w2)" by fastforce
  have w2: "w' = w2" "r2 \<noteq> None" using l p r by (cases r2; auto simp: load_snapshot_def Let_def)+
  have o1: "others_ok w1" by (rule goes_others [OF g o])
  have g1: "goes w1 w2" using r repair_batches_goes [OF o1, of cd todo _ "(es, [])" r2 w2] by (auto split: if_splits)
  have e1: "xd_epoch (xw_db w1) = Some e" "xd_rows (xw_db w') = xd_rows (xw_db w)"
    using epoch.between [of "xw_db w" "xw_db w1" "xw_db w'" e] g g1 e e' w2(1) by (auto simp: goes_def)
  note ex = load_pages_exact [OF o ok n e p e1(1)]
  have "\<not> (todo \<noteq> [] \<and> b)"
  proof
    assume t: "todo \<noteq> [] \<and> b"
    have sub: "set todo \<subseteq> set (xd_rows (xw_db w1))" using ex by (auto simp: missing_def)
    obtain st' where "r2 = Some st'" using w2(2) by blast
    then show False using repair_not_stable [OF o1 conjunct1 [OF t] sub _ e1(1), of cd "(es, [])" st' w'] r t e' w2(1) by simp
  qed
  then show ?thesis using l p ex e1(2) by (auto simp: load_snapshot_def Let_def split: if_splits)
qed

section \<open>The cache\<close>

definition store_of :: "string \<Rightarrow> string" where
  "store_of k = takeWhile (\<lambda>c. c \<noteq> CHR ''|'') k"

definition read_only_key :: "string \<Rightarrow> bool" where
  "read_only_key k \<longleftrightarrow> CHR ''|'' \<in> set (drop (Suc (length (store_of k))) k)"

lemma cache_key_of:
  assumes "CHR ''|'' \<notin> set store" and "case model of None \<Rightarrow> True | Some m \<Rightarrow> CHR ''|'' \<notin> set m"
  shows "store_of (cache_key store model) = store \<and> \<not> read_only_key (cache_key store model) \<and>
    store_of (ro_key (cache_key store model)) = store \<and> read_only_key (ro_key (cache_key store model))"
proof -
  have s: "store_of (store @ CHR ''|'' # xs) = store" for xs
    unfolding store_of_def by (subst takeWhile_append2) (use assms(1) in auto)
  show ?thesis using assms(2) s by (cases model) (auto simp: cache_key_def ro_key_def read_only_key_def)
qed

text \<open>An entry is what the store held at some moment when its epoch was the entry's.\<close>

definition entry_ok :: "'v codec \<Rightarrow> corpus_db \<Rightarrow> string \<Rightarrow> 'v cached \<Rightarrow> bool" where
  "entry_ok cd d k ce \<longleftrightarrow> (\<exists>d0. lawful d0 d \<and> xd_epoch d0 = Some (cc_epoch ce) \<and>
     sn_entries (cc_snapshot ce) = exact cd (xd_rows d0) \<and> sn_key (cc_snapshot ce) \<noteq> None \<and>
     (\<not> read_only_key k \<longrightarrow> missing cd (xd_rows d0) = []))"

definition cache_ok :: "'v codec \<Rightarrow> string \<Rightarrow> corpus_db \<Rightarrow> 'v cache \<Rightarrow> bool" where
  "cache_ok cd store d c \<longleftrightarrow> (\<forall>(k, ce) \<in> set c. store_of k = store \<longrightarrow> entry_ok cd d k ce)"

lemma cache_ok_lawful: "cache_ok cd store d c \<Longrightarrow> lawful d d' \<Longrightarrow> cache_ok cd store d' c"
  unfolding cache_ok_def entry_ok_def using epoch.leads_trans by blast

lemma cache_ok_subset: "cache_ok cd store d c \<Longrightarrow> set c' \<subseteq> set c \<Longrightarrow> cache_ok cd store d c'"
  unfolding cache_ok_def by blast

lemma set_dict_pop: "set (dict_pop k c) \<subseteq> set c"
  by (induction c) auto

lemma cache_ok_drop: "cache_ok cd store d c \<Longrightarrow> cache_ok cd store d (if b then dict_pop k c else c)"
  using cache_ok_subset [OF _ set_dict_pop] by (cases b) simp_all

lemma move_to_end_set: "set (move_to_end k c) \<subseteq> set c"
  using set_dict_pop [of k c] by (auto simp: move_to_end_def dest: map_of_SomeD split: option.splits)

lemma cache_get_set: "set (snd (cache_get k e c)) \<subseteq> set c"
  using move_to_end_set [of k c] by (auto simp: cache_get_def split: option.splits)

lemma cache_get_hit:
  assumes "cache_ok cd store d c" and "store_of k = store" and "cache_get k e c = (Some s, c')"
  shows "\<exists>d0. lawful d0 d \<and> xd_epoch d0 = Some e \<and> sn_entries s = exact cd (xd_rows d0) \<and> sn_key s \<noteq> None \<and>
    (\<not> read_only_key k \<longrightarrow> missing cd (xd_rows d0) = [])"
proof -
  from assms(3) obtain ce where ce: "map_of c k = Some ce" "cc_epoch ce = e" "s = cc_snapshot ce"
    by (auto simp: cache_get_def split: option.splits if_splits)
  then have "entry_ok cd d k ce" using assms(1,2) by (auto simp: cache_ok_def dest: map_of_SomeD)
  with ce(2,3) show ?thesis by (auto simp: entry_ok_def)
qed

lemma evict_until_set: "set (evict_until budget need used c) \<subseteq> set c"
  by (induction budget need used c rule: evict_until.induct) auto

lemma cache_ok_publish:
  assumes "cache_ok cd store d c"
    and "store_of k = store \<Longrightarrow> entry_ok cd d k \<lparr>cc_snapshot = s, cc_epoch = e, cc_bytes = estimate_bytes cd s\<rparr>"
  shows "cache_ok cd store d (snd (publish cd budget k s e c))"
proof -
  have "set (snd (publish cd budget k s e c)) \<subseteq>
      insert (k, \<lparr>cc_snapshot = s, cc_epoch = e, cc_bytes = estimate_bytes cd s\<rparr>) (set c)"
    using set_dict_pop [of k c] evict_until_set [of budget "estimate_bytes cd s" "used_bytes (dict_pop k c)" "dict_pop k c"]
    by (cases "budget < estimate_bytes cd s") (auto simp: publish_def Let_def)
  then show ?thesis using assms unfolding cache_ok_def by blast
qed


section \<open>A call\<close>

definition served :: "'v codec \<Rightarrow> bool \<Rightarrow> corpus_world \<Rightarrow> corpus_world \<Rightarrow> 'v corpus_snapshot \<Rightarrow> bool" where
  "served cd read_only w w' s \<longleftrightarrow> (\<exists>d. lawful (xw_db w) d \<and> lawful d (xw_db w') \<and> xd_epoch d \<noteq> None \<and>
     sn_entries s = exact cd (xd_rows d) \<and> (\<not> read_only \<longrightarrow> missing cd (xd_rows d) = []))"

lemma served_later: "served cd ro w w' s \<Longrightarrow> goes v w \<Longrightarrow> goes w' w'' \<Longrightarrow> served cd ro v w'' s"
  unfolding served_def goes_def using epoch.leads_trans by blast

definition good_result :: "'v codec \<Rightarrow> bool \<Rightarrow> string \<Rightarrow> corpus_world \<Rightarrow> 'v corpus_result \<Rightarrow> bool" where
  "good_result cd read_only store w r \<longleftrightarrow>
     (case r of (res, w', c') \<Rightarrow> goes w w' \<and> cache_ok cd store (xw_db w') c' \<and>
        (case res of None \<Rightarrow> True | Some (s, fresh) \<Rightarrow> sn_key s \<noteq> None \<longrightarrow> served cd read_only w w' s))"

lemma good_result_goes: "good_result cd ro store w r \<Longrightarrow> goes v w \<Longrightarrow> good_result cd ro store v r"
  unfolding good_result_def using goes_trans served_later goes_refl by (fastforce split: option.splits prod.splits)

lemma corpus_meta_world: "corpus_meta w = ((m, e), w1) \<Longrightarrow> w1 = at_statement w \<and> m = xd_model (xw_db w1) \<and> e = xd_epoch (xw_db w1)"
  by (auto simp: corpus_meta_def Let_def)

lemma cache_ok_goes: "cache_ok cd store (xw_db w) c \<Longrightarrow> goes w w' \<Longrightarrow> cache_ok cd store (xw_db w') c"
  unfolding goes_def using cache_ok_lawful by blast

lemma uncached_good:
  assumes "others_ok w" and "cache_ok cd store (xw_db w) c"
  shows "good_result cd ro store w (uncached (load_snapshot cd n b w) sink c)"
proof -
  obtain res w' where l: "load_snapshot cd n b w = (res, w')" by fastforce
  note g = load_snapshot_goes [OF assms(1) l]
  show ?thesis using g cache_ok_goes [OF assms(2) g] l
    by (cases res) (auto simp: good_result_def uncached_def)
qed

lemma stable_load:
  assumes o: "others_ok w" and ok: "db_ok (xw_db w)" and n: "0 < n" and e: "xd_epoch (xw_db w) = Some e"
    and l: "load_snapshot cd n b w = (Some (s, fresh), w2)" and e': "xd_epoch (xw_db (at_statement w2)) = Some e"
  shows "goes w (at_statement w2) \<and> sn_entries s = exact cd (xd_rows (xw_db w)) \<and>
    (if b then missing cd (xd_rows (xw_db w)) = [] else sn_unrepaired s = length (missing cd (xd_rows (xw_db w))))"
proof -
  note g = load_snapshot_goes [OF o l]
  note g2 = goes_statement [OF goes_others [OF g o]]
  have "xd_epoch (xw_db w2) = Some e"
    using epoch.between [of "xw_db w" "xw_db w2" "xw_db (at_statement w2)" e] g g2 e e' by (auto simp: goes_def)
  from load_snapshot_exact [OF o ok n e l this] goes_trans [OF g g2] show ?thesis by simp
qed

lemma cold_loads_good:
  assumes "others_ok w" and "db_ok (xw_db w)" and "0 < xc_page cfg" and "store_of k = store" and "\<not> read_only_key k"
    and "cache_ok cd store (xw_db w) c"
  shows "good_result cd False store w (cold_loads cd cfg k n loaded sink w c)"
  using assms
proof (induction n arbitrary: loaded sink w)
  case 0
  then show ?case by (cases loaded) (auto simp: good_result_def)
next
  case (Suc n)
  let ?w1 = "at_statement w"
  note g1 = goes_statement [OF Suc.prems(1)]
  note o1 = goes_others [OF g1 Suc.prems(1)] and ok1 = goes_ok [OF g1 Suc.prems(2)] and c1 = cache_ok_goes [OF Suc.prems(6) g1]
  have m: "corpus_meta w = ((xd_model (xw_db ?w1), xd_epoch (xw_db ?w1)), ?w1)" by (simp add: corpus_meta_def Let_def)
  show ?case
  proof (cases "xd_epoch (xw_db ?w1)")
    case None
    then show ?thesis using good_result_goes [OF uncached_good [OF o1 c1] g1] m by simp
  next
    case b: (Some b)
    obtain res w2 where l: "load_snapshot cd (xc_page cfg) True ?w1 = (res, w2)" by fastforce
    note g2 = load_snapshot_goes [OF o1 l]
    note o2 = goes_others [OF g2 o1] and c2 = cache_ok_goes [OF c1 g2]
    show ?thesis
    proof (cases res)
      case None
      then show ?thesis using m b l goes_trans [OF g1 g2] c2 by (simp add: good_result_def)
    next
      case (Some sf)
      obtain s fresh where sf: "sf = (s, fresh)" by fastforce
      let ?w3 = "at_statement w2"
      note g3 = goes_statement [OF o2]
      note o3 = goes_others [OF g3 o2] and c3 = cache_ok_goes [OF c2 g3] and g13 = goes_trans [OF g1 goes_trans [OF g2 g3]]
      have m3: "corpus_meta w2 = ((xd_model (xw_db ?w3), xd_epoch (xw_db ?w3)), ?w3)" by (simp add: corpus_meta_def Let_def)
      show ?thesis
      proof (cases "xd_epoch (xw_db ?w3) = Some b")
        case True
        note st = stable_load [OF o1 ok1 Suc.prems(3) b l [unfolded Some sf] True]
        let ?s = "s\<lparr>sn_key := Some k\<rparr>"
        have law: "lawful (xw_db ?w1) (xw_db ?w3)" using st by (simp add: goes_def)
        have "entry_ok cd (xw_db ?w3) k \<lparr>cc_snapshot = ?s, cc_epoch = b, cc_bytes = estimate_bytes cd ?s\<rparr>"
          unfolding entry_ok_def by (rule exI [of _ "xw_db ?w1"]) (use st law b in simp)
        then have "cache_ok cd store (xw_db ?w3) (snd (publish cd (xc_budget cfg) k ?s b c))"
          by (intro cache_ok_publish [OF c3])
        moreover have "served cd False w ?w3 ?s"
          unfolding served_def by (rule exI [of _ "xw_db ?w1"]) (use st law b g1 in \<open>simp add: goes_def\<close>)
        ultimately show ?thesis using m b l Some sf m3 True g13 by (simp add: good_result_def Let_def)
      next
        case False
        show ?thesis
        proof (cases "xd_epoch (xw_db ?w3)")
          case None
          then show ?thesis using m b l Some sf m3 g13 c3 by (simp add: good_result_def)
        next
          case (Some a)
          have "good_result cd False store ?w3 (cold_loads cd cfg k n (Some s) (sink @ fresh) ?w3 c)"
            by (rule Suc.IH [OF o3 goes_ok [OF g13 Suc.prems(2)] Suc.prems(3-5) c3])
          from good_result_goes [OF this g13] show ?thesis
            using m b l \<open>res = Some sf\<close> sf m3 Some False by (simp add: Let_def)
        qed
      qed
    qed
  qed
qed

lemma read_only_loads_good:
  assumes "others_ok w" and "db_ok (xw_db w)" and "0 < xc_page cfg" and "store_of k = store" and "\<not> read_only_key k"
    and "store_of (ro_key k) = store" and "read_only_key (ro_key k)" and "cache_ok cd store (xw_db w) c"
  shows "good_result cd True store w (read_only_loads cd cfg k n loaded w c)"
  using assms
proof (induction n arbitrary: loaded w)
  case 0
  then show ?case by (cases loaded) (auto simp: good_result_def)
next
  case (Suc n)
  let ?w1 = "at_statement w"
  note g1 = goes_statement [OF Suc.prems(1)]
  note o1 = goes_others [OF g1 Suc.prems(1)] and ok1 = goes_ok [OF g1 Suc.prems(2)] and c1 = cache_ok_goes [OF Suc.prems(8) g1]
  have m: "corpus_meta w = ((xd_model (xw_db ?w1), xd_epoch (xw_db ?w1)), ?w1)" by (simp add: corpus_meta_def Let_def)
  obtain res w2 where l: "load_snapshot cd (xc_page cfg) False ?w1 = (res, w2)" by fastforce
  note g2 = load_snapshot_goes [OF o1 l]
  note o2 = goes_others [OF g2 o1] and c2 = cache_ok_goes [OF c1 g2] and g12 = goes_trans [OF g1 g2]
  show ?case
  proof (cases res)
    case None
    then show ?thesis using m l g12 c2 by (simp add: good_result_def)
  next
    case (Some sf)
    obtain s fresh where sf: "sf = (s, fresh)" by fastforce
    show ?thesis
    proof (cases "xd_epoch (xw_db ?w1)")
      case None
      then show ?thesis using m l Some sf g12 c2 by (simp add: good_result_def)
    next
      case b: (Some b)
      let ?w3 = "at_statement w2"
      note g3 = goes_statement [OF o2]
      note o3 = goes_others [OF g3 o2] and c3 = cache_ok_goes [OF c2 g3] and g13 = goes_trans [OF g12 g3]
      have m3: "corpus_meta w2 = ((xd_model (xw_db ?w3), xd_epoch (xw_db ?w3)), ?w3)" by (simp add: corpus_meta_def Let_def)
      show ?thesis
      proof (cases "xd_epoch (xw_db ?w3) = Some b")
        case True
        note st = stable_load [OF o1 ok1 Suc.prems(3) b l [unfolded Some sf] True]
        let ?t = "if sn_unrepaired s = 0 then k else ro_key k" let ?s = "s\<lparr>sn_key := Some ?t\<rparr>"
        let ?c = "snd (publish cd (xc_budget cfg) ?t ?s b c)"
        have law: "lawful (xw_db ?w1) (xw_db ?w3)" using st by (simp add: goes_def)
        have "entry_ok cd (xw_db ?w3) ?t \<lparr>cc_snapshot = ?s, cc_epoch = b, cc_bytes = estimate_bytes cd ?s\<rparr>"
          unfolding entry_ok_def by (rule exI [of _ "xw_db ?w1"]) (use st law b Suc.prems(7) in simp)
        then have p: "cache_ok cd store (xw_db ?w3) ?c" by (intro cache_ok_publish [OF c3])
        note cache_ok_drop [OF p, of "?t = k" "ro_key k"]
        moreover have "served cd True w ?w3 ?s"
          unfolding served_def by (rule exI [of _ "xw_db ?w1"]) (use st law b g1 in \<open>simp add: goes_def\<close>)
        ultimately show ?thesis using m b l Some sf m3 True g13 by (simp add: good_result_def Let_def)
      next
        case False
        show ?thesis
        proof (cases "xd_epoch (xw_db ?w3)")
          case None
          then show ?thesis using m b l Some sf m3 g13 c3 by (simp add: good_result_def)
        next
          case (Some a)
          have "good_result cd True store ?w3 (read_only_loads cd cfg k n (Some s) ?w3 c)"
            by (rule Suc.IH [OF o3 goes_ok [OF g13 Suc.prems(2)] Suc.prems(3-7) c3])
          from good_result_goes [OF this g13] show ?thesis
            using m b l \<open>res = Some sf\<close> sf m3 Some False by (simp add: Let_def)
        qed
      qed
    qed
  qed
qed

lemma hit_good:
  assumes "cache_ok cd store (xw_db w) c" and "store_of k = store" and "xd_epoch (xw_db w) = Some e"
    and "cache_get k e c = (Some s, c')" and "ro \<or> \<not> read_only_key k"
  shows "good_result cd ro store w (Some (s, []), w, c')"
proof -
  obtain d0 where d0: "lawful d0 (xw_db w)" "xd_epoch d0 = Some e" "sn_entries s = exact cd (xd_rows d0)"
    "\<not> read_only_key k \<longrightarrow> missing cd (xd_rows d0) = []"
    using cache_get_hit [OF assms(1,2,4)] by blast
  have "xd_rows (xw_db w) = xd_rows d0" by (rule epoch.ends_equal [OF d0(1,2) assms(3)])
  then have "served cd ro w w s"
    unfolding served_def by (intro exI [of _ "xw_db w"]) (use d0 assms(3,5) in \<open>auto simp: epoch.leads_refl\<close>)
  moreover have "cache_ok cd store (xw_db w) c'"
    using cache_ok_subset [OF assms(1)] cache_get_set [of k e c] assms(4) by simp
  ultimately show ?thesis by (simp add: good_result_def)
qed

lemma evict_stale_set: "set (evict_stale_models store k c) \<subseteq> set c"
  by (auto simp: evict_stale_models_def)

lemma cold_path_good:
  assumes "others_ok w" and "db_ok (xw_db w)" and "0 < xc_page cfg" and "store_of k = store" and "\<not> read_only_key k"
    and "xd_epoch (xw_db w) = Some e" and "cache_ok cd store (xw_db w) c"
  shows "good_result cd False store w
    (case cache_get k e c of (Some s, c') \<Rightarrow> (Some (s, []), w, c')
     | (None, _) \<Rightarrow> cold_loads cd cfg k n None [] w c)"
  using hit_good [OF assms(7,4,6), of _ _ False] assms(5) cold_loads_good [OF assms(1-5,7)]
  by (auto split: option.splits prod.splits)

lemma read_only_path_good:
  assumes "others_ok w" and "db_ok (xw_db w)" and "0 < xc_page cfg" and "store_of k = store" and "\<not> read_only_key k"
    and "store_of (ro_key k) = store" and "read_only_key (ro_key k)"
    and "xd_epoch (xw_db w) = Some e" and "cache_ok cd store (xw_db w) c"
  shows "good_result cd True store w
    (case cache_get k e c of (Some s, c') \<Rightarrow> (Some (s, []), w, c')
     | (None, _) \<Rightarrow> (case cache_get (ro_key k) e c of (Some s, c') \<Rightarrow> (Some (s, []), w, c')
        | (None, _) \<Rightarrow> read_only_loads cd cfg k n None w c))"
  using hit_good [OF assms(9,4,8), of _ _ True] hit_good [OF assms(9,6,8), of _ _ True] read_only_loads_good [OF assms(1-7,9)]
  by (auto split: option.splits prod.splits)

text \<open>The call after the reading of the epoch.\<close>

lemma corpus_base_read:
  assumes o: "others_ok w" and ok: "db_ok (xw_db w)" and n: "0 < xc_page cfg" and bar: "CHR ''|'' \<notin> set (xc_store cfg)"
    and c: "cache_ok cd (xc_store cfg) (xw_db w) c"
    and peers: "\<And>c. cache_ok cd (xc_store cfg) (xw_db w) c \<Longrightarrow> cache_ok cd (xc_store cfg) (xw_db w) (peers c)"
  shows "good_result cd ro (xc_store cfg) w (corpus_base cd cfg ro (Some (xd_model (xw_db w), xd_epoch (xw_db w))) peers w c)"
proof (cases "xd_epoch (xw_db w)")
  case None
  then show ?thesis using uncached_good [OF o c] by (simp add: corpus_base_def)
next
  case (Some e)
  let ?k = "cache_key (xc_store cfg) (xd_model (xw_db w))"
  have k: "store_of ?k = xc_store cfg" "\<not> read_only_key ?k" "store_of (ro_key ?k) = xc_store cfg" "read_only_key (ro_key ?k)"
    using cache_key_of [OF bar, of "xd_model (xw_db w)"] ok by (auto simp: db_ok_def)
  show ?thesis
  proof (cases "cache_get ?k e c")
    case (Pair hit c1)
    show ?thesis
    proof (cases hit)
      case s: (Some s)
      then show ?thesis using Pair hit_good [OF c k(1) Some, of s c1] k(2) Some by (simp add: corpus_base_def)
    next
      case None
      note p = peers [OF c]
      show ?thesis using None Pair Some read_only_path_good [OF o ok n k Some p, of load_retries]
          cold_path_good [OF o ok n k(1,2) Some cache_ok_subset [OF p evict_stale_set], of load_retries]
        by (cases ro) (simp_all only: corpus_base_def option.simps prod.simps Let_def if_True if_False)
    qed
  qed
qed

lemma corpus_base_meta: "corpus_base cd cfg ro None peers w c =
    corpus_base cd cfg ro (Some (xd_model (xw_db (at_statement w)), xd_epoch (xw_db (at_statement w)))) peers (at_statement w) c"
  by (simp add: corpus_base_def corpus_meta_def Let_def)


section \<open>The budget\<close>

lemma used_simps [simp]: "used_bytes [] = 0" "used_bytes ((k, e) # c) = cc_bytes e + used_bytes c"
    "used_bytes (c @ c') = used_bytes c + used_bytes c'"
  by (simp_all add: used_bytes_def)

lemma used_filter: "used_bytes (filter P c) \<le> used_bytes c"
  by (induction c) auto

lemma used_pop: "used_bytes (dict_pop k c) \<le> used_bytes c"
  by (induction c) auto

lemma used_pop_present: "map_of c k = Some e \<Longrightarrow> used_bytes (dict_pop k c) + cc_bytes e \<le> used_bytes c"
proof (induction c)
  case (Cons p c)
  then show ?case using used_pop [of k c] by (cases p) (auto split: if_splits)
qed simp

lemma used_cache_get: "used_bytes (snd (cache_get k e c)) \<le> used_bytes c"
  using used_pop_present [of c k] by (auto simp: cache_get_def move_to_end_def split: option.splits)

lemma used_evict_until: "need \<le> budget \<Longrightarrow> used_bytes (evict_until budget need (used_bytes c) c) + need \<le> budget"
proof (induction c)
  case (Cons p c)
  then show ?case by (cases p) auto
qed simp

lemma used_publish:
  assumes "used_bytes c \<le> budget"
  shows "used_bytes (snd (publish cd budget k s e c)) \<le> budget"
proof (cases "budget < estimate_bytes cd s")
  case True
  then show ?thesis using used_pop [of k c] assms by (simp add: publish_def Let_def)
next
  case False
  then show ?thesis using used_evict_until [of "estimate_bytes cd s" budget "dict_pop k c"]
    by (simp add: publish_def Let_def)
qed

lemma used_cold: "used_bytes c \<le> xc_budget cfg \<Longrightarrow> used_bytes (snd (snd (cold_loads cd cfg k n loaded sink w c))) \<le> xc_budget cfg"
  by (induction n arbitrary: loaded sink w) (auto simp: uncached_def Let_def used_publish split: option.splits prod.splits)

lemma used_read_only: "used_bytes c \<le> xc_budget cfg \<Longrightarrow> used_bytes (snd (snd (read_only_loads cd cfg k n loaded w c))) \<le> xc_budget cfg"
proof (induction n arbitrary: loaded w)
  case (Suc n)
  then show ?case
    by (auto simp: Let_def used_publish intro: le_trans [OF used_pop] split: option.splits prod.splits)
qed simp

text \<open>C34: The bytes of the cached snapshots, as they were estimated when cached, never exceed the budget.\<close>

theorem cache_within_budget:
  assumes "used_bytes c \<le> xc_budget cfg" and "\<And>c. used_bytes c \<le> xc_budget cfg \<Longrightarrow> used_bytes (peers c) \<le> xc_budget cfg"
    and "corpus_base cd cfg ro meta peers w c = (res, w', c')"
  shows "used_bytes c' \<le> xc_budget cfg"
proof -
  have hit: "used_bytes c2 \<le> xc_budget cfg" if "cache_get k e c1 = (r, c2)" "used_bytes c1 \<le> xc_budget cfg" for k e c1 c2 r
    using used_cache_get [of k e c1] that by simp
  have ev: "used_bytes (evict_stale_models (xc_store cfg) k (peers c)) \<le> xc_budget cfg" for k
    using used_filter assms(1,2) le_trans unfolding evict_stale_models_def by blast
  note cold = used_cold [OF ev, of cd] and ro = used_read_only [OF assms(2) [OF assms(1)], of cd]
  have "used_bytes (snd (snd (corpus_base cd cfg ro meta peers w c))) \<le> xc_budget cfg"
    using assms(1) assms(2) [OF assms(1)] ev cold ro
    by (auto simp: corpus_base_def uncached_def Let_def intro: hit split: option.splits prod.splits)
  then show ?thesis by (simp add: assms(3))
qed

section \<open>Well-formed snapshots\<close>

text \<open>Every entry is filed under its own id, and no id twice.\<close>

definition entries_wf :: "(int, 'v corpus_entry) dict \<Rightarrow> bool" where
  "entries_wf es \<longleftrightarrow> dict_wf es \<and> (\<forall>(i, e) \<in> set es. en_id e = i)"

definition cache_wf :: "'v cache \<Rightarrow> bool" where
  "cache_wf c \<longleftrightarrow> (\<forall>(k, ce) \<in> set c. entries_wf (sn_entries (cc_snapshot ce)))"

definition wf_result :: "'v corpus_result \<Rightarrow> bool" where
  "wf_result r \<longleftrightarrow> cache_wf (snd (snd r)) \<and> (\<forall>s f. fst r = Some (s, f) \<longrightarrow> entries_wf (sn_entries s))"

lemma wf_append: "entries_wf es \<Longrightarrow> entries_wf (snapshot_append e es)"
proof -
  assume w: "entries_wf es"
  have "set (dict_set (en_id e) e es) \<subseteq> insert (en_id e, e) (set es)"
    by (induction es) auto
  then show ?thesis using w by (auto simp: entries_wf_def snapshot_append_def distinct_update)
qed

lemma wf_load_rows: "entries_wf es \<Longrightarrow> entries_wf (fst (fold (load_row cd) rows (es, rep)))"
proof (induction rows arbitrary: es rep)
  case (Cons r rows)
  obtain es' rep' where l: "load_row cd r (es, rep) = (es', rep')" by fastforce
  have "entries_wf es'" using l Cons.prems by (auto simp: load_row_def wf_append split: if_splits option.splits)
  then show ?case using Cons.IH l by simp
qed simp

lemma wf_load_pages: "entries_wf (fst st) \<Longrightarrow> entries_wf (fst (fst (load_pages cd n after w st)))"
proof (induction cd n after w st rule: load_pages.induct)
  case (1 cd n after w st)
  let ?w = "at_statement w" let ?page = "select_page n after (xw_db ?w)"
  have wf: "entries_wf (fst (fold (load_row cd) ?page st))" using wf_load_rows [of "fst st" cd ?page "snd st"] 1(2) by simp
  show ?case
  proof (cases "?page = [] \<or> length ?page < n")
    case True
    then show ?thesis using wf by (simp add: load_pages.simps [of cd n after w st] Let_def)
  next
    case False
    then show ?thesis using 1(1) [OF refl refl refl False wf] by (simp add: load_pages.simps [of cd n after w st] Let_def)
  qed
qed

lemma wf_repair_row: "entries_wf (fst st) \<Longrightarrow> repair_row cd todo r st w = (Some st', w') \<Longrightarrow> entries_wf (fst st')"
  by (auto simp: repair_row_def Let_def wf_append split: prod.splits option.splits if_splits)

lemma wf_repair_rows: "entries_wf (fst st) \<Longrightarrow> repair_rows cd todo rs st w = (Some st', w') \<Longrightarrow> entries_wf (fst st')"
  by (induction cd todo rs st w rule: repair_rows.induct) (auto dest: wf_repair_row split: prod.splits option.splits)

lemma wf_repair_batches: "entries_wf (fst st) \<Longrightarrow> repair_batches cd todo bs st w = (Some st', w') \<Longrightarrow> entries_wf (fst st')"
proof (induction bs arbitrary: st w)
  case (Cons ids bs)
  let ?w = "at_statement w" let ?rows = "filter (\<lambda>r. xr_id r \<in> set ids) (xd_rows (xw_db ?w))"
  obtain st1 w1 where one: "repair_rows cd todo ?rows st ?w = (Some st1, w1)" "repair_batches cd todo bs st1 w1 = (Some st', w')"
    using Cons.prems(2) by (auto simp: Let_def split: prod.splits option.splits)
  show ?case by (rule Cons.IH [OF wf_repair_rows [OF Cons.prems(1) one(1)] one(2)])
qed simp

lemma wf_load_snapshot: "load_snapshot cd n b w = (Some (s, fresh), w') \<Longrightarrow> entries_wf (sn_entries s)"
proof -
  assume l: "load_snapshot cd n b w = (Some (s, fresh), w')"
  obtain es todo w1 where p: "load_pages cd n 0 w ([], []) = ((es, todo), w1)" by (metis surj_pair)
  have wf: "entries_wf es" using wf_load_pages [of "([], [])" cd n 0 w] p by (simp add: entries_wf_def)
  show ?thesis
  proof (cases "todo \<noteq> [] \<and> b")
    case True
    obtain res w2 where r: "repair_batches cd todo (chunked max_bound_params (map xr_id todo)) (es, []) w1 = (res, w2)" by fastforce
    then show ?thesis using wf_repair_batches [of "(es, [])"] wf l p True by (cases res) (auto simp: load_snapshot_def Let_def)
  next
    case False
    then show ?thesis using wf l p by (auto simp: load_snapshot_def Let_def)
  qed
qed

lemma cache_wf_subset: "cache_wf c \<Longrightarrow> set c' \<subseteq> set c \<Longrightarrow> cache_wf c'"
  unfolding cache_wf_def by blast

lemma cache_wf_publish: "cache_wf c \<Longrightarrow> entries_wf (sn_entries s) \<Longrightarrow> cache_wf (snd (publish cd budget k s e c))"
proof -
  assume c: "cache_wf c" and s: "entries_wf (sn_entries s)"
  have "set (snd (publish cd budget k s e c)) \<subseteq>
      insert (k, \<lparr>cc_snapshot = s, cc_epoch = e, cc_bytes = estimate_bytes cd s\<rparr>) (set c)"
    using set_dict_pop [of k c] evict_until_set [of budget "estimate_bytes cd s" "used_bytes (dict_pop k c)" "dict_pop k c"]
    by (cases "budget < estimate_bytes cd s") (auto simp: publish_def Let_def)
  then show ?thesis using c s unfolding cache_wf_def by (fastforce split: prod.splits)
qed

lemma wf_hit: "cache_wf c \<Longrightarrow> cache_get k e c = (Some s, c') \<Longrightarrow> wf_result (Some (s, []), w, c')"
proof -
  assume c: "cache_wf c" and g: "cache_get k e c = (Some s, c')"
  have "cache_wf c'" using cache_wf_subset [OF c] cache_get_set [of k e c] g by simp
  moreover have "entries_wf (sn_entries s)"
    using c g by (auto simp: cache_get_def cache_wf_def dest!: map_of_SomeD split: option.splits if_splits)
  ultimately show ?thesis by (simp add: wf_result_def)
qed

lemma wf_uncached: "cache_wf c \<Longrightarrow> wf_result (uncached (load_snapshot cd n b w) sink c)"
  by (cases "load_snapshot cd n b w") (auto simp: wf_result_def uncached_def dest: wf_load_snapshot)

lemma wf_cold: "cache_wf c \<Longrightarrow> (\<forall>s. loaded = Some s \<longrightarrow> entries_wf (sn_entries s)) \<Longrightarrow> wf_result (cold_loads cd cfg k n loaded sink w c)"
proof (induction n arbitrary: loaded sink w)
  case (Suc n)
  then show ?case
    by (auto simp: Let_def cache_wf_publish wf_uncached wf_result_def [of "(a, b)" for a b] dest: wf_load_snapshot split: option.splits prod.splits)
qed (auto simp: wf_result_def)

lemma cache_wf_pop: "cache_wf c \<Longrightarrow> cache_wf (dict_pop k c)"
  by (rule cache_wf_subset [OF _ set_dict_pop])

lemma wf_read_only: "cache_wf c \<Longrightarrow> (\<forall>s. loaded = Some s \<longrightarrow> entries_wf (sn_entries s)) \<Longrightarrow> wf_result (read_only_loads cd cfg k n loaded w c)"
proof (induction n arbitrary: loaded w)
  case (Suc n)
  then show ?case
    by (auto simp: Let_def cache_wf_publish cache_wf_pop wf_result_def [of "(a, b)" for a b] dest: wf_load_snapshot
        split: option.splits prod.splits)
qed (auto simp: wf_result_def)

lemma wf_cold_path: "cache_wf c \<Longrightarrow> wf_result (case cache_get k e c of (Some s, c') \<Rightarrow> (Some (s, []), w, c')
    | (None, _) \<Rightarrow> cold_loads cd cfg k n None [] w c)"
  using wf_hit [of c k e] wf_cold [of c None] by (auto split: option.splits prod.splits)

lemma wf_read_only_path: "cache_wf c \<Longrightarrow> wf_result (case cache_get k e c of (Some s, c') \<Rightarrow> (Some (s, []), w, c')
    | (None, _) \<Rightarrow> (case cache_get k' e c of (Some s, c') \<Rightarrow> (Some (s, []), w, c') | (None, _) \<Rightarrow> read_only_loads cd cfg k n None w c))"
  using wf_hit [of c k e] wf_hit [of c k' e] wf_read_only [of c None] by (auto split: option.splits prod.splits)

lemma wf_read:
  assumes c: "cache_wf c" and peers: "cache_wf (peers c)"
  shows "wf_result (corpus_base cd cfg ro (Some (model, stamp)) peers w c)"
proof (cases stamp)
  case None
  then show ?thesis using wf_uncached [OF c] by (simp add: corpus_base_def)
next
  case (Some e)
  obtain hit c1 where g: "cache_get (cache_key (xc_store cfg) model) e c = (hit, c1)" by fastforce
  show ?thesis
  proof (cases hit)
    case s: (Some s)
    then show ?thesis using wf_hit [OF c, of _ e s c1] g Some by (simp add: corpus_base_def)
  next
    case None
    then show ?thesis using g Some wf_read_only_path [OF peers] wf_cold_path [OF cache_wf_subset [OF peers evict_stale_set]]
      by (cases ro) (simp_all only: corpus_base_def option.simps prod.simps Let_def if_True if_False)
  qed
qed


section \<open>A store with a row that has no vector\<close>

definition demo_codec :: "nat codec" where
  "demo_codec = \<lparr>cd_parse = length, cd_compute = (\<lambda>t m tags. Some (Some t)), cd_repr = (\<lambda>t. ''dense''),
     cd_components = (\<lambda>n. n), cd_length = (\<lambda>j. 0)\<rparr>"

definition demo_row :: "int \<Rightarrow> string option \<Rightarrow> corpus_row" where
  "demo_row i v = \<lparr>xr_id = i, xr_content = ''a'', xr_created = None, xr_meta = None, xr_tags = None, xr_vec = v,
     xr_repr = None, xr_source = None\<rparr>"

definition demo_store :: "corpus_row list \<Rightarrow> int \<Rightarrow> corpus_world" where
  "demo_store rows e = \<lparr>xw_db = \<lparr>xd_rows = rows, xd_model = None, xd_epoch = Some e\<rparr>, xw_others = []\<rparr>"

definition demo_cfg :: corpus_cfg where
  "demo_cfg = \<lparr>xc_store = ''s'', xc_page = 2, xc_budget = 1000\<rparr>"

lemmas demo_defs = demo_codec_def demo_row_def demo_store_def demo_cfg_def

definition demo_run :: "corpus_row list \<Rightarrow> int \<Rightarrow> nat cache \<Rightarrow> nat corpus_result" where
  "demo_run rows e c = corpus_base demo_codec demo_cfg False None (\<lambda>c. c) (demo_store rows e) c"

text \<open>What a result shows: the ids of its snapshot and its key, and the store's epoch.\<close>

definition shown :: "nat corpus_result \<Rightarrow> (int list \<times> string option) option \<times> int option" where
  "shown r = (case r of (res, w, c) \<Rightarrow> (map_option (\<lambda>(s, f). (map fst (sn_entries s), sn_key s)) res, xd_epoch (xw_db w)))"

lemma demo_call: "shown (demo_run [demo_row 1 None] 5 []) = (Some ([1], Some ''s|''), Some 6)"
  by code_simp

lemma demo_base_ok: "others_ok (demo_store [demo_row 1 None] 5)" "db_ok (xw_db (demo_store [demo_row 1 None] 5))"
    "0 < xc_page demo_cfg" "CHR ''|'' \<notin> set (xc_store demo_cfg)"
  by (simp_all add: demo_defs others_ok_def db_ok_def)



theorem cache_within_budget_witness:
  "\<exists>res w' c'. demo_run [demo_row 1 None] 5 [] = (res, w', c') \<and> map (cc_bytes \<circ> snd) c' = [491] \<and> used_bytes c' \<le> 1000"
proof -
  obtain res w' c' where r: "demo_run [demo_row 1 None] 5 [] = (res, w', c')" by (metis surj_pair)
  have "map (cc_bytes \<circ> snd) (snd (snd (demo_run [demo_row 1 None] 5 []))) = [491]" by code_simp
  then show ?thesis using r cache_within_budget [of "[]" demo_cfg "\<lambda>c. c" demo_codec False None "demo_store [demo_row 1 None] 5" res w' c']
    by (simp add: demo_run_def demo_cfg_def)
qed


end
