(* ===== verification/Restore_Conflicts.thy ===== *)
theory Restore_Conflicts
  imports Store_Compare
begin

text \<open>
  \<open>restore --from-r2\<close>, the first half (\<open>memora/local_primary.py\<close>): the differences between a snapshot and D1,
  grouped by memory, meta key and memory-less action, and the operator's choice for every group.  The rows of a
  group are compared by a digest; its text form and its hash are arguments, as are \<open>str\<close> and \<open>json.loads\<close>.
  Primary keys hold integers and texts, so that two keys are equal only when their values are.
\<close>

section \<open>Groups\<close>

text \<open>The name of a group is its kind and the value behind the colon.\<close>

datatype gid = GMemory sval | GMeta sval | GAction sval

definition group_of :: "string \<Rightarrow> row \<Rightarrow> gid" where
  "group_of t r =
     (if t = ''memories'' then GMemory (row_get r ''id'')
      else if t = ''memories_meta'' then GMeta (row_get r ''key'')
      else if t = ''memories_actions'' \<and> row_get r ''memory_id'' = VNull then GAction (row_get r ''id'')
      else GMemory (row_get r ''memory_id''))"

text \<open>A database file: the columns of its tables, none for a table it does not have, and its rows.\<close>

record db_file =
  df_columns :: "string \<Rightarrow> string list"
  df_rows :: "string \<Rightarrow> row list"

definition pick :: "string list \<Rightarrow> row \<Rightarrow> row" where
  "pick cols r = map (\<lambda>c. (c, row_get r c)) cols"

definition keyed :: "string \<Rightarrow> row \<Rightarrow> (sval list \<times> row) option" where
  "keyed t r = map_option (\<lambda>k. (k, r)) (all_some (map (map_of r) (the (map_of sync_tables t))))"

definition file_rows :: "db_file \<Rightarrow> string \<Rightarrow> string list \<Rightarrow> (sval list, row) dict option" where
  "file_rows f t columns =
     (if df_columns f t = [] then Some []
      else let cols = filter (\<lambda>c. c \<in> set (df_columns f t)) columns in
        map_option dict_of (all_some (map (keyed t) (filter (keep_row t) (map (pick cols) (df_rows f t))))))"

definition norm_row :: "row \<Rightarrow> row" where
  "norm_row r = sort_key fst (map (map_prod id norm_value) r)"

text \<open>A row of a group: its table, its primary key and its normalised columns.\<close>

type_synonym grow = "string \<times> sval list \<times> row"

record ('l, 'h) hashing =
  hs_dump :: "grow \<Rightarrow> 'l"
  hs_hash :: "'l list \<Rightarrow> 'h"

definition group_digest :: "('l :: linorder, 'h) hashing \<Rightarrow> grow list \<Rightarrow> 'h" where
  "group_digest hs rows = hs_hash hs (sort (map (hs_dump hs) rows))"

type_synonym tside = "(string, (sval list, row) dict) dict"

type_synonym tkey = "string \<times> sval list"

definition side_row :: "tside \<Rightarrow> tkey \<Rightarrow> row option" where
  "side_row sd k = map_of (dict_get [] sd (fst k)) (snd k)"

definition group_rows :: "tside \<Rightarrow> tkey list \<Rightarrow> grow list" where
  "group_rows sd keys = List.map_filter (\<lambda>k. map_option (\<lambda>r. (fst k, snd k, norm_row r)) (side_row sd k)) keys"

section \<open>The conflicts\<close>

record 'h cgroup =
  cg_id :: gid
  cg_keys :: "tkey list"
  cg_snap :: "grow list"
  cg_d1 :: "grow list"
  cg_preimage :: 'h
  cg_refs :: "(gid \<times> string \<times> bool) list"

definition add_member :: "gid \<times> tkey \<Rightarrow> (gid, tkey list) dict \<Rightarrow> (gid, tkey list) dict" where
  "add_member gk m =
     (let (g, k) = gk; ks = dict_get [] m g in dict_set g (if k \<in> set ks then ks else ks @ [k]) m)"

definition side_members :: "tside \<Rightarrow> string \<Rightarrow> (gid \<times> tkey) list" where
  "side_members sd t = map (\<lambda>(pk, r). (group_of t r, (t, pk))) (dict_get [] sd t)"

definition group_members :: "tside \<Rightarrow> tside \<Rightarrow> (gid, tkey list) dict" where
  "group_members snap d1 =
     fold add_member (concat (map (\<lambda>(t, _). side_members snap t @ side_members d1 t) sync_tables)) []"

definition table_index :: "string list \<Rightarrow> string \<Rightarrow> nat" where
  "table_index ts t = length (takeWhile (\<lambda>u. u \<noteq> t) ts)"

definition id_number :: "sval \<Rightarrow> int" where
  "id_number v = (case v of VInt i \<Rightarrow> i | _ \<Rightarrow> 0)"

text \<open>The order of the report; a key of \<open>memories_meta\<close> is not a numeral.\<close>

fun gid_order :: "(sval \<Rightarrow> string) \<Rightarrow> gid \<Rightarrow> nat \<times> int \<times> string" where
  "gid_order shown (GAction v) = (0, id_number v, shown v)"
| "gid_order shown (GMemory v) = (1, id_number v, shown v)"
| "gid_order shown (GMeta v) = (2, 0, shown v)"

definition key_order :: "(sval \<Rightarrow> string) \<Rightarrow> tkey \<Rightarrow> nat \<times> string list" where
  "key_order shown k = (table_index (map fst sync_tables) (fst k), map shown (snd k))"

definition same_rows :: "tside \<Rightarrow> tside \<Rightarrow> tkey list \<Rightarrow> bool" where
  "same_rows snap d1 keys \<longleftrightarrow>
     list_all (\<lambda>k. map_option norm_row (side_row snap k) = map_option norm_row (side_row d1 k)) keys"

definition conflict_group :: "('l :: linorder, 'h) hashing \<Rightarrow> (sval \<Rightarrow> string) \<Rightarrow> tside \<Rightarrow> tside \<Rightarrow> gid \<times> tkey list \<Rightarrow> 'h cgroup option" where
  "conflict_group hs shown snap d1 gm =
     (let keys = sort_key (key_order shown) (snd gm); d1_rows = group_rows d1 keys in
      if same_rows snap d1 keys then None
      else Some \<lparr>cg_id = fst gm, cg_keys = keys, cg_snap = group_rows snap keys, cg_d1 = d1_rows,
                 cg_preimage = group_digest hs d1_rows, cg_refs = []\<rparr>)"

text \<open>\<open>_crossref_targets\<close>: \<open>decode\<close> is \<open>json.loads\<close>, none when it raises.\<close>

definition crossref_targets :: "(string \<Rightarrow> json option) \<Rightarrow> sval \<Rightarrow> int list" where
  "crossref_targets decode related =
     (case related of
        VText s \<Rightarrow>
          (case decode s of
             Some (JList js) \<Rightarrow>
               List.map_filter (\<lambda>it. case (case it of JObj d \<Rightarrow> json_get ''id'' d | _ \<Rightarrow> it) of JInt i \<Rightarrow> Some i | _ \<Rightarrow> None) js
           | _ \<Rightarrow> [])
      | _ \<Rightarrow> [])"

definition row_links :: "(string \<Rightarrow> json option) \<Rightarrow> string \<Rightarrow> row \<Rightarrow> (int \<times> int \<times> string) list option" where
  "row_links decode name r =
     all_some (map (\<lambda>target. case row_get r ''memory_id'' of VInt m \<Rightarrow> Some (target, m, name) | _ \<Rightarrow> None)
       (filter (\<lambda>target. VInt target \<noteq> row_get r ''memory_id'') (crossref_targets decode (row_get r ''related''))))"

definition side_links :: "(string \<Rightarrow> json option) \<Rightarrow> string \<Rightarrow> tside \<Rightarrow> (int \<times> int \<times> string) list option" where
  "side_links decode name sd =
     map_option concat (all_some (map (\<lambda>(pk, r). row_links decode name r) (dict_get [] sd ''memories_crossrefs'')))"

definition inbound :: "(int \<times> int \<times> string) list \<Rightarrow> gid set \<Rightarrow> int \<Rightarrow> (gid \<times> string \<times> bool) list" where
  "inbound links gids i =
     map (\<lambda>(src, name). (GMemory (VInt src), name, GMemory (VInt src) \<in> gids))
       (sort (remdups (map snd (filter (\<lambda>(target, _). target = i) links))))"

definition annotate_group :: "(int \<times> int \<times> string) list \<Rightarrow> gid set \<Rightarrow> 'h cgroup \<Rightarrow> 'h cgroup option" where
  "annotate_group links gids g =
     (case cg_id g of
        GMemory (VInt i) \<Rightarrow> Some (g\<lparr>cg_refs := inbound links gids i\<rparr>)
      | GMemory _ \<Rightarrow> None
      | _ \<Rightarrow> Some g)"

definition annotate_inbound_refs :: "(string \<Rightarrow> json option) \<Rightarrow> tside \<Rightarrow> tside \<Rightarrow> 'h cgroup list \<Rightarrow> 'h cgroup list option" where
  "annotate_inbound_refs decode snap d1 groups =
     do { a \<leftarrow> side_links decode ''snapshot'' snap; b \<leftarrow> side_links decode ''d1'' d1;
          all_some (map (annotate_group (a @ b) (cg_id ` set groups)) groups) }"

definition load_side :: "db_file \<Rightarrow> (string \<Rightarrow> string list) \<Rightarrow> tside option" where
  "load_side f columns = all_some (map (\<lambda>(t, _). map_option (Pair t) (file_rows f t (columns t))) sync_tables)"

definition build_conflicts :: "('l :: linorder, 'h) hashing \<Rightarrow> (sval \<Rightarrow> string) \<Rightarrow> (string \<Rightarrow> json option) \<Rightarrow>
    db_file \<Rightarrow> db_file \<Rightarrow> (string \<Rightarrow> string list) \<Rightarrow> 'h cgroup list option" where
  "build_conflicts hs shown decode snapshot_db d1_db columns =
     do { snap \<leftarrow> load_side snapshot_db columns; d1 \<leftarrow> load_side d1_db columns;
          annotate_inbound_refs decode snap d1
            (List.map_filter (conflict_group hs shown snap d1) (sort_key (\<lambda>gm. gid_order shown (fst gm)) (group_members snap d1))) }"

section \<open>The operator's choice\<close>

text \<open>The conflicts file, and the approval: the sha256 it quotes and its selections, when it has them.\<close>

record 'h conflicts_doc =
  cf_version :: int
  cf_db :: string
  cf_account :: string
  cf_database :: string
  cf_columns :: "string \<Rightarrow> string list"
  cf_groups :: "'h cgroup list"

record approval =
  ap_quotes :: "string option"
  ap_selections :: "(gid, string) dict option"

type_synonym selection = "(gid, string) dict"

definition restore_choices :: "string list" where
  "restore_choices = [''d1'', ''snapshot'']"

definition load_approval :: "string \<times> string \<times> string \<Rightarrow> 'h conflicts_doc option \<Rightarrow> string \<Rightarrow> approval option \<Rightarrow>
    ('h conflicts_doc \<times> selection) option" where
  "load_approval target conflicts sha approve =
     (case (conflicts, approve) of
        (Some cf, Some ap) \<Rightarrow>
          if cf_version cf \<noteq> 1 \<or> (cf_db cf, cf_account cf, cf_database cf) \<noteq> target then None
          else if ap_quotes ap \<noteq> Some sha then None
          else (case ap_selections ap of
              None \<Rightarrow> None
            | Some sel \<Rightarrow>
                let groups = map cg_id (cf_groups cf) in
                if set groups - fst ` set sel \<noteq> {} \<or> fst ` set sel - set groups \<noteq> {} \<or>
                   \<not> list_all (\<lambda>(g, v). v \<in> set restore_choices) sel
                then None else Some (cf, sel))
      | _ \<Rightarrow> None)"

definition picks_snapshot :: "selection \<Rightarrow> 'h cgroup \<Rightarrow> bool" where
  "picks_snapshot sel g \<longleftrightarrow> map_of sel (cg_id g) = Some ''snapshot''"

definition chosen_rows :: "selection \<Rightarrow> 'h cgroup \<Rightarrow> grow list" where
  "chosen_rows sel g = (if picks_snapshot sel g then cg_snap g else cg_d1 g)"

text \<open>\<open>dangling_references\<close>: the pairs (from, to), ordered by their names.\<close>

fun gid_text :: "(sval \<Rightarrow> string) \<Rightarrow> gid \<Rightarrow> string" where
  "gid_text shown (GMemory v) = ''memory:'' @ shown v"
| "gid_text shown (GMeta v) = ''meta:'' @ shown v"
| "gid_text shown (GAction v) = ''action:'' @ shown v"

definition group_dangling :: "(string \<Rightarrow> json option) \<Rightarrow> 'h cgroup list \<Rightarrow> selection \<Rightarrow> 'h cgroup \<Rightarrow> (gid \<times> gid) list" where
  "group_dangling decode groups sel g =
     (case cg_id g of
        GMemory (VInt target) \<Rightarrow>
          if \<exists>r \<in> set (chosen_rows sel g). fst r = ''memories'' then []
          else List.map_filter (\<lambda>(src, _, _).
              case find (\<lambda>h. cg_id h = src) groups of
                None \<Rightarrow> Some (src, cg_id g)
              | Some h \<Rightarrow>
                  if \<exists>(t, pk, r) \<in> set (chosen_rows sel h). t = ''memories_crossrefs'' \<and>
                       target \<in> set (crossref_targets decode (row_get r ''related''))
                  then Some (src, cg_id g) else None) (cg_refs g)
      | _ \<Rightarrow> [])"

definition dangling_references :: "(sval \<Rightarrow> string) \<Rightarrow> (string \<Rightarrow> json option) \<Rightarrow> 'h cgroup list \<Rightarrow> selection \<Rightarrow> (gid \<times> gid) list" where
  "dangling_references shown decode groups sel =
     sort_key (\<lambda>(f, g). (gid_text shown g, gid_text shown f))
       (remdups (concat (map (group_dangling decode groups sel) groups)))"

end
