(* ===== verification/Restore_Apply.thy ===== *)
theory Restore_Apply
  imports Restore_Conflicts
begin

text \<open>
  \<open>restore --from-r2\<close>, the second half (\<open>memora/local_primary.py\<close>): the statements of the groups the operator
  takes from the snapshot, the delete guard, the run that checks, sends and re-reads group by group, and the check
  of the fresh export before the local store is rebuilt from it.  D1 is a parameter: \<open>exec\<close> runs a statement,
  \<open>read\<close> answers a SELECT.  Other clients may act before every request; the freeze barrier's answers, the fate
  of every sent statement, the fresh export and the local rebuild's inputs are arguments.
\<close>

section \<open>The plan\<close>

definition fk_order :: "string list" where
  "fk_order = [''memories'', ''memories_embeddings'', ''memories_crossrefs'', ''tombstones'', ''tombstone_components'',
     ''memories_actions'', ''memories_meta'']"

definition rows_by_key :: "grow list \<Rightarrow> (tkey, row) dict" where
  "rows_by_key rows = dict_of (map (\<lambda>(t, pk, r). ((t, pk), r)) rows)"

definition differing_keys :: "'h cgroup \<Rightarrow> tkey list" where
  "differing_keys g = filter (\<lambda>k. map_of (rows_by_key (cg_snap g)) k \<noteq> map_of (rows_by_key (cg_d1 g)) k) (cg_keys g)"

definition key_plan :: "'h cgroup \<Rightarrow> (string \<Rightarrow> string list) \<Rightarrow> tkey \<Rightarrow> (tkey \<times> stmt list) option" where
  "key_plan g columns k =
     map_option (Pair k) (build_statements (fst k) (snd k) (map_of (rows_by_key (cg_snap g)) k) (columns (fst k)))"

definition order_plan :: "'h cgroup \<Rightarrow> (tkey \<times> stmt list) list \<Rightarrow> (tkey \<times> stmt list) list" where
  "order_plan g ps =
     (let ups = filter (\<lambda>p. map_of (rows_by_key (cg_snap g)) (fst p) \<noteq> None) ps;
          dels = filter (\<lambda>p. map_of (rows_by_key (cg_snap g)) (fst p) = None) ps
      in sort_key (\<lambda>p. int (table_index fk_order (fst (fst p)))) ups @
         sort_key (\<lambda>p. - int (table_index fk_order (fst (fst p)))) dels)"

definition group_statements :: "'h cgroup \<Rightarrow> (string \<Rightarrow> string list) \<Rightarrow> stmt list option" where
  "group_statements g columns =
     do { ps \<leftarrow> all_some (map (key_plan g columns) (differing_keys g));
          (let out = concat (map snd (order_plan g ps)) in
           if list_all (\<lambda>s. check_statement (fst s) \<noteq> None) out then Some out else None) }"

text \<open>
  \<open>_delete_guard\<close>: the first table, in order of its name, with too many deletes.  The third word of a DELETE
  is its table; a group with an INSERT into the table counts no delete of it.
\<close>

definition third_word :: "string \<Rightarrow> string" where
  "third_word sql = split_on CHR '' '' sql ! 2"

definition counted_deletes :: "stmt list \<Rightarrow> string list" where
  "counted_deletes stmts =
     filter (\<lambda>t. \<not> (\<exists>s \<in> set stmts. starts_with (''INSERT INTO '' @ t @ '' '') (fst s)))
       (map (\<lambda>s. third_word (fst s)) (filter (\<lambda>s. starts_with ''DELETE FROM '' (fst s)) stmts))"

definition delete_guard :: "(gid \<times> stmt list) list \<Rightarrow> (string \<Rightarrow> nat) \<Rightarrow> bool \<Rightarrow> (string \<times> nat \<times> nat) option" where
  "delete_guard plan counts permitted =
     (let ts = concat (map (counted_deletes \<circ> snd) plan); n = (\<lambda>t. length (filter (\<lambda>u. u = t) ts)) in
      map_option (\<lambda>t. (t, n t, counts t))
        (find (\<lambda>t. over_guard (n t) (counts t) \<and> \<not> permitted) (sort (remdups ts))))"

section \<open>Reading a group\<close>

datatype where_clause = WCol string sval | WNoMemory sval

definition by_memory :: "(string \<times> string) list" where
  "by_memory = [(''memories'', ''id''), (''memories_embeddings'', ''memory_id''), (''memories_crossrefs'', ''memory_id''),
     (''tombstones'', ''memory_id''), (''tombstone_components'', ''memory_id''), (''memories_actions'', ''memory_id'')]"

fun group_queries :: "gid \<Rightarrow> (string \<times> where_clause) list" where
  "group_queries (GMemory v) = map (\<lambda>(t, c). (t, WCol c v)) by_memory"
| "group_queries (GMeta v) = [(''memories_meta'', WCol ''key'' v)]"
| "group_queries (GAction v) = [(''memories_actions'', WNoMemory v)]"

fun matches :: "where_clause \<Rightarrow> row \<Rightarrow> bool" where
  "matches (WCol c v) r \<longleftrightarrow> row_get r c = v \<and> v \<noteq> VNull"
| "matches (WNoMemory v) r \<longleftrightarrow> row_get r ''id'' = v \<and> v \<noteq> VNull \<and> row_get r ''memory_id'' = VNull"

definition as_grow :: "string \<Rightarrow> row \<Rightarrow> grow option" where
  "as_grow t r = map_option (\<lambda>(k, r). (t, k, norm_row r)) (keyed t r)"

text \<open>What becomes of a sent statement: a reply, a reply lost after or before it ran, or the writer's own refusal.\<close>

datatype send_fate = Replied | LostAfter | LostBefore | WriterRefuses

type_synonym 'r read_fn = "'r \<Rightarrow> string \<Rightarrow> string list \<Rightarrow> where_clause \<Rightarrow> row list option"

record 'r rworld =
  rw_db :: 'r
  rw_others :: "('r \<Rightarrow> 'r) list"
  rw_freeze :: "bool list"
  rw_fates :: "send_fate list"

definition at_request :: "'r rworld \<Rightarrow> 'r rworld" where
  "at_request w = (case rw_others w of [] \<Rightarrow> w | f # fs \<Rightarrow> w\<lparr>rw_db := f (rw_db w), rw_others := fs\<rparr>)"

definition answer_rows :: "string \<Rightarrow> string list \<Rightarrow> row list \<Rightarrow> grow list option" where
  "answer_rows t cols rows = all_some (map (\<lambda>r. as_grow t (pick cols r)) rows)"

fun run_queries :: "'r read_fn \<Rightarrow> (string \<Rightarrow> string list) \<Rightarrow> (string \<times> where_clause) list \<Rightarrow> 'r rworld \<Rightarrow> grow list option \<times> 'r rworld" where
  "run_queries read columns [] w = (Some [], w)"
| "run_queries read columns ((t, wc) # qs) w =
     (let w' = at_request w in
      case do { rows \<leftarrow> read (rw_db w') t (columns t) wc; answer_rows t (columns t) rows } of
        None \<Rightarrow> (None, w')
      | Some gs \<Rightarrow> (case run_queries read columns qs w' of (rest, w'') \<Rightarrow> (map_option (\<lambda>hs. gs @ hs) rest, w'')))"

definition enumerate_group :: "'r read_fn \<Rightarrow> (string \<Rightarrow> string list) \<Rightarrow> gid \<Rightarrow> 'r rworld \<Rightarrow> grow list option \<times> 'r rworld" where
  "enumerate_group read columns g w = run_queries read columns (group_queries g) w"

section \<open>Sending\<close>

datatype send_end = Accepted | Unsure | Declined

definition next_fate :: "'r rworld \<Rightarrow> send_fate \<times> 'r rworld" where
  "next_fate w = (case rw_fates w of [] \<Rightarrow> (Replied, w) | f # fs \<Rightarrow> (f, w\<lparr>rw_fates := fs\<rparr>))"

definition send_one :: "'r exec_fn \<Rightarrow> stmt \<Rightarrow> 'r rworld \<Rightarrow> send_end \<times> 'r rworld" where
  "send_one exec s w =
     (let (f, w1) = next_fate (at_request w); ran = exec s (rw_db w1);
          w2 = (case ran of None \<Rightarrow> w1 | Some r \<Rightarrow> w1\<lparr>rw_db := r\<rparr>) in
      case f of
        Replied \<Rightarrow> (if ran = None then Unsure else Accepted, w2)
      | LostAfter \<Rightarrow> (Unsure, w2)
      | LostBefore \<Rightarrow> (Unsure, w1)
      | WriterRefuses \<Rightarrow> (Declined, w1))"

fun send_all :: "'r exec_fn \<Rightarrow> stmt list \<Rightarrow> 'r rworld \<Rightarrow> send_end \<times> 'r rworld" where
  "send_all exec [] w = (Accepted, w)"
| "send_all exec (s # ss) w =
     (case send_one exec s w of (Accepted, w') \<Rightarrow> send_all exec ss w' | (e, w') \<Rightarrow> (e, w'))"

definition freeze_check :: "'r rworld \<Rightarrow> bool \<times> 'r rworld" where
  "freeze_check w = (case rw_freeze w of [] \<Rightarrow> (True, w) | b # bs \<Rightarrow> (b, w\<lparr>rw_freeze := bs\<rparr>))"

section \<open>The run\<close>

text \<open>How a run ends: refused, halted with D1 in a state to be looked at, an error of a reader, or the rebuild.\<close>

datatype restore_end = DryRun | Refused | Halted | Failed | Rebuilding

record progress =
  pg_applied :: "gid list"
  pg_aborted :: "gid list"

definition restore_group :: "('l :: linorder, 'h) hashing \<Rightarrow> 'r exec_fn \<Rightarrow> 'r read_fn \<Rightarrow> (string \<Rightarrow> string list) \<Rightarrow> stmt list \<Rightarrow> 'h cgroup \<Rightarrow>
    progress \<Rightarrow> 'r rworld \<Rightarrow> restore_end option \<times> progress \<times> 'r rworld" where
  "restore_group hs exec read columns stmts g p w =
     (case freeze_check w of
        (False, w1) \<Rightarrow> (Some Refused, p, w1)
      | (True, w1) \<Rightarrow>
          (case enumerate_group read columns (cg_id g) w1 of
             (None, w2) \<Rightarrow> (Some Failed, p, w2)
           | (Some before, w2) \<Rightarrow>
               if group_digest hs before \<noteq> cg_preimage g
               then (None, p\<lparr>pg_aborted := pg_aborted p @ [cg_id g]\<rparr>, w2)
               else (case send_all exec stmts w2 of
                   (Unsure, w3) \<Rightarrow> (Some Halted, p, w3)
                 | (Declined, w3) \<Rightarrow> (Some Refused, p, w3)
                 | (Accepted, w3) \<Rightarrow>
                     (case enumerate_group read columns (cg_id g) w3 of
                        (None, w4) \<Rightarrow> (Some Failed, p, w4)
                      | (Some after, w4) \<Rightarrow>
                          if group_digest hs after \<noteq> group_digest hs (cg_snap g) then (Some Halted, p, w4)
                          else (None, p\<lparr>pg_applied := pg_applied p @ [cg_id g]\<rparr>, w4)))))"

fun restore_groups :: "('l :: linorder, 'h) hashing \<Rightarrow> 'r exec_fn \<Rightarrow> 'r read_fn \<Rightarrow> (string \<Rightarrow> string list) \<Rightarrow> ('h cgroup \<times> stmt list) list \<Rightarrow>
    progress \<Rightarrow> 'r rworld \<Rightarrow> restore_end option \<times> progress \<times> 'r rworld" where
  "restore_groups hs exec read columns [] p w = (None, p, w)"
| "restore_groups hs exec read columns ((g, stmts) # gs) p w =
     (case restore_group hs exec read columns stmts g p w of
        (None, p', w') \<Rightarrow> restore_groups hs exec read columns gs p' w'
      | (Some e, p', w') \<Rightarrow> (Some e, p', w'))"

text \<open>\<open>_check_rebuild_source\<close>: the export is a file of its own, so nobody changes it.\<close>

definition still :: "'r \<Rightarrow> 'r rworld" where
  "still r = \<lparr>rw_db = r, rw_others = [], rw_freeze = [], rw_fates = []\<rparr>"

fun check_rebuild_source :: "('l :: linorder, 'h) hashing \<Rightarrow> 'r read_fn \<Rightarrow> (string \<Rightarrow> string list) \<Rightarrow> selection \<Rightarrow> 'h cgroup list \<Rightarrow> 'r \<Rightarrow> restore_end option" where
  "check_rebuild_source hs read columns sel [] export = None"
| "check_rebuild_source hs read columns sel (g # gs) export =
     (case fst (enumerate_group read columns (cg_id g) (still export)) of
        None \<Rightarrow> Some Failed
      | Some rows \<Rightarrow> if group_digest hs rows \<noteq> group_digest hs (chosen_rows sel g) then Some Halted
                      else check_rebuild_source hs read columns sel gs export)"

text \<open>What the command line and the environment give a run.\<close>

record restore_io =
  io_counts :: "(string \<Rightarrow> nat) option"
  io_allowed :: bool
  io_dry_run :: bool
  io_stopped :: bool
  io_lock :: bool
  io_writer :: bool
  io_export :: bool

text \<open>The end of a run, its progress, D1, and the export the local store is rebuilt from.\<close>

type_synonym 'r restore_result = "restore_end \<times> progress \<times> 'r rworld \<times> 'r option"

definition restore_apply :: "('l :: linorder, 'h) hashing \<Rightarrow> 'r exec_fn \<Rightarrow> 'r read_fn \<Rightarrow> restore_io \<Rightarrow>
    ('h conflicts_doc \<times> selection) option \<Rightarrow> 'r rworld \<Rightarrow> 'r restore_result" where
  "restore_apply hs exec read io approved w =
     (let none = \<lparr>pg_applied = [], pg_aborted = []\<rparr> in
      case (approved, io_counts io) of
        (Some (cf, sel), Some counts) \<Rightarrow>
          (let chosen = filter (picks_snapshot sel) (cf_groups cf) in
           case all_some (map (\<lambda>g. group_statements g (cf_columns cf)) chosen) of
             None \<Rightarrow> (Refused, none, w, None)
           | Some stmts \<Rightarrow>
               let plan = zip (map cg_id chosen) stmts in
               if io_dry_run io then (DryRun, none, w, None)
               else if delete_guard plan counts (io_allowed io) \<noteq> None \<or> \<not> io_stopped io \<or> \<not> io_lock io \<or>
                       list_ex (\<lambda>ss. ss \<noteq> []) stmts \<and> \<not> io_writer io
               then (Refused, none, w, None)
               else (case restore_groups hs exec read (cf_columns cf) (zip chosen stmts) none w of
                   (Some e, p, w') \<Rightarrow> (e, p, w', None)
                 | (None, p, w') \<Rightarrow>
                     if pg_aborted p \<noteq> [] then (Refused, p, w', None)
                     else (case freeze_check w' of
                         (False, w1) \<Rightarrow> (Refused, p, w1, None)
                       | (True, w1) \<Rightarrow>
                           let w2 = at_request w1 in
                           if \<not> io_export io then (Refused, p, w2, None)
                           else (case check_rebuild_source hs read (cf_columns cf) sel (cf_groups cf) (rw_db w2) of
                               Some e \<Rightarrow> (e, p, w2, None)
                             | None \<Rightarrow> (Rebuilding, p, w2, Some (rw_db w2))))))
      | _ \<Rightarrow> (Refused, none, w, None))"

end
