(* ===== verification/Restore_Exact.thy ===== *)
theory Restore_Exact
  imports Restore_Apply
begin

text \<open>
  What a restore guarantees: the local store is rebuilt only from an export that holds, for every group, exactly
  the rows the operator chose; and what keeps a restore from ever finishing.  The digests are assumed to be free
  of collisions, and a SELECT to return rows that match it.
\<close>

section \<open>Rows that are read\<close>

definition plain :: "sval \<Rightarrow> bool" where
  "plain v \<longleftrightarrow> (case v of VInt _ \<Rightarrow> True | VText _ \<Rightarrow> True | _ \<Rightarrow> False)"

fun plain_gid :: "gid \<Rightarrow> bool" where
  "plain_gid (GMemory v) = plain v"
| "plain_gid (GMeta v) = plain v"
| "plain_gid (GAction v) = plain v"

lemma plain_norm [simp]: "plain v \<Longrightarrow> norm_value v = v"
  by (cases v) (auto simp: plain_def norm_value_def)

lemma norm_null [simp]: "norm_value v = VNull \<longleftrightarrow> v = VNull"
  by (cases v) (auto simp: norm_value_def)

definition columns_ok :: "(string \<Rightarrow> string list) \<Rightarrow> bool" where
  "columns_ok columns \<longleftrightarrow> (\<forall>t pkc. map_of sync_tables t = Some pkc \<longrightarrow>
     distinct (columns t) \<and> set pkc \<subset> set (columns t) \<and> list_all is_ident (columns t)) \<and>
     ''memory_id'' \<in> set (columns ''memories_actions'')"

definition read_sound :: "'r read_fn \<Rightarrow> bool" where
  "read_sound read \<longleftrightarrow> (\<forall>r t cols wc rows. read r t cols wc = Some rows \<longrightarrow>
     (\<forall>x \<in> set rows. \<exists>y. x = pick cols y \<and> matches wc y))"

definition collision_free :: "('l, 'h) hashing \<Rightarrow> bool" where
  "collision_free hs \<longleftrightarrow> inj (hs_dump hs) \<and> inj (hs_hash hs)"

lemma digest_eq: "collision_free hs \<Longrightarrow> group_digest hs xs = group_digest hs ys \<longleftrightarrow> mset xs = mset ys"
proof
  assume c: "collision_free hs" and e: "group_digest hs xs = group_digest hs ys"
  then have "sort (map (hs_dump hs) xs) = sort (map (hs_dump hs) ys)"
    by (simp add: group_digest_def collision_free_def inj_eq)
  then have "image_mset (hs_dump hs) (mset xs) = image_mset (hs_dump hs) (mset ys)"
    by (metis mset_map mset_sort)
  then show "mset xs = mset ys"
    using c unfolding collision_free_def by (metis multiset.inj_map inj_eq)
next
  assume e: "mset xs = mset ys"
  then have "mset (map (hs_dump hs) xs) = mset (map (hs_dump hs) ys)" by simp
  then have "sort (map (hs_dump hs) xs) = sort (map (hs_dump hs) ys)" by (metis mset_sort properties_for_sort sorted_sort)
  then show "group_digest hs xs = group_digest hs ys" by (simp add: group_digest_def)
qed

lemma fst_map_prod: "map fst (map (map_prod id f) r) = map fst r"
  by simp

lemma fst_norm_row: "map fst (norm_row r) = sort (map fst r)"
proof -
  have "mset (map fst (norm_row r)) = image_mset fst (mset (map (map_prod id norm_value) r))" by (simp add: norm_row_def)
  also have "\<dots> = mset (map fst r)" by (metis fst_map_prod mset_map)
  finally show ?thesis by (intro properties_for_sort [symmetric]) (simp_all add: norm_row_def)
qed

lemma fst_pick [simp]: "map fst (pick cols r) = cols"
  by (simp add: pick_def comp_def)

lemma map_of_pick: "map_of (pick cols r) c = (if c \<in> set cols then Some (row_get r c) else None)"
  by (induction cols) (auto simp: pick_def)

lemma pick_pick: "pick cols (pick cols r) = pick cols r"
proof -
  have "row_get (pick cols r) c = row_get r c" if "c \<in> set cols" for c
    using that unfolding row_get_def [of "pick cols r"] by (simp add: map_of_pick)
  then show ?thesis unfolding pick_def [of cols "pick cols r"] unfolding pick_def [of cols r] by (simp add: pick_def)
qed

lemma map_of_sorted: "distinct (map fst r) \<Longrightarrow> map_of (sort_key fst r) = map_of r"
proof -
  assume d: "distinct (map fst r)"
  have "distinct (map fst (sort_key fst r))"
    using d by (metis distinct_map distinct_sort set_sort)
  with d show ?thesis by (intro map_of_inject_set [THEN iffD2]) simp_all
qed

lemma map_of_normalised: "distinct (map fst r) \<Longrightarrow> map_of (norm_row r) c = map_option norm_value (map_of r c)"
proof -
  have "map_of (map (map_prod id norm_value) r) c = map_option norm_value (map_of r c)" by (induction r) auto
  moreover assume "distinct (map fst r)"
  then have "distinct (map fst (map (map_prod id norm_value) r))" by (simp only: fst_map_prod)
  ultimately show ?thesis unfolding norm_row_def by (simp only: map_of_sorted)
qed

lemma get_norm_pick: "distinct cols \<Longrightarrow> c \<in> set cols \<Longrightarrow> row_get (norm_row (pick cols r)) c = norm_value (row_get r c)"
  by (simp add: row_get_def map_of_normalised map_of_pick)

text \<open>A row of a group as a reading of D1 gives it.\<close>

definition owned :: "(string \<Rightarrow> string list) \<Rightarrow> gid \<Rightarrow> grow \<Rightarrow> bool" where
  "owned columns g x \<longleftrightarrow> (case x of (t, pk, r) \<Rightarrow> group_of t r = g \<and> map fst r = sort (columns t))"

lemma sync_keys: "map_of sync_tables ''memories'' = Some [''id'']" "map_of sync_tables ''memories_embeddings'' = Some [''memory_id'']"
    "map_of sync_tables ''memories_crossrefs'' = Some [''memory_id'']" "map_of sync_tables ''tombstones'' = Some [''content_hash'', ''memory_id'']"
    "map_of sync_tables ''tombstone_components'' = Some [''memory_id'']" "map_of sync_tables ''memories_actions'' = Some [''id'']"
    "map_of sync_tables ''memories_meta'' = Some [''key'']"
  by code_simp+

lemma key_columns: "columns_ok columns \<Longrightarrow> map_of sync_tables t = Some pkc \<Longrightarrow> c \<in> set pkc \<Longrightarrow> c \<in> set (columns t)"
  by (auto simp: columns_ok_def)

lemma by_memory_columns:
  assumes "columns_ok columns" and "(t, c) \<in> set by_memory"
  shows "c \<in> set (columns t) \<and> map_of sync_tables t \<noteq> None"
proof -
  have a: "''memory_id'' \<in> set (columns ''memories_actions'')" using assms(1) by (simp add: columns_ok_def)
  note k = key_columns [OF assms(1)]
  have "list_all (\<lambda>(t, c). c \<in> set (columns t)) by_memory"
    unfolding by_memory_def list.pred_inject prod.case
    by (intro conjI a k [OF sync_keys(1)] k [OF sync_keys(2)] k [OF sync_keys(3)] k [OF sync_keys(4)] k [OF sync_keys(5)]) simp_all
  moreover have "list_all (\<lambda>(t, c). map_of sync_tables t \<noteq> None) by_memory" by code_simp
  ultimately show ?thesis using assms(2) by (auto simp: list_all_iff)
qed

lemma by_memory_group: "(t, c) \<in> set by_memory \<Longrightarrow> row_get r c = v \<Longrightarrow> v \<noteq> VNull \<Longrightarrow> group_of t r = GMemory v"
  unfolding by_memory_def list.set by (elim insertE emptyE) (simp_all add: group_of_def)

lemma query_tables:
  assumes "columns_ok columns" and "(t, wc) \<in> set (group_queries g)"
  shows "map_of sync_tables t \<noteq> None"
  using assms(2) by_memory_columns [OF assms(1)] sync_keys by (cases g) auto

lemma columns_distinct: "columns_ok columns \<Longrightarrow> map_of sync_tables t \<noteq> None \<Longrightarrow> distinct (columns t)"
  by (auto simp: columns_ok_def)

lemma query_owned:
  assumes c: "columns_ok columns" and g: "plain_gid g" and q: "(t, wc) \<in> set (group_queries g)" and m: "matches wc y"
  shows "group_of t (norm_row (pick (columns t) y)) = g"
proof -
  have get: "x \<in> set (columns t) \<Longrightarrow> row_get (norm_row (pick (columns t) y)) x = norm_value (row_get y x)" for x
    by (rule get_norm_pick [OF columns_distinct [OF c query_tables [OF c q]]])
  show ?thesis
  proof (cases g)
    case (GMemory v)
    then obtain x where x: "(t, x) \<in> set by_memory" "wc = WCol x v" using q by auto
    show ?thesis using by_memory_group [OF x(1)] get [of x] by_memory_columns [OF c x(1)] m x(2) g GMemory by simp
  next
    case (GMeta v)
    then have t: "t = ''memories_meta''" "wc = WCol ''key'' v" using q by auto
    have "''key'' \<in> set (columns t)" using key_columns [OF c sync_keys(7)] t(1) by simp
    then show ?thesis using get m g GMeta t by (simp add: group_of_def)
  next
    case (GAction v)
    then have t: "t = ''memories_actions''" "wc = WNoMemory v" using q by auto
    have "''id'' \<in> set (columns t)" "''memory_id'' \<in> set (columns t)"
      using key_columns [OF c sync_keys(6)] t(1) c by (auto simp: columns_ok_def)
    moreover have "row_get y ''id'' = v" "row_get y ''memory_id'' = VNull" "norm_value v = v" using m g t(2) GAction by simp_all
    ultimately show ?thesis unfolding GAction group_of_def t(1) using get [unfolded t(1)] by simp
  qed
qed

lemma as_grow_fields: "as_grow t r = Some x \<Longrightarrow> \<exists>k. x = (t, k, norm_row r)"
  by (auto simp: as_grow_def keyed_def)

lemma all_some_member: "all_some (map f xs) = Some ys \<Longrightarrow> y \<in> set ys \<Longrightarrow> \<exists>x \<in> set xs. f x = Some y"
  unfolding all_some_list_all2 by (induction rule: list_all2_induct) auto

lemma run_queries_owned:
  assumes "columns_ok columns" and "plain_gid g" and "read_sound read" and "set qs \<subseteq> set (group_queries g)"
    and "fst (run_queries read columns qs w) = Some rows" and "x \<in> set rows"
  shows "owned columns g x"
  using assms(4-6)
proof (induction qs arbitrary: w rows)
  case (Cons q qs)
  obtain t wc where q: "q = (t, wc)" by fastforce
  let ?w = "at_request w"
  from Cons.prems(2) obtain rs gs hs where r: "read (rw_db ?w) t (columns t) wc = Some rs"
    "answer_rows t (columns t) rs = Some gs" "fst (run_queries read columns qs ?w) = Some hs" "rows = gs @ hs"
    by (auto simp: q Let_def split: option.splits prod.splits bind_splits)
  show ?case
  proof (cases "x \<in> set gs")
    case True
    then obtain y0 where y0: "y0 \<in> set rs" "as_grow t (pick (columns t) y0) = Some x"
      using all_some_member [OF r(2) [unfolded answer_rows_def]] by blast
    then obtain y where y: "y0 = pick (columns t) y" "matches wc y" using assms(3) r(1) y0(1) unfolding read_sound_def by blast
    have "pick (columns t) y0 = pick (columns t) y" unfolding y(1) by (rule pick_pick)
    then obtain k where "x = (t, k, norm_row (pick (columns t) y))" using as_grow_fields [OF y0(2)] by auto
    then show ?thesis using query_owned [OF assms(1,2) _ y(2)] Cons.prems(1) q by (simp add: owned_def fst_norm_row)
  next
    case False
    then show ?thesis using Cons.IH [OF _ r(3)] Cons.prems(1,3) r(4) by simp
  qed
qed simp

lemma enumerate_owned:
  assumes "columns_ok columns" and "plain_gid g" and "read_sound read"
    and "fst (enumerate_group read columns g w) = Some rows" and "x \<in> set rows"
  shows "owned columns g x"
  using run_queries_owned [OF assms(1-3) subset_refl] assms(4,5) by (simp add: enumerate_group_def)

section \<open>What a rebuild takes\<close>

lemma check_rebuild_rows:
  "check_rebuild_source hs read columns sel gs export = None \<Longrightarrow> g \<in> set gs \<Longrightarrow>
     \<exists>rows. fst (enumerate_group read columns (cg_id g) (still export)) = Some rows \<and>
       group_digest hs rows = group_digest hs (chosen_rows sel g)"
  by (induction hs read columns sel gs export rule: check_rebuild_source.induct)
    (auto split: option.splits if_splits)

lemma restore_group_applied:
  assumes "restore_group hs exec read columns stmts g p w = (None, p', w')" and "pg_aborted p' = []"
  shows "pg_aborted p = [] \<and> pg_applied p' = pg_applied p @ [cg_id g] \<and>
    (\<exists>v rows. fst (enumerate_group read columns (cg_id g) v) = Some rows \<and> group_digest hs rows = cg_preimage g)"
  using assms by (auto simp: restore_group_def split: bool.splits prod.splits option.splits if_splits send_end.splits) (metis fst_conv)+

lemma restore_groups_applied:
  assumes "restore_groups hs exec read columns gs p w = (None, p', w')" and "pg_aborted p' = []"
  shows "pg_aborted p = [] \<and> pg_applied p' = pg_applied p @ map (cg_id \<circ> fst) gs \<and>
    (\<forall>(g, stmts) \<in> set gs. \<exists>v rows. fst (enumerate_group read columns (cg_id g) v) = Some rows \<and> group_digest hs rows = cg_preimage g)"
  using assms
proof (induction gs arbitrary: p w)
  case (Cons gs1 gs)
  obtain g stmts where g: "gs1 = (g, stmts)" by fastforce
  obtain e p1 w1 where one: "restore_group hs exec read columns stmts g p w = (e, p1, w1)" by (metis prod_cases3)
  then have e: "e = None" and rest: "restore_groups hs exec read columns gs p1 w1 = (None, p', w')"
    using Cons.prems(1) g by (auto split: option.splits)
  note ih = Cons.IH [OF rest Cons.prems(2)]
  have "pg_aborted p1 = []" using ih by blast
  from restore_group_applied [OF one [unfolded e] this] ih show ?case by (auto simp: g)
qed simp

lemma no_early_rebuild: "check_rebuild_source hs read columns sel gs export \<noteq> Some Rebuilding"
    "fst (restore_group hs exec read columns stmts g p w) \<noteq> Some Rebuilding"
    "fst (restore_groups hs exec read columns plan p w) \<noteq> Some Rebuilding"
proof -
  show "check_rebuild_source hs read columns sel gs export \<noteq> Some Rebuilding"
    by (induction hs read columns sel gs export rule: check_rebuild_source.induct) (auto split: option.splits)
  have one: "fst (restore_group hs exec read columns stmts g p w) \<noteq> Some Rebuilding" for stmts g p w
    by (auto simp: restore_group_def split: bool.splits prod.splits option.splits send_end.splits)
  then show "fst (restore_group hs exec read columns stmts g p w) \<noteq> Some Rebuilding" .
  show "fst (restore_groups hs exec read columns plan p w) \<noteq> Some Rebuilding"
  proof (induction plan arbitrary: p w)
    case (Cons a plan)
    then show ?case using one [of "snd a" "fst a" p w] by (cases a) (auto split: prod.splits option.splits)
  qed simp
qed

lemma rebuilding_run:
  assumes "restore_apply hs exec read io (Some (cf, sel)) w = (Rebuilding, p, w', ex)"
  shows "\<exists>stmts v. all_some (map (\<lambda>g. group_statements g (cf_columns cf)) (filter (picks_snapshot sel) (cf_groups cf))) = Some stmts \<and>
    restore_groups hs exec read (cf_columns cf) (zip (filter (picks_snapshot sel) (cf_groups cf)) stmts)
      \<lparr>pg_applied = [], pg_aborted = []\<rparr> w = (None, p, v) \<and> pg_aborted p = [] \<and>
    check_rebuild_source hs read (cf_columns cf) sel (cf_groups cf) (rw_db w') = None \<and> ex = Some (rw_db w')"
proof -
  obtain counts where c: "io_counts io = Some counts" using assms by (cases "io_counts io") (auto simp: restore_apply_def)
  obtain stmts where s: "all_some (map (\<lambda>g. group_statements g (cf_columns cf)) (filter (picks_snapshot sel) (cf_groups cf))) = Some stmts"
    using assms c by (cases "all_some (map (\<lambda>g. group_statements g (cf_columns cf)) (filter (picks_snapshot sel) (cf_groups cf)))")
      (auto simp: restore_apply_def Let_def)
  obtain e q v where r: "restore_groups hs exec read (cf_columns cf) (zip (filter (picks_snapshot sel) (cf_groups cf)) stmts)
      \<lparr>pg_applied = [], pg_aborted = []\<rparr> w = (e, q, v)" by (metis prod_cases3)
  note ends = no_early_rebuild(1)
  have "e \<noteq> Some Rebuilding" using no_early_rebuild(3) r by (metis fst_conv)
  then show ?thesis using assms unfolding restore_apply_def Let_def
    by (auto simp: c s r ends split: if_splits option.splits bool.splits prod.splits)
qed

lemma chosen_run:
  assumes "all_some (map f gs) = Some stmts" and "g \<in> set gs"
  shows "\<exists>ss. (g, ss) \<in> set (zip gs stmts)"
proof -
  have "length stmts = length gs" using assms(1) unfolding all_some_list_all2 by (simp add: list_all2_lengthD)
  then show ?thesis using assms(2) by (metis in_set_impl_in_set_zip1)
qed

end
