(* ===== verification/Restore_Complete.thy ===== *)
theory Restore_Complete
  imports Restore_Exact
begin

text \<open>
  A restore that nobody disturbs does what it was asked: every group ends with the rows the operator chose, every
  other row stays, and the local store is rebuilt from exactly that.  The conditions are those a restore needs: no
  row changes its group between the two sides, both sides have all columns, and the snapshot keeps the foreign keys.
\<close>

section \<open>Rows and states\<close>

definition synced :: "string \<Rightarrow> bool" where
  "synced t \<longleftrightarrow> map_of sync_tables t \<noteq> None"

definition row_fits :: "string \<Rightarrow> sval list \<Rightarrow> row \<Rightarrow> bool" where
  "row_fits t k x \<longleftrightarrow> map (map_of x) (the (map_of sync_tables t)) = map Some k \<and> list_all plain k \<and>
     (t = ''memories_actions'' \<longrightarrow> plain (row_get x ''memory_id'') \<or> row_get x ''memory_id'' = VNull)"

definition stored :: "(string \<Rightarrow> string list) \<Rightarrow> 'r look_fn \<Rightarrow> 'r \<Rightarrow> tkey \<Rightarrow> row option" where
  "stored columns look r k = (case look r (fst k) (snd k) of None \<Rightarrow> None
     | Some x \<Rightarrow> if keep_row (fst k) x then Some (norm_row (pick (columns (fst k)) x)) else None)"

text \<open>A replica whose rows fit their keys and show what \<open>F\<close> says.\<close>

definition holds :: "(string \<Rightarrow> string list) \<Rightarrow> 'r look_fn \<Rightarrow> 'r \<Rightarrow> (tkey \<Rightarrow> row option) \<Rightarrow> bool" where
  "holds columns look r F \<longleftrightarrow> (\<forall>t k. synced t \<longrightarrow>
     (\<forall>x. look r t k = Some x \<longrightarrow> row_fits t k x) \<and> stored columns look r (t, k) = map_option norm_row (F (t, k)))"

definition read_law :: "'r read_fn \<Rightarrow> 'r look_fn \<Rightarrow> bool" where
  "read_law read look \<longleftrightarrow> (\<forall>r t cols wc. synced t \<longrightarrow>
     (\<exists>ks. distinct ks \<and> set ks = {k. \<exists>x. look r t k = Some x \<and> matches wc x} \<and>
        read r t cols wc = Some (map (\<lambda>k. pick cols (the (look r t k))) ks)))"

definition side_ok :: "(string \<Rightarrow> string list) \<Rightarrow> tside \<Rightarrow> bool" where
  "side_ok columns sd \<longleftrightarrow> (\<forall>t d. (t, d) \<in> set sd \<longrightarrow> dict_wf d) \<and>
     (\<forall>t k x. side_row sd (t, k) = Some x \<longrightarrow> synced t \<and> x = pick (columns t) x \<and> row_fits t k x \<and> keep_row t x)"

definition no_moves :: "tside \<Rightarrow> tside \<Rightarrow> bool" where
  "no_moves snap d1 \<longleftrightarrow> (\<forall>t k x y. side_row snap (t, k) = Some x \<longrightarrow> side_row d1 (t, k) = Some y \<longrightarrow> group_of t x = group_of t y)"

definition parents_ok :: "tside \<Rightarrow> bool" where
  "parents_ok sd \<longleftrightarrow> (\<forall>t k. t \<in> set fk_children \<longrightarrow> side_row sd (t, k) \<noteq> None \<longrightarrow> side_row sd (fk_parent, k) \<noteq> None)"

lemma norm_pick_cong:
  assumes "\<And>c. c \<in> set cols \<Longrightarrow> norm_value (row_get a c) = norm_value (row_get b c)"
  shows "norm_row (pick cols a) = norm_row (pick cols b)"
proof -
  have "map (map_prod id norm_value) (pick cols a) = map (map_prod id norm_value) (pick cols b)"
    using assms by (simp add: pick_def)
  then show ?thesis by (simp only: norm_row_def)
qed

lemma norm_norm [simp]: "norm_value (norm_value v) = norm_value v"
proof (cases v)
  case (VReal q)
  then show ?thesis by (cases "whole q") (simp_all add: norm_value_def)
qed (simp_all add: norm_value_def)

lemma fits_get:
  assumes "row_fits t k x" and "c \<in> set (the (map_of sync_tables t))"
  shows "plain (row_get x c)" and "map_of x c = Some (row_get x c)"
proof -
  have "map_of x c \<in> Some ` set k" using assms by (metis image_eqI list.set_map row_fits_def)
  then show "plain (row_get x c)" "map_of x c = Some (row_get x c)"
    using assms(1) by (auto simp: row_fits_def row_get_def list_all_iff)
qed

lemma by_memory_children: "(''memories_embeddings'', ''memory_id'') \<in> set by_memory" "(''memories_crossrefs'', ''memory_id'') \<in> set by_memory"
    "(''tombstones'', ''memory_id'') \<in> set by_memory" "(''tombstone_components'', ''memory_id'') \<in> set by_memory"
  by code_simp+

lemma sync_names: "map fst sync_tables = [''memories'', ''memories_embeddings'', ''memories_crossrefs'', ''tombstones'',
    ''tombstone_components'', ''memories_actions'', ''memories_meta'']"
  by code_simp

text \<open>The columns a group's name comes from.\<close>

lemma synced_cases:
  assumes "synced t"
  obtains "t = ''memories''" "the (map_of sync_tables t) = [''id'']"
    | "t = ''memories_meta''" "the (map_of sync_tables t) = [''key'']"
    | "t = ''memories_actions''" "the (map_of sync_tables t) = [''id'']"
    | "(t, ''memory_id'') \<in> set by_memory" "t \<notin> {''memories'', ''memories_meta'', ''memories_actions''}"
      "''memory_id'' \<in> set (the (map_of sync_tables t))"
proof -
  have "t \<in> set (map fst sync_tables)" using assms by (simp add: synced_def map_of_eq_None_iff)
  then have "t = ''memories'' \<or> t = ''memories_embeddings'' \<or> t = ''memories_crossrefs'' \<or> t = ''tombstones'' \<or>
      t = ''tombstone_components'' \<or> t = ''memories_actions'' \<or> t = ''memories_meta''"
    by (simp only: sync_names list.set insert_iff empty_iff simp_thms)
  then show ?thesis
  proof (elim disjE)
    assume t: "t = ''memories''"
    show ?thesis by (rule that(1) [OF t]) (simp only: t sync_keys option.sel)
  next
    assume t: "t = ''memories_embeddings''"
    show ?thesis by (rule that(4)) (simp_all only: t sync_keys option.sel by_memory_children, simp_all)
  next
    assume t: "t = ''memories_crossrefs''"
    show ?thesis by (rule that(4)) (simp_all only: t sync_keys option.sel by_memory_children, simp_all)
  next
    assume t: "t = ''tombstones''"
    show ?thesis by (rule that(4)) (simp_all only: t sync_keys option.sel by_memory_children, simp_all)
  next
    assume t: "t = ''tombstone_components''"
    show ?thesis by (rule that(4)) (simp_all only: t sync_keys option.sel by_memory_children, simp_all)
  next
    assume t: "t = ''memories_actions''"
    show ?thesis by (rule that(3) [OF t]) (simp only: t sync_keys option.sel)
  next
    assume t: "t = ''memories_meta''"
    show ?thesis by (rule that(2) [OF t]) (simp only: t sync_keys option.sel)
  qed
qed

definition same_ids :: "string \<Rightarrow> row \<Rightarrow> row \<Rightarrow> bool" where
  "same_ids t a b \<longleftrightarrow> (\<forall>c \<in> set (the (map_of sync_tables t)) \<union> {c. c = ''memory_id'' \<and> t = ''memories_actions''}. row_get a c = row_get b c)"

lemma group_of_cong:
  assumes "synced t" and "same_ids t a b"
  shows "group_of t a = group_of t b"
  using assms(1)
proof (cases rule: synced_cases)
  case 4
  then show ?thesis using assms(2) by (simp add: group_of_def same_ids_def)
qed (use assms(2) in \<open>simp_all add: group_of_def same_ids_def\<close>)

lemma norm_same_ids:
  assumes c: "columns_ok columns" and t: "synced t" and f: "row_fits t k x"
  shows "same_ids t (norm_row (pick (columns t) x)) x"
  unfolding same_ids_def
proof
  fix col assume col: "col \<in> set (the (map_of sync_tables t)) \<union> {c. c = ''memory_id'' \<and> t = ''memories_actions''}"
  then have "col \<in> set (columns t)" using c t key_columns [OF c] by (auto simp: synced_def columns_ok_def)
  moreover have "norm_value (row_get x col) = row_get x col"
    using col fits_get(1) [OF f] f by (auto simp: row_fits_def)
  ultimately show "row_get (norm_row (pick (columns t) x)) col = row_get x col"
    using get_norm_pick columns_distinct [OF c] t by (simp add: synced_def)
qed

lemma group_of_norm: "columns_ok columns \<Longrightarrow> synced t \<Longrightarrow> row_fits t k x \<Longrightarrow> group_of t (norm_row (pick (columns t) x)) = group_of t x"
  using group_of_cong norm_same_ids by blast

lemma group_of_plain:
  assumes "synced t" and "row_fits t k x"
  shows "plain_gid (group_of t x)"
  using assms(1)
proof (cases rule: synced_cases)
  case 3
  then show ?thesis using fits_get(1) [OF assms(2)] assms(2) by (auto simp: group_of_def row_fits_def)
qed (use fits_get(1) [OF assms(2)] in \<open>simp_all add: group_of_def\<close>)

lemma query_exists:
  assumes "synced t" and "row_fits t k x"
  shows "\<exists>wc. (t, wc) \<in> set (group_queries (group_of t x)) \<and> matches wc x"
  using assms(1)
proof (cases rule: synced_cases)
  case 1
  then show ?thesis using fits_get(1) [OF assms(2)] by (auto simp: group_of_def by_memory_def plain_def)
next
  case 2
  then show ?thesis using fits_get(1) [OF assms(2)] by (auto simp: group_of_def plain_def)
next
  case 3
  then show ?thesis using fits_get(1) [OF assms(2)] assms(2)
    by (cases "row_get x ''memory_id'' = VNull") (auto simp: group_of_def by_memory_def plain_def)
next
  case 4
  then have g: "group_of t x = GMemory (row_get x ''memory_id'')" and p: "plain (row_get x ''memory_id'')"
    using fits_get(1) [OF assms(2)] by (auto simp: group_of_def)
  then have "(t, WCol ''memory_id'' (row_get x ''memory_id'')) \<in> set (group_queries (group_of t x))" using 4(1) by force
  then show ?thesis using p by (force simp: plain_def)
qed

section \<open>Reading a group of a calm replica\<close>

definition calm :: "'r rworld \<Rightarrow> bool" where
  "calm w \<longleftrightarrow> rw_others w = [] \<and> rw_freeze w = [] \<and> rw_fates w = []"

lemma calm_request [simp]: "calm w \<Longrightarrow> at_request w = w"
  by (simp add: calm_def at_request_def)

lemma all_some_Some [simp]: "all_some (map Some xs) = Some xs"
  by (induction xs) auto

lemma as_grow_fits:
  assumes c: "columns_ok columns" and t: "synced t" and f: "row_fits t k x"
  shows "as_grow t (pick (columns t) x) = Some (t, k, norm_row (pick (columns t) x))"
proof -
  have "map (map_of (pick (columns t) x)) (the (map_of sync_tables t)) = map (map_of x) (the (map_of sync_tables t))"
  proof (rule map_cong)
    fix col assume col: "col \<in> set (the (map_of sync_tables t))"
    then have "col \<in> set (columns t)" using t key_columns [OF c] by (auto simp: synced_def)
    then show "map_of (pick (columns t) x) col = map_of x col" using fits_get(2) [OF f col] by (simp add: map_of_pick)
  qed simp
  also have "\<dots> = map Some k" using f by (simp add: row_fits_def)
  finally show ?thesis by (simp add: as_grow_def keyed_def del: map_eq_conv)
qed

lemma answer_rows_fits:
  assumes "columns_ok columns" and "synced t" and "\<And>k. k \<in> set ks \<Longrightarrow> \<exists>x. look r t k = Some x \<and> row_fits t k x"
  shows "answer_rows t (columns t) (map (\<lambda>k. pick (columns t) (the (look r t k))) ks) =
    Some (map (\<lambda>k. (t, k, norm_row (pick (columns t) (the (look r t k))))) ks)"
  using assms(3)
proof (induction ks)
  case (Cons k ks)
  obtain x where "look r t k = Some x" "row_fits t k x" using Cons.prems [of k] by auto
  then show ?case using Cons as_grow_fits [OF assms(1,2)] by (simp add: answer_rows_def pick_pick)
qed (simp add: answer_rows_def)

definition found :: "(string \<Rightarrow> string list) \<Rightarrow> 'r look_fn \<Rightarrow> 'r \<Rightarrow> (string \<times> where_clause) list \<Rightarrow> grow set" where
  "found columns look r qs = {(t, k, norm_row (pick (columns t) x)) | t k x. \<exists>wc. (t, wc) \<in> set qs \<and> look r t k = Some x \<and> matches wc x}"

lemma run_queries_calm:
  assumes "columns_ok columns" and "read_law read look" and "calm w" and "\<And>t k x. synced t \<Longrightarrow> look (rw_db w) t k = Some x \<Longrightarrow> row_fits t k x"
    and "\<forall>(t, wc) \<in> set qs. synced t" and "distinct (map fst qs)"
  shows "\<exists>rows. run_queries read columns qs w = (Some rows, w) \<and> set rows = found columns look (rw_db w) qs \<and> distinct rows"
  using assms(5,6)
proof (induction qs)
  case Nil
  then show ?case by (simp add: found_def)
next
  case (Cons q qs)
  obtain t wc where q: "q = (t, wc)" by fastforce
  let ?r = "rw_db w" let ?g = "\<lambda>k. (t, k, norm_row (pick (columns t) (the (look ?r t k))))"
  have t: "synced t" using Cons.prems(1) q by auto
  obtain rows where rows: "run_queries read columns qs w = (Some rows, w)" "set rows = found columns look ?r qs" "distinct rows"
    using Cons by auto
  obtain ks where ks: "distinct ks" "set ks = {k. \<exists>x. look ?r t k = Some x \<and> matches wc x}"
    "read ?r t (columns t) wc = Some (map (\<lambda>k. pick (columns t) (the (look ?r t k))) ks)"
    using assms(2) t unfolding read_law_def by blast
  have "answer_rows t (columns t) (map (\<lambda>k. pick (columns t) (the (look ?r t k))) ks) = Some (map ?g ks)"
    by (rule answer_rows_fits [OF assms(1) t]) (use ks(2) assms(4) [OF t] in blast)
  then have run: "run_queries read columns (q # qs) w = (Some (map ?g ks @ rows), w)"
    using ks(3) rows(1) assms(3) by (simp add: q)
  have "set (map ?g ks) = {(t, k, norm_row (pick (columns t) x)) | k x. look ?r t k = Some x \<and> matches wc x}"
    using ks(2) by force
  then have "set (map ?g ks @ rows) = found columns look ?r (q # qs)"
    unfolding set_append rows(2) by (auto simp: found_def q)
  moreover have "t \<notin> fst ` set rows" using Cons.prems(2) unfolding rows(2) by (auto simp: found_def q image_iff)
  then have "distinct (map ?g ks @ rows)" using ks(1) rows(3) by (force simp: distinct_map inj_on_def)
  ultimately show ?case using run by blast
qed

lemma group_queries_distinct: "distinct (map fst (group_queries g))"
proof -
  have "map fst (group_queries (GMemory v)) = map fst by_memory" for v by (simp add: case_prod_unfold comp_def)
  moreover have "distinct (map fst by_memory)" by code_simp
  ultimately have "distinct (map fst (group_queries (GMemory v)))" for v by metis
  then show ?thesis by (cases g) (auto simp del: group_queries.simps(1))
qed

lemma enumerate_calm:
  assumes c: "columns_ok columns" and "read_law read look" and "calm w" and f: "\<And>t k x. synced t \<Longrightarrow> look (rw_db w) t k = Some x \<Longrightarrow> row_fits t k x"
    and g: "plain_gid g"
  shows "\<exists>rows. enumerate_group read columns g w = (Some rows, w) \<and> distinct rows \<and>
    set rows = {(t, k, norm_row (pick (columns t) x)) | t k x. synced t \<and> look (rw_db w) t k = Some x \<and> group_of t x = g}"
proof -
  obtain rows where r: "run_queries read columns (group_queries g) w = (Some rows, w)" "distinct rows"
    "set rows = found columns look (rw_db w) (group_queries g)"
    using run_queries_calm [OF assms(1-4) _ group_queries_distinct, of g] query_tables [OF c, of _ _ g]
    by (auto simp: synced_def)
  have "(\<exists>wc. (t, wc) \<in> set (group_queries g) \<and> matches wc x) \<longleftrightarrow> synced t \<and> group_of t x = g"
    if x: "look (rw_db w) t k = Some x" for t k x
  proof
    assume "\<exists>wc. (t, wc) \<in> set (group_queries g) \<and> matches wc x"
    then obtain wc where wc: "(t, wc) \<in> set (group_queries g)" "matches wc x" by blast
    then have t: "synced t" using query_tables [OF c] by (simp add: synced_def)
    show "synced t \<and> group_of t x = g" using query_owned [OF c g wc] group_of_norm [OF c t f [OF t x]] t by simp
  next
    assume "synced t \<and> group_of t x = g"
    then show "\<exists>wc. (t, wc) \<in> set (group_queries g) \<and> matches wc x" using query_exists f [OF _ x] by blast
  qed
  then have "found columns look (rw_db w) (group_queries g) =
      {(t, k, norm_row (pick (columns t) x)) | t k x. synced t \<and> look (rw_db w) t k = Some x \<and> group_of t x = g}"
    unfolding found_def by fast
  with r show ?thesis by (simp add: enumerate_group_def)
qed

section \<open>The groups\<close>

definition group_keys :: "tside \<Rightarrow> tside \<Rightarrow> gid \<Rightarrow> tkey set" where
  "group_keys snap d1 gid = {k. synced (fst k) \<and> (\<exists>x. (side_row snap k = Some x \<or> side_row d1 k = Some x) \<and> group_of (fst k) x = gid)}"

definition true_group :: "('l :: linorder, 'h) hashing \<Rightarrow> tside \<Rightarrow> tside \<Rightarrow> 'h cgroup \<Rightarrow> bool" where
  "true_group hs snap d1 g \<longleftrightarrow> set (cg_keys g) = group_keys snap d1 (cg_id g) \<and> distinct (cg_keys g) \<and> cg_keys g \<noteq> [] \<and>
     cg_snap g = group_rows snap (cg_keys g) \<and> cg_d1 g = group_rows d1 (cg_keys g) \<and>
     cg_preimage g = group_digest hs (cg_d1 g)"

lemma add_members:
  "dict_wf m \<Longrightarrow> dict_wf (fold add_member L m) \<and>
     set (dict_get [] (fold add_member L m) g) = set (dict_get [] m g) \<union> {k. (g, k) \<in> set L} \<and>
     (distinct (dict_get [] m g) \<longrightarrow> distinct (dict_get [] (fold add_member L m) g))"
proof (induction L arbitrary: m)
  case (Cons a L)
  obtain h k where a: "a = (h, k)" by (cases a)
  have wf: "dict_wf (add_member a m)" using Cons.prems by (simp add: a add_member_def Let_def distinct_update)
  have "dict_get [] (add_member a m) g = (if g = h then (if k \<in> set (dict_get [] m h) then dict_get [] m h else dict_get [] m h @ [k])
      else dict_get [] m g)"
    by (auto simp: a add_member_def Let_def dict_get_def)
  then show ?case using Cons.IH [OF wf] by (auto simp: a)
qed simp

lemma side_members_set:
  assumes "side_ok columns sd"
  shows "set (side_members sd t) = {(group_of t x, (t, k)) | k x. side_row sd (t, k) = Some x}"
proof -
  have "dict_wf (dict_get [] sd t)"
    using assms by (auto simp: side_ok_def dict_get_def dest: map_of_SomeD split: option.splits)
  then have "set (dict_get [] sd t) = {(k, x). map_of (dict_get [] sd t) k = Some x}" by (auto intro: map_of_is_SomeI dest: map_of_SomeD)
  then show ?thesis by (auto simp: side_members_def side_row_def)
qed

lemma group_members_keys:
  assumes "side_ok columns snap" and "side_ok columns d1"
  shows "dict_wf (group_members snap d1)"
    and "(g, ks) \<in> set (group_members snap d1) \<Longrightarrow> set ks = group_keys snap d1 g \<and> distinct ks"
proof -
  let ?L = "concat (map (\<lambda>(t, _). side_members snap t @ side_members d1 t) sync_tables)"
  note m = add_members [of "[]" ?L g, folded group_members_def]
  show wf: "dict_wf (group_members snap d1)" using m by simp
  assume "(g, ks) \<in> set (group_members snap d1)"
  then have ks: "dict_get [] (group_members snap d1) g = ks" using wf by (simp add: dict_get_def)
  have "(g, (t, k)) \<in> set ?L \<longleftrightarrow> (t, k) \<in> group_keys snap d1 g" for t k
  proof -
    have "(g, (t, k)) \<in> set ?L \<longleftrightarrow> (\<exists>u \<in> fst ` set sync_tables. (g, (t, k)) \<in> set (side_members snap u) \<union> set (side_members d1 u))"
      by (simp add: case_prod_unfold image_iff Bex_def) blast
    also have "\<dots> \<longleftrightarrow> t \<in> fst ` set sync_tables \<and> (\<exists>x. (side_row snap (t, k) = Some x \<or> side_row d1 (t, k) = Some x) \<and> group_of t x = g)"
      unfolding side_members_set [OF assms(1)] side_members_set [OF assms(2)] by blast
    also have "t \<in> fst ` set sync_tables \<longleftrightarrow> synced t" by (simp add: synced_def map_of_eq_None_iff)
    finally show ?thesis by (simp add: group_keys_def)
  qed
  then have "(g, p) \<in> set ?L \<longleftrightarrow> p \<in> group_keys snap d1 g" for p by (cases p) (simp only:)
  then have "{k. (g, k) \<in> set ?L} = group_keys snap d1 g" by (simp only: Collect_mem_eq)
  moreover have "dict_get [] [] g = ([] :: tkey list)" by (simp add: dict_get_def)
  ultimately show "set ks = group_keys snap d1 g \<and> distinct ks" using m unfolding ks by simp
qed

lemma map_filter_map: "(\<And>x y. x \<in> set xs \<Longrightarrow> f x = Some y \<Longrightarrow> h y = g x) \<Longrightarrow>
    map h (List.map_filter f xs) = map g (filter (\<lambda>x. f x \<noteq> None) xs)"
  by (induction xs) (auto simp: map_filter_simps split: option.splits)

lemma annotate_same: "annotate_group links gids g = Some g' \<Longrightarrow> \<exists>refs. g' = g\<lparr>cg_refs := refs\<rparr>"
  using exI [of "\<lambda>refs. g' = g'\<lparr>cg_refs := refs\<rparr>" "cg_refs g'"] by (auto simp: annotate_group_def split: gid.splits sval.splits)

lemma built_groups:
  assumes b: "build_conflicts hs shown decode sdb ddb columns = Some groups" and "load_side sdb columns = Some snap"
    and "load_side ddb columns = Some d1" and ok: "side_ok columns snap" "side_ok columns d1"
  shows "distinct (map cg_id groups) \<and> (\<forall>g \<in> set groups. true_group hs snap d1 g)"
proof -
  let ?ms = "sort_key (\<lambda>gm. gid_order shown (fst gm)) (group_members snap d1)" let ?gs = "List.map_filter (conflict_group hs shown snap d1) ?ms"
  from b assms(2,3) obtain links where ann: "all_some (map (annotate_group links (cg_id ` set ?gs)) ?gs) = Some groups"
    by (auto simp: build_conflicts_def annotate_inbound_refs_def split: bind_splits)
  have one: "conflict_group hs shown snap d1 (gid, ks) = Some g \<Longrightarrow> (gid, ks) \<in> set ?ms \<Longrightarrow> cg_id g = gid \<and> true_group hs snap d1 g" for gid ks g
    using group_members_keys(2) [OF ok, of gid ks]
    by (auto simp: conflict_group_def true_group_def Let_def same_rows_def split: if_splits)
  have ids: "map cg_id groups = map cg_id ?gs"
    using ann unfolding all_some_list_all2 by (rule list_all2_map_eq [THEN sym]) (auto simp: annotate_group_def split: gid.splits sval.splits)
  have "map cg_id ?gs = map fst (filter (\<lambda>x. conflict_group hs shown snap d1 x \<noteq> None) ?ms)"
    by (rule map_filter_map) (use one in fastforce)
  moreover have "distinct (map fst ?ms)" using group_members_keys(1) [OF ok] by (metis distinct_map distinct_sort set_sort)
  ultimately have "distinct (map cg_id groups)" using ids by (simp add: distinct_map_filter)
  moreover have "true_group hs snap d1 g" if "g \<in> set groups" for g
  proof -
    obtain h where h: "h \<in> set ?gs" "annotate_group links (cg_id ` set ?gs) h = Some g" using all_some_member [OF ann \<open>g \<in> set groups\<close>] by blast
    then obtain gm where "gm \<in> set ?ms" "conflict_group hs shown snap d1 gm = Some h" by (auto simp: List.map_filter_def)
    then have "true_group hs snap d1 h" using one [of "fst gm" "snd gm" h] by (simp only: prod.collapse)
    then show ?thesis using annotate_same [OF h(2)] by (auto simp: true_group_def)
  qed
  ultimately show ?thesis by blast
qed

text \<open>What a state between the two sides shows of a group.\<close>

definition two_sides :: "(string \<Rightarrow> string list) \<Rightarrow> tside \<Rightarrow> tside \<Rightarrow> bool" where
  "two_sides columns snap d1 \<longleftrightarrow> columns_ok columns \<and> side_ok columns snap \<and> side_ok columns d1 \<and> no_moves snap d1"

definition mixes :: "tside \<Rightarrow> tside \<Rightarrow> (tkey \<Rightarrow> row option) \<Rightarrow> bool" where
  "mixes snap d1 F \<longleftrightarrow> (\<forall>k. F k = side_row snap k \<or> F k = side_row d1 k)"

lemma side_fits:
  assumes "two_sides columns snap d1" and "mixes snap d1 F" and "F (t, k) = Some x"
  shows "synced t" and "row_fits t k x" and "keep_row t x" and "x = pick (columns t) x"
proof -
  have "\<forall>sd \<in> {snap, d1}. side_row sd (t, k) = Some x \<longrightarrow> synced t \<and> row_fits t k x \<and> keep_row t x \<and> x = pick (columns t) x"
    using assms(1) unfolding two_sides_def side_ok_def by blast
  then show "synced t" "row_fits t k x" "keep_row t x" "x = pick (columns t) x"
    using assms(2,3) unfolding mixes_def by (metis insertCI)+
qed

lemma mixes_sides: "mixes snap d1 (side_row snap)" "mixes snap d1 (side_row d1)"
  by (simp_all add: mixes_def)

lemma kept_group:
  assumes "row_fits t k x" and "group_of t x = group_of t' y" and "keep_row t' y"
  shows "keep_row t x"
proof (cases "t = ''memories_meta''")
  case True
  then have g: "group_of t' y = GMeta (row_get x ''key'')" using assms(2) by (simp add: group_of_def)
  have "t' = ''memories_meta'' \<and> row_get y ''key'' = row_get x ''key''"
    using g by (auto simp: group_of_def split: if_splits)
  then show ?thesis using assms(3) True by (simp add: keep_row_def)
qed (simp add: keep_row_def)

lemma key_group:
  assumes "two_sides columns snap d1" and "mixes snap d1 F" and "(t, k) \<in> group_keys snap d1 gid" and "F (t, k) = Some x"
  shows "group_of t x = gid"
proof -
  obtain y where y: "side_row snap (t, k) = Some y \<or> side_row d1 (t, k) = Some y" "group_of t y = gid"
    using assms(3) by (auto simp: group_keys_def)
  moreover have "side_row snap (t, k) = Some x \<or> side_row d1 (t, k) = Some x" using assms(2,4) by (metis mixes_def)
  ultimately show ?thesis using assms(1) unfolding two_sides_def no_moves_def by (metis option.inject)
qed

lemma in_group_keys:
  assumes "two_sides columns snap d1" and "mixes snap d1 F" and "F (t, k) = Some x"
  shows "(t, k) \<in> group_keys snap d1 (group_of t x)"
proof -
  have "side_row snap (t, k) = Some x \<or> side_row d1 (t, k) = Some x" using assms(2,3) by (metis mixes_def)
  then show ?thesis using side_fits(1) [OF assms] by (auto simp: group_keys_def)
qed

lemma group_of_mixed:
  assumes "two_sides columns snap d1" and "mixes snap d1 F" and "F (t, k) = Some x"
  shows "group_of t (norm_row x) = group_of t x"
  using group_of_norm [OF _ side_fits(1,2) [OF assms], of columns] side_fits(4) [OF assms] assms(1) by (simp add: two_sides_def)

lemma group_rows_set: "set (group_rows sd keys) = {(t, k, norm_row x) | t k x. (t, k) \<in> set keys \<and> side_row sd (t, k) = Some x}"
  by (force simp: group_rows_def List.map_filter_def)

lemma group_rows_distinct: "distinct keys \<Longrightarrow> distinct (group_rows sd keys)"
proof (induction keys)
  case (Cons k keys)
  have "(fst k, snd k, x) \<notin> set (group_rows sd keys)" for x using Cons.prems by (auto simp: group_rows_set)
  then show ?case using Cons by (auto simp: group_rows_def map_filter_simps split: option.splits)
qed (simp add: group_rows_def map_filter_simps)

lemma holds_stored: "holds columns look r F \<Longrightarrow> synced t \<Longrightarrow> stored columns look r (t, k) = map_option norm_row (F (t, k))"
  by (simp add: holds_def)

lemma stored_Some:
  assumes "holds columns look r F" and "synced t" and "look r t k = Some x" and "keep_row t x"
  shows "\<exists>y. F (t, k) = Some y \<and> norm_row y = norm_row (pick (columns t) x)"
proof -
  have "stored columns look r (t, k) = Some (norm_row (pick (columns t) x))" using assms(3,4) by (simp add: stored_def)
  then have "map_option norm_row (F (t, k)) = Some (norm_row (pick (columns t) x))" by (simp only: holds_stored [OF assms(1,2)])
  then show ?thesis by auto
qed

lemma shown_Some:
  assumes "holds columns look r F" and "synced t" and "F (t, k) = Some y"
  shows "\<exists>x. look r t k = Some x \<and> keep_row t x \<and> norm_row y = norm_row (pick (columns t) x)"
proof -
  have "stored columns look r (t, k) = Some (norm_row y)" unfolding holds_stored [OF assms(1,2)] by (simp add: assms(3))
  then show ?thesis by (auto simp: stored_def split: option.splits if_splits)
qed

lemma enum_exact:
  assumes S: "two_sides columns snap d1" and law: "read_law read look" and w: "calm w" and h: "holds columns look (rw_db w) F"
    and m: "mixes snap d1 F" and keys: "set keys = group_keys snap d1 gid" "distinct keys" "keys \<noteq> []"
    and X: "\<And>k. k \<in> set keys \<Longrightarrow> F k = side_row sd k"
  shows "\<exists>rows. enumerate_group read columns gid w = (Some rows, w) \<and> mset rows = mset (group_rows sd keys)"
proof -
  let ?r = "rw_db w"
  have columns: "columns_ok columns" using S by (simp add: two_sides_def)
  have fit: "row_fits t k x" if "synced t" "look ?r t k = Some x" for t k x using h that by (simp add: holds_def)
  obtain t0 k0 where k0: "(t0, k0) \<in> group_keys snap d1 gid" using keys(1,3) by (cases keys) auto
  obtain F0 y0 where y0: "mixes snap d1 F0" "F0 (t0, k0) = Some y0" "group_of t0 y0 = gid"
    using k0 mixes_sides [of snap d1] by (auto simp: group_keys_def)
  note s0 = side_fits [OF S y0(1,2)]
  have g: "plain_gid gid" using group_of_plain [OF s0(1,2)] y0(3) by simp
  obtain rows where rows: "enumerate_group read columns gid w = (Some rows, w)" "distinct rows"
    "set rows = {(t, k, norm_row (pick (columns t) x)) | t k x. synced t \<and> look ?r t k = Some x \<and> group_of t x = gid}"
    using enumerate_calm [OF columns law w fit g] by blast
  have one: "(\<exists>x. z = norm_row (pick (columns t) x) \<and> synced t \<and> look ?r t k = Some x \<and> group_of t x = gid) \<longleftrightarrow>
      (\<exists>y. z = norm_row y \<and> (t, k) \<in> set keys \<and> side_row sd (t, k) = Some y)" for t k z
  proof
    assume "\<exists>x. z = norm_row (pick (columns t) x) \<and> synced t \<and> look ?r t k = Some x \<and> group_of t x = gid"
    then obtain x where z: "z = norm_row (pick (columns t) x)" and t: "synced t" and x: "look ?r t k = Some x" and gr: "group_of t x = gid" by blast
    have kept: "keep_row t x" by (rule kept_group [OF fit [OF t x] _ s0(3)]) (use gr y0(3) in simp)
    obtain y where y: "F (t, k) = Some y" "norm_row y = norm_row (pick (columns t) x)" using stored_Some [OF h t x kept] by blast
    have "group_of t y = gid"
      using group_of_mixed [OF S m y(1)] group_of_norm [OF columns t fit [OF t x]] y(2) gr by simp
    then have "(t, k) \<in> set keys" using in_group_keys [OF S m y(1)] keys(1) by simp
    then show "\<exists>y. z = norm_row y \<and> (t, k) \<in> set keys \<and> side_row sd (t, k) = Some y" using X y z by metis
  next
    assume "\<exists>y. z = norm_row y \<and> (t, k) \<in> set keys \<and> side_row sd (t, k) = Some y"
    then obtain y where z: "z = norm_row y" and k: "(t, k) \<in> set keys" and y: "side_row sd (t, k) = Some y" by blast
    have F: "F (t, k) = Some y" using X [OF k] y by simp
    note t = side_fits(1) [OF S m F]
    obtain x where x: "look ?r t k = Some x" "keep_row t x" "norm_row y = norm_row (pick (columns t) x)" using shown_Some [OF h t F] by blast
    have "group_of t x = gid"
      using group_of_norm [OF columns t fit [OF t x(1)]] group_of_mixed [OF S m F] x(3) key_group [OF S m _ F, of gid] k keys(1) by simp
    then show "\<exists>x. z = norm_row (pick (columns t) x) \<and> synced t \<and> look ?r t k = Some x \<and> group_of t x = gid"
      using x t z by blast
  qed
  have "set rows = set (group_rows sd keys)"
  proof (rule set_eqI)
    fix p :: grow
    obtain t k z where p: "p = (t, k, z)" by (cases p)
    have "p \<in> set rows \<longleftrightarrow> (\<exists>x. z = norm_row (pick (columns t) x) \<and> synced t \<and> look ?r t k = Some x \<and> group_of t x = gid)"
      unfolding rows(3) p by blast
    also have "\<dots> \<longleftrightarrow> p \<in> set (group_rows sd keys)" unfolding one group_rows_set p by blast
    finally show "p \<in> set rows \<longleftrightarrow> p \<in> set (group_rows sd keys)" .
  qed
  then show ?thesis using rows(1,2) group_rows_distinct [OF keys(2)] by (metis set_eq_iff_mset_eq_distinct)
qed

section \<open>What the statements do\<close>

lemma fits_values:
  assumes f: "row_fits t k x" and v: "\<And>c. c \<in> set (the (map_of sync_tables t)) \<or> c = ''memory_id'' \<and> t = ''memories_actions'' \<Longrightarrow>
    map_of x' c = Some (norm_value (row_get x c))"
  shows "row_fits t k x'"
proof -
  have "map (map_of x') (the (map_of sync_tables t)) = map (map_of x) (the (map_of sync_tables t))"
    by (rule map_cong) (use fits_get [OF f] v in simp_all)
  also have "\<dots> = map Some k" using f by (simp only: row_fits_def)
  finally have m: "map (map_of x') (the (map_of sync_tables t)) = map Some k" .
  have "t = ''memories_actions'' \<Longrightarrow> row_get x' ''memory_id'' = norm_value (row_get x ''memory_id'')"
    using v [of "''memory_id''"] by (simp add: row_get_def)
  then show ?thesis unfolding row_fits_def m using f by (auto simp: row_fits_def)
qed

lemma keep_fits: "row_fits t k x \<Longrightarrow> row_fits t k x' \<Longrightarrow> keep_row t x \<Longrightarrow> keep_row t x'"
proof (cases "t = ''memories_meta''")
  case True
  assume "row_fits t k x" "row_fits t k x'" "keep_row t x"
  then have "map_of x ''key'' = map_of x' ''key''" using True sync_keys(7) by (auto simp: row_fits_def)
  then show ?thesis using \<open>keep_row t x\<close> True by (simp add: keep_row_def row_get_def)
qed (simp add: keep_row_def)

lemma null_not_plain: "list_all plain k \<Longrightarrow> VNull \<notin> set k"
  by (auto simp: list_all_iff plain_def)

lemma write_effect:
  assumes laws: "replica_laws exec look" and c: "columns_ok columns" and t: "synced t" and f: "row_fits t k x"
    and x: "x = pick (columns t) x" and b: "build_statements t k (Some (norm_row x)) (columns t) = Some sts" and par: "parent_there look r t k"
  shows "\<exists>r' x'. exec_all exec sts r = Some r' \<and> unchanged_but look (t, k) r r' \<and> look r' t k = Some x' \<and> row_fits t k x' \<and>
    norm_row (pick (columns t) x') = norm_row x"
proof -
  obtain pkc where pkc: "map_of sync_tables t = Some pkc" using t by (auto simp: synced_def)
  let ?cols = "columns t" let ?v = "\<lambda>c. norm_value (row_get x c)"
  have d: "distinct ?cols" "set pkc \<subset> set ?cols" "list_all is_ident ?cols" using c pkc by (auto simp: columns_ok_def)
  have get: "map_of (norm_row x) c = Some (?v c)" if "c \<in> set ?cols" for c
  proof -
    have "map_of x c = Some (row_get x c)" by (subst (1) x) (simp add: map_of_pick that)
    moreover have "map fst x = ?cols" by (subst x) simp
    ultimately show ?thesis using d(1) by (simp add: map_of_normalised)
  qed
  then have keep: "filter (\<lambda>c. map_of (norm_row x) c \<noteq> None) ?cols = ?cols" by (simp add: filter_id_conv)
  have vals: "all_some (map (\<lambda>c. json_safe (the (map_of (norm_row x) c))) ?cols) = Some y \<Longrightarrow> y = map ?v ?cols" for y
    using all_some_json_safe [of "\<lambda>c. the (map_of (norm_row x) c)" ?cols y] get by simp
  have key: "all_some (map json_safe k) = Some y \<Longrightarrow> y = k" for y
    using all_some_json_safe [where f = id] by fastforce
  have zip: "zip ?cols (map ?v ?cols) = map (\<lambda>c. (c, ?v c)) ?cols" by (simp add: zip_map2 zip_same_conv_map)
  have zget: "c \<in> set ?cols \<Longrightarrow> map_of (zip ?cols (map ?v ?cols)) c = Some (?v c)" for c
    unfolding zip by (simp add: map_of_map_restrict)
  have "map (map_of (zip ?cols (map ?v ?cols))) pkc = map (map_of x) pkc"
    by (rule map_cong) (use zget d(2) fits_get [OF f] pkc in auto)
  also have "\<dots> = map Some k" using f pkc by (simp add: row_fits_def)
  finally have m: "map (map_of (zip ?cols (map ?v ?cols))) pkc = map Some k" .
  have "VNull \<notin> set k" using f null_not_plain by (simp add: row_fits_def)
  then have names: "names_key t k ?cols (map ?v ?cols)"
    unfolding names_key_def pkc option.sel m using d by simp
  have sts: "sts = (if t = embeddings then [(delete_sql t pkc, k), (insert_sql t ?cols (length ?cols), map ?v ?cols)]
      else [(upsert_sql t ?cols (length ?cols) pkc (map (\<lambda>c. (c, c)) (filter (\<lambda>c. c \<notin> set pkc) ?cols)), map ?v ?cols)])"
    using b key vals unfolding build_statements_def pkc Option.bind.simps option.case Let_def keep
    by (auto split: bind_splits if_splits)
  have "length k = length pkc" using b pkc by (auto simp: build_statements_def split: if_splits)
  then have "\<exists>r'. exec_all exec sts r = Some r' \<and> unchanged_but look (t, k) r r' \<and> holds_row (zip ?cols (map ?v ?cols)) (look r' t k)"
  proof (cases "t = embeddings")
    case False
    then show ?thesis using laws names pkc par sts unfolding replica_laws_def upsert_law_def by fastforce
  next
    case True
    have e: "embeddings \<noteq> fk_parent" by code_simp
    have nn: "VNull \<notin> set k" using f null_not_plain by (simp add: row_fits_def)
    from laws pkc \<open>length k = length pkc\<close> nn obtain r1 where r1: "exec (delete_sql t pkc, k) r = Some r1"
      "\<forall>t' k'. look r1 t' k' = (if (t', k') = (t, k) \<or> t = fk_parent \<and> t' \<in> set fk_children \<and> k' = k then None else look r t' k')"
      unfolding replica_laws_def delete_law_def by metis
    then have gone: "look r1 t k = None" "unchanged_but look (t, k) r r1" using e True by (auto simp: unchanged_but_def)
    have "parent_there look r1 t k" using par True gone(2) e by (auto simp: parent_there_def unchanged_but_def)
    with laws names gone(1) True obtain r' where "exec (insert_sql t ?cols (length ?cols), map ?v ?cols) r1 = Some r'"
      "holds_row (zip ?cols (map ?v ?cols)) (look r' t k)" "unchanged_but look (t, k) r1 r'"
      unfolding replica_laws_def insert_law_def by metis
    then show ?thesis using r1(1) gone(2) True sts by (intro exI [of _ r']) (simp add: unchanged_but_def)
  qed
  then obtain r' x' where r': "exec_all exec sts r = Some r'" "unchanged_but look (t, k) r r'" "look r' t k = Some x'"
    "list_all (\<lambda>(c, v). map_of x' c = Some v) (zip ?cols (map ?v ?cols))"
    by (auto simp: holds_row_def split: option.splits)
  have x'v: "map_of x' c = Some (?v c)" if "c \<in> set ?cols" for c
    using r'(4) that unfolding zip by (simp add: list_all_iff)
  have "''memory_id'' \<in> set (columns ''memories_actions'')" using c by (simp add: columns_ok_def)
  then have fit: "row_fits t k x'" using x'v d(2) pkc by (intro fits_values [OF f]) auto
  have "norm_row (pick ?cols x') = norm_row (pick ?cols x)"
    by (rule norm_pick_cong) (simp add: row_get_def [of x'] x'v)
  then show ?thesis using r' fit x by metis
qed

lemma delete_effect:
  assumes "replica_laws exec look" and "build_statements t k None cols = Some sts" and "list_all plain k"
  shows "\<exists>r'. exec_all exec sts r = Some r' \<and>
    (\<forall>t' k'. look r' t' k' = (if (t', k') = (t, k) \<or> t = fk_parent \<and> t' \<in> set fk_children \<and> k' = k then None else look r t' k'))"
proof -
  have key: "all_some (map json_safe k) = Some y \<Longrightarrow> y = k" for y
    using all_some_json_safe [where f = id] by fastforce
  obtain pkc where p: "map_of sync_tables t = Some pkc" "length k = length pkc" "sts = [(delete_sql t pkc, k)]"
    using assms(2) key by (auto simp: build_statements_def split: bind_splits if_splits)
  then obtain r' where r': "exec (delete_sql t pkc, k) r = Some r'" and l: "\<forall>t' k'. look r' t' k' =
      (if (t', k') = (t, k) \<or> t = fk_parent \<and> t' \<in> set fk_children \<and> k' = k then None else look r t' k')"
    using assms(1) null_not_plain [OF assms(3)] unfolding replica_laws_def delete_law_def by metis
  have "exec_all exec sts r = Some r'" using r' p(3) by simp
  with l show ?thesis by (intro exI [of _ r'] conjI)
qed

section \<open>The statements of a group\<close>

lemma fk_index: "table_index fk_order fk_parent = 0" "t \<in> set fk_children \<Longrightarrow> 0 < table_index fk_order t"
    "t \<in> set fk_children \<Longrightarrow> t \<noteq> fk_parent"
proof -
  show "table_index fk_order fk_parent = 0" by code_simp
  have "list_all (\<lambda>t. 0 < table_index fk_order t \<and> t \<noteq> fk_parent) fk_children" by code_simp
  then show "t \<in> set fk_children \<Longrightarrow> 0 < table_index fk_order t" "t \<in> set fk_children \<Longrightarrow> t \<noteq> fk_parent"
    by (auto simp: list_all_iff)
qed

definition written :: "(string \<Rightarrow> string list) \<Rightarrow> tside \<Rightarrow> 'r look_fn \<Rightarrow> 'r \<Rightarrow> tkey \<Rightarrow> bool" where
  "written columns sd look r k \<longleftrightarrow> (\<exists>x x'. side_row sd k = Some x \<and> look r (fst k) (snd k) = Some x' \<and> row_fits (fst k) (snd k) x' \<and>
     norm_row (pick (columns (fst k)) x') = norm_row x)"

lemma run_ups:
  assumes laws: "replica_laws exec look" and S: "two_sides columns snap d1"
    and srt: "sorted (map (\<lambda>p. int (table_index fk_order (fst (fst p)))) us)"
    and b: "\<forall>(k, sts) \<in> set us. \<exists>x. side_row snap k = Some x \<and> build_statements (fst k) (snd k) (Some (norm_row x)) (columns (fst k)) = Some sts"
    and par: "\<forall>(k, sts) \<in> set us. fst k \<in> set fk_children \<longrightarrow> look r fk_parent (snd k) \<noteq> None \<or> (fk_parent, snd k) \<in> fst ` set us"
  shows "\<exists>r'. exec_all exec (concat (map snd us)) r = Some r' \<and> (\<forall>k \<in> fst ` set us. written columns snap look r' k) \<and>
    (\<forall>t k. (t, k) \<notin> fst ` set us \<longrightarrow> look r' t k = look r t k)"
  using srt b par
proof (induction us arbitrary: r)
  case (Cons u us)
  obtain t k sts where u: "u = ((t, k), sts)" by (metis surj_pair)
  obtain x where x: "side_row snap (t, k) = Some x" "build_statements t k (Some (norm_row x)) (columns t) = Some sts"
    using Cons.prems(2) u by auto
  have c: "columns_ok columns" using S by (simp add: two_sides_def)
  note fit = side_fits [OF S mixes_sides(1), of t k x, OF x(1)]
  have up: "parent_there look r t k"
    unfolding parent_there_def
  proof
    assume t: "t \<in> set fk_children"
    have "(fk_parent, k) \<notin> fst ` set (u # us)"
    proof
      assume "(fk_parent, k) \<in> fst ` set (u # us)"
      then obtain q where q: "q \<in> set us" "fst q = (fk_parent, k)" using fk_index(3) [OF t] u by auto
      then have "table_index fk_order t \<le> table_index fk_order fk_parent" using Cons.prems(1) u by fastforce
      then show False using fk_index(1) fk_index(2) [OF t] by simp
    qed
    then show "look r fk_parent k \<noteq> None" using Cons.prems(3) t u by auto
  qed
  obtain r1 x' where r1: "exec_all exec sts r = Some r1" "unchanged_but look (t, k) r r1" "look r1 t k = Some x'" "row_fits t k x'"
    "norm_row (pick (columns t) x') = norm_row x"
    using write_effect [OF laws c fit(1,2,4) x(2) up] by blast
  have keeps: "look r t' k' \<noteq> None \<Longrightarrow> look r1 t' k' \<noteq> None" for t' k' using r1(2,3) by (cases "(t', k') = (t, k)") (auto simp: unchanged_but_def)
  have "\<forall>(q, sts) \<in> set us. fst q \<in> set fk_children \<longrightarrow> look r1 fk_parent (snd q) \<noteq> None \<or> (fk_parent, snd q) \<in> fst ` set us"
  proof (clarify)
    fix t' k' sts' assume q: "((t', k'), sts') \<in> set us" "fst (t', k') \<in> set fk_children" "(fk_parent, snd (t', k')) \<notin> fst ` set us"
    have "look r fk_parent k' \<noteq> None \<or> (fk_parent, k') \<in> fst ` set (u # us)"
      using bspec [OF Cons.prems(3), of "((t', k'), sts')"] q(1,2) by simp
    then have "look r fk_parent k' \<noteq> None \<or> (fk_parent, k') = (t, k)" using q(3) u by simp
    then show "\<exists>y. look r1 fk_parent (snd (t', k')) = Some y" using keeps [of fk_parent k'] r1(3) by auto
  qed
  then obtain r2 where r2: "exec_all exec (concat (map snd us)) r1 = Some r2" "\<forall>k \<in> fst ` set us. written columns snap look r2 k"
    "\<forall>t k. (t, k) \<notin> fst ` set us \<longrightarrow> look r2 t k = look r1 t k"
    using Cons.IH [of r1] Cons.prems(1,2) by auto
  have "written columns snap look r2 (t, k)"
  proof (cases "(t, k) \<in> fst ` set us")
    case False
    then show ?thesis using r2(3) r1(3-5) x(1) by (auto simp: written_def)
  qed (use r2(2) in blast)
  moreover have "look r2 t' k' = look r t' k'" if "(t', k') \<notin> fst ` set (u # us)" for t' k'
    using that r2(3) r1(2) u by (simp add: unchanged_but_def)
  moreover have "exec_all exec (concat (map snd (u # us))) r = Some r2" using r1(1) r2(1) u by (simp add: exec_all_append)
  ultimately show ?case using r2(2) u by (intro exI [of _ r2]) simp
qed simp

lemma run_dels:
  assumes laws: "replica_laws exec look"
    and "\<forall>(k, sts) \<in> set ds. build_statements (fst k) (snd k) None (columns (fst k)) = Some sts \<and> list_all plain (snd k)"
  shows "\<exists>r'. exec_all exec (concat (map snd ds)) r = Some r' \<and> (\<forall>t k. look r' t k =
    (if (t, k) \<in> fst ` set ds \<or> t \<in> set fk_children \<and> (fk_parent, k) \<in> fst ` set ds then None else look r t k))"
  using assms(2)
proof (induction ds arbitrary: r)
  case (Cons u ds)
  obtain t k sts where u: "u = ((t, k), sts)" by (metis surj_pair)
  obtain r1 where r1: "exec_all exec sts r = Some r1" "\<forall>t' k'. look r1 t' k' =
      (if (t', k') = (t, k) \<or> t = fk_parent \<and> t' \<in> set fk_children \<and> k' = k then None else look r t' k')"
    using delete_effect [OF laws, of t k "columns t" sts r] Cons.prems u by auto
  obtain r2 where r2: "exec_all exec (concat (map snd ds)) r1 = Some r2" "\<forall>t k. look r2 t k =
      (if (t, k) \<in> fst ` set ds \<or> t \<in> set fk_children \<and> (fk_parent, k) \<in> fst ` set ds then None else look r1 t k)"
    using Cons.IH [of r1] Cons.prems by auto
  have "exec_all exec (concat (map snd (u # ds))) r = Some r2" using r1(1) r2(1) u by (simp add: exec_all_append)
  moreover have "look r2 t' k' = (if (t', k') \<in> fst ` set (u # ds) \<or> t' \<in> set fk_children \<and> (fk_parent, k') \<in> fst ` set (u # ds)
      then None else look r t' k')" for t' k'
    unfolding r2(2) [rule_format] r1(2) [rule_format] using u by auto
  ultimately show ?case by blast
qed simp

lemma rows_by_key_group:
  assumes "distinct keys"
  shows "map_of (rows_by_key (group_rows sd keys)) k = (if k \<in> set keys then map_option norm_row (side_row sd k) else None)"
proof -
  let ?kv = "\<lambda>keys. map (\<lambda>(t, pk, r). ((t, pk), r)) (group_rows sd keys)"
  have keys: "map fst (?kv keys) = filter (\<lambda>k. side_row sd k \<noteq> None) keys"
    by (induction keys) (auto simp: group_rows_def map_filter_simps split: option.splits)
  then have "distinct (map fst (?kv keys))" using assms by (simp only: distinct_filter)
  then have "dict_of (?kv keys) = ?kv keys" using fold_dict_set_new [of "?kv keys" "[]"] by (simp add: dict_of_def)
  moreover have "map_of (?kv keys) k = (if k \<in> set keys then map_option norm_row (side_row sd k) else None)"
    by (induction keys) (auto simp: group_rows_def map_filter_simps split: option.splits)
  ultimately show ?thesis by (simp add: rows_by_key_def)
qed

definition plan_of :: "(string \<Rightarrow> string list) \<Rightarrow> tside \<Rightarrow> tside \<Rightarrow> tkey set \<Rightarrow> (tkey \<times> stmt list) list \<Rightarrow> (tkey \<times> stmt list) list \<Rightarrow> bool" where
  "plan_of columns snap d1 K us ds \<longleftrightarrow> sorted (map (\<lambda>p. int (table_index fk_order (fst (fst p)))) us) \<and>
    (\<forall>(k, sts) \<in> set us. \<exists>x. side_row snap k = Some x \<and> build_statements (fst k) (snd k) (Some (norm_row x)) (columns (fst k)) = Some sts) \<and>
    (\<forall>(k, sts) \<in> set ds. build_statements (fst k) (snd k) None (columns (fst k)) = Some sts) \<and>
    fst ` set us = {k \<in> K. map_option norm_row (side_row snap k) \<noteq> map_option norm_row (side_row d1 k) \<and> side_row snap k \<noteq> None} \<and>
    fst ` set ds = {k \<in> K. map_option norm_row (side_row snap k) \<noteq> map_option norm_row (side_row d1 k) \<and> side_row snap k = None}"

lemma group_plan:
  assumes g: "true_group hs snap d1 g" and s: "group_statements g columns = Some stmts"
  shows "\<exists>us ds. stmts = concat (map snd us) @ concat (map snd ds) \<and> plan_of columns snap d1 (set (cg_keys g)) us ds"
proof -
  let ?S = "\<lambda>k. map_of (rows_by_key (cg_snap g)) k" let ?D = "\<lambda>k. map_of (rows_by_key (cg_d1 g)) k"
  obtain ps where ps: "all_some (map (key_plan g columns) (differing_keys g)) = Some ps" and st: "stmts = concat (map snd (order_plan g ps))"
    using s by (auto simp: group_statements_def Let_def split: bind_splits if_splits)
  have each: "list_all2 (\<lambda>k p. fst p = k \<and> build_statements (fst k) (snd k) (?S k) (columns (fst k)) = Some (snd p)) (differing_keys g) ps"
    using ps unfolding all_some_list_all2 by (rule list_all2_mono) (auto simp: key_plan_def)
  have fsts: "map fst ps = differing_keys g" by (rule list_all2_map_eq [THEN sym, of _ "differing_keys g" ps "\<lambda>k. k" fst, simplified, OF each]) auto
  have built: "build_statements (fst k) (snd k) (?S k) (columns (fst k)) = Some sts" if "(k, sts) \<in> set ps" for k sts
    using each that by (force simp: list_all2_conv_all_nth in_set_conv_nth)
  have keys: "distinct (cg_keys g)" "cg_snap g = group_rows snap (cg_keys g)" "cg_d1 g = group_rows d1 (cg_keys g)"
    using g by (auto simp: true_group_def)
  have S: "?S k = map_option norm_row (side_row snap k)" and D: "?D k = map_option norm_row (side_row d1 k)" if "k \<in> set (cg_keys g)" for k
    using rows_by_key_group [OF keys(1)] keys(2,3) that by simp_all
  let ?us = "sort_key (\<lambda>p. int (table_index fk_order (fst (fst p)))) (filter (\<lambda>p. ?S (fst p) \<noteq> None) ps)"
  let ?ds = "sort_key (\<lambda>p. - int (table_index fk_order (fst (fst p)))) (filter (\<lambda>p. ?S (fst p) = None) ps)"
  have "fst ` set ps = set (differing_keys g)" unfolding fsts [symmetric] by simp
  then have diff: "fst ` set ps = {k \<in> set (cg_keys g). ?S k \<noteq> ?D k}" by (auto simp: differing_keys_def)
  have ins: "k \<in> set (cg_keys g)" if "(k, sts) \<in> set ps" for k sts
  proof -
    have "k \<in> fst ` set ps" using that by force
    then show ?thesis unfolding diff by blast
  qed
  show ?thesis
    unfolding plan_of_def
  proof (rule exI [of _ ?us], rule exI [of _ ?ds], intro conjI)
    show "stmts = concat (map snd ?us) @ concat (map snd ?ds)" using st by (simp add: order_plan_def Let_def)
    show "sorted (map (\<lambda>p. int (table_index fk_order (fst (fst p)))) ?us)" by simp
    show "\<forall>(k, sts) \<in> set ?us. \<exists>x. side_row snap k = Some x \<and> build_statements (fst k) (snd k) (Some (norm_row x)) (columns (fst k)) = Some sts"
      using built S ins by fastforce
    show "\<forall>(k, sts) \<in> set ?ds. build_statements (fst k) (snd k) None (columns (fst k)) = Some sts"
      using built by fastforce
    have "fst ` set ?us = {k \<in> fst ` set ps. ?S k \<noteq> None}" "fst ` set ?ds = {k \<in> fst ` set ps. ?S k = None}" by auto
    then show "fst ` set ?us = {k \<in> set (cg_keys g). map_option norm_row (side_row snap k) \<noteq> map_option norm_row (side_row d1 k) \<and> side_row snap k \<noteq> None}"
      "fst ` set ?ds = {k \<in> set (cg_keys g). map_option norm_row (side_row snap k) \<noteq> map_option norm_row (side_row d1 k) \<and> side_row snap k = None}"
      unfolding diff using S D by auto
  qed
qed

lemma child_parent_group:
  assumes S: "two_sides columns snap d1" and F: "mixes snap d1 F" "F (t, k) = Some x" and G: "mixes snap d1 G" "G (fk_parent, k) = Some y"
    and t: "t \<in> set fk_children"
  shows "group_of t x = group_of fk_parent y"
proof -
  have p: "fk_parent = ''memories''" by (simp add: fk_parent_def)
  have c: "t \<in> {''memories_embeddings'', ''memories_crossrefs''}" using t by (simp add: fk_children_def)
  have "map_of y ''id'' = Some (hd k)" "k \<noteq> []"
    using side_fits(2) [OF S G] sync_keys(1) unfolding p by (auto simp: row_fits_def)
  moreover have "map_of x ''memory_id'' = Some (hd k)"
    using side_fits(2) [OF S F] c sync_keys(2,3) by (auto simp: row_fits_def)
  ultimately show ?thesis using c unfolding p by (auto simp: group_of_def row_get_def)
qed

definition taking :: "tside \<Rightarrow> tkey set \<Rightarrow> (tkey \<Rightarrow> row option) \<Rightarrow> tkey \<Rightarrow> row option" where
  "taking snap A F k = (if k \<in> A then side_row snap k else F k)"

lemma mixes_taking: "mixes snap d1 F \<Longrightarrow> mixes snap d1 (taking snap A F)"
  by (simp add: mixes_def taking_def)

lemma group_effect:
  assumes laws: "replica_laws exec look" and S: "two_sides columns snap d1" and fk: "parents_ok snap" and g: "true_group hs snap d1 g"
    and st: "group_statements g columns = Some stmts" and h: "holds columns look r F" and m: "mixes snap d1 F"
    and F: "\<And>k. k \<in> set (cg_keys g) \<Longrightarrow> F k = side_row d1 k"
  shows "\<exists>r'. exec_all exec stmts r = Some r' \<and> holds columns look r' (taking snap (set (cg_keys g)) F)"
proof -
  let ?K = "set (cg_keys g)" let ?s = "side_row snap" let ?d = "\<lambda>k. map_option norm_row (?s k) \<noteq> map_option norm_row (side_row d1 k)"
  have K: "?K = group_keys snap d1 (cg_id g)" using g by (simp add: true_group_def)
  obtain us ds where stmts: "stmts = concat (map snd us) @ concat (map snd ds)" and plan: "plan_of columns snap d1 ?K us ds"
    using group_plan [OF g st] by blast
  note parts = plan [unfolded plan_of_def]
  note srt = conjunct1 [OF parts] and bu = conjunct1 [OF conjunct2 [OF parts]] and bd = conjunct1 [OF conjunct2 [OF conjunct2 [OF parts]]]
    and us = conjunct1 [OF conjunct2 [OF conjunct2 [OF conjunct2 [OF parts]]]] and ds = conjunct2 [OF conjunct2 [OF conjunct2 [OF conjunct2 [OF parts]]]]
  note S1 = mixes_sides(1) [of snap d1] and S2 = mixes_sides(2) [where ?d1.0 = d1 and snap = snap]
  have family: "(fk_parent, k) \<in> ?K \<longleftrightarrow> (t, k) \<in> ?K"
    if "t \<in> set fk_children" "mixes snap d1 G" "G (t, k) = Some x" "mixes snap d1 H" "H (fk_parent, k) = Some y" for t k x y G H
    using child_parent_group [OF S that(2,3,4,5,1)] key_group [OF S that(2) _ that(3)] key_group [OF S that(4) _ that(5)]
      in_group_keys [OF S that(2,3)] in_group_keys [OF S that(4,5)] unfolding K by metis
  have "look r fk_parent k \<noteq> None \<or> (fk_parent, k) \<in> fst ` set us" if q: "(t, k) \<in> fst ` set us" "t \<in> set fk_children" for t k
  proof -
    have tk: "(t, k) \<in> ?K" using q(1) unfolding us by blast
    obtain x where x: "?s (t, k) = Some x" using q(1) unfolding us by blast
    then obtain y where y: "?s (fk_parent, k) = Some y" using fk q(2) unfolding parents_ok_def by blast
    have pk: "(fk_parent, k) \<in> ?K" using family [OF q(2) S1 x S1 y] tk by blast
    show ?thesis
    proof (cases "?d (fk_parent, k)")
      case True
      then show ?thesis using pk y unfolding us by blast
    next
      case False
      then have "F (fk_parent, k) \<noteq> None" using F [OF pk] y by (cases "side_row d1 (fk_parent, k)") simp_all
      then obtain z where "F (fk_parent, k) = Some z" by blast
      then show ?thesis using shown_Some [OF h] side_fits(1) [OF S m] by blast
    qed
  qed
  then have par: "\<forall>(k, sts) \<in> set us. fst k \<in> set fk_children \<longrightarrow> look r fk_parent (snd k) \<noteq> None \<or> (fk_parent, snd k) \<in> fst ` set us"
    by force
  obtain r1 where r1: "exec_all exec (concat (map snd us)) r = Some r1" "\<forall>k \<in> fst ` set us. written columns snap look r1 k"
    "\<forall>t k. (t, k) \<notin> fst ` set us \<longrightarrow> look r1 t k = look r t k"
    using run_ups [OF laws S srt bu par] by blast
  have "list_all plain (snd k)" if k: "k \<in> fst ` set ds" for k
  proof -
    obtain x where x: "side_row d1 k = Some x" using k unfolding ds by auto
    then have "row_fits (fst k) (snd k) x" using side_fits(2) [OF S S2, of "fst k" "snd k" x] by simp
    then show ?thesis by (simp add: row_fits_def)
  qed
  then have "\<forall>(k, sts) \<in> set ds. build_statements (fst k) (snd k) None (columns (fst k)) = Some sts \<and> list_all plain (snd k)"
    using bd by force
  from run_dels [OF laws this, of r1] obtain r2 where r2: "exec_all exec (concat (map snd ds)) r1 = Some r2"
    "\<And>t k. look r2 t k = (if (t, k) \<in> fst ` set ds \<or> t \<in> set fk_children \<and> (fk_parent, k) \<in> fst ` set ds then None else look r1 t k)"
    by blast
  have "(\<forall>x. look r2 t k = Some x \<longrightarrow> row_fits t k x) \<and> stored columns look r2 (t, k) = map_option norm_row (taking snap ?K F (t, k))"
    if t: "synced t" for t k
  proof -
    have old: "(\<forall>x. look r t k = Some x \<longrightarrow> row_fits t k x) \<and> stored columns look r (t, k) = map_option norm_row (F (t, k))"
      using h t by (simp add: holds_def)
    have kept: "?thesis" if "look r2 t k = look r t k" "map_option norm_row (taking snap ?K F (t, k)) = map_option norm_row (F (t, k))"
      using old that by (simp add: stored_def)
    have gone: "?thesis" if "look r2 t k = None" "taking snap ?K F (t, k) = None"
      using that by (simp add: stored_def)
    consider (up) "(t, k) \<in> fst ` set us" | (del) "(t, k) \<in> fst ` set ds"
      | (same) "(t, k) \<in> ?K" "\<not> ?d (t, k)" | (other) "(t, k) \<notin> ?K"
      unfolding us ds mem_Collect_eq by argo
    then show ?thesis
    proof cases
      case up
      then obtain x x' where x: "?s (t, k) = Some x" "look r1 t k = Some x'" "row_fits t k x'" "norm_row (pick (columns t) x') = norm_row x"
        using r1(2) by (fastforce simp: written_def)
      have "(t, k) \<notin> fst ` set ds" using x(1) unfolding ds by simp
      moreover have "\<not> (t \<in> set fk_children \<and> (fk_parent, k) \<in> fst ` set ds)"
        using fk x(1) unfolding ds parents_ok_def by blast
      ultimately have "look r2 t k = Some x'" using r2(2) x(2) by simp
      moreover have "keep_row t x'" using keep_fits [OF side_fits(2) [OF S S1 x(1)] x(3) side_fits(3) [OF S S1 x(1)]] .
      moreover have "taking snap ?K F (t, k) = Some x" using up x(1) unfolding us by (simp add: taking_def)
      ultimately show ?thesis using x(3,4) by (simp add: stored_def)
    next
      case del
      then have "taking snap ?K F (t, k) = None" unfolding ds by (simp add: taking_def)
      then show ?thesis using del r2(2) by (intro gone) simp_all
    next
      case same
      have r1k: "look r1 t k = look r t k" using r1(3) same(2) unfolding us by blast
      have tF: "map_option norm_row (taking snap ?K F (t, k)) = map_option norm_row (F (t, k))" using same F by (simp add: taking_def)
      show ?thesis
      proof (cases "look r2 t k = look r t k")
        case True
        then show ?thesis using kept tF by blast
      next
        case False
        then have c: "t \<in> set fk_children" "(fk_parent, k) \<in> fst ` set ds" "look r2 t k = None"
          using r2(2) [of t k] r1k same(2) unfolding ds by (auto split: if_splits)
        have "?s (t, k) = None" using fk c(1,2) unfolding parents_ok_def ds by blast
        then show ?thesis using same(1) c(3) by (intro gone) (simp_all add: taking_def)
      qed
    next
      case other
      have r1k: "look r1 t k = look r t k" using r1(3) other unfolding us by blast
      show ?thesis
      proof (cases "look r2 t k = look r t k")
        case True
        then show ?thesis using kept other by (simp add: taking_def)
      next
        case False
        then have c: "t \<in> set fk_children" "(fk_parent, k) \<in> fst ` set ds" "look r2 t k = None"
          using r2(2) [of t k] r1k other unfolding ds by (auto split: if_splits)
        obtain z where z: "side_row d1 (fk_parent, k) = Some z" using c(2) unfolding ds by auto
        have "F (t, k) = None"
        proof (rule ccontr)
          assume "F (t, k) \<noteq> None"
          then obtain y where "F (t, k) = Some y" by blast
          then show False using family [OF c(1) m _ S2 z] c(2) other unfolding ds by blast
        qed
        then show ?thesis using other c(3) by (intro gone) (simp_all add: taking_def)
      qed
    qed
  qed
  then have "holds columns look r2 (taking snap ?K F)" by (simp add: holds_def)
  then show ?thesis using r1(1) r2(1) stmts by (auto simp: exec_all_append)
qed

section \<open>The whole run\<close>

lemma send_all_calm: "calm w \<Longrightarrow> exec_all exec ss (rw_db w) = Some r' \<Longrightarrow> send_all exec ss w = (Accepted, w\<lparr>rw_db := r'\<rparr>)"
proof (induction ss arbitrary: w)
  case (Cons s ss)
  then obtain r1 where r1: "exec s (rw_db w) = Some r1" "exec_all exec ss r1 = Some r'" by (auto split: bind_splits)
  have "send_one exec s w = (Accepted, w\<lparr>rw_db := r1\<rparr>)"
    using Cons.prems(1) r1(1) by (simp add: send_one_def next_fate_def) (simp add: calm_def)
  moreover have "calm (w\<lparr>rw_db := r1\<rparr>)" using Cons.prems(1) by (simp add: calm_def)
  ultimately show ?case using Cons.IH [of "w\<lparr>rw_db := r1\<rparr>"] r1(2) by simp
qed simp

lemma calm_db [simp]: "calm w \<Longrightarrow> calm (w\<lparr>rw_db := r\<rparr>)" "calm w \<Longrightarrow> freeze_check w = (True, w)" "calm (still r)"
  by (simp_all add: calm_def freeze_check_def still_def)

lemma restore_group_calm:
  assumes hs: "collision_free hs" and laws: "replica_laws exec look" "read_law read look" and S: "two_sides columns snap d1"
    and fk: "parents_ok snap" and g: "true_group hs snap d1 g" and st: "group_statements g columns = Some stmts" and w: "calm w"
    and h: "holds columns look (rw_db w) F" and m: "mixes snap d1 F" and F: "\<And>k. k \<in> set (cg_keys g) \<Longrightarrow> F k = side_row d1 k"
  shows "\<exists>r'. restore_group hs exec read columns stmts g p w = (None, p\<lparr>pg_applied := pg_applied p @ [cg_id g]\<rparr>, w\<lparr>rw_db := r'\<rparr>) \<and>
    holds columns look r' (taking snap (set (cg_keys g)) F)"
proof -
  let ?w = "\<lambda>r'. w\<lparr>rw_db := r'\<rparr>"
  have K: "set (cg_keys g) = group_keys snap d1 (cg_id g)" "distinct (cg_keys g)" "cg_keys g \<noteq> []" "cg_snap g = group_rows snap (cg_keys g)"
    "cg_d1 g = group_rows d1 (cg_keys g)" "cg_preimage g = group_digest hs (cg_d1 g)" using g by (auto simp: true_group_def)
  obtain rows where rows: "enumerate_group read columns (cg_id g) w = (Some rows, w)" "mset rows = mset (cg_d1 g)"
    using enum_exact [OF S laws(2) w h m K(1-3) F] K(5) by auto
  obtain r' where r': "exec_all exec stmts (rw_db w) = Some r'" "holds columns look r' (taking snap (set (cg_keys g)) F)"
    using group_effect [OF laws(1) S fk g st h m F] by blast
  have "\<exists>rows'. enumerate_group read columns (cg_id g) (?w r') = (Some rows', ?w r') \<and> mset rows' = mset (group_rows snap (cg_keys g))"
    by (rule enum_exact [OF S laws(2) _ _ mixes_taking [OF m, of "set (cg_keys g)"] K(1-3)]) (use w r'(2) in \<open>simp_all add: taking_def\<close>)
  then obtain rows' where rows': "enumerate_group read columns (cg_id g) (?w r') = (Some rows', ?w r')" "mset rows' = mset (cg_snap g)"
    using K(4) by auto
  have "group_digest hs rows = cg_preimage g" "group_digest hs rows' = group_digest hs (cg_snap g)"
    using digest_eq [OF hs] rows(2) rows'(2) K(6) by simp_all
  then show ?thesis using rows(1) rows'(1) r' send_all_calm [OF w r'(1)] w by (intro exI [of _ r']) (simp add: restore_group_def)
qed

definition keys_of :: "'h cgroup list \<Rightarrow> tkey set" where
  "keys_of gs = (\<Union>g \<in> set gs. set (cg_keys g))"

lemma taking_taking: "taking snap B (taking snap A F) = taking snap (A \<union> B) F"
  by (rule ext) (simp add: taking_def)

lemma groups_apart:
  assumes S: "two_sides columns snap d1" and "true_group hs snap d1 g" and "true_group hs snap d1 h" and "cg_id g \<noteq> cg_id h"
  shows "set (cg_keys g) \<inter> set (cg_keys h) = {}"
proof (rule ccontr)
  assume "set (cg_keys g) \<inter> set (cg_keys h) \<noteq> {}"
  then obtain t k where k: "(t, k) \<in> group_keys snap d1 (cg_id g)" "(t, k) \<in> group_keys snap d1 (cg_id h)"
    using assms(2,3) by (auto simp: true_group_def)
  then obtain F x where "mixes snap d1 F" "F (t, k) = Some x" using mixes_sides [of snap d1] by (auto simp: group_keys_def)
  then show False using key_group [OF S] k assms(4) by metis
qed

lemma restore_groups_calm:
  assumes hs: "collision_free hs" and laws: "replica_laws exec look" "read_law read look" and S: "two_sides columns snap d1"
    and fk: "parents_ok snap"
  shows "calm w \<Longrightarrow> \<forall>g \<in> set gs. true_group hs snap d1 g \<Longrightarrow> distinct (map cg_id gs) \<Longrightarrow>
    all_some (map (\<lambda>g. group_statements g columns) gs) = Some stmts \<Longrightarrow> holds columns look (rw_db w) F \<Longrightarrow> mixes snap d1 F \<Longrightarrow>
    \<forall>k \<in> keys_of gs. F k = side_row d1 k \<Longrightarrow>
    \<exists>r'. restore_groups hs exec read columns (zip gs stmts) p w = (None, p\<lparr>pg_applied := pg_applied p @ map cg_id gs\<rparr>, w\<lparr>rw_db := r'\<rparr>) \<and>
      holds columns look r' (taking snap (keys_of gs) F)"
proof (induction gs arbitrary: stmts p w F)
  case Nil
  have "taking snap {} F = F" by (rule ext) (simp add: taking_def)
  then show ?case using Nil by (intro exI [of _ "rw_db w"]) (simp add: keys_of_def)
next
  case (Cons g gs)
  obtain st rest where st: "group_statements g columns = Some st" "all_some (map (\<lambda>g. group_statements g columns) gs) = Some rest" "stmts = st # rest"
    using Cons.prems(4) by (auto split: bind_splits)
  let ?K = "set (cg_keys g)" let ?F = "taking snap ?K F"
  have tg: "true_group hs snap d1 g" using Cons.prems(2) by simp
  have Fg: "\<And>k. k \<in> ?K \<Longrightarrow> F k = side_row d1 k" using Cons.prems(7) by (simp add: keys_of_def)
  obtain r1 where r1: "restore_group hs exec read columns st g p w = (None, p\<lparr>pg_applied := pg_applied p @ [cg_id g]\<rparr>, w\<lparr>rw_db := r1\<rparr>)"
    "holds columns look r1 ?F"
    using restore_group_calm [OF hs laws S fk tg st(1) Cons.prems(1,5,6) Fg] by blast
  have "\<forall>k \<in> keys_of gs. ?F k = side_row d1 k"
  proof
    fix k assume k: "k \<in> keys_of gs"
    then obtain h where h: "h \<in> set gs" "k \<in> set (cg_keys h)" by (auto simp: keys_of_def)
    have "cg_id g \<noteq> cg_id h" using Cons.prems(3) h(1) by (auto simp: image_iff)
    then have "k \<notin> ?K" using groups_apart [OF S tg, of h] Cons.prems(2) h by auto
    then show "?F k = side_row d1 k" using Cons.prems(7) k by (simp add: taking_def keys_of_def)
  qed
  then obtain r2 where r2: "restore_groups hs exec read columns (zip gs rest) (p\<lparr>pg_applied := pg_applied p @ [cg_id g]\<rparr>) (w\<lparr>rw_db := r1\<rparr>) =
      (None, p\<lparr>pg_applied := (pg_applied p @ [cg_id g]) @ map cg_id gs\<rparr>, w\<lparr>rw_db := r2\<rparr>)"
    "holds columns look r2 (taking snap (keys_of gs) ?F)"
    using Cons.IH [of "w\<lparr>rw_db := r1\<rparr>" rest ?F "p\<lparr>pg_applied := pg_applied p @ [cg_id g]\<rparr>"] Cons.prems r1(2) st(2) mixes_taking by auto
  have "taking snap (keys_of gs) ?F = taking snap (keys_of (g # gs)) F"
    unfolding taking_taking by (simp add: keys_of_def)
  then show ?case using r1(1) r2 st(3) by (intro exI [of _ r2]) simp
qed

lemma check_rebuild_calm:
  assumes hs: "collision_free hs" and law: "read_law read look" and S: "two_sides columns snap d1"
    and h: "holds columns look r F" and m: "mixes snap d1 F"
  shows "\<forall>g \<in> set gs. true_group hs snap d1 g \<and> (\<forall>k \<in> set (cg_keys g). F k = side_row (if picks_snapshot sel g then snap else d1) k) \<Longrightarrow>
    check_rebuild_source hs read columns sel gs r = None"
proof (induction gs)
  case (Cons g gs)
  let ?sd = "if picks_snapshot sel g then snap else d1"
  have tg: "true_group hs snap d1 g" "\<And>k. k \<in> set (cg_keys g) \<Longrightarrow> F k = side_row ?sd k" using Cons.prems by auto
  then have K: "set (cg_keys g) = group_keys snap d1 (cg_id g)" "distinct (cg_keys g)" "cg_keys g \<noteq> []"
    "chosen_rows sel g = group_rows ?sd (cg_keys g)" by (auto simp: true_group_def chosen_rows_def)
  have h': "holds columns look (rw_db (still r)) F" using h by (simp add: still_def)
  obtain rows where "enumerate_group read columns (cg_id g) (still r) = (Some rows, still r)" "mset rows = mset (chosen_rows sel g)"
    using enum_exact [OF S law calm_db(3) h' m K(1-3) tg(2)] unfolding K(4) by blast
  then show ?case using Cons digest_eq [OF hs] by simp
qed simp

text \<open>What the environment of a run allows: the operator's flags, the locks and the export.\<close>

definition run_allowed :: "restore_io \<Rightarrow> (gid \<times> stmt list) list \<Rightarrow> bool" where
  "run_allowed io plan \<longleftrightarrow> (\<exists>counts. io_counts io = Some counts \<and> delete_guard plan counts (io_allowed io) = None) \<and>
     \<not> io_dry_run io \<and> io_stopped io \<and> io_lock io \<and> io_writer io \<and> io_export io"

end
