(* ===== verification/Restore_Runs.thy ===== *)
theory Restore_Runs
  imports Restore_Complete
begin

text \<open>
  The properties of a restore, on the lemmas of \<open>Restore_Exact\<close> and \<open>Restore_Complete\<close>, with runs on an
  in-memory database: one that completes, one that never can, and one whose deletes the guard does not see.
\<close>

section \<open>A database that answers\<close>

definition mem_read :: "mem read_fn" where
  "mem_read r t cols wc = Some (map (\<lambda>k. pick cols (the (mem_look r t k)))
     (filter (\<lambda>k. matches wc (the (mem_look r t k))) (map snd (filter (\<lambda>k. fst k = t) (remdups (map fst r))))))"

definition mem_of :: "tside \<Rightarrow> mem" where
  "mem_of sd = concat (map (\<lambda>(t, d). map (\<lambda>(k, x). ((t, k), x)) d) sd)"

lemma mem_read_law: "read_law mem_read mem_look"
  unfolding read_law_def
proof (intro allI impI)
  fix r :: mem and t cols wc
  let ?ks = "filter (\<lambda>k. matches wc (the (mem_look r t k))) (map snd (filter (\<lambda>k. fst k = t) (remdups (map fst r))))"
  have "distinct (map snd (filter (\<lambda>k. fst k = t) (remdups (map fst r))))"
    unfolding distinct_map by (auto simp: inj_on_def prod_eq_iff)
  moreover have "set ?ks = {k. \<exists>x. mem_look r t k = Some x \<and> matches wc x}"
  proof (intro set_eqI)
    fix k
    have "k \<in> set (map snd (filter (\<lambda>k. fst k = t) (remdups (map fst r)))) \<longleftrightarrow> (t, k) \<in> fst ` set r" by (force simp: image_iff)
    also have "\<dots> \<longleftrightarrow> (\<exists>x. mem_look r t k = Some x)" unfolding mem_look_def by (metis map_of_eq_None_iff not_None_eq)
    finally show "k \<in> set ?ks \<longleftrightarrow> k \<in> {k. \<exists>x. mem_look r t k = Some x \<and> matches wc x}" by (simp only: set_filter mem_Collect_eq) auto
  qed
  ultimately show "\<exists>ks. distinct ks \<and> set ks = {k. \<exists>x. mem_look r t k = Some x \<and> matches wc x} \<and>
      mem_read r t cols wc = Some (map (\<lambda>k. pick cols (the (mem_look r t k))) ks)"
    by (intro exI [of _ ?ks]) (simp only: mem_read_def distinct_filter simp_thms)
qed

lemma mem_read_sound: "read_sound mem_read"
  unfolding read_sound_def mem_read_def by auto

lemma map_of_tag: "map_of (map (\<lambda>(k, x). ((u, k), x)) d) (t, k) = (if u = t then map_of d k else None)"
  by (induction d) auto

lemma mem_of_look: "distinct (map fst sd) \<Longrightarrow> mem_look (mem_of sd) t k = side_row sd (t, k)"
proof (induction sd)
  case (Cons p sd)
  obtain u d where p: "p = (u, d)" by (cases p)
  have "map_of sd u = None" using Cons.prems p by (simp add: map_of_eq_None_iff)
  then have n: "side_row sd (u, k) = None" by (simp add: side_row_def dict_get_def)
  have "mem_look (mem_of (p # sd)) t k = (case (if u = t then map_of d k else None) of None \<Rightarrow> mem_look (mem_of sd) t k | Some x \<Rightarrow> Some x)"
    by (simp only: mem_look_def mem_of_def p list.map concat.simps prod.case map_of_append map_add_def map_of_tag)
  moreover have "side_row (p # sd) (t, k) = (if u = t then map_of d k else side_row sd (t, k))"
    by (simp add: side_row_def dict_get_def p)
  ultimately show ?case using Cons n by (auto split: option.splits)
qed (simp add: mem_look_def mem_of_def side_row_def dict_get_def)

text \<open>The conditions on two sides, tested row by row.\<close>

definition side_test :: "(string \<Rightarrow> string list) \<Rightarrow> tside \<Rightarrow> bool" where
  "side_test columns sd \<longleftrightarrow> distinct (map fst sd) \<and> list_all (\<lambda>(t, d). dict_wf d \<and>
     list_all (\<lambda>(k, x). synced t \<and> x = pick (columns t) x \<and> row_fits t k x \<and> keep_row t x) d) sd"

definition rows_test :: "tside \<Rightarrow> (string \<Rightarrow> sval list \<Rightarrow> row \<Rightarrow> bool) \<Rightarrow> bool" where
  "rows_test sd P \<longleftrightarrow> list_all (\<lambda>(t, d). list_all (\<lambda>(k, x). P t k x) d) sd"

lemma side_row_in: "side_row sd (t, k) = Some x \<Longrightarrow> \<exists>d. (t, d) \<in> set sd \<and> (k, x) \<in> set d"
  by (auto simp: side_row_def dict_get_def split: option.splits dest!: map_of_SomeD)

lemma rows_testD: "rows_test sd P \<Longrightarrow> side_row sd (t, k) = Some x \<Longrightarrow> P t k x"
  using side_row_in by (fastforce simp: rows_test_def list_all_iff)

lemma side_test_ok: "side_test columns sd \<Longrightarrow> side_ok columns sd"
  using side_row_in by (fastforce simp: side_test_def side_ok_def list_all_iff)

lemma mem_of_holds:
  assumes "side_test columns sd"
  shows "holds columns mem_look (mem_of sd) (side_row sd)"
proof -
  have d: "distinct (map fst sd)" using assms by (simp add: side_test_def)
  have ok: "side_row sd (t, k) = Some x \<Longrightarrow> x = pick (columns t) x \<and> row_fits t k x \<and> keep_row t x" for t k x
    using side_test_ok [OF assms] unfolding side_ok_def by blast
  have "stored columns mem_look (mem_of sd) (t, k) = map_option norm_row (side_row sd (t, k))" for t k
    using ok [of t k] by (auto simp: stored_def mem_of_look [OF d] split: option.splits)
  then show ?thesis using ok by (simp add: holds_def mem_of_look [OF d])
qed

section \<open>Examples\<close>

definition rx_columns :: "string \<Rightarrow> string list" where
  "rx_columns t = (if t = ''memories'' then [''id'', ''content''] else if t = ''memories_embeddings'' then [''memory_id'', ''embedding'']
     else if t = ''memories_crossrefs'' then [''memory_id'', ''related''] else if t = ''tombstones'' then [''content_hash'', ''memory_id'', ''reason'']
     else if t = ''tombstone_components'' then [''memory_id'', ''component''] else if t = ''memories_actions'' then [''id'', ''memory_id'', ''action'']
     else [''key'', ''value''])"

definition rx_memory :: "int \<Rightarrow> string \<Rightarrow> row" where
  "rx_memory i content = [(''id'', VInt i), (''content'', VText content)]"

definition rx_action :: "int \<Rightarrow> int \<Rightarrow> string \<Rightarrow> row" where
  "rx_action i m a = [(''id'', VInt i), (''memory_id'', VInt m), (''action'', VText a)]"

definition rx_file :: "row list \<Rightarrow> row list \<Rightarrow> db_file" where
  "rx_file memories actions = \<lparr>df_columns = rx_columns,
     df_rows = (\<lambda>t. if t = ''memories'' then memories else if t = ''memories_actions'' then actions else [])\<rparr>"

definition rx_shown :: "sval \<Rightarrow> string" where
  "rx_shown v = (case v of VInt i \<Rightarrow> int_text i | VText s \<Rightarrow> s | _ \<Rightarrow> [])"

definition rx_hashing :: "(grow, grow list) hashing" where
  "rx_hashing = \<lparr>hs_dump = (\<lambda>x. x), hs_hash = (\<lambda>x. x)\<rparr>"

definition rx_conflicts :: "db_file \<Rightarrow> db_file \<Rightarrow> grow list cgroup list option" where
  "rx_conflicts snapshot d1 = build_conflicts rx_hashing rx_shown (\<lambda>s. None) snapshot d1 rx_columns"

definition rx_doc :: "grow list cgroup list \<Rightarrow> grow list conflicts_doc" where
  "rx_doc groups = \<lparr>cf_version = 1, cf_db = ''a'', cf_account = ''b'', cf_database = ''c'', cf_columns = rx_columns, cf_groups = groups\<rparr>"

definition rx_io :: "nat \<Rightarrow> bool \<Rightarrow> restore_io" where
  "rx_io n permitted = \<lparr>io_counts = Some (\<lambda>t. n), io_allowed = permitted, io_dry_run = False, io_stopped = True, io_lock = True, io_writer = True, io_export = True\<rparr>"

lemma rx_hashing_free: "collision_free rx_hashing"
  by (simp add: collision_free_def rx_hashing_def inj_def)

lemma rx_columns_ok: "columns_ok rx_columns"
proof -
  have t: "list_all (\<lambda>(t, pkc). distinct (rx_columns t) \<and> list_all (\<lambda>c. c \<in> set (rx_columns t)) pkc \<and>
      \<not> list_all (\<lambda>c. c \<in> set pkc) (rx_columns t) \<and> list_all is_ident (rx_columns t)) sync_tables" by code_simp
  have "''memory_id'' \<in> set (rx_columns ''memories_actions'')" by code_simp
  moreover have "distinct (rx_columns t) \<and> set pkc \<subset> set (rx_columns t) \<and> list_all is_ident (rx_columns t)"
    if "map_of sync_tables t = Some pkc" for t pkc
  proof -
    have "(t, pkc) \<in> set sync_tables" using that by (rule map_of_SomeD)
    then show ?thesis using t by (force simp: list_all_iff)
  qed
  ultimately show ?thesis by (simp add: columns_ok_def)
qed

text \<open>The snapshot holds memories 1 and 2, D1 another text of memory 1 and a memory 3 with its action.\<close>

definition rx_snap :: db_file where
  "rx_snap = rx_file [rx_memory 1 ''a'', rx_memory 2 ''b''] [rx_action 1 1 ''x'']"

definition rx_d1 :: db_file where
  "rx_d1 = rx_file [rx_memory 1 ''z'', rx_memory 3 ''c''] [rx_action 1 1 ''x'', rx_action 2 3 ''y'']"

definition rx_groups :: "grow list cgroup list" where
  "rx_groups = the (rx_conflicts rx_snap rx_d1)"

definition rx_sel :: selection where
  "rx_sel = [(GMemory (VInt 1), ''snapshot''), (GMemory (VInt 2), ''d1''), (GMemory (VInt 3), ''snapshot'')]"

definition rx_side :: "db_file \<Rightarrow> tside" where
  "rx_side f = the (load_side f rx_columns)"

lemma rx_built: "rx_conflicts rx_snap rx_d1 = Some rx_groups" "map cg_id rx_groups = map fst rx_sel"
    "load_side rx_snap rx_columns = Some (rx_side rx_snap)" "load_side rx_d1 rx_columns = Some (rx_side rx_d1)"
proof -
  have "rx_conflicts rx_snap rx_d1 \<noteq> None" by code_simp
  then show "rx_conflicts rx_snap rx_d1 = Some rx_groups" by (simp add: rx_groups_def)
  show "map cg_id rx_groups = map fst rx_sel" by code_simp
  have "load_side rx_snap rx_columns \<noteq> None" "load_side rx_d1 rx_columns \<noteq> None" by code_simp+
  then show "load_side rx_snap rx_columns = Some (rx_side rx_snap)" "load_side rx_d1 rx_columns = Some (rx_side rx_d1)"
    by (simp_all add: rx_side_def)
qed

lemma rx_tests: "side_test rx_columns (rx_side rx_snap)" "side_test rx_columns (rx_side rx_d1)"
    "rows_test (rx_side rx_snap) (\<lambda>t k x. case side_row (rx_side rx_d1) (t, k) of None \<Rightarrow> True | Some y \<Rightarrow> group_of t x = group_of t y)"
    "rows_test (rx_side rx_snap) (\<lambda>t k x. t \<in> set fk_children \<longrightarrow> side_row (rx_side rx_snap) (fk_parent, k) \<noteq> None)"
  by code_simp+

section \<open>What a rebuild takes, and what keeps it from ever coming\<close>



definition blocked :: "(string \<Rightarrow> string list) \<Rightarrow> selection \<Rightarrow> 'h cgroup \<Rightarrow> bool" where
  "blocked columns sel g \<longleftrightarrow> (\<exists>x \<in> set (cg_d1 g) \<union> (if picks_snapshot sel g then set (cg_snap g) else {}). \<not> owned columns (cg_id g) x)"

text \<open>C37:
  a restore never finishes, whatever the operator chooses and whatever happens to D1, when some group's recorded
  D1 rows hold a row of another group, or when it takes a group whose snapshot rows lack a column of D1's table.
\<close>

theorem unowned_row_blocks_restore:
  assumes "collision_free hs" and "read_sound read" and "columns_ok (cf_columns cf)" and "g \<in> set (cf_groups cf)"
    and "plain_gid (cg_id g)" and "cg_preimage g = group_digest hs (cg_d1 g)" and "blocked (cf_columns cf) sel g"
  shows "fst (restore_apply hs exec read io (Some (cf, sel)) w) \<noteq> Rebuilding"
proof
  assume "fst (restore_apply hs exec read io (Some (cf, sel)) w) = Rebuilding"
  then obtain p w' ex where run: "restore_apply hs exec read io (Some (cf, sel)) w = (Rebuilding, p, w', ex)"
    by (metis prod_cases3 fst_conv)
  let ?gs = "filter (picks_snapshot sel) (cf_groups cf)"
  obtain stmts v where s: "all_some (map (\<lambda>g. group_statements g (cf_columns cf)) ?gs) = Some stmts"
    and r: "restore_groups hs exec read (cf_columns cf) (zip ?gs stmts) \<lparr>pg_applied = [], pg_aborted = []\<rparr> w = (None, p, v)"
    and ab: "pg_aborted p = []"
    and c: "check_rebuild_source hs read (cf_columns cf) sel (cf_groups cf) (rw_db w') = None"
    using rebuilding_run [OF run] by blast
  have own: "\<forall>x \<in> set ys. owned (cf_columns cf) (cg_id g) x"
    if "fst (enumerate_group read (cf_columns cf) (cg_id g) u) = Some xs" "group_digest hs xs = group_digest hs ys" for u xs ys
    using enumerate_owned [OF assms(3,5,2) that(1)] digest_eq [OF assms(1), of xs ys] that(2) by (metis set_mset_mset)
  have chosen: "\<forall>x \<in> set (chosen_rows sel g). owned (cf_columns cf) (cg_id g) x"
    using check_rebuild_rows [OF c assms(4)] own by blast
  moreover have "\<forall>x \<in> set (cg_d1 g). owned (cf_columns cf) (cg_id g) x" if ps: "picks_snapshot sel g"
  proof -
    obtain ss where "(g, ss) \<in> set (zip ?gs stmts)" using chosen_run [OF s, of g] assms(4) ps by auto
    then obtain u rows where "fst (enumerate_group read (cf_columns cf) (cg_id g) u) = Some rows" "group_digest hs rows = cg_preimage g"
      using restore_groups_applied [OF r ab] by blast
    then show ?thesis using own assms(6) by simp
  qed
  ultimately show False using assms(7) by (auto simp: blocked_def chosen_rows_def split: if_splits)
qed

text \<open>An action that both sides logged under one id for different memories, and a snapshot older than a column.\<close>

definition rx_moved :: "grow list cgroup list" where
  "rx_moved = the (rx_conflicts (rx_file [] [rx_action 1 5 ''x'']) (rx_file [] [rx_action 1 6 ''y'']))"

definition rx_older :: "grow list cgroup list" where
  "rx_older = the (rx_conflicts ((rx_file [rx_memory 1 ''a''] [])\<lparr>df_columns := rx_columns(''memories'' := [''id''])\<rparr>) (rx_file [rx_memory 1 ''a''] []))"

theorem unowned_row_blocks_restore_witness:
  "map cg_id rx_moved = [GMemory (VInt 5), GMemory (VInt 6)] \<and>
   (\<forall>sel io w. fst (restore_apply rx_hashing mem_exec mem_read io (Some (rx_doc rx_moved, sel)) w) \<noteq> Rebuilding) \<and>
   map cg_id rx_older = [GMemory (VInt 1)] \<and>
   (\<forall>io w. fst (restore_apply rx_hashing mem_exec mem_read io (Some (rx_doc rx_older, [(GMemory (VInt 1), ''snapshot'')])) w) \<noteq> Rebuilding)"
proof (intro conjI allI)
  have c: "columns_ok (cf_columns (rx_doc gs))" for gs using rx_columns_ok by (simp add: rx_doc_def)
  show "map cg_id rx_moved = [GMemory (VInt 5), GMemory (VInt 6)]" "map cg_id rx_older = [GMemory (VInt 1)]" by code_simp+
  fix sel io w
  have m: "list_ex (\<lambda>g. g = hd rx_moved \<and> plain_gid (cg_id g) \<and> cg_preimage g = group_digest rx_hashing (cg_d1 g) \<and>
      list_ex (\<lambda>x. \<not> owned rx_columns (cg_id g) x) (cg_d1 g)) rx_moved" by code_simp
  then have "blocked (cf_columns (rx_doc rx_moved)) sel (hd rx_moved)" by (auto simp: blocked_def rx_doc_def list_ex_iff)
  then show "fst (restore_apply rx_hashing mem_exec mem_read io (Some (rx_doc rx_moved, sel)) w) \<noteq> Rebuilding"
    using m by (intro unowned_row_blocks_restore [OF rx_hashing_free mem_read_sound c]) (auto simp: rx_doc_def list_ex_iff)
next
  have c: "columns_ok (cf_columns (rx_doc gs))" for gs using rx_columns_ok by (simp add: rx_doc_def)
  fix io w
  let ?sel = "[(GMemory (VInt 1), ''snapshot'')]"
  have m: "list_ex (\<lambda>g. g = hd rx_older \<and> plain_gid (cg_id g) \<and> cg_preimage g = group_digest rx_hashing (cg_d1 g) \<and>
      picks_snapshot ?sel g \<and> list_ex (\<lambda>x. \<not> owned rx_columns (cg_id g) x) (cg_snap g)) rx_older" by code_simp
  then have "blocked (cf_columns (rx_doc rx_older)) ?sel (hd rx_older)" by (auto simp: blocked_def rx_doc_def list_ex_iff)
  then show "fst (restore_apply rx_hashing mem_exec mem_read io (Some (rx_doc rx_older, ?sel)) w) \<noteq> Rebuilding"
    using m by (intro unowned_row_blocks_restore [OF rx_hashing_free mem_read_sound c]) (auto simp: rx_doc_def list_ex_iff)
qed

section \<open>A restore that completes\<close>


definition rx_stmts :: "stmt list list" where
  "rx_stmts = the (all_some (map (\<lambda>g. group_statements g rx_columns) (filter (picks_snapshot rx_sel) rx_groups)))"

lemma rx_run_ok: "all_some (map (\<lambda>g. group_statements g rx_columns) (filter (picks_snapshot rx_sel) rx_groups)) = Some rx_stmts"
    "delete_guard (zip (map cg_id (filter (picks_snapshot rx_sel) rx_groups)) rx_stmts) (\<lambda>t. 2) True = None"
proof -
  have "all_some (map (\<lambda>g. group_statements g rx_columns) (filter (picks_snapshot rx_sel) rx_groups)) \<noteq> None" by code_simp
  then show "all_some (map (\<lambda>g. group_statements g rx_columns) (filter (picks_snapshot rx_sel) rx_groups)) = Some rx_stmts"
    by (simp add: rx_stmts_def)
  show "delete_guard (zip (map cg_id (filter (picks_snapshot rx_sel) rx_groups)) rx_stmts) (\<lambda>t. 2) True = None"
    by (simp add: delete_guard_def Let_def find_None_iff)
qed

lemma rx_two_sides: "two_sides rx_columns (rx_side rx_snap) (rx_side rx_d1)" "parents_ok (rx_side rx_snap)"
proof -
  have "group_of t x = group_of t y" if "side_row (rx_side rx_snap) (t, k) = Some x" "side_row (rx_side rx_d1) (t, k) = Some y" for t k x y
    using rows_testD [OF rx_tests(3) that(1)] that(2) by simp
  then show "two_sides rx_columns (rx_side rx_snap) (rx_side rx_d1)"
    using rx_columns_ok side_test_ok [OF rx_tests(1)] side_test_ok [OF rx_tests(2)] by (auto simp: two_sides_def no_moves_def)
  show "parents_ok (rx_side rx_snap)"
    unfolding parents_ok_def using rows_testD [OF rx_tests(4)] by blast
qed


section \<open>What the delete guard does not see\<close>

lemma all_some_each: "all_some (map f xs) = Some ys \<Longrightarrow> x \<in> set xs \<Longrightarrow> \<exists>y \<in> set ys. f x = Some y"
  unfolding all_some_list_all2 by (induction rule: list_all2_induct) auto

lemma find_member: "find P xs = Some x \<Longrightarrow> x \<in> set xs"
  by (induction xs) (auto split: if_splits)

lemma group_statement_in:
  assumes "group_statements g columns = Some stmts" and "k \<in> set (differing_keys g)"
  shows "\<exists>sts. key_plan g columns k = Some (k, sts) \<and> set sts \<subseteq> set stmts"
proof -
  obtain ps where ps: "all_some (map (key_plan g columns) (differing_keys g)) = Some ps" "stmts = concat (map snd (order_plan g ps))"
    using assms(1) by (auto simp: group_statements_def Let_def split: bind_splits if_splits)
  obtain p where p: "p \<in> set ps" "key_plan g columns k = Some p"
    using all_some_each [OF ps(1) assms(2)] by blast
  have "p = (k, snd p)" using p(2) by (auto simp: key_plan_def)
  moreover have "p \<in> set (order_plan g ps)"
    using p(1) by (cases "map_of (rows_by_key (cg_snap g)) (fst p) = None") (auto simp: order_plan_def Let_def)
  then have "set (snd p) \<subseteq> set stmts" unfolding ps(2) by auto
  ultimately show ?thesis using p(2) by metis
qed

text \<open>C39:
  when a group writes one row of a table, the delete guard counts none of the group's deletes of that table,
  however many there are: an update of one action of a memory hides the deletion of all its others.
\<close>

theorem delete_guard_blind:
  assumes "group_statements g columns = Some stmts" and "(t, pk) \<in> set (differing_keys g)"
    and "map_of (rows_by_key (cg_snap g)) (t, pk) \<noteq> None"
  shows "t \<notin> set (counted_deletes stmts) \<and> delete_guard [(cg_id g, stmts)] counts permitted \<noteq> Some (t, n, m)"
proof -
  obtain sts where sts: "key_plan g columns (t, pk) = Some ((t, pk), sts)" "set sts \<subseteq> set stmts"
    using group_statement_in [OF assms(1,2)] by blast
  have "\<exists>s \<in> set sts. starts_with (''INSERT INTO '' @ t @ '' '') (fst s)"
    using sts(1) assms(3)
    by (auto simp: key_plan_def build_statements_def Let_def starts_with_iff insert_sql_def upsert_sql_def split: bind_splits if_splits)
  then have "t \<notin> set (counted_deletes stmts)" using sts(2) by (auto simp: counted_deletes_def)
  then show ?thesis by (auto simp: delete_guard_def Let_def dest!: find_member)
qed

text \<open>D1's actions 2 and 3 of memory 1 go, two thirds of its table; with action 1 unchanged the guard stops the run.\<close>

definition rx_deleting :: "string \<Rightarrow> grow list cgroup" where
  "rx_deleting a = hd (the (rx_conflicts (rx_file [] [rx_action 1 1 a]) (rx_file [] [rx_action 1 1 ''x'', rx_action 2 1 ''y'', rx_action 3 1 ''z''])))"

definition rx_guard :: "string \<Rightarrow> (string \<times> nat \<times> nat) option" where
  "rx_guard a = delete_guard [(cg_id (rx_deleting a), the (group_statements (rx_deleting a) rx_columns))] (\<lambda>t. 3) False"

theorem delete_guard_blind_witness:
  "rx_guard ''x'' = Some (''memories_actions'', 2, 3) \<and> rx_guard ''w'' = None \<and>
   ''memories_actions'' \<notin> set (counted_deletes (the (group_statements (rx_deleting ''w'') rx_columns)))"
proof (intro conjI)
  show "rx_guard ''x'' = Some (''memories_actions'', 2, 3)" "rx_guard ''w'' = None" by code_simp+
  have "group_statements (rx_deleting ''w'') rx_columns \<noteq> None" by code_simp
  then obtain stmts where "group_statements (rx_deleting ''w'') rx_columns = Some stmts" by blast
  moreover have "list_ex (\<lambda>k. k = (''memories_actions'', [VInt 1])) (differing_keys (rx_deleting ''w''))"
    "map_of (rows_by_key (cg_snap (rx_deleting ''w''))) (''memories_actions'', [VInt 1]) \<noteq> None" by code_simp+
  ultimately show "''memories_actions'' \<notin> set (counted_deletes (the (group_statements (rx_deleting ''w'') rx_columns)))"
    using delete_guard_blind [of "rx_deleting ''w''" rx_columns stmts "''memories_actions''" "[VInt 1]"] by (auto simp: list_ex_iff)
qed

end
