(* ===== verification/Import_Lease.thy ===== *)
theory Import_Lease
  imports Memora_Prelude "HOL-Library.Monad_Syntax"
begin

text \<open>
  The lease of a D1 import (\<open>memora/storage.py\<close>, \<open>_ImportLease\<close>): the tables an import works on, its
  statements one by one with a fault model, and the four operations of the lease.  D1 has no
  transactions: every statement commits alone, may be answered, may commit with its reply lost, or may not
  arrive; before each, other clients may change the store.  A run takes these answers from a list; when the
  list ends, nothing answers any more.  Formatted times are the seconds they denote (fixed-width texts compare as
  the times do).
\<close>

section \<open>Tables\<close>

text \<open>The metadata column is NULL or the text of a JSON object, identified with the object.\<close>

record import_row =
  ir_content :: string
  ir_meta :: "(string \<times> json) list option"
  ir_tags :: string
  ir_created :: "string option"

record import_store =
  is_rows :: "(int, import_row) dict"
  is_vecs :: "(int, json) dict"
  is_refs :: "(int, json) dict"
  is_lease :: "(string \<times> int) option"
  is_seq :: int

section \<open>Statements with faults\<close>

datatype fate = Served | ReplyLost | NotServed

record statement_io =
  si_env :: "import_store \<Rightarrow> import_store"
  si_wall :: int
  si_mono :: int
  si_fate :: fate

text \<open>
  The process: the store, the answers to come, the lease object and the local variables of the row loop
  that survive an exception.
\<close>

record lease_obj =
  le_id :: string
  le_until :: int
  le_renewed :: int

record import_world =
  iw_store :: import_store
  iw_io :: "statement_io list"
  iw_lease :: lease_obj
  lo_mid :: "int option"
  lo_stripped :: bool

datatype 'a run = Val 'a | Raised | LeaseLost

type_synonym 'a import_m = "import_world \<Rightarrow> 'a run \<times> import_world"

definition im_val :: "'a \<Rightarrow> 'a import_m" where
  "im_val x w = (Val x, w)"

definition im_raise :: "'a import_m" where
  "im_raise w = (Raised, w)"

definition im_lost :: "'a import_m" where
  "im_lost w = (LeaseLost, w)"

definition im_bind :: "'a import_m \<Rightarrow> ('a \<Rightarrow> 'b import_m) \<Rightarrow> 'b import_m" where
  "im_bind m k w = (case m w of (Val x, w') \<Rightarrow> k x w' | (Raised, w') \<Rightarrow> (Raised, w') | (LeaseLost, w') \<Rightarrow> (LeaseLost, w'))"

definition im_get :: "(import_world \<Rightarrow> 'a) \<Rightarrow> 'a import_m" where
  "im_get f w = (Val (f w), w)"

definition im_put :: "(import_world \<Rightarrow> import_world) \<Rightarrow> unit import_m" where
  "im_put f w = (Val (), f w)"

text \<open>The clocks, read at the next statement.\<close>

definition wall_clock :: "import_world \<Rightarrow> int" where
  "wall_clock w = (case iw_io w of [] \<Rightarrow> 0 | i # _ \<Rightarrow> si_wall i)"

definition mono_clock :: "import_world \<Rightarrow> int" where
  "mono_clock w = (case iw_io w of [] \<Rightarrow> 0 | i # _ \<Rightarrow> si_mono i)"

text \<open>One statement; \<^const>\<open>None\<close> is a statement that D1 refuses.\<close>

definition im_stmt :: "(import_store \<Rightarrow> 'a option \<times> import_store) \<Rightarrow> 'a import_m" where
  "im_stmt f w =
     (case iw_io w of
        [] \<Rightarrow> (Raised, w)
      | i # rest \<Rightarrow>
          (let s = si_env i (iw_store w) in
           case si_fate i of
             NotServed \<Rightarrow> (Raised, w\<lparr>iw_io := rest, iw_store := s\<rparr>)
           | ReplyLost \<Rightarrow> (Raised, w\<lparr>iw_io := rest, iw_store := snd (f s)\<rparr>)
           | Served \<Rightarrow> (case fst (f s) of None \<Rightarrow> Raised | Some x \<Rightarrow> Val x, w\<lparr>iw_io := rest, iw_store := snd (f s)\<rparr>)))"

definition im_update :: "(import_store \<Rightarrow> import_store) \<Rightarrow> unit import_m" where
  "im_update f = im_stmt (\<lambda>s. (Some (), f s))"

definition im_query :: "(import_store \<Rightarrow> 'a) \<Rightarrow> 'a import_m" where
  "im_query f = im_stmt (\<lambda>s. (Some (f s), s))"

section \<open>The lease row\<close>

definition lease_seconds :: int where "lease_seconds = 1800"
definition heartbeat_s :: int where "heartbeat_s = 30"
definition write_attempts :: nat where "write_attempts = 3"

type_synonym lease_row = "(string \<times> int) option"

definition lease_insert :: "string \<Rightarrow> int \<Rightarrow> lease_row \<Rightarrow> lease_row" where
  "lease_insert me til r = (case r of None \<Rightarrow> Some (me, til) | Some x \<Rightarrow> Some x)"

definition lease_take :: "string \<Rightarrow> int \<Rightarrow> int \<Rightarrow> lease_row \<Rightarrow> lease_row" where
  "lease_take me now til r = (case r of Some (own, u) \<Rightarrow> if u < now then Some (me, til) else Some (own, u) | None \<Rightarrow> None)"

definition lease_extend :: "string \<Rightarrow> int \<Rightarrow> int \<Rightarrow> lease_row \<Rightarrow> lease_row" where
  "lease_extend me now til r =
     (case r of Some (own, u) \<Rightarrow> if own = me \<and> now \<le> u then Some (own, til) else Some (own, u) | None \<Rightarrow> None)"

definition lease_drop :: "string \<Rightarrow> lease_row \<Rightarrow> lease_row" where
  "lease_drop me r = (case r of Some (own, u) \<Rightarrow> if own = me then None else Some (own, u) | None \<Rightarrow> None)"

definition lease_expire :: "int \<Rightarrow> lease_row \<Rightarrow> lease_row" where
  "lease_expire now r = (case r of Some (own, u) \<Rightarrow> if u < now then None else Some (own, u) | None \<Rightarrow> None)"

definition on_lease :: "(lease_row \<Rightarrow> lease_row) \<Rightarrow> import_store \<Rightarrow> import_store" where
  "on_lease f s = s\<lparr>is_lease := f (is_lease s)\<rparr>"

section \<open>Operations\<close>

datatype acquired = Acquired | LeaseBusy

definition confirm :: "int \<Rightarrow> import_world \<Rightarrow> import_world" where
  "confirm u w = w\<lparr>iw_lease := (iw_lease w)\<lparr>le_until := u, le_renewed := mono_clock w\<rparr>\<rparr>"

definition lease_acquire :: "acquired import_m" where
  "lease_acquire =
     im_bind (im_get (\<lambda>w. (le_id (iw_lease w), wall_clock w))) (\<lambda>(me, now).
     im_bind (im_update (on_lease (lease_insert me (now + lease_seconds)))) (\<lambda>_.
     im_bind (im_update (on_lease (lease_take me now (now + lease_seconds)))) (\<lambda>_.
     im_bind (im_query is_lease) (\<lambda>row. case row of
         None \<Rightarrow> im_raise
       | Some (own, u) \<Rightarrow> if own \<noteq> me then im_val LeaseBusy else im_bind (im_put (confirm u)) (\<lambda>_. im_val Acquired)))))"

definition lease_renew :: "unit import_m" where
  "lease_renew =
     im_bind (im_get (\<lambda>w. (le_id (iw_lease w), wall_clock w))) (\<lambda>(me, now).
     im_bind (im_update (on_lease (lease_extend me now (now + lease_seconds)))) (\<lambda>_.
     im_bind (im_query is_lease) (\<lambda>row.
       if row = Some (me, now + lease_seconds) then im_put (confirm (now + lease_seconds)) else im_lost)))"

definition fence_once :: "unit import_m" where
  "fence_once =
     im_bind (im_get (\<lambda>w. heartbeat_s \<le> mono_clock w - le_renewed (iw_lease w))) (\<lambda>due.
     im_bind (if due then lease_renew else im_val ()) (\<lambda>_.
     im_bind (im_query is_lease) (\<lambda>row.
     im_bind (im_get (\<lambda>w. (le_id (iw_lease w), wall_clock w))) (\<lambda>(me, now).
       case row of None \<Rightarrow> im_lost | Some (own, u) \<Rightarrow> if own \<noteq> me \<or> u < now then im_lost else im_val ()))))"

fun fence_tries :: "nat \<Rightarrow> unit import_m" where
  "fence_tries 0 w = (LeaseLost, w)"
| "fence_tries (Suc n) w = (case fence_once w of (Raised, w') \<Rightarrow> fence_tries n w' | r \<Rightarrow> r)"

definition lease_fence :: "unit import_m" where
  "lease_fence = fence_tries write_attempts"

definition lease_release :: "unit import_m" where
  "lease_release = im_bind (im_get (\<lambda>w. le_id (iw_lease w))) (\<lambda>me. im_update (on_lease (lease_drop me)))"

section \<open>Reasoning about runs\<close>

text \<open>A triple: what holds after a value, after an exception and after a lost lease.\<close>

definition holds :: "(import_world \<Rightarrow> bool) \<Rightarrow> 'a import_m \<Rightarrow> ('a \<Rightarrow> import_world \<Rightarrow> bool) \<Rightarrow> (import_world \<Rightarrow> bool) \<Rightarrow>
    (import_world \<Rightarrow> bool) \<Rightarrow> bool" where
  "holds P m Q R L \<longleftrightarrow> (\<forall>w. P w \<longrightarrow> (case m w of (Val x, w') \<Rightarrow> Q x w' | (Raised, w') \<Rightarrow> R w' | (LeaseLost, w') \<Rightarrow> L w'))"

named_theorems triples "rules for import_m programs"

lemma holds_val [triples]: "(\<And>w. P w \<Longrightarrow> Q x w) \<Longrightarrow> holds P (im_val x) Q R L"
  by (simp add: holds_def im_val_def)

lemma holds_raise [triples]: "(\<And>w. P w \<Longrightarrow> R w) \<Longrightarrow> holds P im_raise Q R L"
  by (simp add: holds_def im_raise_def)

lemma holds_lost [triples]: "(\<And>w. P w \<Longrightarrow> L w) \<Longrightarrow> holds P im_lost Q R L"
  by (simp add: holds_def im_lost_def)

lemma holds_get [triples]: "(\<And>w. P w \<Longrightarrow> Q (f w) w) \<Longrightarrow> holds P (im_get f) Q R L"
  by (simp add: holds_def im_get_def)

lemma holds_put [triples]: "(\<And>w. P w \<Longrightarrow> Q () (f w)) \<Longrightarrow> holds P (im_put f) Q R L"
  by (simp add: holds_def im_put_def)

lemma holds_bind: "holds P m Q R L \<Longrightarrow> (\<And>x. holds (Q x) (k x) Q' R L) \<Longrightarrow> holds P (im_bind m k) Q' R L"
  by (fastforce simp: holds_def im_bind_def split: prod.splits run.splits)

lemma holds_pre: "holds P' m Q R L \<Longrightarrow> (\<And>w. P w \<Longrightarrow> P' w) \<Longrightarrow> holds P m Q R L"
  by (simp add: holds_def)

lemma holds_post:
  "holds P m Q' R' L' \<Longrightarrow> (\<And>x w. Q' x w \<Longrightarrow> Q x w) \<Longrightarrow> (\<And>w. R' w \<Longrightarrow> R w) \<Longrightarrow> (\<And>w. L' w \<Longrightarrow> L w) \<Longrightarrow> holds P m Q R L"
  by (fastforce simp: holds_def split: prod.splits run.splits)

lemma holds_if [triples]: "(b \<Longrightarrow> holds P m Q R L) \<Longrightarrow> (\<not> b \<Longrightarrow> holds P m' Q R L) \<Longrightarrow> holds P (if b then m else m') Q R L"
  by simp

lemma holds_apply: "holds P m Q R L \<Longrightarrow> P w \<Longrightarrow> m w = (Val x, w') \<Longrightarrow> Q x w'"
  by (fastforce simp: holds_def)

text \<open>
  A statement of a client beside which only the lease row changes: the store it finds differs from the last
  one in the lease at most.
\<close>

definition lease_only :: "(import_store \<Rightarrow> import_store) \<Rightarrow> bool" where
  "lease_only e \<longleftrightarrow> (\<forall>s. e s = s\<lparr>is_lease := is_lease (e s)\<rparr>)"

definition quiet :: "import_world \<Rightarrow> bool" where
  "quiet w \<longleftrightarrow> (\<forall>i \<in> set (iw_io w). lease_only (si_env i))"

lemma holds_stmt:
  assumes lease: "\<And>w l. P w \<Longrightarrow> P (w\<lparr>iw_store := (iw_store w)\<lparr>is_lease := l\<rparr>\<rparr>)"
    and io: "\<And>w io. P w \<Longrightarrow> P (w\<lparr>iw_io := io\<rparr>)"
    and raised: "\<And>w. P w \<Longrightarrow> quiet w \<Longrightarrow> R w"
    and step: "\<And>w. P w \<Longrightarrow> quiet w \<Longrightarrow> R (w\<lparr>iw_store := snd (f (iw_store w))\<rparr>) \<and>
       (\<forall>x. fst (f (iw_store w)) = Some x \<longrightarrow> Q x (w\<lparr>iw_store := snd (f (iw_store w))\<rparr>))"
  shows "holds (\<lambda>w. P w \<and> quiet w) (im_stmt f) Q R L"
proof -
  have "case im_stmt f w of (Val x, w') \<Rightarrow> Q x w' | (Raised, w') \<Rightarrow> R w' | (LeaseLost, w') \<Rightarrow> L w'"
    if p: "P w" and q: "quiet w" for w
  proof (cases "iw_io w")
    case Nil
    then show ?thesis using raised [OF p q] by (simp add: im_stmt_def)
  next
    case (Cons i rest)
    let ?v = "w\<lparr>iw_io := rest, iw_store := si_env i (iw_store w)\<rparr>"
    have env: "si_env i (iw_store w) = (iw_store w)\<lparr>is_lease := is_lease (si_env i (iw_store w))\<rparr>"
      using q Cons by (simp add: quiet_def lease_only_def)
    have "P ?v" using lease [OF io [OF p, of rest], of "is_lease (si_env i (iw_store w))"] env by simp
    moreover have "quiet ?v" using q Cons by (simp add: quiet_def)
    ultimately show ?thesis using Cons raised [of ?v] step [of ?v]
      by (auto simp: im_stmt_def Let_def split: fate.splits option.splits)
  qed
  then show ?thesis by (auto simp: holds_def)
qed

text \<open>What does not depend on the lease row, the answers to come and the lease object survives every lease operation.\<close>

definition lease_free :: "(import_world \<Rightarrow> bool) \<Rightarrow> bool" where
  "lease_free P \<longleftrightarrow> (\<forall>w l io til ren. P w \<longrightarrow> P (w\<lparr>iw_store := (iw_store w)\<lparr>is_lease := l\<rparr>, iw_io := io,
       iw_lease := (iw_lease w)\<lparr>le_until := til, le_renewed := ren\<rparr>\<rparr>))"

lemma lease_freeD:
  assumes "lease_free P" and "P w"
  shows "P (w\<lparr>iw_store := (iw_store w)\<lparr>is_lease := l\<rparr>\<rparr>)" "P (w\<lparr>iw_io := io\<rparr>)"
    "P (w\<lparr>iw_lease := (iw_lease w)\<lparr>le_until := til, le_renewed := ren\<rparr>\<rparr>)"
proof -
  note all = assms(1) [unfolded lease_free_def, rule_format, OF assms(2)]
  let ?til = "le_until (iw_lease w)" and ?ren = "le_renewed (iw_lease w)"
  from all [where l = l and io = "iw_io w" and til = ?til and ren = ?ren] show "P (w\<lparr>iw_store := (iw_store w)\<lparr>is_lease := l\<rparr>\<rparr>)" by simp
  from all [where l = "is_lease (iw_store w)" and io = io and til = ?til and ren = ?ren] show "P (w\<lparr>iw_io := io\<rparr>)" by simp
  from all [where l = "is_lease (iw_store w)" and io = "iw_io w" and til = til and ren = ren]
  show "P (w\<lparr>iw_lease := (iw_lease w)\<lparr>le_until := til, le_renewed := ren\<rparr>\<rparr>)" by simp
qed

abbreviation kept :: "(import_world \<Rightarrow> bool) \<Rightarrow> 'a import_m \<Rightarrow> bool" where
  "kept P m \<equiv> holds (\<lambda>w. P w \<and> quiet w) m (\<lambda>_ w. P w \<and> quiet w) (\<lambda>w. P w \<and> quiet w) (\<lambda>w. P w \<and> quiet w)"

lemma kept_stmt:
  assumes "lease_free P" and "\<And>w. P w \<Longrightarrow> P (w\<lparr>iw_store := snd (f (iw_store w))\<rparr>)"
  shows "kept P (im_stmt f)"
  by (rule holds_stmt) (use assms lease_freeD [OF assms(1)] in \<open>auto simp: quiet_def\<close>)

lemma kept_query [triples]: "lease_free P \<Longrightarrow> kept P (im_query f)"
  unfolding im_query_def by (rule kept_stmt) simp_all

lemma kept_lease: "lease_free P \<Longrightarrow> kept P (im_update (on_lease f))"
  unfolding im_update_def on_lease_def by (rule kept_stmt) (simp_all add: lease_freeD)

lemma kept_confirm: "lease_free P \<Longrightarrow> kept P (im_put (confirm u))"
  by (rule holds_put) (simp add: confirm_def lease_freeD quiet_def)

lemma kept_bind: "kept P m \<Longrightarrow> (\<And>x. kept P (k x)) \<Longrightarrow> kept P (im_bind m k)"
  by (rule holds_bind)

lemma kept_plain: "kept P (im_val x)" "kept P im_raise" "kept P im_lost" "kept P (im_get f)"
  by (auto intro: triples)

lemma kept_cases:
  "(\<And>a b. kept P (f a b)) \<Longrightarrow> kept P (case x of (a, b) \<Rightarrow> f a b)"
  "kept P g \<Longrightarrow> (\<And>y. kept P (h y)) \<Longrightarrow> kept P (case z of None \<Rightarrow> g | Some y \<Rightarrow> h y)"
  "kept P m \<Longrightarrow> kept P m' \<Longrightarrow> kept P (if c then m else m')"
  by (simp_all split: prod.split option.split)

lemmas kept_rules = kept_bind kept_plain kept_query kept_lease kept_confirm kept_cases

lemma kept_renew: "lease_free P \<Longrightarrow> kept P lease_renew"
  unfolding lease_renew_def by (rule kept_rules | assumption)+

lemma kept_fence_once: "lease_free P \<Longrightarrow> kept P fence_once"
  unfolding fence_once_def by (rule kept_rules kept_renew | assumption)+

text \<open>A body that is tried again after an exception.\<close>

lemma holds_try:
  assumes "holds P m Q R' L" and "holds R' m' Q R L"
  shows "holds P (\<lambda>w. case m w of (Raised, w') \<Rightarrow> m' w' | r \<Rightarrow> r) Q R L"
proof -
  have "case (case m w of (Raised, w') \<Rightarrow> m' w' | r \<Rightarrow> r) of (Val x, w') \<Rightarrow> Q x w' | (Raised, w') \<Rightarrow> R w' | (LeaseLost, w') \<Rightarrow> L w'"
    if "P w" for w
  proof (cases "m w")
    case (Pair r w')
    have "case m w of (Val x, w') \<Rightarrow> Q x w' | (Raised, w') \<Rightarrow> R' w' | (LeaseLost, w') \<Rightarrow> L w'"
      using assms(1) that by (simp only: holds_def)
    moreover have "R' w' \<Longrightarrow> case m' w' of (Val x, w') \<Rightarrow> Q x w' | (Raised, w') \<Rightarrow> R w' | (LeaseLost, w') \<Rightarrow> L w'"
      using assms(2) by (simp only: holds_def)
    ultimately show ?thesis using Pair by (cases r) simp_all
  qed
  then show ?thesis by (simp only: holds_def) blast
qed

text \<open>A fence ends with a value or a lost lease, never with an exception.\<close>

lemma fence_kept:
  assumes "lease_free P"
  shows "holds (\<lambda>w. P w \<and> quiet w) lease_fence (\<lambda>_ w. P w \<and> quiet w) R (\<lambda>w. P w \<and> quiet w)"
proof -
  have "holds (\<lambda>w. P w \<and> quiet w) (fence_tries n) (\<lambda>_ w. P w \<and> quiet w) R (\<lambda>w. P w \<and> quiet w)" for n
  proof (induction n)
    case (Suc n)
    have "fence_tries (Suc n) = (\<lambda>w. case fence_once w of (Raised, w') \<Rightarrow> fence_tries n w' | r \<Rightarrow> r)" by (rule ext) simp
    with holds_try [OF kept_fence_once [OF assms] Suc] show ?case by (simp only:)
  qed (simp add: holds_def)
  then show ?thesis by (simp add: lease_fence_def)
qed

lemma fence_once_owner:
  assumes "fence_once w = (Val (), w')"
  shows "\<exists>u. is_lease (iw_store w') = Some (le_id (iw_lease w'), u) \<and> wall_clock w' \<le> u"
proof -
  let ?tail = "\<lambda>row. im_bind (im_get (\<lambda>w. (le_id (iw_lease w), wall_clock w))) (\<lambda>(me, now).
       case row of None \<Rightarrow> im_lost | Some (own, u) \<Rightarrow> if own \<noteq> me \<or> u < now then im_lost else im_val ())"
  obtain v where "im_bind (im_query is_lease) ?tail v = (Val (), w')"
    using assms by (auto simp: fence_once_def im_bind_def im_get_def split: prod.splits run.splits)
  then obtain row where q: "im_query is_lease v = (Val row, w')" and t: "?tail row w' = (Val (), w')"
    by (auto simp: im_bind_def im_get_def im_lost_def im_val_def split: prod.splits run.splits option.splits if_splits)
  have "is_lease (iw_store w') = row"
    using q by (auto simp: im_query_def im_stmt_def Let_def split: list.splits fate.splits)
  then show ?thesis using t
    by (auto simp: im_bind_def im_get_def im_lost_def im_val_def split: option.splits if_splits)
qed

lemma fence_owner:
  assumes "lease_fence w = (Val (), w')"
  shows "\<exists>u. is_lease (iw_store w') = Some (le_id (iw_lease w'), u) \<and> wall_clock w' \<le> u"
proof -
  have "fence_tries n w = (Val (), w') \<Longrightarrow> ?thesis" for n
    by (induction n arbitrary: w) (auto intro: fence_once_owner split: prod.splits run.splits)
  then show ?thesis using assms by (simp add: lease_fence_def)
qed

section \<open>Importers of one store\<close>

text \<open>
  Several importers, each with the last clock reading it used and the expiry it has confirmed by reading
  the row back.  A statement carries the times its client read, and may run later.
\<close>

record importer =
  ip_read :: int
  ip_held :: "int option"

record lease_world =
  lw_row :: lease_row
  lw_clock :: int
  lw_importer :: "string \<Rightarrow> importer"

definition at_importer :: "string \<Rightarrow> (importer \<Rightarrow> importer) \<Rightarrow> lease_world \<Rightarrow> lease_world" where
  "at_importer me f w = w\<lparr>lw_importer := (lw_importer w)(me := f (lw_importer w me))\<rparr>"

definition read_at :: "string \<Rightarrow> int \<Rightarrow> lease_world \<Rightarrow> lease_world" where
  "read_at me t = at_importer me (\<lambda>i. i\<lparr>ip_read := t\<rparr>)"

definition hold_until :: "string \<Rightarrow> int option \<Rightarrow> lease_world \<Rightarrow> lease_world" where
  "hold_until me u = at_importer me (\<lambda>i. i\<lparr>ip_held := u\<rparr>)"

inductive lease_step :: "lease_world \<Rightarrow> lease_world \<Rightarrow> bool" where
  tick: "lw_clock w \<le> t \<Longrightarrow> lease_step w (w\<lparr>lw_clock := t\<rparr>)"
| insert_row: "ip_read (lw_importer w me) \<le> t \<Longrightarrow> t \<le> lw_clock w \<Longrightarrow>
     lease_step w (read_at me t (w\<lparr>lw_row := lease_insert me (t + lease_seconds) (lw_row w)\<rparr>))"
| take_over: "ip_read (lw_importer w me) \<le> t \<Longrightarrow> now \<le> t \<Longrightarrow> t \<le> lw_clock w \<Longrightarrow>
     lease_step w (read_at me t (w\<lparr>lw_row := lease_take me now (t + lease_seconds) (lw_row w)\<rparr>))"
| extend: "ip_read (lw_importer w me) \<le> t \<Longrightarrow> t \<le> now \<Longrightarrow> now \<le> lw_clock w \<Longrightarrow>
     lease_step w (read_at me t (w\<lparr>lw_row := lease_extend me now (t + lease_seconds) (lw_row w)\<rparr>))"
| confirmed: "lw_row w = Some (me, u) \<Longrightarrow> lease_step w (hold_until me (Some u) w)"
| gave_up: "lease_step w (hold_until me None w)"
| released: "lease_step w (hold_until me None (w\<lparr>lw_row := lease_drop me (lw_row w)\<rparr>))"
| swept: "now \<le> lw_clock w \<Longrightarrow> lease_step w (w\<lparr>lw_row := lease_expire now (lw_row w)\<rparr>)"

inductive lease_reachable :: "lease_world \<Rightarrow> bool" where
  start: "(\<And>me. ip_held (imp me) = None) \<Longrightarrow> lease_reachable \<lparr>lw_row = None, lw_clock = t, lw_importer = imp\<rparr>"
| step: "lease_reachable w \<Longrightarrow> lease_step w w' \<Longrightarrow> lease_reachable w'"

definition lease_inv :: "lease_world \<Rightarrow> bool" where
  "lease_inv w \<longleftrightarrow>
     (\<forall>me u. lw_row w = Some (me, u) \<longrightarrow> u \<le> ip_read (lw_importer w me) + lease_seconds) \<and>
     (\<forall>me u. ip_held (lw_importer w me) = Some u \<and> lw_clock w \<le> u \<longrightarrow> (\<exists>u'. lw_row w = Some (me, u') \<and> u \<le> u'))"

lemmas lease_defs = lease_inv_def at_importer_def read_at_def hold_until_def lease_insert_def lease_take_def
  lease_extend_def lease_drop_def lease_expire_def

text \<open>A change of the row that respects a live lease, by a client whose clock reading moves on.\<close>

lemma inv_new_row:
  assumes inv: "lease_inv w" and read: "ip_read (lw_importer w me) \<le> t"
    and live: "\<And>x u. lw_row w = Some (x, u) \<Longrightarrow> lw_clock w \<le> u \<Longrightarrow> \<exists>u'. r = Some (x, u') \<and> u \<le> u'"
    and bound: "\<And>x u. r = Some (x, u) \<Longrightarrow> lw_row w = Some (x, u) \<or> x = me \<and> u \<le> t + lease_seconds"
  shows "lease_inv (read_at me t (w\<lparr>lw_row := r\<rparr>))"
proof -
  let ?w = "read_at me t (w\<lparr>lw_row := r\<rparr>)"
  have "u \<le> ip_read (lw_importer ?w x) + lease_seconds" if "lw_row ?w = Some (x, u)" for x u
  proof -
    have "r = Some (x, u)" using that by (simp add: read_at_def at_importer_def)
    from bound [OF this] show ?thesis
    proof (elim disjE conjE)
      assume "lw_row w = Some (x, u)"
      then have "u \<le> ip_read (lw_importer w x) + lease_seconds" using inv unfolding lease_inv_def by blast
      with read show ?thesis by (auto simp: read_at_def at_importer_def)
    qed (simp add: read_at_def at_importer_def)
  qed
  moreover have "\<exists>u'. lw_row ?w = Some (x, u') \<and> u \<le> u'"
    if "ip_held (lw_importer ?w x) = Some u" "lw_clock ?w \<le> u" for x u
  proof -
    have "ip_held (lw_importer w x) = Some u" "lw_clock w \<le> u"
      using that by (simp_all add: read_at_def at_importer_def split: if_splits)
    then obtain u' where u': "lw_row w = Some (x, u')" "u \<le> u'" using inv unfolding lease_inv_def by blast
    with \<open>lw_clock w \<le> u\<close> have "lw_clock w \<le> u'" by simp
    with live [OF u'(1)] obtain v where "r = Some (x, v)" "u' \<le> v" by blast
    with u' show ?thesis by (auto simp: read_at_def at_importer_def)
  qed
  ultimately show ?thesis by (simp add: lease_inv_def)
qed

lemma inv_no_row:
  assumes "lease_inv w" and "\<And>x u. lw_row w = Some (x, u) \<Longrightarrow> u < lw_clock w"
  shows "lease_inv (w\<lparr>lw_row := None\<rparr>)"
proof -
  have "False" if h: "ip_held (lw_importer w x) = Some u" "lw_clock w \<le> u" for x u
  proof -
    obtain u' where "lw_row w = Some (x, u')" "u \<le> u'" using assms(1) h unfolding lease_inv_def by blast
    with assms(2) [of x u'] h(2) show False by simp
  qed
  then show ?thesis by (auto simp: lease_inv_def)
qed

lemma lease_step_inv:
  assumes "lease_step w w'" and "lease_inv w"
  shows "lease_inv w'"
  using assms
proof (induction rule: lease_step.induct)
  case (tick w t)
  then show ?case by (auto simp: lease_inv_def)
next
  case (insert_row w me t)
  then show ?case
    by (intro inv_new_row) (auto simp: lease_insert_def split: option.splits)
next
  case (take_over w me t now)
  then show ?case
    by (intro inv_new_row) (auto simp: lease_take_def split: option.splits if_splits)
next
  case (extend w me t now)
  show ?case
  proof (rule inv_new_row)
    fix x u assume x: "lw_row w = Some (x, u)" "lw_clock w \<le> u"
    then have "u \<le> ip_read (lw_importer w x) + lease_seconds" using extend.prems by (simp add: lease_inv_def)
    with x extend.hyps show "\<exists>u'. lease_extend me now (t + lease_seconds) (lw_row w) = Some (x, u') \<and> u \<le> u'"
      by (auto simp: lease_extend_def)
  qed (use extend in \<open>auto simp: lease_extend_def split: option.splits if_splits\<close>)
next
  case (confirmed w me u)
  then show ?case by (auto simp: lease_inv_def hold_until_def at_importer_def)
next
  case (gave_up w me)
  then show ?case by (auto simp: lease_inv_def hold_until_def at_importer_def)
next
  case (released w me)
  then show ?case
    by (fastforce simp: lease_inv_def hold_until_def at_importer_def lease_drop_def split: option.splits if_splits)
next
  case (swept now w)
  show ?case
  proof (cases "\<exists>x u. lw_row w = Some (x, u) \<and> u < now")
    case True
    then show ?thesis using inv_no_row [OF swept.prems] swept.hyps by (auto simp: lease_expire_def)
  next
    case False
    then have "lease_expire now (lw_row w) = lw_row w" by (auto simp: lease_expire_def split: option.split)
    then show ?thesis using swept.prems by simp
  qed
qed

lemma lease_reachable_inv: "lease_reachable w \<Longrightarrow> lease_inv w"
proof (induction rule: lease_reachable.induct)
  case (start imp t)
  then show ?case by (simp add: lease_inv_def)
next
  case (step w w')
  then show ?case by (blast intro: lease_step_inv)
qed



end
