(* ===== verification/Import_Write.thy ===== *)
theory Import_Write
  imports Import_Lease
begin

text \<open>
  The D1 row phase of an import (\<open>memora/storage.py\<close>, \<open>_import_write_d1\<close> and its helpers): the staged
  clearing of a replace, the marked insert of each prepared row, its completion by a compare-and-set on
  the marker, the adoption of a row whose reply was lost, the fences and the report.  D1 enforces
  foreign keys with cascading deletes, assigns ids from a sequence that deletes do not reset, and has no
  FTS table.  The bookkeeping of the embedding model's name is one statement on a table not modelled.
\<close>

section \<open>Markers\<close>

definition marker_key :: string where "marker_key = ''import_attempt''"

definition import_marker :: "string \<Rightarrow> int \<Rightarrow> nat \<Rightarrow> string" where
  "import_marker me started k = me @ '':'' @ int_text started @ '':'' @ nat_text k"

text \<open>\<open>json_extract(metadata, '$.import_attempt')\<close> as a text, and \<open>_import_pending\<close>.\<close>

definition marker_of :: "import_row \<Rightarrow> string option" where
  "marker_of r = (case ir_meta r of None \<Rightarrow> None
     | Some d \<Rightarrow> (case map_of d marker_key of Some (JStr m) \<Rightarrow> Some m | _ \<Rightarrow> None))"

definition row_pending :: "import_row \<Rightarrow> bool" where
  "row_pending r \<longleftrightarrow> (case ir_meta r of None \<Rightarrow> False | Some d \<Rightarrow> map_of d marker_key \<noteq> None)"

definition marked :: "string \<Rightarrow> import_row \<Rightarrow> import_row" where
  "marked m r = r\<lparr>ir_meta := Some (dict_set marker_key (JStr m) (case ir_meta r of None \<Rightarrow> [] | Some d \<Rightarrow> d))\<rparr>"

section \<open>Statements\<close>

text \<open>The first row with the marker, in id order.\<close>

definition find_marked :: "string \<Rightarrow> import_store \<Rightarrow> int option" where
  "find_marked m s =
     (case sort (map fst (filter (\<lambda>(i, r). marker_of r = Some m) (is_rows s))) of [] \<Rightarrow> None | i # _ \<Rightarrow> Some i)"

definition insert_row :: "import_row \<Rightarrow> import_store \<Rightarrow> int option \<times> import_store" where
  "insert_row r s = (Some (is_seq s + 1), s\<lparr>is_rows := dict_set (is_seq s + 1) r (is_rows s), is_seq := is_seq s + 1\<rparr>)"

text \<open>An upsert of a vector without its memory row fails its foreign key.\<close>

definition upsert_vec :: "int \<Rightarrow> json \<Rightarrow> import_store \<Rightarrow> unit option \<times> import_store" where
  "upsert_vec i v s =
     (if map_of (is_rows s) i = None then (None, s) else (Some (), s\<lparr>is_vecs := dict_set i v (is_vecs s)\<rparr>))"

definition strip_marker :: "int \<Rightarrow> string \<Rightarrow> (string \<times> json) list option \<Rightarrow> import_store \<Rightarrow> import_store" where
  "strip_marker i m meta s =
     (case map_of (is_rows s) i of
        None \<Rightarrow> s
      | Some r \<Rightarrow> if marker_of r = Some m then s\<lparr>is_rows := dict_set i (r\<lparr>ir_meta := meta\<rparr>) (is_rows s)\<rparr> else s)"

definition delete_memory_row :: "int \<Rightarrow> import_store \<Rightarrow> import_store" where
  "delete_memory_row i s =
     s\<lparr>is_rows := dict_pop i (is_rows s), is_vecs := dict_pop i (is_vecs s), is_refs := dict_pop i (is_refs s)\<rparr>"

definition delete_marked :: "int \<Rightarrow> string \<Rightarrow> import_store \<Rightarrow> import_store" where
  "delete_marked i m s =
     (case map_of (is_rows s) i of
        None \<Rightarrow> s | Some r \<Rightarrow> if marker_of r = Some m then delete_memory_row i s else s)"

section \<open>Removing an incomplete row\<close>

definition delete_marked_row :: "int \<Rightarrow> string \<Rightarrow> unit import_m" where
  "delete_marked_row i m =
     im_bind (im_update (delete_marked i m)) (\<lambda>_.
     im_bind (im_query (\<lambda>s. map_of (is_rows s) i)) (\<lambda>row.
       if row \<noteq> None then im_val ()
       else im_bind (im_update (\<lambda>s. s\<lparr>is_refs := dict_pop i (is_refs s)\<rparr>)) (\<lambda>_.
            im_update (\<lambda>s. s\<lparr>is_vecs := dict_pop i (is_vecs s)\<rparr>))))"

text \<open>The orphan that may still be there: its id when one was read.\<close>

type_synonym orphan = "int option option"

text \<open>The \<open>try\<close> of \<open>_import_remove_marked\<close>: nothing, or the id it was about to remove.\<close>

definition removal :: "string \<Rightarrow> import_world \<Rightarrow> (bool \<times> int option) \<times> import_world" where
  "removal m w =
     (case im_query (find_marked m) w of
        (Val None, w') \<Rightarrow> ((True, None), w')
      | (Val (Some i), w') \<Rightarrow> ((False, Some i), snd (delete_marked_row i m w'))
      | (_, w') \<Rightarrow> ((False, None), w'))"

definition remove_marked :: "string \<Rightarrow> import_world \<Rightarrow> orphan \<times> import_world" where
  "remove_marked m w =
     (case removal m w of
        ((True, _), w') \<Rightarrow> (None, w')
      | ((False, i), w') \<Rightarrow>
          (case im_query (find_marked m) w' of
             (Val None, w'') \<Rightarrow> (None, w'')
           | (Val (Some r), w'') \<Rightarrow> (Some (Some r), w'')
           | (_, w'') \<Rightarrow> (Some i, w'')))"

section \<open>One row\<close>

record prepared =
  pr_row :: import_row
  pr_vec :: json

definition set_mid :: "int option \<Rightarrow> unit import_m" where
  "set_mid i = im_put (\<lambda>w. w\<lparr>lo_mid := i\<rparr>)"

definition find_or_insert :: "string \<Rightarrow> prepared \<Rightarrow> int import_m" where
  "find_or_insert m p =
     im_bind (im_get lo_mid) (\<lambda>mid. case mid of Some i \<Rightarrow> im_val i | None \<Rightarrow>
       im_bind (im_query (find_marked m)) (\<lambda>found. im_bind (set_mid found) (\<lambda>_. case found of Some i \<Rightarrow> im_val i | None \<Rightarrow>
         im_bind lease_fence (\<lambda>_.
         im_bind (im_stmt (insert_row (marked m (pr_row p)))) (\<lambda>i.
         im_bind (set_mid (Some i)) (\<lambda>_. im_val i))))))"

definition row_attempt :: "string \<Rightarrow> prepared \<Rightarrow> int import_m" where
  "row_attempt m p =
     im_bind (find_or_insert m p) (\<lambda>i.
     im_bind (im_stmt (upsert_vec i (pr_vec p))) (\<lambda>_.
     im_bind (im_update id) (\<lambda>_.
     im_bind lease_fence (\<lambda>_.
     im_bind (im_update (strip_marker i m (ir_meta (pr_row p)))) (\<lambda>_.
     im_bind (im_query (\<lambda>s. map_of (is_rows s) i)) (\<lambda>check. case check of
         None \<Rightarrow> im_bind (set_mid None) (\<lambda>_. im_raise)
       | Some r \<Rightarrow> if row_pending r then im_raise
           else im_bind (im_put (\<lambda>w. w\<lparr>lo_stripped := True\<rparr>)) (\<lambda>_. im_bind lease_fence (\<lambda>_. im_val i))))))))"

fun row_attempts :: "string \<Rightarrow> prepared \<Rightarrow> nat \<Rightarrow> int import_m" where
  "row_attempts m p 0 w = (Raised, w)"
| "row_attempts m p (Suc n) w = (case row_attempt m p w of (Raised, w') \<Rightarrow> row_attempts m p n w' | r \<Rightarrow> r)"

section \<open>The row phase and its report\<close>

datatype strategy = Replace | Merge | Append

datatype stage = ClearRefs | ClearVecs | ClearRows

datatype problem = LeaseLostAt "nat option" | ClearFailed | RowFailed nat

datatype replaced = Done | Partial | NotReplaced

record report =
  rp_written :: "int list"
  rp_replaced :: replaced
  rp_failed :: nat
  rp_problem :: "problem option"
  rp_stage :: "stage option"
  rp_unconfirmed :: "int list"
  rp_left_marked :: "(int \<times> string) list"
  rp_orphans :: "int option list"

definition stopped :: "strategy \<Rightarrow> int list \<Rightarrow> nat \<Rightarrow> problem \<Rightarrow> report" where
  "stopped strat done_ids failed e =
     \<lparr>rp_written = done_ids, rp_replaced = (if strat = Replace then Partial else NotReplaced), rp_failed = failed,
      rp_problem = Some e, rp_stage = None, rp_unconfirmed = [], rp_left_marked = [], rp_orphans = []\<rparr>"

definition lost_at_row :: "strategy \<Rightarrow> int list \<Rightarrow> nat \<Rightarrow> nat \<Rightarrow> string \<Rightarrow> bool \<Rightarrow> import_world \<Rightarrow> report" where
  "lost_at_row strat done_ids n_rows k m is_done w =
     (let r = stopped strat done_ids (n_rows - k) (LeaseLostAt (Some k)) in
      case lo_mid w of
        None \<Rightarrow> r
      | Some i \<Rightarrow> if is_done then r\<lparr>rp_unconfirmed := [i]\<rparr> else r\<lparr>rp_left_marked := [(i, m)]\<rparr>)"

fun write_rows :: "strategy \<Rightarrow> nat \<Rightarrow> nat \<Rightarrow> prepared list \<Rightarrow> int list \<Rightarrow> import_world \<Rightarrow> report \<times> import_world" where
  "write_rows strat n_rows k [] done_ids w =
     (\<lparr>rp_written = done_ids, rp_replaced = Done, rp_failed = 0, rp_problem = None, rp_stage = None,
       rp_unconfirmed = [], rp_left_marked = [], rp_orphans = []\<rparr>, w)"
| "write_rows strat n_rows k (p # ps) done_ids w =
     (let m = import_marker (le_id (iw_lease w)) (wall_clock w) k in
      case row_attempts m p write_attempts (w\<lparr>lo_mid := None, lo_stripped := False\<rparr>) of
        (Val i, w') \<Rightarrow> write_rows strat n_rows (k + 1) ps (done_ids @ [i]) w'
      | (LeaseLost, w') \<Rightarrow> (lost_at_row strat done_ids n_rows k m (lo_stripped w') w', w')
      | (Raised, w') \<Rightarrow>
          (case lease_fence w' of
             (Val _, w'') \<Rightarrow>
               (case remove_marked m w'' of
                  (orphan, w3) \<Rightarrow>
                    ((stopped strat done_ids (n_rows - k) (RowFailed k))
                       \<lparr>rp_orphans := (case orphan of None \<Rightarrow> [] | Some i \<Rightarrow> [i])\<rparr>, w3))
           | (_, w'') \<Rightarrow> (lost_at_row strat done_ids n_rows k m False w'', w'')))"

definition clear_stages :: "(stage \<times> (import_store \<Rightarrow> import_store)) list" where
  "clear_stages =
     [(ClearRefs, \<lambda>s. s\<lparr>is_refs := []\<rparr>), (ClearVecs, \<lambda>s. s\<lparr>is_vecs := []\<rparr>),
      (ClearRows, \<lambda>s. s\<lparr>is_rows := [], is_vecs := [], is_refs := []\<rparr>)]"

fun with_attempts :: "nat \<Rightarrow> unit import_m \<Rightarrow> unit import_m" where
  "with_attempts 0 f w = (Raised, w)"
| "with_attempts (Suc n) f w = (case f w of (Raised, w') \<Rightarrow> with_attempts n f w' | r \<Rightarrow> r)"

fun clear_store :: "nat \<Rightarrow> (stage \<times> (import_store \<Rightarrow> import_store)) list \<Rightarrow> import_world \<Rightarrow> report option \<times> import_world" where
  "clear_store n_rows [] w = (None, w)"
| "clear_store n_rows ((st, f) # rest) w =
     (case lease_fence w of
        (Val _, w') \<Rightarrow>
          (case with_attempts write_attempts (im_update f) w' of
             (Val _, w'') \<Rightarrow> clear_store n_rows rest w''
           | (_, w'') \<Rightarrow> (Some ((stopped Replace [] n_rows ClearFailed)\<lparr>rp_stage := Some st\<rparr>), w''))
      | (_, w') \<Rightarrow> (Some ((stopped Replace [] n_rows (LeaseLostAt None))\<lparr>rp_stage := Some st\<rparr>), w'))"

definition import_write_d1 :: "strategy \<Rightarrow> prepared list \<Rightarrow> import_world \<Rightarrow> report \<times> import_world" where
  "import_write_d1 strat rows w =
     (if strat = Replace
      then (case clear_store (length rows) clear_stages w of
              (Some r, w') \<Rightarrow> (r, w')
            | (None, w') \<Rightarrow> write_rows strat (length rows) 0 rows [] w')
      else write_rows strat (length rows) 0 rows [] w)"

section \<open>The state of a row phase\<close>

text \<open>Where the row being written is: not in the store, there with its marker, or complete.\<close>

datatype current = NoRow | Half int | Full int

definition cur_ids :: "current \<Rightarrow> int set" where
  "cur_ids c = (case c of NoRow \<Rightarrow> {} | Half x \<Rightarrow> {x} | Full x \<Rightarrow> {x})"

definition complete_row :: "import_store \<Rightarrow> int \<Rightarrow> prepared \<Rightarrow> bool" where
  "complete_row s i p \<longleftrightarrow> map_of (is_rows s) i = Some (pr_row p) \<and> map_of (is_vecs s) i = Some (pr_vec p)"

definition same_row :: "import_store \<Rightarrow> import_store \<Rightarrow> int \<Rightarrow> bool" where
  "same_row s t i \<longleftrightarrow> map_of (is_rows s) i = map_of (is_rows t) i \<and> map_of (is_vecs s) i = map_of (is_vecs t) i \<and>
     map_of (is_refs s) i = map_of (is_refs t) i"

definition store_wf :: "import_store \<Rightarrow> bool" where
  "store_wf s \<longleftrightarrow> dict_wf (is_rows s) \<and> (\<forall>i > is_seq s. map_of (is_rows s) i = None \<and> map_of (is_vecs s) i = None)"

text \<open>The store of a row phase on base \<open>B\<close>, with the rows \<open>W\<close> written and \<open>p\<close> under way with marker \<open>m\<close>.\<close>

definition shape :: "import_store \<Rightarrow> (int \<times> prepared) list \<Rightarrow> string \<Rightarrow> prepared \<Rightarrow> current \<Rightarrow> import_store \<Rightarrow> bool" where
  "shape B W m p c s \<longleftrightarrow>
     store_wf s \<and> is_seq B \<le> is_seq s \<and> (\<forall>i \<le> is_seq B. same_row s B i) \<and>
     (\<forall>i q. (i, q) \<in> set W \<longrightarrow> is_seq B < i \<and> complete_row s i q) \<and>
     (\<forall>i > is_seq B. i \<notin> fst ` set W \<union> cur_ids c \<longrightarrow> map_of (is_rows s) i = None) \<and>
     (\<forall>x \<in> cur_ids c. is_seq B < x \<and> x \<notin> fst ` set W) \<and>
     (case c of NoRow \<Rightarrow> True
      | Half x \<Rightarrow> map_of (is_rows s) x = Some (marked m (pr_row p)) \<and> map_of (is_vecs s) x \<in> {None, Some (pr_vec p)}
      | Full x \<Rightarrow> complete_row s x p)"

definition clean :: "prepared \<Rightarrow> bool" where
  "clean p \<longleftrightarrow> \<not> row_pending (pr_row p)"

definition fresh_marker :: "import_store \<Rightarrow> string \<Rightarrow> bool" where
  "fresh_marker B m \<longleftrightarrow> (\<forall>i r. map_of (is_rows B) i = Some r \<longrightarrow> marker_of r \<noteq> Some m)"

lemma marker_marked [simp]: "marker_of (marked m r) = Some m" "row_pending (marked m r)"
  by (simp_all add: marker_of_def marked_def row_pending_def)

lemma clean_no_marker: "\<not> row_pending r \<Longrightarrow> marker_of r = None"
  by (auto simp: marker_of_def row_pending_def split: option.splits)

lemma unmark [simp]: "marked m r\<lparr>ir_meta := ir_meta r\<rparr> = r"
  by (simp add: marked_def)

lemma shape_lease [simp]: "shape B W m p c (s\<lparr>is_lease := l\<rparr>) = shape B W m p c s"
  by (cases c) (simp_all add: shape_def store_wf_def same_row_def complete_row_def)

lemma find_marked_iff:
  assumes "dict_wf (is_rows s)"
  shows "find_marked m s = None \<longleftrightarrow> (\<forall>i r. map_of (is_rows s) i = Some r \<longrightarrow> marker_of r \<noteq> Some m)"
    and "find_marked m s = Some i \<Longrightarrow> \<exists>r. map_of (is_rows s) i = Some r \<and> marker_of r = Some m"
proof -
  let ?l = "map fst (filter (\<lambda>(i, r). marker_of r = Some m) (is_rows s))"
  have set_l: "set ?l = {i. \<exists>r. map_of (is_rows s) i = Some r \<and> marker_of r = Some m}"
    using assms by (force simp: image_iff dest: map_of_SomeD)
  have set_sort: "set (sort ?l) = set ?l" by simp
  show "find_marked m s = None \<longleftrightarrow> (\<forall>i r. map_of (is_rows s) i = Some r \<longrightarrow> marker_of r \<noteq> Some m)"
  proof (cases "sort ?l")
    case Nil
    then have "set ?l = {}" using set_sort by simp
    with Nil set_l show ?thesis unfolding find_marked_def by auto
  next
    case (Cons x xs)
    then have "x \<in> set ?l" using set_sort by auto
    with Cons set_l show ?thesis unfolding find_marked_def by auto
  qed
  assume "find_marked m s = Some i"
  then obtain xs where "sort ?l = i # xs" unfolding find_marked_def by (cases "sort ?l") simp_all
  then have "i \<in> set (sort ?l)" by simp
  with set_sort set_l show "\<exists>r. map_of (is_rows s) i = Some r \<and> marker_of r = Some m" by blast
qed

lemma shape_marker:
  assumes "shape B W m p c s" and "clean p" and "\<forall>q \<in> snd ` set W. clean q" and "fresh_marker B m"
    and "map_of (is_rows s) i = Some r" and "marker_of r = Some m"
  shows "c = Half i"
proof -
  have "is_seq B < i"
  proof (rule ccontr)
    assume "\<not> is_seq B < i"
    then have "map_of (is_rows B) i = Some r" using assms(1,5) by (simp add: shape_def same_row_def)
    with assms(4,6) show False by (auto simp: fresh_marker_def)
  qed
  moreover have "i \<notin> fst ` set W"
  proof
    assume "i \<in> fst ` set W"
    then obtain q where q: "(i, q) \<in> set W" by auto
    then have "complete_row s i q" using assms(1) by (auto simp: shape_def)
    then have "r = pr_row q" using assms(5) by (simp add: complete_row_def)
    moreover have "clean q" using assms(3) q by force
    ultimately show False using assms(6) by (simp add: clean_def clean_no_marker)
  qed
  ultimately have "i \<in> cur_ids c" using assms(1,5) by (auto simp: shape_def)
  then show ?thesis using assms(1,2,5,6)
    by (auto simp: shape_def cur_ids_def complete_row_def clean_def clean_no_marker split: current.splits)
qed

lemma shape_find:
  assumes "shape B W m p c s" and "clean p" and "\<forall>q \<in> snd ` set W. clean q" and "fresh_marker B m"
  shows "find_marked m s = (case c of Half x \<Rightarrow> Some x | _ \<Rightarrow> None)"
proof -
  have wf: "dict_wf (is_rows s)" using assms(1) by (simp add: shape_def store_wf_def)
  show ?thesis
  proof (cases "find_marked m s")
    case None
    then have none: "map_of (is_rows s) x = Some r \<Longrightarrow> marker_of r \<noteq> Some m" for x r using find_marked_iff(1) [OF wf] by blast
    have "c \<noteq> Half x" for x
    proof
      assume "c = Half x"
      then have "map_of (is_rows s) x = Some (marked m (pr_row p))" using assms(1) by (simp add: shape_def)
      from none [OF this] show False by simp
    qed
    then show ?thesis using None by (cases c) auto
  next
    case (Some i)
    from find_marked_iff(2) [OF wf this] shape_marker [OF assms] have "c = Half i" by blast
    with Some show ?thesis by simp
  qed
qed

declare map_of_eq_Some_iff [simp del]

lemma in_fst: "(x, q) \<in> set W \<Longrightarrow> x \<in> fst ` set W"
  by force

lemma shape_used: "shape B W m p c s \<Longrightarrow> map_of (is_rows s) i \<noteq> None \<Longrightarrow> i \<le> is_seq s"
  by (rule ccontr) (simp add: shape_def store_wf_def)

lemma shape_insert:
  assumes "shape B W m p NoRow s"
  shows "shape B W m p (Half (is_seq s + 1)) (snd (insert_row (marked m (pr_row p)) s))"
proof -
  let ?x = "is_seq s + 1"
  have new: "map_of (is_rows s) ?x = None" "map_of (is_vecs s) ?x = None" "is_seq B < ?x"
    using assms by (simp_all add: shape_def store_wf_def)
  have "?x \<notin> fst ` set W" using assms new(1) by (fastforce simp: shape_def complete_row_def)
  then show ?thesis using assms new
    by (auto simp: shape_def store_wf_def same_row_def complete_row_def cur_ids_def insert_row_def distinct_update dest: in_fst)
qed

lemma shape_vec:
  assumes "shape B W m p c s" and "c = Half i \<or> c = Full i"
  shows "shape B W m p c (snd (upsert_vec i (pr_vec p) s))"
    and "map_of (is_vecs (snd (upsert_vec i (pr_vec p) s))) i = Some (pr_vec p)"
proof -
  have i: "is_seq B < i" "i \<notin> fst ` set W" "map_of (is_rows s) i \<noteq> None"
    using assms by (auto simp: shape_def cur_ids_def complete_row_def)
  have "i \<le> is_seq s" by (rule shape_used [OF assms(1) i(3)])
  then show "shape B W m p c (snd (upsert_vec i (pr_vec p) s))" using assms i
    by (auto simp: shape_def store_wf_def same_row_def complete_row_def cur_ids_def upsert_vec_def dest: in_fst)
  show "map_of (is_vecs (snd (upsert_vec i (pr_vec p) s))) i = Some (pr_vec p)" using i(3) by (auto simp: upsert_vec_def)
qed

lemma shape_strip:
  assumes "shape B W m p c s" and "c = Half i \<or> c = Full i" and "map_of (is_vecs s) i = Some (pr_vec p)" and "clean p"
  shows "shape B W m p (Full i) (strip_marker i m (ir_meta (pr_row p)) s)"
  using assms(2)
proof
  assume c: "c = Half i"
  have i: "is_seq B < i" "i \<notin> fst ` set W" "map_of (is_rows s) i = Some (marked m (pr_row p))"
    using assms(1) c by (simp_all add: shape_def cur_ids_def)
  have "i \<le> is_seq s" using shape_used [OF assms(1)] i(3) by simp
  then show ?thesis using assms(1,3) c i
    by (auto simp: shape_def store_wf_def same_row_def complete_row_def cur_ids_def strip_marker_def distinct_update dest: in_fst)
next
  assume c: "c = Full i"
  then have "map_of (is_rows s) i = Some (pr_row p)" using assms(1) by (simp add: shape_def complete_row_def)
  then show ?thesis using assms(1,4) c by (simp add: strip_marker_def clean_def clean_no_marker)
qed

lemma shape_delete:
  assumes "shape B W m p (Half i) s"
  shows "shape B W m p NoRow (delete_marked i m s)"
proof -
  have i: "is_seq B < i" "i \<notin> fst ` set W" "map_of (is_rows s) i = Some (marked m (pr_row p))"
    using assms by (simp_all add: shape_def cur_ids_def)
  then show ?thesis using assms
    by (auto simp: shape_def store_wf_def same_row_def complete_row_def cur_ids_def delete_marked_def delete_memory_row_def
        distinct_delete dest: in_fst)
qed

lemma shape_pop:
  assumes "shape B W m p c s" and "is_seq B < i" and "i \<notin> fst ` set W" and "map_of (is_rows s) i = None"
  shows "shape B W m p c (s\<lparr>is_refs := dict_pop i (is_refs s)\<rparr>)" "shape B W m p c (s\<lparr>is_vecs := dict_pop i (is_vecs s)\<rparr>)"
  using assms by (cases c; fastforce simp: shape_def store_wf_def same_row_def complete_row_def cur_ids_def)+

lemma shape_next: "shape B W m p (Full i) s \<Longrightarrow> shape B (W @ [(i, p)]) m' p' NoRow s"
  by (auto simp: shape_def cur_ids_def)

section \<open>What a row's attempts keep\<close>

text \<open>Between attempts; and the stages of one attempt on row \<open>i\<close>.\<close>

definition between :: "import_store \<Rightarrow> (int \<times> prepared) list \<Rightarrow> string \<Rightarrow> prepared \<Rightarrow> bool \<Rightarrow> import_world \<Rightarrow> bool" where
  "between B W m p str w \<longleftrightarrow>
     (\<exists>c. shape B W m p c (iw_store w) \<and>
       (case c of NoRow \<Rightarrow> lo_mid w = None | Half x \<Rightarrow> lo_mid w \<in> {None, Some x} | Full x \<Rightarrow> lo_mid w = Some x) \<and>
       (lo_stripped w \<longrightarrow> str \<and> (\<exists>x. c = Full x)))"

definition at_row :: "import_store \<Rightarrow> (int \<times> prepared) list \<Rightarrow> string \<Rightarrow> prepared \<Rightarrow> bool \<Rightarrow> int \<Rightarrow> import_world \<Rightarrow> bool" where
  "at_row B W m p vec i w \<longleftrightarrow> lo_mid w = Some i \<and> \<not> lo_stripped w \<and>
     (\<exists>c. (c = Half i \<or> c = Full i) \<and> shape B W m p c (iw_store w)) \<and>
     (vec \<longrightarrow> map_of (is_vecs (iw_store w)) i = Some (pr_vec p))"

definition row_full :: "import_store \<Rightarrow> (int \<times> prepared) list \<Rightarrow> string \<Rightarrow> prepared \<Rightarrow> bool \<Rightarrow> int \<Rightarrow> import_world \<Rightarrow> bool" where
  "row_full B W m p str i w \<longleftrightarrow> lo_mid w = Some i \<and> (lo_stripped w \<longrightarrow> str) \<and> shape B W m p (Full i) (iw_store w)"

definition no_mid :: "import_store \<Rightarrow> (int \<times> prepared) list \<Rightarrow> string \<Rightarrow> prepared \<Rightarrow> bool \<Rightarrow> import_world \<Rightarrow> bool" where
  "no_mid B W m p found w \<longleftrightarrow> lo_mid w = None \<and> \<not> lo_stripped w \<and>
     (if found then \<exists>c. c \<in> {NoRow} \<union> range Half \<and> shape B W m p c (iw_store w) else shape B W m p NoRow (iw_store w))"

lemma stages_lease_free:
  "lease_free (between B W m p str)" "lease_free (at_row B W m p vec i)" "lease_free (row_full B W m p str i)"
  "lease_free (no_mid B W m p found)"
  by (auto simp: lease_free_def between_def at_row_def row_full_def no_mid_def split: current.splits)

lemma at_row_between: "at_row B W m p vec i w \<Longrightarrow> between B W m p False w"
proof -
  assume a: "at_row B W m p vec i w"
  then obtain c where "c = Half i \<or> c = Full i" "shape B W m p c (iw_store w)" by (auto simp: at_row_def)
  with a show ?thesis by (auto simp: at_row_def between_def intro!: exI [of _ c])
qed

lemma row_full_between: "row_full B W m p str i w \<Longrightarrow> between B W m p str w"
  by (auto simp: row_full_def between_def intro!: exI [of _ "Full i"])

lemma no_mid_between: "no_mid B W m p found w \<Longrightarrow> between B W m p False w"
  by (fastforce simp: no_mid_def between_def split: if_splits)

lemma between_mono: "between B W m p False w \<Longrightarrow> between B W m p True w"
  by (auto simp: between_def)


section \<open>One attempt\<close>

lemma stage_io: "lease_free P \<Longrightarrow> P w \<Longrightarrow> P (w\<lparr>iw_io := io\<rparr>)"
  by (rule lease_freeD)

text \<open>A statement from stage \<open>P\<close> of the row, between rows otherwise.\<close>

lemma stage_stmt:
  assumes "lease_free P" and "\<And>w. P w \<Longrightarrow> between B W m p False w"
    and "\<And>w. P w \<Longrightarrow> between B W m p False (w\<lparr>iw_store := snd (f (iw_store w))\<rparr>)"
    and "\<And>w x. P w \<Longrightarrow> fst (f (iw_store w)) = Some x \<Longrightarrow> Q x (w\<lparr>iw_store := snd (f (iw_store w))\<rparr>)"
  shows "holds (\<lambda>w. P w \<and> quiet w) (im_stmt f) (\<lambda>x w. Q x w \<and> quiet w) (\<lambda>w. between B W m p False w \<and> quiet w) L"
  by (rule holds_stmt) (use assms lease_freeD [OF assms(1)] in \<open>auto simp: quiet_def\<close>)

abbreviation row_triple :: "import_store \<Rightarrow> (int \<times> prepared) list \<Rightarrow> string \<Rightarrow> prepared \<Rightarrow> (import_world \<Rightarrow> bool) \<Rightarrow>
    'a import_m \<Rightarrow> ('a \<Rightarrow> import_world \<Rightarrow> bool) \<Rightarrow> bool" where
  "row_triple B W m p P f Q \<equiv>
     holds (\<lambda>w. P w \<and> quiet w) f (\<lambda>x w. Q x w \<and> quiet w) (\<lambda>w. between B W m p False w \<and> quiet w)
       (\<lambda>w. between B W m p True w \<and> quiet w)"

lemma row_fence:
  assumes "lease_free P" and "\<And>w. P w \<Longrightarrow> between B W m p True w"
  shows "row_triple B W m p P lease_fence (\<lambda>_. P)"
  by (rule holds_post [OF fence_kept [OF assms(1)]]) (use assms(2) in auto)

lemma row_put: "(\<And>w. P w \<Longrightarrow> Q (f w)) \<Longrightarrow> (\<And>w. quiet w \<Longrightarrow> quiet (f w)) \<Longrightarrow> row_triple B W m p P (im_put f) (\<lambda>_. Q)"
  by (rule holds_put) simp

lemma row_bind: "row_triple B W m p P f Q \<Longrightarrow> (\<And>x. row_triple B W m p (Q x) (k x) Q') \<Longrightarrow>
    row_triple B W m p P (im_bind f k) Q'"
  by (rule holds_bind)

lemma row_val: "(\<And>w. P w \<Longrightarrow> Q x w) \<Longrightarrow> row_triple B W m p P (im_val x) Q"
  by (rule holds_val) simp

lemma row_find:
  assumes clean: "clean p" "\<forall>q \<in> snd ` set W. clean q" "fresh_marker B m"
  shows "row_triple B W m p (no_mid B W m p True) (im_query (find_marked m))
    (\<lambda>found w. lo_mid w = None \<and> \<not> lo_stripped w \<and>
       shape B W m p (case found of None \<Rightarrow> NoRow | Some i \<Rightarrow> Half i) (iw_store w))"
  unfolding im_query_def
proof (rule stage_stmt)
  fix w x
  assume w: "no_mid B W m p True w" and x: "fst (Some (find_marked m (iw_store w)), iw_store w) = Some x"
  then obtain c where c: "c \<in> {NoRow} \<union> range Half" "shape B W m p c (iw_store w)" "lo_mid w = None" "\<not> lo_stripped w"
    by (auto simp: no_mid_def)
  then show "lo_mid (w\<lparr>iw_store := snd (Some (find_marked m (iw_store w)), iw_store w)\<rparr>) = None \<and>
      \<not> lo_stripped (w\<lparr>iw_store := snd (Some (find_marked m (iw_store w)), iw_store w)\<rparr>) \<and>
      shape B W m p (case x of None \<Rightarrow> NoRow | Some i \<Rightarrow> Half i) (iw_store (w\<lparr>iw_store := snd (Some (find_marked m (iw_store w)), iw_store w)\<rparr>))"
    using x shape_find [OF c(2) clean] by auto
qed (auto simp: stages_lease_free intro: no_mid_between)

lemma row_insert:
  "row_triple B W m p (no_mid B W m p False) (im_stmt (insert_row (marked m (pr_row p))))
    (\<lambda>i w. lo_mid w = None \<and> \<not> lo_stripped w \<and> shape B W m p (Half i) (iw_store w))"
proof (rule stage_stmt)
  fix w assume w: "no_mid B W m p False w"
  then have s: "shape B W m p (Half (is_seq (iw_store w) + 1)) (snd (insert_row (marked m (pr_row p)) (iw_store w)))"
    by (intro shape_insert) (simp add: no_mid_def)
  with w show "between B W m p False (w\<lparr>iw_store := snd (insert_row (marked m (pr_row p)) (iw_store w))\<rparr>)"
    by (auto simp: between_def no_mid_def intro!: exI [of _ "Half (is_seq (iw_store w) + 1)"])
  fix i assume "fst (insert_row (marked m (pr_row p)) (iw_store w)) = Some i"
  then have "i = is_seq (iw_store w) + 1" by (simp add: insert_row_def)
  with w s show "lo_mid (w\<lparr>iw_store := snd (insert_row (marked m (pr_row p)) (iw_store w))\<rparr>) = None \<and>
      \<not> lo_stripped (w\<lparr>iw_store := snd (insert_row (marked m (pr_row p)) (iw_store w))\<rparr>) \<and>
      shape B W m p (Half i) (iw_store (w\<lparr>iw_store := snd (insert_row (marked m (pr_row p)) (iw_store w))\<rparr>))"
    by (simp add: no_mid_def)
qed (auto simp: stages_lease_free intro: no_mid_between)


lemma between_no_mid:
  assumes "between B W m p False w" and "lo_mid w = None" shows "no_mid B W m p True w"
proof -
  obtain c where c: "shape B W m p c (iw_store w)" "\<not> lo_stripped w"
    "case c of NoRow \<Rightarrow> lo_mid w = None | Half x \<Rightarrow> lo_mid w \<in> {None, Some x} | Full x \<Rightarrow> lo_mid w = Some x"
    using assms(1) by (auto simp: between_def)
  then have "c \<in> {NoRow} \<union> range Half" using assms(2) by (cases c) auto
  with c assms(2) show ?thesis by (auto simp: no_mid_def)
qed

lemma between_at_row:
  assumes "between B W m p False w" and "lo_mid w = Some i" shows "at_row B W m p False i w"
proof -
  obtain c where c: "shape B W m p c (iw_store w)" "\<not> lo_stripped w"
    "case c of NoRow \<Rightarrow> lo_mid w = None | Half x \<Rightarrow> lo_mid w \<in> {None, Some x} | Full x \<Rightarrow> lo_mid w = Some x"
    using assms(1) by (auto simp: between_def)
  then have "c = Half i \<or> c = Full i" using assms(2) by (cases c) auto
  with c assms(2) show ?thesis by (auto simp: at_row_def)
qed

lemma row_full_row: "row_full B W m p str i w \<Longrightarrow> map_of (is_rows (iw_store w)) i = Some (pr_row p)"
  by (simp add: row_full_def shape_def complete_row_def)

lemma row_find_or_insert:
  assumes "clean p" "\<forall>q \<in> snd ` set W. clean q" "fresh_marker B m"
  shows "row_triple B W m p (between B W m p False) (find_or_insert m p) (at_row B W m p False)"
  unfolding find_or_insert_def
proof (rule row_bind)
  show "row_triple B W m p (between B W m p False) (im_get lo_mid) (\<lambda>mid w. between B W m p False w \<and> lo_mid w = mid)"
    by (rule holds_get) simp
  fix mid
  let ?rest = "im_bind (im_query (find_marked m)) (\<lambda>found. im_bind (set_mid found) (\<lambda>_. case found of Some i \<Rightarrow> im_val i
     | None \<Rightarrow> im_bind lease_fence (\<lambda>_. im_bind (im_stmt (insert_row (marked m (pr_row p))))
         (\<lambda>i. im_bind (set_mid (Some i)) (\<lambda>_. im_val i)))))"
  have set_at: "row_triple B W m p (\<lambda>w. lo_mid w = None \<and> \<not> lo_stripped w \<and> shape B W m p (Half i) (iw_store w))
      (im_bind (set_mid (Some i)) (\<lambda>_. im_val i)) (at_row B W m p False)" for i
    unfolding set_mid_def
    by (rule row_bind [OF row_put [where Q = "at_row B W m p False i"] row_val])
      (auto simp: at_row_def quiet_def)
  have new: "row_triple B W m p (no_mid B W m p False) (im_bind lease_fence (\<lambda>_. im_bind (im_stmt (insert_row (marked m (pr_row p))))
      (\<lambda>i. im_bind (set_mid (Some i)) (\<lambda>_. im_val i)))) (at_row B W m p False)"
    by (rule row_bind [OF row_fence row_bind [OF row_insert set_at]])
      (auto simp: stages_lease_free intro: between_mono no_mid_between)
  have "row_triple B W m p (\<lambda>w. lo_mid w = None \<and> \<not> lo_stripped w \<and> shape B W m p (case found of None \<Rightarrow> NoRow | Some i \<Rightarrow> Half i) (iw_store w))
      (im_bind (set_mid found) (\<lambda>_. case found of Some i \<Rightarrow> im_val i | None \<Rightarrow> im_bind lease_fence (\<lambda>_.
         im_bind (im_stmt (insert_row (marked m (pr_row p)))) (\<lambda>i. im_bind (set_mid (Some i)) (\<lambda>_. im_val i)))))
      (at_row B W m p False)" for found
  proof (cases found)
    case None
    have "row_triple B W m p (\<lambda>w. lo_mid w = None \<and> \<not> lo_stripped w \<and> shape B W m p NoRow (iw_store w)) (set_mid None)
        (\<lambda>_. no_mid B W m p False)"
      unfolding set_mid_def by (rule row_put) (auto simp: no_mid_def quiet_def)
    from row_bind [OF this new] None show ?thesis by simp
  next
    case (Some i)
    then show ?thesis using set_at [of i] by simp
  qed
  from row_bind [OF row_find [OF assms] this] have rest: "row_triple B W m p (no_mid B W m p True) ?rest (at_row B W m p False)" .
  show "row_triple B W m p (\<lambda>w. between B W m p False w \<and> lo_mid w = mid) (case mid of None \<Rightarrow> ?rest | Some i \<Rightarrow> im_val i) (at_row B W m p False)"
  proof (cases mid)
    case None
    have "holds (\<lambda>w. (between B W m p False w \<and> lo_mid w = None) \<and> quiet w) ?rest (\<lambda>x w. at_row B W m p False x w \<and> quiet w)
       (\<lambda>w. between B W m p False w \<and> quiet w) (\<lambda>w. between B W m p True w \<and> quiet w)"
      by (rule holds_pre [OF rest]) (simp add: between_no_mid)
    with None show ?thesis by simp
  next
    case (Some i)
    have "row_triple B W m p (\<lambda>w. between B W m p False w \<and> lo_mid w = Some i) (im_val i) (at_row B W m p False)"
      by (rule row_val) (simp add: between_at_row)
    with Some show ?thesis by simp
  qed
qed

lemma row_vec: "row_triple B W m p (at_row B W m p False i) (im_stmt (upsert_vec i (pr_vec p))) (\<lambda>_. at_row B W m p True i)"
proof (rule stage_stmt)
  fix w assume w: "at_row B W m p False i w"
  then obtain c where c: "c = Half i \<or> c = Full i" "shape B W m p c (iw_store w)" by (auto simp: at_row_def)
  from w c shape_vec [OF c(2,1)] have a: "at_row B W m p True i (w\<lparr>iw_store := snd (upsert_vec i (pr_vec p) (iw_store w))\<rparr>)"
    by (auto simp: at_row_def)
  show "between B W m p False (w\<lparr>iw_store := snd (upsert_vec i (pr_vec p) (iw_store w))\<rparr>)" by (rule at_row_between [OF a])
  fix x :: unit
  show "at_row B W m p True i (w\<lparr>iw_store := snd (upsert_vec i (pr_vec p) (iw_store w))\<rparr>)" by (rule a)
qed (auto simp: stages_lease_free intro: at_row_between)

lemma row_strip:
  assumes "clean p"
  shows "row_triple B W m p (at_row B W m p True i) (im_update (strip_marker i m (ir_meta (pr_row p)))) (\<lambda>_. row_full B W m p False i)"
  unfolding im_update_def
proof (rule stage_stmt)
  fix w assume w: "at_row B W m p True i w"
  then obtain c where c: "c = Half i \<or> c = Full i" "shape B W m p c (iw_store w)" by (auto simp: at_row_def)
  from w shape_strip [OF c(2,1) _ assms] have f: "row_full B W m p False i (w\<lparr>iw_store := strip_marker i m (ir_meta (pr_row p)) (iw_store w)\<rparr>)"
    by (auto simp: at_row_def row_full_def)
  then show "between B W m p False (w\<lparr>iw_store := snd (Some (), strip_marker i m (ir_meta (pr_row p)) (iw_store w))\<rparr>)"
    using row_full_between [OF f] by simp
  fix x :: unit
  show "row_full B W m p False i (w\<lparr>iw_store := snd (Some (), strip_marker i m (ir_meta (pr_row p)) (iw_store w))\<rparr>)" using f by simp
qed (auto simp: stages_lease_free intro: at_row_between)

lemma row_check:
  assumes "clean p"
  shows "row_triple B W m p (row_full B W m p False i)
    (im_bind (im_query (\<lambda>s. map_of (is_rows s) i)) (\<lambda>check. case check of
         None \<Rightarrow> im_bind (set_mid None) (\<lambda>_. im_raise)
       | Some r \<Rightarrow> if row_pending r then im_raise
           else im_bind (im_put (\<lambda>w. w\<lparr>lo_stripped := True\<rparr>)) (\<lambda>_. im_bind lease_fence (\<lambda>_. im_val i))))
    (\<lambda>x w. row_full B W m p True i w \<and> x = i)"
proof (rule row_bind)
  show "row_triple B W m p (row_full B W m p False i) (im_query (\<lambda>s. map_of (is_rows s) i))
      (\<lambda>check w. row_full B W m p False i w \<and> check = Some (pr_row p))"
    unfolding im_query_def
    by (rule stage_stmt) (auto simp: stages_lease_free row_full_row intro: row_full_between)
  fix check
  have "row_triple B W m p (row_full B W m p False i)
      (im_bind (im_put (\<lambda>w. w\<lparr>lo_stripped := True\<rparr>)) (\<lambda>_. im_bind lease_fence (\<lambda>_. im_val i)))
      (\<lambda>x w. row_full B W m p True i w \<and> x = i)"
    by (rule row_bind [OF row_put [where Q = "row_full B W m p True i"] row_bind [OF row_fence row_val]])
      (simp_all add: quiet_def stages_lease_free row_full_between, simp add: row_full_def)
  then show "row_triple B W m p (\<lambda>w. row_full B W m p False i w \<and> check = Some (pr_row p))
      (case check of None \<Rightarrow> im_bind (set_mid None) (\<lambda>_. im_raise)
       | Some r \<Rightarrow> if row_pending r then im_raise
           else im_bind (im_put (\<lambda>w. w\<lparr>lo_stripped := True\<rparr>)) (\<lambda>_. im_bind lease_fence (\<lambda>_. im_val i)))
      (\<lambda>x w. row_full B W m p True i w \<and> x = i)"
    using assms by (cases "check = Some (pr_row p)") (simp_all add: clean_def holds_def)
qed

lemma row_attempt_triple:
  assumes "clean p" "\<forall>q \<in> snd ` set W. clean q" "fresh_marker B m"
  shows "row_triple B W m p (between B W m p False) (row_attempt m p) (row_full B W m p True)"
proof -
  have skip: "row_triple B W m p (at_row B W m p True i) (im_update id) (\<lambda>_. at_row B W m p True i)" for i
    unfolding im_update_def by (rule stage_stmt) (auto simp: stages_lease_free intro: at_row_between)
  have fence: "row_triple B W m p (at_row B W m p True i) lease_fence (\<lambda>_. at_row B W m p True i)" for i
    by (rule row_fence) (auto simp: stages_lease_free intro: at_row_between between_mono)
  have check: "row_triple B W m p (row_full B W m p False i)
    (im_bind (im_query (\<lambda>s. map_of (is_rows s) i)) (\<lambda>check. case check of
         None \<Rightarrow> im_bind (set_mid None) (\<lambda>_. im_raise)
       | Some r \<Rightarrow> if row_pending r then im_raise
           else im_bind (im_put (\<lambda>w. w\<lparr>lo_stripped := True\<rparr>)) (\<lambda>_. im_bind lease_fence (\<lambda>_. im_val i))))
    (row_full B W m p True)" for i
    by (rule holds_post [OF row_check [OF assms(1)]]) auto
  show ?thesis unfolding row_attempt_def
    by (rule row_bind [OF row_find_or_insert [OF assms] row_bind [OF row_vec row_bind [OF skip row_bind [OF fence
        row_bind [OF row_strip [OF assms(1)] check]]]]])
qed

lemma row_attempts_triple:
  assumes "clean p" "\<forall>q \<in> snd ` set W. clean q" "fresh_marker B m"
  shows "row_triple B W m p (between B W m p False) (row_attempts m p n) (row_full B W m p True)"
proof (induction n)
  case (Suc n)
  have "row_attempts m p (Suc n) = (\<lambda>w. case row_attempt m p w of (Raised, w') \<Rightarrow> row_attempts m p n w' | r \<Rightarrow> r)" by (rule ext) simp
  with holds_try [OF row_attempt_triple [OF assms] Suc] show ?case by (simp only:)
qed (simp add: holds_def)


section \<open>Removal\<close>

definition has_shape :: "import_store \<Rightarrow> (int \<times> prepared) list \<Rightarrow> string \<Rightarrow> prepared \<Rightarrow> import_world \<Rightarrow> bool" where
  "has_shape B W m p w \<longleftrightarrow> (\<exists>c. shape B W m p c (iw_store w))"

definition removing :: "import_store \<Rightarrow> (int \<times> prepared) list \<Rightarrow> string \<Rightarrow> prepared \<Rightarrow> int \<Rightarrow> bool \<Rightarrow> import_world \<Rightarrow> bool" where
  "removing B W m p i gone w \<longleftrightarrow>
     (shape B W m p NoRow (iw_store w) \<and> is_seq B < i \<and> i \<notin> fst ` set W \<and> map_of (is_rows (iw_store w)) i = None \<or>
      \<not> gone \<and> shape B W m p (Half i) (iw_store w))"

lemma removing_lease_free: "lease_free (has_shape B W m p)" "lease_free (removing B W m p i gone)"
  by (auto simp: lease_free_def has_shape_def removing_def)

lemma removing_has_shape: "removing B W m p i gone w \<Longrightarrow> has_shape B W m p w"
  by (auto simp: removing_def has_shape_def)

lemma removing_delete: "kept (removing B W m p i False) (im_update (delete_marked i m))"
  unfolding im_update_def
proof (rule kept_stmt)
  fix w assume w: "removing B W m p i False w"
  then show "removing B W m p i False (w\<lparr>iw_store := snd (Some (), delete_marked i m (iw_store w))\<rparr>)"
  proof (cases "shape B W m p (Half i) (iw_store w)")
    case True
    then have "shape B W m p NoRow (delete_marked i m (iw_store w))" by (rule shape_delete)
    moreover have "is_seq B < i" "i \<notin> fst ` set W" "map_of (is_rows (iw_store w)) i = Some (marked m (pr_row p))"
      using True by (simp_all add: shape_def cur_ids_def)
    ultimately show ?thesis by (auto simp: removing_def delete_marked_def delete_memory_row_def)
  next
    case False
    then have "delete_marked i m (iw_store w) = iw_store w" using w by (simp add: removing_def delete_marked_def)
    then show ?thesis using w by simp
  qed
qed (rule removing_lease_free)

lemma removing_pop:
  "kept (removing B W m p i True) (im_update (\<lambda>s. s\<lparr>is_refs := dict_pop i (is_refs s)\<rparr>))"
  "kept (removing B W m p i True) (im_update (\<lambda>s. s\<lparr>is_vecs := dict_pop i (is_vecs s)\<rparr>))"
  unfolding im_update_def
  by (rule kept_stmt, rule removing_lease_free, simp add: removing_def shape_pop)
    (rule kept_stmt, rule removing_lease_free, simp add: removing_def shape_pop)

lemma removing_query: "removing B W m p i False w \<Longrightarrow> removing B W m p i (map_of (is_rows (iw_store w)) i = None) w"
  by (cases "shape B W m p (Half i) (iw_store w)") (auto simp: removing_def shape_def)

lemma removal_triple:
  "holds (\<lambda>w. shape B W m p (Half i) (iw_store w) \<and> quiet w) (delete_marked_row i m)
     (\<lambda>_ w. has_shape B W m p w \<and> quiet w) (\<lambda>w. has_shape B W m p w \<and> quiet w) (\<lambda>w. has_shape B W m p w \<and> quiet w)"
proof -
  let ?R = "\<lambda>w. has_shape B W m p w \<and> quiet w"
  have del: "holds (\<lambda>w. shape B W m p (Half i) (iw_store w) \<and> quiet w) (im_update (delete_marked i m))
      (\<lambda>_ w. removing B W m p i False w \<and> quiet w) ?R ?R"
    by (rule holds_pre, rule holds_post [OF removing_delete]) (auto simp: removing_def has_shape_def)
  have query: "holds (\<lambda>w. removing B W m p i False w \<and> quiet w) (im_query (\<lambda>s. map_of (is_rows s) i))
      (\<lambda>row w. (removing B W m p i (row = None) w) \<and> quiet w) ?R ?R"
    unfolding im_query_def
    by (rule holds_stmt) (use lease_freeD [OF removing_lease_free(2)] in \<open>simp_all add: removing_has_shape removing_query\<close>)
  have pops: "holds (\<lambda>w. removing B W m p i True w \<and> quiet w)
      (im_bind (im_update (\<lambda>s. s\<lparr>is_refs := dict_pop i (is_refs s)\<rparr>)) (\<lambda>_. im_update (\<lambda>s. s\<lparr>is_vecs := dict_pop i (is_vecs s)\<rparr>)))
      (\<lambda>_. ?R) ?R ?R"
    by (rule holds_post [OF kept_bind [OF removing_pop]]) (auto intro: removing_has_shape)
  have rest: "holds (\<lambda>w. removing B W m p i (row = None) w \<and> quiet w)
      (if row \<noteq> None then im_val () else im_bind (im_update (\<lambda>s. s\<lparr>is_refs := dict_pop i (is_refs s)\<rparr>))
         (\<lambda>_. im_update (\<lambda>s. s\<lparr>is_vecs := dict_pop i (is_vecs s)\<rparr>))) (\<lambda>_. ?R) ?R ?R" for row
    using pops by (cases row) (auto intro!: holds_val intro: removing_has_shape)
  show ?thesis unfolding delete_marked_row_def by (rule holds_bind [OF del holds_bind [OF query rest]])
qed

lemma find_shape:
  assumes "clean p" "\<forall>q \<in> snd ` set W. clean q" "fresh_marker B m"
  shows "holds (\<lambda>w. has_shape B W m p w \<and> quiet w) (im_query (find_marked m))
    (\<lambda>found w. (case found of None \<Rightarrow> has_shape B W m p w | Some i \<Rightarrow> shape B W m p (Half i) (iw_store w)) \<and> quiet w)
    (\<lambda>w. has_shape B W m p w \<and> quiet w) (\<lambda>w. has_shape B W m p w \<and> quiet w)"
  unfolding im_query_def
  by (rule holds_stmt) (use lease_freeD [OF removing_lease_free(1)] shape_find [OF _ assms] in
      \<open>auto simp: quiet_def has_shape_def split: option.split current.splits\<close>)

lemma holdsD: "holds P m Q R L \<Longrightarrow> P w \<Longrightarrow> case m w of (Val x, w') \<Rightarrow> Q x w' | (Raised, w') \<Rightarrow> R w' | (LeaseLost, w') \<Rightarrow> L w'"
  by (simp add: holds_def)

lemma remove_marked_shape:
  assumes clean: "clean p" "\<forall>q \<in> snd ` set W. clean q" "fresh_marker B m"
    and w: "has_shape B W m p w" "quiet w"
  shows "has_shape B W m p (snd (remove_marked m w)) \<and> quiet (snd (remove_marked m w))"
proof -
  have r: "has_shape B W m p (snd (removal m w)) \<and> quiet (snd (removal m w))"
  proof (cases "im_query (find_marked m) w")
    case (Pair a v)
    have found: "case a of Val found \<Rightarrow> (case found of None \<Rightarrow> has_shape B W m p v | Some i \<Rightarrow> shape B W m p (Half i) (iw_store v)) \<and> quiet v
        | _ \<Rightarrow> has_shape B W m p v \<and> quiet v"
      using holdsD [OF find_shape [OF clean] conjI [OF w]] Pair by (cases a) simp_all
    have gone: "has_shape B W m p (snd (delete_marked_row i m v)) \<and> quiet (snd (delete_marked_row i m v))"
      if "shape B W m p (Half i) (iw_store v)" "quiet v" for i
      using holdsD [OF removal_triple conjI [OF that]] by (cases "delete_marked_row i m v") (auto split: run.splits)
    show ?thesis
    proof (cases a)
      case (Val f)
      with Pair found gone show ?thesis by (cases f) (simp_all add: removal_def)
    qed (use Pair found in \<open>simp_all add: removal_def\<close>)
  qed
  obtain b i v where v: "removal m w = ((b, i), v)" by (cases "removal m w") auto
  show ?thesis
  proof (cases "im_query (find_marked m) v")
    case (Pair a u)
    have "has_shape B W m p v \<and> quiet v" using r v by simp
    from holdsD [OF find_shape [OF clean] this] Pair have "has_shape B W m p u \<and> quiet u"
      by (cases a) (auto simp: has_shape_def split: option.splits)
    with r v Pair show ?thesis by (cases b; cases a) (auto simp: remove_marked_def split: option.splits)
  qed
qed


section \<open>The row phase\<close>

definition named :: "string \<Rightarrow> import_world \<Rightarrow> bool" where
  "named me w \<longleftrightarrow> le_id (iw_lease w) = me"

lemma named_rules: "lease_free (named me)" "kept (named me) (im_stmt f)" "kept (named me) (set_mid i)"
  "kept (named me) (im_put (\<lambda>w. w\<lparr>lo_stripped := True\<rparr>))" "kept (named me) lease_fence" "kept (named me) (im_update g)"
proof -
  show free: "lease_free (named me)" by (simp add: lease_free_def named_def)
  show stmt: "kept (named me) (im_stmt f)" for f :: "import_store \<Rightarrow> 'x option \<times> import_store"
    by (rule kept_stmt [OF free]) (simp add: named_def)
  show "kept (named me) (im_update g)" unfolding im_update_def by (rule stmt)
  show "kept (named me) lease_fence" by (rule fence_kept [OF free])
qed (auto intro!: holds_put simp: named_def quiet_def set_mid_def)

lemma named_attempt: "kept (named me) (row_attempt m p)"
  unfolding row_attempt_def find_or_insert_def
  by (rule kept_bind kept_plain kept_cases kept_query named_rules)+

lemma named_attempts: "kept (named me) (row_attempts m p n)"
proof (induction n)
  case (Suc n)
  have "row_attempts m p (Suc n) = (\<lambda>w. case row_attempt m p w of (Raised, w') \<Rightarrow> row_attempts m p n w' | r \<Rightarrow> r)" by (rule ext) simp
  with holds_try [OF named_attempt Suc] show ?case by (simp only:)
qed (simp add: holds_def)

text \<open>What the report says of the row under way.\<close>

definition reports :: "report \<Rightarrow> current \<Rightarrow> bool" where
  "reports r c \<longleftrightarrow> (\<forall>x \<in> set (rp_unconfirmed r). c = Full x) \<and> (\<forall>(x, mk) \<in> set (rp_left_marked r). c = Half x \<or> c = Full x)"

definition row_phase_result :: "import_store \<Rightarrow> prepared list \<Rightarrow> report \<Rightarrow> import_store \<Rightarrow> bool" where
  "row_phase_result B rows r s \<longleftrightarrow>
     (\<exists>W m p c. rp_written r = map fst W \<and> distinct (map fst W) \<and> shape B W m p c s \<and> reports r c \<and> length W \<le> length rows \<and>
        map snd W = take (length W) rows \<and>
        (if rp_problem r = None then length W = length rows \<and> c = NoRow
         else length W < length rows \<and> p = rows ! length W))"

lemma between_reports:
  assumes "between B W m p True w" and "lo_stripped w \<longrightarrow> b" and "b \<longrightarrow> lo_stripped w"
  shows "\<exists>c. shape B W m p c (iw_store w) \<and> reports (lost_at_row strat ids n k m b w) c"
proof -
  obtain c where c: "shape B W m p c (iw_store w)" "lo_stripped w \<longrightarrow> (\<exists>x. c = Full x)"
    "case c of NoRow \<Rightarrow> lo_mid w = None | Half x \<Rightarrow> lo_mid w \<in> {None, Some x} | Full x \<Rightarrow> lo_mid w = Some x"
    using assms(1) by (auto simp: between_def)
  then have "reports (lost_at_row strat ids n k m b w) c"
    using assms(3) by (cases c; cases b) (auto simp: lost_at_row_def reports_def stopped_def Let_def)
  with c(1) show ?thesis by blast
qed

lemma lost_report [simp]: "rp_written (lost_at_row strat ids n k m b w) = ids" "rp_problem (lost_at_row strat ids n k m b w) \<noteq> None"
  by (simp_all add: lost_at_row_def stopped_def Let_def split: option.split)

lemma write_rows_result:
  assumes "write_rows strat n k ps (map fst W) w = (r, w')" and "quiet w" and "shape B W m0 p0 NoRow (iw_store w)"
    and "distinct (map fst W)" and "map snd W @ ps = rows" and "\<forall>q \<in> set rows. clean q"
    and "\<And>t j. fresh_marker B (import_marker (le_id (iw_lease w)) t j)"
  shows "row_phase_result B rows r (iw_store w')"
  using assms
proof (induction ps arbitrary: k W w m0 p0)
  case Nil
  then have "map snd W = take (length W) rows" "length W = length rows" by auto
  with Nil show ?case
    by (auto simp: row_phase_result_def reports_def intro!: exI [of _ W] exI [of _ m0] exI [of _ p0] exI [of _ NoRow])
next
  case (Cons p ps)
  define m where "m = import_marker (le_id (iw_lease w)) (wall_clock w) k"
  define w0 where "w0 = w\<lparr>lo_mid := None, lo_stripped := False\<rparr>"
  have "set rows = snd ` set W \<union> set (p # ps)" unfolding Cons.prems(5) [symmetric] by simp
  then have clean: "clean p" "\<forall>q \<in> snd ` set W. clean q" "fresh_marker B m"
    using Cons.prems(6,7) by (simp_all add: m_def)
  have "shape B W m p NoRow (iw_store w0)" using Cons.prems(3) by (simp add: w0_def shape_def)
  then have start: "between B W m p False w0 \<and> quiet w0"
    using Cons.prems(2) by (auto simp: between_def w0_def quiet_def intro!: exI [of _ NoRow])
  have len: "length W < length rows" "rows ! length W = p" "map snd W = take (length W) rows"
    using Cons.prems(5) by (auto simp: nth_append)
  have stop: ?case if "rp_written r = map fst W" "rp_problem r \<noteq> None" "shape B W m p c (iw_store w')" "reports r c" for c
    using that len Cons.prems(4) by (auto simp: row_phase_result_def intro!: exI [of _ W] exI [of _ m] exI [of _ p] exI [of _ c])
  obtain out w1 where run: "row_attempts m p write_attempts w0 = (out, w1)" by fastforce
  note after = holdsD [OF row_attempts_triple [OF clean, of write_attempts] start, unfolded run]
  show ?case
  proof (cases out)
    case (Val i)
    with after have full: "row_full B W m p True i w1" "quiet w1" by simp_all
    have "named (le_id (iw_lease w)) w1"
      using holdsD [OF named_attempts, of "le_id (iw_lease w)" w0 m p write_attempts] run Val start
      by (simp add: named_def w0_def)
    then have me: "le_id (iw_lease w1) = le_id (iw_lease w)" by (simp add: named_def)
    have s: "shape B W m p (Full i) (iw_store w1)" using full by (simp add: row_full_def)
    then have "i \<notin> fst ` set W" by (simp add: shape_def cur_ids_def)
    then have "distinct (map fst (W @ [(i, p)]))" using Cons.prems(4) by simp
    moreover have "write_rows strat n (k + 1) ps (map fst (W @ [(i, p)])) w1 = (r, w')"
      using Cons.prems(1) run Val by (simp add: m_def w0_def Let_def)
    ultimately show ?thesis
      using Cons.IH [of "k + 1" "W @ [(i, p)]" w1] shape_next [OF s] full(2) Cons.prems(5,6,7) me by simp
  next
    case LeaseLost
    with after have "between B W m p True w1" by simp
    from between_reports [OF this, of "lo_stripped w1" strat "map fst W" n k] obtain c
      where "shape B W m p c (iw_store w1)" "reports (lost_at_row strat (map fst W) n k m (lo_stripped w1) w1) c" by auto
    moreover have "r = lost_at_row strat (map fst W) n k m (lo_stripped w1) w1" "w' = w1"
      using Cons.prems(1) run LeaseLost by (auto simp: m_def w0_def Let_def)
    ultimately show ?thesis using stop by simp
  next
    case Raised
    with after have mid: "between B W m p False w1 \<and> quiet w1" by simp
    obtain out2 w2 where fence: "lease_fence w1 = (out2, w2)" by fastforce
    have kept: "between B W m p False w2 \<and> quiet w2"
      using holdsD [OF fence_kept [OF stages_lease_free(1)] mid] fence by (cases out2) auto
    have call: "write_rows strat n k (p # ps) (map fst W) w = (case (out2, w2) of
             (Val _, w'') \<Rightarrow>
               (case remove_marked m w'' of
                  (orphan, w3) \<Rightarrow>
                    ((stopped strat (map fst W) (n - k) (RowFailed k))
                       \<lparr>rp_orphans := (case orphan of None \<Rightarrow> [] | Some i \<Rightarrow> [i])\<rparr>, w3))
           | (_, w'') \<Rightarrow> (lost_at_row strat (map fst W) n k m False w'', w''))"
      using run Raised fence unfolding m_def w0_def by (simp add: Let_def)
    show ?thesis
    proof (cases "\<exists>u. out2 = Val u")
      case True
      obtain orphan w3 where rm: "remove_marked m w2 = (orphan, w3)" by fastforce
      have "has_shape B W m p w2" using kept by (auto simp: between_def has_shape_def)
      then have "has_shape B W m p w3" using remove_marked_shape [OF clean, of w2] kept rm by simp
      then obtain c where "shape B W m p c (iw_store w3)" by (auto simp: has_shape_def)
      moreover have "w' = w3" "r = (stopped strat (map fst W) (n - k) (RowFailed k))
          \<lparr>rp_orphans := (case orphan of None \<Rightarrow> [] | Some i \<Rightarrow> [i])\<rparr>"
        using Cons.prems(1) call True rm by auto
      ultimately show ?thesis using stop by (simp add: stopped_def reports_def)
    next
      case False
      then have "r = lost_at_row strat (map fst W) n k m False w2" "w' = w2"
        using Cons.prems(1) call by (cases out2; simp)+
      moreover from between_reports [OF between_mono, of B W m p w2 False strat "map fst W" n k] kept
      obtain c where "shape B W m p c (iw_store w2)" "reports (lost_at_row strat (map fst W) n k m False w2) c"
        by (auto simp: between_def)
      ultimately show ?thesis using stop by simp
    qed
  qed
qed


section \<open>Clearing\<close>

text \<open>After \<open>j\<close> completed stages.\<close>

definition cleared :: "import_store \<Rightarrow> string \<Rightarrow> nat \<Rightarrow> import_world \<Rightarrow> bool" where
  "cleared s0 me j w \<longleftrightarrow> (let s = iw_store w in
     named me w \<and> is_seq s = is_seq s0 \<and>
     is_refs s \<in> {[]} \<union> (if j = 0 then {is_refs s0} else {}) \<and>
     is_vecs s \<in> {[]} \<union> (if j < 2 then {is_vecs s0} else {}) \<and>
     is_rows s \<in> (if j < 2 then {is_rows s0} else if j = 2 then {is_rows s0, []} else {[]}))"

lemma cleared_lease_free: "lease_free (cleared s0 me j)"
  by (simp add: lease_free_def cleared_def named_def Let_def)

lemma clear_attempts:
  assumes stage: "\<forall>w. cleared s0 me j w \<longrightarrow> cleared s0 me (Suc j) (w\<lparr>iw_store := f (iw_store w)\<rparr>) \<and> cleared s0 me j (w\<lparr>iw_store := f (iw_store w)\<rparr>)"
  shows "holds (\<lambda>w. cleared s0 me j w \<and> quiet w) (with_attempts n (im_update f)) (\<lambda>_ w. cleared s0 me (Suc j) w \<and> quiet w)
    (\<lambda>w. cleared s0 me j w \<and> quiet w) (\<lambda>w. cleared s0 me j w \<and> quiet w)"
proof (induction n)
  case (Suc n)
  have one: "holds (\<lambda>w. cleared s0 me j w \<and> quiet w) (im_update f) (\<lambda>_ w. cleared s0 me (Suc j) w \<and> quiet w)
    (\<lambda>w. cleared s0 me j w \<and> quiet w) (\<lambda>w. cleared s0 me j w \<and> quiet w)"
    unfolding im_update_def
    by (rule holds_stmt) (use stage lease_freeD [OF cleared_lease_free] in \<open>auto simp: quiet_def\<close>)
  have "with_attempts (Suc n) (im_update f) = (\<lambda>w. case im_update f w of (Raised, w') \<Rightarrow> with_attempts n (im_update f) w' | r \<Rightarrow> r)"
    by (rule ext) simp
  with holds_try [OF one Suc] show ?case by (simp only:)
qed (simp add: holds_def)

lemma clear_stage_step:
  assumes stage: "\<forall>w. cleared s0 me j w \<longrightarrow> cleared s0 me (Suc j) (w\<lparr>iw_store := f (iw_store w)\<rparr>) \<and> cleared s0 me j (w\<lparr>iw_store := f (iw_store w)\<rparr>)"
    and w: "cleared s0 me j w" "quiet w"
  shows "(\<exists>v. cleared s0 me (Suc j) v \<and> quiet v \<and> clear_store n ((st, f) # rest) w = clear_store n rest v) \<or>
    (\<exists>v e. cleared s0 me j v \<and> quiet v \<and> clear_store n ((st, f) # rest) w = (Some ((stopped Replace [] n e)\<lparr>rp_stage := Some st\<rparr>), v))"
proof -
  obtain a v where fence: "lease_fence w = (a, v)" by fastforce
  have v: "cleared s0 me j v \<and> quiet v"
    using holdsD [OF fence_kept [OF cleared_lease_free] conjI [OF w]] fence by (cases a) auto
  show ?thesis
  proof (cases a)
    case (Val u)
    obtain b x where run: "with_attempts write_attempts (im_update f) v = (b, x)" by fastforce
    from holdsD [OF clear_attempts [OF stage, where n = write_attempts] v] run show ?thesis using fence Val by (cases b) auto
  qed (use v fence in auto)
qed

lemma clear_store_result:
  assumes "clear_store n clear_stages w = (r, w')" and "quiet w"
  shows "quiet w' \<and> named (le_id (iw_lease w)) w' \<and> is_seq (iw_store w') = is_seq (iw_store w) \<and>
    is_rows (iw_store w') \<in> {is_rows (iw_store w), []} \<and> is_vecs (iw_store w') \<in> {is_vecs (iw_store w), []} \<and>
    (case r of None \<Rightarrow> is_rows (iw_store w') = [] \<and> is_vecs (iw_store w') = []
     | Some r \<Rightarrow> \<exists>st e. r = (stopped Replace [] n e)\<lparr>rp_stage := Some st\<rparr> \<and>
         (st \<noteq> ClearRows \<longrightarrow> is_rows (iw_store w') = is_rows (iw_store w)))"
proof -
  let ?P = "cleared (iw_store w) (le_id (iw_lease w))"
  let ?f2 = "\<lambda>s. s\<lparr>is_vecs := []\<rparr>" and ?f3 = "\<lambda>s. s\<lparr>is_rows := [], is_vecs := [], is_refs := []\<rparr>"
  have 0: "?P 0 w" by (simp add: cleared_def named_def)
  have out: "quiet v \<and> named (le_id (iw_lease w)) v \<and> is_seq (iw_store v) = is_seq (iw_store w) \<and>
    is_rows (iw_store v) \<in> {is_rows (iw_store w), []} \<and> is_vecs (iw_store v) \<in> {is_vecs (iw_store w), []} \<and>
    (j < 2 \<longrightarrow> is_rows (iw_store v) = is_rows (iw_store w)) \<and> (3 \<le> j \<longrightarrow> is_rows (iw_store v) = [] \<and> is_vecs (iw_store v) = [])"
    if "?P j v" "quiet v" for j v using that by (auto simp: cleared_def Let_def split: if_splits)
  have s1: "\<forall>v. ?P 0 v \<longrightarrow> ?P (Suc 0) (v\<lparr>iw_store := (iw_store v)\<lparr>is_refs := []\<rparr>\<rparr>) \<and> ?P 0 (v\<lparr>iw_store := (iw_store v)\<lparr>is_refs := []\<rparr>\<rparr>)"
    by (simp add: cleared_def named_def Let_def)
  have s2: "\<forall>v. ?P (Suc 0) v \<longrightarrow> ?P (Suc (Suc 0)) (v\<lparr>iw_store := ?f2 (iw_store v)\<rparr>) \<and> ?P (Suc 0) (v\<lparr>iw_store := ?f2 (iw_store v)\<rparr>)"
    by (simp add: cleared_def named_def Let_def)
  have s3: "\<forall>v. ?P (Suc (Suc 0)) v \<longrightarrow> ?P (Suc (Suc (Suc 0))) (v\<lparr>iw_store := ?f3 (iw_store v)\<rparr>) \<and> ?P (Suc (Suc 0)) (v\<lparr>iw_store := ?f3 (iw_store v)\<rparr>)"
    by (simp add: cleared_def named_def Let_def)
  note run = assms(1) [unfolded clear_stages_def]
  from clear_stage_step [where f = "\<lambda>s. s\<lparr>is_refs := []\<rparr>" and j = 0, OF s1 0 assms(2), of n ClearRefs "[(ClearVecs, ?f2), (ClearRows, ?f3)]"] show ?thesis
  proof (elim disjE exE conjE)
    fix v e assume a: "?P 0 v" "quiet v" and eq: "clear_store n [(ClearRefs, \<lambda>s. s\<lparr>is_refs := []\<rparr>), (ClearVecs, ?f2), (ClearRows, ?f3)] w =
        (Some ((stopped Replace [] n e)\<lparr>rp_stage := Some ClearRefs\<rparr>), v)"
    from run have "r = Some ((stopped Replace [] n e)\<lparr>rp_stage := Some ClearRefs\<rparr>)" "w' = v" by (simp_all only: eq prod.inject)
    with out [OF a] show ?thesis by auto
  next
    fix v assume v: "?P (Suc 0) v" "quiet v" and c1: "clear_store n [(ClearRefs, \<lambda>s. s\<lparr>is_refs := []\<rparr>), (ClearVecs, ?f2), (ClearRows, ?f3)] w =
        clear_store n [(ClearVecs, ?f2), (ClearRows, ?f3)] v"
    from clear_stage_step [where f = ?f2 and j = "Suc 0", OF s2 v, of n ClearVecs "[(ClearRows, ?f3)]"] show ?thesis
    proof (elim disjE exE conjE)
      fix u e assume a: "?P (Suc 0) u" "quiet u" and eq: "clear_store n [(ClearVecs, ?f2), (ClearRows, ?f3)] v =
          (Some ((stopped Replace [] n e)\<lparr>rp_stage := Some ClearVecs\<rparr>), u)"
      from run have "r = Some ((stopped Replace [] n e)\<lparr>rp_stage := Some ClearVecs\<rparr>)" "w' = u" by (simp_all only: c1 eq prod.inject)
      with out [OF a] show ?thesis by auto
    next
      fix u assume u: "?P (Suc (Suc 0)) u" "quiet u" and c2: "clear_store n [(ClearVecs, ?f2), (ClearRows, ?f3)] v =
          clear_store n [(ClearRows, ?f3)] u"
      from clear_stage_step [where f = ?f3 and j = "Suc (Suc 0)", OF s3 u, of n ClearRows "[]"] show ?thesis
      proof (elim disjE exE conjE)
        fix x e assume a: "?P (Suc (Suc 0)) x" "quiet x" and eq: "clear_store n [(ClearRows, ?f3)] u =
            (Some ((stopped Replace [] n e)\<lparr>rp_stage := Some ClearRows\<rparr>), x)"
        from run have "r = Some ((stopped Replace [] n e)\<lparr>rp_stage := Some ClearRows\<rparr>)" "w' = x" by (simp_all only: c1 c2 eq prod.inject)
        with out [OF a] show ?thesis by auto
      next
        fix x assume a: "?P (Suc (Suc (Suc 0))) x" "quiet x" and eq: "clear_store n [(ClearRows, ?f3)] u = clear_store n [] x"
        from run have "r = None" "w' = x" by (simp_all only: c1 c2 eq clear_store.simps(1) prod.inject)
        with out [OF a] show ?thesis by auto
      qed
    qed
  qed
qed


lemma write_rows_stage: "write_rows strat n k ps ids w = (r, w') \<Longrightarrow> rp_stage r = None"
proof (induction ps arbitrary: k ids w)
  case (Cons p ps)
  then show ?case
    by (auto simp: Let_def lost_at_row_def stopped_def split: prod.splits run.splits option.splits)
qed auto

section \<open>Properties\<close>

text \<open>C5: what a D1 import leaves, whatever statements fail or lose their replies and whatever the lease does, as
  long as no other client changes memories: without replace every earlier memory is untouched; the ids it
  reports as written are exactly the first prepared rows, each complete and with its vector; beside them
  it adds at most one row, the next one, which carries its marker (and is hidden) or is complete with its vector, so no
  visible row lacks its vector; without an error all rows are written, nothing else is added, and a replace has
  removed every earlier memory; and a replace that stops before its last stage has removed none.\<close>

theorem d1_import_accounting:
  fixes strat rows w
  defines "s0 \<equiv> iw_store w" and "r \<equiv> fst (import_write_d1 strat rows w)" and "s \<equiv> iw_store (snd (import_write_d1 strat rows w))"
  assumes "quiet w" and "store_wf s0" and "\<forall>p \<in> set rows. \<not> row_pending (pr_row p)"
    and "\<forall>t k. fresh_marker s0 (import_marker (le_id (iw_lease w)) t k)"
  shows "(strat \<noteq> Replace \<longrightarrow> (\<forall>i \<le> is_seq s0. map_of (is_rows s) i = map_of (is_rows s0) i \<and>
        map_of (is_vecs s) i = map_of (is_vecs s0) i \<and> map_of (is_refs s) i = map_of (is_refs s0) i)) \<and>
    distinct (rp_written r) \<and> length (rp_written r) \<le> length rows \<and>
    (\<forall>k < length (rp_written r). is_seq s0 < rp_written r ! k \<and>
       map_of (is_rows s) (rp_written r ! k) = Some (pr_row (rows ! k)) \<and>
       map_of (is_vecs s) (rp_written r ! k) = Some (pr_vec (rows ! k))) \<and>
    (\<exists>x. \<forall>i > is_seq s0. i \<notin> set (rp_written r) \<and> map_of (is_rows s) i \<noteq> None \<longrightarrow>
       i = x \<and> rp_problem r \<noteq> None \<and> length (rp_written r) < length rows \<and>
       (let p = rows ! length (rp_written r) in
          (\<exists>m. map_of (is_rows s) i = Some (marked m (pr_row p))) \<or>
          map_of (is_rows s) i = Some (pr_row p) \<and> map_of (is_vecs s) i = Some (pr_vec p))) \<and>
    (rp_problem r = None \<longrightarrow> length (rp_written r) = length rows \<and>
       (strat = Replace \<longrightarrow> (\<forall>i \<le> is_seq s0. map_of (is_rows s) i = None))) \<and>
    (rp_stage r \<in> {Some ClearRefs, Some ClearVecs} \<longrightarrow> is_rows s = is_rows s0)"
proof -
  obtain r0 w' where run0: "import_write_d1 strat rows w = (r0, w')" by fastforce
  then have rs: "r = r0" "s = iw_store w'" by (simp_all add: r_def s_def)
  show ?thesis
  proof (cases "strat = Replace \<and> rp_stage r \<noteq> None")
    case True
    then obtain c v where c: "clear_store (length rows) clear_stages w = (c, v)" by fastforce
    have "c \<noteq> None"
    proof
      assume "c = None"
      then have "write_rows strat (length rows) 0 rows [] v = (r0, w')" using run0 True c by (simp add: import_write_d1_def)
      then have "rp_stage r0 = None" by (rule write_rows_stage)
      then show False using True rs by simp
    qed
    then have cv: "c = Some r" "w' = v" using run0 True c rs by (auto simp: import_write_d1_def)
    from clear_store_result [OF c assms(4)] cv obtain st e where
      e: "r = (stopped Replace [] (length rows) e)\<lparr>rp_stage := Some st\<rparr>" "st \<noteq> ClearRows \<longrightarrow> is_rows s = is_rows s0"
      and seq: "is_seq s = is_seq s0" "is_rows s \<in> {is_rows s0, []}"
      by (auto simp: rs s0_def)
    have "\<forall>i > is_seq s0. map_of (is_rows s) i = None" using seq(2) assms(5) by (auto simp: store_wf_def)
    with e True show ?thesis by (auto simp: stopped_def)
  next
    case False
    obtain B v where B: "write_rows strat (length rows) 0 rows [] v = (r0, w')" "quiet v" "B = iw_store v" "store_wf B"
      "is_seq B = is_seq s0" "le_id (iw_lease v) = le_id (iw_lease w)" "is_rows B \<in> {is_rows s0, []}"
      "strat = Replace \<longrightarrow> is_rows B = []" "strat \<noteq> Replace \<longrightarrow> B = s0"
    proof (cases "strat = Replace")
      case True
      obtain c v where c: "clear_store (length rows) clear_stages w = (c, v)" by fastforce
      have "c = None"
      proof (cases c)
        case (Some r1)
        then have "r = r1" using run0 True c rs by (simp add: import_write_d1_def)
        moreover obtain st where "rp_stage r1 = Some st" using clear_store_result [OF c assms(4)] Some by auto
        ultimately show ?thesis using False True by simp
      qed
      with c run0 True have "write_rows strat (length rows) 0 rows [] v = (r0, w')" by (simp add: import_write_d1_def)
      moreover note clear_store_result [OF c assms(4)] \<open>c = None\<close>
      moreover from calculation have "store_wf (iw_store v)" by (simp add: store_wf_def)
      ultimately show thesis using that [of v "iw_store v"] True by (auto simp: named_def s0_def)
    next
      case False
      then show thesis using that [of w s0] run0 assms(4,5) by (simp add: import_write_d1_def s0_def)
    qed
    have "shape B [] '''' (hd rows) NoRow (iw_store v)" using B(3,4)
      by (auto simp: shape_def same_row_def cur_ids_def store_wf_def)
    moreover have "fresh_marker B (import_marker (le_id (iw_lease v)) t j)" for t j
      using assms(7) B(6,7) by (auto simp: fresh_marker_def)
    ultimately have "row_phase_result B rows r (iw_store w')"
      using write_rows_result [of strat "length rows" 0 rows "[]" v r0 w' B] B(1,2) assms(6) by (simp add: rs clean_def)
    then obtain W m p c where W: "rp_written r = map fst W" "distinct (map fst W)" "shape B W m p c s" "length W \<le> length rows"
        "map snd W = take (length W) rows"
        "if rp_problem r = None then length W = length rows \<and> c = NoRow else length W < length rows \<and> p = rows ! length W"
      by (auto simp: row_phase_result_def rs)
    have done_row: "is_seq s0 < rp_written r ! k \<and> complete_row s (rp_written r ! k) (rows ! k)" if "k < length (rp_written r)" for k
    proof -
      have "W ! k \<in> set W" "fst (W ! k) = rp_written r ! k" using that W(1) by simp_all
      moreover have "snd (W ! k) = rows ! k" using that W(1,5) by (metis length_map nth_map nth_take)
      ultimately show ?thesis using W(3) B(5) unfolding shape_def by (metis prod.collapse)
    qed
    have other: "i \<in> cur_ids c" if "is_seq s0 < i" "i \<notin> set (rp_written r)" "map_of (is_rows s) i \<noteq> None" for i
      using W(1,3) B(5) that by (auto simp: shape_def)
    have "\<exists>x. \<forall>i > is_seq s0. i \<notin> set (rp_written r) \<and> map_of (is_rows s) i \<noteq> None \<longrightarrow>
       i = x \<and> rp_problem r \<noteq> None \<and> length (rp_written r) < length rows \<and>
       (let p = rows ! length (rp_written r) in
          (\<exists>m. map_of (is_rows s) i = Some (marked m (pr_row p))) \<or>
          map_of (is_rows s) i = Some (pr_row p) \<and> map_of (is_vecs s) i = Some (pr_vec p))"
    proof (cases c)
      case NoRow
      then show ?thesis using other by (auto simp: cur_ids_def)
    next
      case (Half x)
      then show ?thesis using other W(1,3,6) by (auto simp: cur_ids_def shape_def Let_def split: if_splits intro!: exI [of _ x])
    next
      case (Full x)
      then show ?thesis using other W(1,3,6)
        by (auto simp: cur_ids_def shape_def complete_row_def Let_def split: if_splits intro!: exI [of _ x])
    qed
    moreover have "rp_problem r = None \<longrightarrow> length (rp_written r) = length rows \<and>
       (strat = Replace \<longrightarrow> (\<forall>i \<le> is_seq s0. map_of (is_rows s) i = None))"
      using W(1,3,6) B(5,8) by (auto simp: shape_def same_row_def)
    moreover have "strat \<noteq> Replace \<longrightarrow> (\<forall>i \<le> is_seq s0. same_row s s0 i)" using W(3) B(9) by (auto simp: shape_def)
    moreover have "rp_stage r = None" using write_rows_stage [OF B(1)] rs by simp
    ultimately show ?thesis using W(1,2,4) done_row by (auto simp: same_row_def complete_row_def)
  qed
qed


definition calm :: "fate \<Rightarrow> statement_io" where
  "calm f = \<lparr>si_env = (\<lambda>s. s), si_wall = 5, si_mono = 5, si_fate = f\<rparr>"

definition ex_row :: prepared where
  "ex_row = \<lparr>pr_row = \<lparr>ir_content = ''new'', ir_meta = None, ir_tags = ''[]'', ir_created = None\<rparr>, pr_vec = JStr ''v''\<rparr>"

definition ex_base :: import_store where
  "ex_base = \<lparr>is_rows = [(1, \<lparr>ir_content = ''old'', ir_meta = Some [(''type'', JStr ''todo'')], ir_tags = ''[]'', ir_created = None\<rparr>)],
     is_vecs = [(1, JStr ''u'')], is_refs = [], is_lease = Some (''me'', 1800), is_seq = 1\<rparr>"

definition ex_import :: "fate list \<Rightarrow> import_world" where
  "ex_import fates = \<lparr>iw_store = ex_base, iw_io = map calm fates,
     iw_lease = \<lparr>le_id = ''me'', le_until = 1800, le_renewed = 0\<rparr>, lo_mid = None, lo_stripped = False\<rparr>"

text \<open>The reply of the insert is lost; the next attempt adopts the row.\<close>

definition ex_adopted :: "fate list" where
  "ex_adopted = [Served, Served, ReplyLost, Served, Served, Served, Served, Served, Served, Served]"

lemma ex_import_ok:
  "quiet (ex_import fates)" "store_wf (iw_store (ex_import fates))"
  "\<forall>t k. fresh_marker (iw_store (ex_import fates)) (import_marker (le_id (iw_lease (ex_import fates))) t k)"
  by (auto simp: ex_import_def quiet_def calm_def lease_only_def store_wf_def ex_base_def fresh_marker_def marker_of_def
      marker_key_def)

theorem d1_import_accounting_witness:
  "rp_written (fst (import_write_d1 Append [ex_row] (ex_import ex_adopted))) = [2] \<and>
   map_of (is_vecs (iw_store (snd (import_write_d1 Append [ex_row] (ex_import ex_adopted))))) 2 = Some (JStr ''v'') \<and>
   map_of (is_rows (iw_store (snd (import_write_d1 Append [ex_row] (ex_import ex_adopted))))) 1 = map_of (is_rows ex_base) 1"
proof -
  let ?run = "import_write_d1 Append [ex_row] (ex_import ex_adopted)"
  have w: "rp_written (fst ?run) = [2]" by code_simp
  have "\<forall>p \<in> set [ex_row]. \<not> row_pending (pr_row p)" by code_simp
  note all = d1_import_accounting [OF ex_import_ok(1,2) this ex_import_ok(3), of Append]
  from all have "map_of (is_vecs (iw_store (snd ?run))) (rp_written (fst ?run) ! 0) = Some (pr_vec ([ex_row] ! 0))"
    using w by (metis length_Cons zero_less_Suc)
  moreover from all have "map_of (is_rows (iw_store (snd ?run))) 1 = map_of (is_rows (iw_store (ex_import ex_adopted))) 1"
    by (simp add: ex_import_def ex_base_def)
  ultimately show ?thesis using w by (simp add: ex_row_def ex_import_def)
qed

text \<open>the report of a stopped import can miss a row: when the reply of an insert is lost and D1 does not answer
  any more, the marked row is in the store, and the report has it neither under \<open>left_marked\<close> nor anywhere
  else, while its message says that the import added exactly the rows in \<open>written_ids\<close>.\<close>

theorem lost_insert_unreported:
  "\<exists>fates. let (r, w) = import_write_d1 Append [ex_row] (ex_import fates) in
     rp_problem r = Some (LeaseLostAt (Some 0)) \<and> rp_written r = [] \<and> rp_left_marked r = [] \<and> rp_unconfirmed r = [] \<and>
     rp_orphans r = [] \<and> map_option row_pending (map_of (is_rows (iw_store w)) 2) = Some True"
proof -
  let ?fates = "[Served, Served, ReplyLost, NotServed, NotServed, NotServed, NotServed, NotServed]"
  have "let (r, w) = import_write_d1 Append [ex_row] (ex_import ?fates) in
     rp_problem r = Some (LeaseLostAt (Some 0)) \<and> rp_written r = [] \<and> rp_left_marked r = [] \<and> rp_unconfirmed r = [] \<and>
     rp_orphans r = [] \<and> map_option row_pending (map_of (is_rows (iw_store w)) 2) = Some True"
    by code_simp
  then show ?thesis by (rule exI)
qed


section \<open>An import whose lease is another's\<close>

definition untouched :: "import_store \<Rightarrow> string \<Rightarrow> import_store \<Rightarrow> bool" where
  "untouched s0 me s \<longleftrightarrow> s\<lparr>is_lease := is_lease s0\<rparr> = s0 \<and> (\<forall>u. is_lease s \<noteq> Some (me, u))"

text \<open>The store is untouched, its lease is not ours, and the other clients of the rest of the run keep it so.\<close>

definition shut_out :: "import_store \<Rightarrow> string \<Rightarrow> import_world \<Rightarrow> bool" where
  "shut_out s0 me w \<longleftrightarrow> named me w \<and> untouched s0 me (iw_store w) \<and>
     (\<forall>i \<in> set (iw_io w). \<forall>s. untouched s0 me s \<longrightarrow> untouched s0 me (si_env i s))"

lemma shut_out_stmt:
  assumes "\<And>s. untouched s0 me s \<Longrightarrow> untouched s0 me (snd (f s)) \<and> (\<forall>x. fst (f s) = Some x \<longrightarrow> Q x)"
  shows "holds (shut_out s0 me) (im_stmt f) (\<lambda>x w. shut_out s0 me w \<and> Q x) (shut_out s0 me) (shut_out s0 me)"
proof -
  have "case im_stmt f w of (Val x, w') \<Rightarrow> shut_out s0 me w' \<and> Q x | (Raised, w') \<Rightarrow> shut_out s0 me w' | (LeaseLost, w') \<Rightarrow> shut_out s0 me w'"
    if w: "shut_out s0 me w" for w
  proof (cases "iw_io w")
    case Nil
    then show ?thesis using w by (simp add: im_stmt_def)
  next
    case (Cons i rest)
    then have "untouched s0 me (si_env i (iw_store w))" using w by (simp add: shut_out_def)
    with assms [OF this] Cons w show ?thesis
      by (auto simp: im_stmt_def shut_out_def named_def Let_def split: fate.splits option.splits)
  qed
  then show ?thesis by (auto simp: holds_def)
qed

lemma shut_out_fence: "holds (shut_out s0 me) lease_fence (\<lambda>_ _. False) R (shut_out s0 me)"
proof -
  have lease: "holds (shut_out s0 me) (im_query is_lease) (\<lambda>x w. shut_out s0 me w \<and> (\<forall>u. x \<noteq> Some (me, u))) (shut_out s0 me) (shut_out s0 me)"
    unfolding im_query_def by (rule shut_out_stmt) (auto simp: untouched_def)
  have grow: "holds (shut_out s0 me) (im_update (on_lease (lease_extend me now til))) (\<lambda>_ w. shut_out s0 me w \<and> True) (shut_out s0 me) (shut_out s0 me)"
    for now til
    unfolding im_update_def
    by (rule shut_out_stmt) (auto simp: untouched_def on_lease_def lease_extend_def split: option.splits)
  have get: "holds (shut_out s0 me) (im_get (\<lambda>w. (le_id (iw_lease w), wall_clock w)))
      (\<lambda>(x, now) w. shut_out s0 me w \<and> x = me) (shut_out s0 me) (shut_out s0 me)"
    by (rule holds_get) (simp add: shut_out_def named_def)
  have renew: "holds (shut_out s0 me) lease_renew (\<lambda>_. shut_out s0 me) (shut_out s0 me) (shut_out s0 me)"
    unfolding lease_renew_def
  proof (rule holds_bind [OF get])
    fix z :: "string \<times> int"
    obtain x now where z: "z = (x, now)" by (cases z)
    have "holds (\<lambda>w. shut_out s0 me w \<and> True) (im_bind (im_query is_lease) (\<lambda>row.
        if row = Some (me, now + lease_seconds) then im_put (confirm (now + lease_seconds)) else im_lost))
        (\<lambda>_. shut_out s0 me) (shut_out s0 me) (shut_out s0 me)"
      by (rule holds_bind [OF holds_pre [OF lease]]) (auto simp: holds_def im_lost_def)
    from holds_bind [OF grow this] have "holds (shut_out s0 me) (im_bind (im_update (on_lease (lease_extend me now (now + lease_seconds)))) (\<lambda>_.
        im_bind (im_query is_lease) (\<lambda>row. if row = Some (me, now + lease_seconds) then im_put (confirm (now + lease_seconds)) else im_lost)))
        (\<lambda>_. shut_out s0 me) (shut_out s0 me) (shut_out s0 me)" .
    then show "holds ((\<lambda>(x, now) w. shut_out s0 me w \<and> x = me) z) (case z of (x, now) \<Rightarrow>
        im_bind (im_update (on_lease (lease_extend x now (now + lease_seconds)))) (\<lambda>_.
        im_bind (im_query is_lease) (\<lambda>row. if row = Some (x, now + lease_seconds) then im_put (confirm (now + lease_seconds)) else im_lost)))
        (\<lambda>_. shut_out s0 me) (shut_out s0 me) (shut_out s0 me)"
      unfolding z by (cases "x = me") (simp_all add: holds_def)
  qed
  have once: "holds (shut_out s0 me) fence_once (\<lambda>_ _. False) (shut_out s0 me) (shut_out s0 me)"
    unfolding fence_once_def
  proof (rule holds_bind [where Q = "\<lambda>_. shut_out s0 me"])
    show "holds (shut_out s0 me) (im_get (\<lambda>w. heartbeat_s \<le> mono_clock w - le_renewed (iw_lease w))) (\<lambda>_. shut_out s0 me)
        (shut_out s0 me) (shut_out s0 me)" by (rule holds_get)
    fix due
    have "holds (shut_out s0 me) (if due then lease_renew else im_val ()) (\<lambda>_. shut_out s0 me) (shut_out s0 me) (shut_out s0 me)"
      using renew by (simp add: holds_val)
    moreover have "holds (\<lambda>w. shut_out s0 me w \<and> (\<forall>u. row \<noteq> Some (me, u)))
        (im_bind (im_get (\<lambda>w. (le_id (iw_lease w), wall_clock w))) (\<lambda>(x, now).
           case row of None \<Rightarrow> im_lost | Some (own, u) \<Rightarrow> if own \<noteq> x \<or> u < now then im_lost else im_val ()))
        (\<lambda>_ _. False) (shut_out s0 me) (shut_out s0 me)" for row
      by (auto simp: holds_def im_bind_def im_get_def im_lost_def im_val_def shut_out_def named_def split: option.splits prod.splits)
    ultimately show "holds (shut_out s0 me) (im_bind (if due then lease_renew else im_val ()) (\<lambda>_. im_bind (im_query is_lease) (\<lambda>row.
        im_bind (im_get (\<lambda>w. (le_id (iw_lease w), wall_clock w))) (\<lambda>(me, now).
          case row of None \<Rightarrow> im_lost | Some (own, u) \<Rightarrow> if own \<noteq> me \<or> u < now then im_lost else im_val ()))))
        (\<lambda>_ _. False) (shut_out s0 me) (shut_out s0 me)"
      by (intro holds_bind [OF _ holds_bind [OF lease]])
  qed
  have "holds (shut_out s0 me) (fence_tries n) (\<lambda>_ _. False) R (shut_out s0 me)" for n
  proof (induction n)
    case (Suc n)
    have "fence_tries (Suc n) = (\<lambda>w. case fence_once w of (Raised, w') \<Rightarrow> fence_tries n w' | r \<Rightarrow> r)" by (rule ext) simp
    with holds_try [OF once Suc] show ?case by (simp only:)
  qed (simp add: holds_def)
  then show ?thesis by (simp add: lease_fence_def)
qed

text \<open>A find in the untouched store answers that no row has the marker.\<close>

lemma shut_out_attempts:
  assumes "find_marked m s0 = None"
  shows "holds (\<lambda>w. shut_out s0 me w \<and> lo_mid w = None) (row_attempts m p n) (\<lambda>_ _. False)
    (\<lambda>w. shut_out s0 me w \<and> lo_mid w = None) (shut_out s0 me)"
proof -
  have mid: "lo_mid (snd (im_stmt f w)) = lo_mid w" for f :: "import_store \<Rightarrow> 'x option \<times> import_store" and w
    by (simp add: im_stmt_def Let_def split: list.split fate.split)
  have same: "find_marked m s = None" if "untouched s0 me s" for s
  proof -
    have "is_rows s = is_rows s0" using that by (metis import_store.select_convs(1) import_store.surjective
          import_store.update_convs(4) untouched_def)
    then show ?thesis using assms by (simp add: find_marked_def)
  qed
  have find: "holds (shut_out s0 me) (im_query (find_marked m)) (\<lambda>x w. shut_out s0 me w \<and> x = None) (shut_out s0 me) (shut_out s0 me)"
    unfolding im_query_def by (rule shut_out_stmt) (auto simp: same)
  have one: "holds (\<lambda>w. shut_out s0 me w \<and> lo_mid w = None) (row_attempt m p) (\<lambda>_ _. False)
    (\<lambda>w. shut_out s0 me w \<and> lo_mid w = None) (shut_out s0 me)"
  proof -
    have "case row_attempt m p w of (Val x, w') \<Rightarrow> False | (Raised, w') \<Rightarrow> shut_out s0 me w' \<and> lo_mid w' = None | (LeaseLost, w') \<Rightarrow> shut_out s0 me w'"
      if w: "shut_out s0 me w" "lo_mid w = None" for w
    proof (cases "im_query (find_marked m) w")
      case (Pair a v)
      have v: "lo_mid v = None" using mid [of _ w] Pair w(2) by (metis im_query_def snd_conv)
      show ?thesis
      proof (cases a)
        case (Val x)
        then have x: "x = None" "shut_out s0 me (v\<lparr>lo_mid := None\<rparr>)"
          using holdsD [OF find w(1)] Pair by (simp_all add: shut_out_def named_def)
        obtain b u where fence: "lease_fence (v\<lparr>lo_mid := None\<rparr>) = (b, u)" by fastforce
        from holdsD [OF shut_out_fence [where R = "\<lambda>_. False"] x(2)] fence have "b = LeaseLost" "shut_out s0 me u" by (cases b; simp)+
        then show ?thesis using Pair Val x w fence
          by (simp add: row_attempt_def find_or_insert_def im_bind_def im_get_def set_mid_def im_put_def)
      qed (use holdsD [OF find w(1)] Pair w v in
          \<open>simp_all add: row_attempt_def find_or_insert_def im_bind_def im_get_def\<close>)
    qed
    then show ?thesis by (auto simp: holds_def)
  qed
  show ?thesis
  proof (induction n)
    case (Suc n)
    have "row_attempts m p (Suc n) = (\<lambda>w. case row_attempt m p w of (Raised, w') \<Rightarrow> row_attempts m p n w' | r \<Rightarrow> r)" by (rule ext) simp
    with holds_try [OF one Suc] show ?case by (simp only:)
  qed (simp add: holds_def)
qed

text \<open>an import that does not hold the lease of the store changes nothing: if the lease is another import's when
  the row phase starts, and the other clients never give it to this one and leave the tables alone, then, whatever
  statements fail, no memory, vector or cross-reference is changed, nothing is reported as written, and unless
  there was nothing to do the report says that the lease was lost.\<close>

theorem shut_out_import_writes_nothing:
  assumes "shut_out s0 (le_id (iw_lease w)) w" and "import_write_d1 strat rows w = (r, w')"
    and "\<forall>t k. fresh_marker s0 (import_marker (le_id (iw_lease w)) t k)" and "dict_wf (is_rows s0)"
  shows "is_rows (iw_store w') = is_rows s0 \<and> is_vecs (iw_store w') = is_vecs s0 \<and> is_refs (iw_store w') = is_refs s0 \<and>
    rp_written r = [] \<and> (strat = Replace \<or> rows \<noteq> [] \<longrightarrow> (\<exists>k. rp_problem r = Some (LeaseLostAt k)))"
proof -
  let ?me = "le_id (iw_lease w)"
  have store: "is_rows s = is_rows s0 \<and> is_vecs s = is_vecs s0 \<and> is_refs s = is_refs s0" if "untouched s0 ?me s" for s
  proof -
    have "s\<lparr>is_lease := is_lease s0\<rparr> = s0" using that by (simp add: untouched_def)
    then show ?thesis by (cases s; cases s0) simp
  qed
  have none: "find_marked (import_marker ?me t k) s0 = None" for t k
    using find_marked_iff(1) [OF assms(4)] assms(3) by (auto simp: fresh_marker_def)
  have "shut_out s0 ?me w' \<and> rp_written r = [] \<and> (strat = Replace \<or> rows \<noteq> [] \<longrightarrow> (\<exists>k. rp_problem r = Some (LeaseLostAt k)))"
  proof (cases "strat = Replace")
    case True
    obtain b v where fence: "lease_fence w = (b, v)" by fastforce
    from holdsD [OF shut_out_fence [where R = "\<lambda>_. False"] assms(1)] fence have "b = LeaseLost" "shut_out s0 ?me v" by (cases b; simp)+
    then show ?thesis using assms(2) True fence by (auto simp: import_write_d1_def clear_stages_def stopped_def)
  next
    case append: False
    show ?thesis
    proof (cases rows)
      case Nil
      then show ?thesis using assms(1,2) append by (auto simp: import_write_d1_def)
    next
      case (Cons p ps)
      let ?w0 = "w\<lparr>lo_mid := None, lo_stripped := False\<rparr>" and ?m = "import_marker ?me (wall_clock w) 0"
      have start: "shut_out s0 ?me ?w0 \<and> lo_mid ?w0 = None" using assms(1) by (simp add: shut_out_def named_def)
      obtain b v where run: "row_attempts ?m p write_attempts ?w0 = (b, v)" by fastforce
      note after = holdsD [OF shut_out_attempts [OF none] start, of "wall_clock w" 0 p write_attempts, unfolded run]
      show ?thesis
      proof (cases b)
        case Raised
        obtain c u where fence: "lease_fence v = (c, u)" by fastforce
        from after Raised have "shut_out s0 ?me v" by simp
        from holdsD [OF shut_out_fence [where R = "\<lambda>_. False"] this] fence have "c = LeaseLost" "shut_out s0 ?me u" by (cases c; simp)+
        then show ?thesis using assms(2) append Cons run Raised fence
          by (auto simp: import_write_d1_def Let_def lost_at_row_def stopped_def split: option.splits)
      qed (use after assms(2) append Cons run in
          \<open>auto simp: import_write_d1_def Let_def lost_at_row_def stopped_def split: option.splits\<close>)
    qed
  qed
  then show ?thesis using store by (auto simp: shut_out_def)
qed

theorem shut_out_import_writes_nothing_witness:
  "is_rows (iw_store (snd (import_write_d1 Replace [ex_row] ((ex_import [Served, Served, Served])\<lparr>iw_store := ex_base\<lparr>is_lease := Some (''other'', 900)\<rparr>\<rparr>))))
   = is_rows ex_base"
proof -
  let ?s0 = "ex_base\<lparr>is_lease := Some (''other'', 900)\<rparr>"
  let ?w = "(ex_import [Served, Served, Served])\<lparr>iw_store := ?s0\<rparr>"
  have o: "shut_out ?s0 (le_id (iw_lease ?w)) ?w"
    by (simp add: shut_out_def named_def untouched_def ex_import_def calm_def)
  obtain r w' where run: "import_write_d1 Replace [ex_row] ?w = (r, w')" by fastforce
  have f: "\<forall>t k. fresh_marker ?s0 (import_marker (le_id (iw_lease ?w)) t k)" "dict_wf (is_rows ?s0)"
    using ex_import_ok(3) by (simp_all add: ex_import_def fresh_marker_def ex_base_def)
  from shut_out_import_writes_nothing [OF o run f] show ?thesis unfolding run by simp
qed

end
