(* ===== verification/Import_Sweep.thy ===== *)
theory Import_Sweep
  imports Import_Write
begin

text \<open>
  The sweep of rows that a dead import left marked (\<open>memora/storage.py\<close>, \<open>sweep_import_markers\<close> and its
  helpers), on the store and the statements of \<open>Import_Write\<close>: which rows it leaves alone, which it
  completes and which it removes.  A vector that is \<^const>\<open>JNull\<close> is one that is not certified.
\<close>

section \<open>Markers of dead imports\<close>

definition stale_s :: rat where "stale_s = 600"

definition row_marker :: "import_row \<Rightarrow> json option" where
  "row_marker r = (case ir_meta r of None \<Rightarrow> None | Some d \<Rightarrow> map_of d marker_key)"

definition marker_time :: "json \<Rightarrow> nat option" where
  "marker_time mk =
     (case mk of
        JStr m \<Rightarrow> (case split_on (CHR '':'') m of
            [_, t, _] \<Rightarrow> if t \<noteq> [] \<and> list_all is_digit t then Some (read_nat t) else None
          | _ \<Rightarrow> None)
      | _ \<Rightarrow> None)"

definition live_ids :: "rat \<Rightarrow> import_store \<Rightarrow> string list" where
  "live_ids now s = (case is_lease s of None \<Rightarrow> [] | Some (own, til) \<Rightarrow> if \<lfloor>now\<rfloor> \<le> til then [own] else [])"

text \<open>Left alone: the import of the row holds a live lease, or the marker is young.\<close>

definition import_of :: "json \<Rightarrow> string option" where
  "import_of mk = (case mk of JStr m \<Rightarrow> Some (takeWhile ((\<noteq>) (CHR '':'')) m) | _ \<Rightarrow> None)"

definition held_live :: "string list \<Rightarrow> json \<Rightarrow> bool" where
  "held_live live mk \<longleftrightarrow> import_of mk \<in> Some ` set live"

definition young :: "rat \<Rightarrow> rat \<Rightarrow> json \<Rightarrow> bool" where
  "young older now mk \<longleftrightarrow> (case marker_time mk of None \<Rightarrow> False | Some t \<Rightarrow> now - of_nat t < older)"

section \<open>One row\<close>

definition unmarked :: "import_row \<Rightarrow> import_row" where
  "unmarked r = r\<lparr>ir_meta := (case ir_meta r of None \<Rightarrow> None
     | Some d \<Rightarrow> if dict_pop marker_key d = [] then None else Some (dict_pop marker_key d))\<rparr>"

text \<open>The compare-and-set on the exact metadata read.\<close>

definition strip_exact :: "int \<Rightarrow> import_row \<Rightarrow> import_store \<Rightarrow> import_store" where
  "strip_exact i r s =
     (case map_of (is_rows s) i of
        None \<Rightarrow> s
      | Some r' \<Rightarrow> if ir_meta r' = ir_meta r
          then s\<lparr>is_rows := dict_set i (r'\<lparr>ir_meta := ir_meta (unmarked r)\<rparr>) (is_rows s)\<rparr> else s)"

datatype swept = LeaseLive | Young | Completed | Removed | NotResolved

definition embedding_present :: "int \<Rightarrow> import_store \<Rightarrow> bool" where
  "embedding_present i s \<longleftrightarrow> map_of (is_vecs s) i \<notin> {None, Some JNull}"

definition resolve_row :: "int \<Rightarrow> import_row \<Rightarrow> json \<Rightarrow> swept import_m" where
  "resolve_row i r mk =
     im_bind (im_query (embedding_present i)) (\<lambda>present.
       if present then
         im_bind (im_update (strip_exact i r)) (\<lambda>_.
         im_bind (im_query (\<lambda>s. map_of (is_rows s) i)) (\<lambda>now_row. case now_row of
             None \<Rightarrow> im_raise
           | Some r' \<Rightarrow> if row_pending r' then im_raise else im_val Completed))
       else (case mk of
           JStr m \<Rightarrow>
             im_bind (delete_marked_row i m) (\<lambda>_.
             im_bind (im_query (\<lambda>s. map_of (is_rows s) i)) (\<lambda>now_row.
               if now_row \<noteq> None then im_raise else im_val Removed))
         | _ \<Rightarrow> im_raise))"

definition sweep_row :: "rat \<Rightarrow> rat \<Rightarrow> string list \<Rightarrow> int \<times> import_row \<Rightarrow> import_world \<Rightarrow> swept \<times> import_world" where
  "sweep_row older now live ir w =
     (let (i, r) = ir; mk = the (row_marker r) in
      if held_live live mk then (LeaseLive, w)
      else if young older now mk then (Young, w)
      else (case resolve_row i r mk w of (Val v, w') \<Rightarrow> (v, w') | (_, w') \<Rightarrow> (NotResolved, w')))"

fun sweep_rows :: "rat \<Rightarrow> rat \<Rightarrow> string list \<Rightarrow> (int \<times> import_row) list \<Rightarrow> import_world \<Rightarrow> (int \<times> swept) list \<times> import_world" where
  "sweep_rows older now live [] w = ([], w)"
| "sweep_rows older now live (ir # irs) w =
     (case sweep_row older now live ir w of
        (v, w') \<Rightarrow> (case sweep_rows older now live irs w' of (vs, w'') \<Rightarrow> ((fst ir, v) # vs, w'')))"

section \<open>The sweep\<close>

text \<open>
  The result has the verdict of each scanned row, from which the counts are made; an exception of the two
  first reads leaves the function.
\<close>

definition sweep_import_markers :: "rat \<Rightarrow> rat \<Rightarrow> import_world \<Rightarrow> (int \<times> swept) list run \<times> import_world" where
  "sweep_import_markers older now w =
     (case im_query (live_ids now) w of
        (Val live, w1) \<Rightarrow>
          (case im_query (\<lambda>s. filter (\<lambda>(i, r). row_marker r \<noteq> None) (is_rows s)) w1 of
             (Val irs, w2) \<Rightarrow>
               (case sweep_rows older now live irs w2 of
                  (vs, w3) \<Rightarrow> (Val vs, snd (im_update (on_lease (lease_expire \<lfloor>now\<rfloor>)) w3)))
           | (_, w2) \<Rightarrow> (Raised, w2))
      | (_, w1) \<Rightarrow> (Raised, w1))"

definition count_swept :: "swept \<Rightarrow> (int \<times> swept) list \<Rightarrow> nat" where
  "count_swept v vs = length (filter (\<lambda>x. snd x = v) vs)"

section \<open>What one row's resolution does\<close>

text \<open>The store is \<open>s\<close> in every row but \<open>i\<close>, where it is as \<open>now_row\<close> says.\<close>

definition row_now :: "import_store \<Rightarrow> int \<Rightarrow> swept set \<Rightarrow> import_row \<Rightarrow> import_world \<Rightarrow> bool" where
  "row_now s i V r w \<longleftrightarrow> (let t = iw_store w in
     dict_wf (is_rows t) \<and> (\<forall>j. j \<noteq> i \<longrightarrow> same_row t s j) \<and>
     (NotResolved \<in> V \<and> same_row t s i \<or>
      Completed \<in> V \<and> map_of (is_rows t) i = Some (unmarked r) \<and> map_of (is_vecs t) i = map_of (is_vecs s) i \<and>
        map_of (is_refs t) i = map_of (is_refs s) i \<or>
      Removed \<in> V \<and> map_of (is_rows t) i = None \<and> map_of (is_vecs t) i = None \<and> map_of (is_refs t) i = None))"

lemma row_now_free: "lease_free (row_now s i V r)"
  by (simp add: lease_free_def row_now_def same_row_def Let_def)

lemma row_now_mono: "row_now s i V r w \<Longrightarrow> V \<subseteq> V' \<Longrightarrow> row_now s i V' r w"
  by (auto simp: row_now_def Let_def)

lemma unmarked_clean: "\<not> row_pending (unmarked r)"
  by (auto simp: unmarked_def row_pending_def split: option.split)

lemma stmt_now:
  assumes "\<And>w. row_now s i V r w \<Longrightarrow> row_now s i V' r (w\<lparr>iw_store := snd (f (iw_store w))\<rparr>)"
    and "\<And>w x. row_now s i V r w \<Longrightarrow> fst (f (iw_store w)) = Some x \<Longrightarrow> Q x (w\<lparr>iw_store := snd (f (iw_store w))\<rparr>)"
    and "V \<subseteq> V'"
  shows "holds (\<lambda>w. row_now s i V r w \<and> quiet w) (im_stmt f) (\<lambda>x w. Q x w \<and> quiet w)
    (\<lambda>w. row_now s i V' r w \<and> quiet w) (\<lambda>w. row_now s i V' r w \<and> quiet w)"
  by (rule holds_stmt) (use assms lease_freeD [OF row_now_free] row_now_mono in \<open>auto simp: quiet_def\<close>)

lemma strip_now:
  assumes "map_of (is_rows s) i = Some r" and "row_now s i {NotResolved} r w"
  shows "row_now s i {Completed} r (w\<lparr>iw_store := strip_exact i r (iw_store w)\<rparr>)"
  using assms by (auto simp: row_now_def same_row_def strip_exact_def Let_def distinct_update unmarked_def)

lemma delete_now:
  assumes "map_of (is_rows s) i = Some r" and "marker_of r = Some m" and "row_now s i {NotResolved} r w"
  shows "row_now s i {Removed} r (w\<lparr>iw_store := delete_marked i m (iw_store w)\<rparr>)"
  using assms by (auto simp: row_now_def same_row_def delete_marked_def delete_memory_row_def Let_def distinct_delete)

lemma pop_now:
  "row_now s i {Removed} r w \<Longrightarrow> row_now s i {Removed} r (w\<lparr>iw_store := (iw_store w)\<lparr>is_refs := dict_pop i (is_refs (iw_store w))\<rparr>\<rparr>)"
  "row_now s i {Removed} r w \<Longrightarrow> row_now s i {Removed} r (w\<lparr>iw_store := (iw_store w)\<lparr>is_vecs := dict_pop i (is_vecs (iw_store w))\<rparr>\<rparr>)"
  by (auto simp: row_now_def same_row_def Let_def)

lemma completed_row: "row_now s i {Completed} r w \<Longrightarrow> map_of (is_rows (iw_store w)) i = Some (unmarked r)"
  by (simp add: row_now_def Let_def)

lemma removed_row: "row_now s i {Removed} r w \<Longrightarrow> map_of (is_rows (iw_store w)) i = None"
  by (simp add: row_now_def Let_def)

abbreviation sweep_triple :: "import_store \<Rightarrow> int \<Rightarrow> import_row \<Rightarrow> swept \<Rightarrow> swept set \<Rightarrow> 'a import_m \<Rightarrow> ('a \<Rightarrow> bool) \<Rightarrow> swept \<Rightarrow> bool" where
  "sweep_triple s i r v V m Q v' \<equiv>
     holds (\<lambda>w. row_now s i {v} r w \<and> quiet w) m (\<lambda>x w. row_now s i {v'} r w \<and> Q x \<and> quiet w)
       (\<lambda>w. row_now s i V r w \<and> quiet w) (\<lambda>w. row_now s i V r w \<and> quiet w)"

lemma complete_triple:
  assumes "map_of (is_rows s) i = Some r"
  shows "sweep_triple s i r NotResolved {NotResolved, Completed}
    (im_bind (im_update (strip_exact i r)) (\<lambda>_.
         im_bind (im_query (\<lambda>s. map_of (is_rows s) i)) (\<lambda>now_row. case now_row of
             None \<Rightarrow> im_raise
           | Some r' \<Rightarrow> if row_pending r' then im_raise else im_val Completed))) (\<lambda>v. v = Completed) Completed"
proof (rule holds_bind)
  show "holds (\<lambda>w. row_now s i {NotResolved} r w \<and> quiet w) (im_update (strip_exact i r))
      (\<lambda>_ w. row_now s i {Completed} r w \<and> quiet w) (\<lambda>w. row_now s i {NotResolved, Completed} r w \<and> quiet w)
      (\<lambda>w. row_now s i {NotResolved, Completed} r w \<and> quiet w)"
    unfolding im_update_def by (rule stmt_now) (auto intro: strip_now [OF assms] row_now_mono [OF strip_now [OF assms]])
  fix u :: unit
  show "holds (\<lambda>w. row_now s i {Completed} r w \<and> quiet w) (im_bind (im_query (\<lambda>s. map_of (is_rows s) i)) (\<lambda>now_row. case now_row of
             None \<Rightarrow> im_raise | Some r' \<Rightarrow> if row_pending r' then im_raise else im_val Completed))
      (\<lambda>x w. row_now s i {Completed} r w \<and> x = Completed \<and> quiet w) (\<lambda>w. row_now s i {NotResolved, Completed} r w \<and> quiet w)
      (\<lambda>w. row_now s i {NotResolved, Completed} r w \<and> quiet w)"
  proof (rule holds_bind [where Q = "\<lambda>x w. (row_now s i {Completed} r w \<and> x = Some (unmarked r)) \<and> quiet w"])
    show "holds (\<lambda>w. row_now s i {Completed} r w \<and> quiet w) (im_query (\<lambda>s. map_of (is_rows s) i))
        (\<lambda>x w. (row_now s i {Completed} r w \<and> x = Some (unmarked r)) \<and> quiet w)
        (\<lambda>w. row_now s i {NotResolved, Completed} r w \<and> quiet w) (\<lambda>w. row_now s i {NotResolved, Completed} r w \<and> quiet w)"
      unfolding im_query_def by (rule stmt_now) (auto simp: completed_row intro: row_now_mono)
    fix x
    show "holds (\<lambda>w. (row_now s i {Completed} r w \<and> x = Some (unmarked r)) \<and> quiet w)
        (case x of None \<Rightarrow> im_raise | Some r' \<Rightarrow> if row_pending r' then im_raise else im_val Completed)
        (\<lambda>x w. row_now s i {Completed} r w \<and> x = Completed \<and> quiet w) (\<lambda>w. row_now s i {NotResolved, Completed} r w \<and> quiet w)
        (\<lambda>w. row_now s i {NotResolved, Completed} r w \<and> quiet w)"
      by (cases "x = Some (unmarked r)") (auto simp: unmarked_clean holds_def im_val_def)
  qed
qed

lemma delete_triple:
  assumes "map_of (is_rows s) i = Some r" and "marker_of r = Some m"
  shows "sweep_triple s i r NotResolved {NotResolved, Removed} (delete_marked_row i m) (\<lambda>_. True) Removed"
  unfolding delete_marked_row_def
proof (rule holds_bind)
  let ?R = "\<lambda>w. row_now s i {NotResolved, Removed} r w \<and> quiet w" and ?G = "\<lambda>w. row_now s i {Removed} r w \<and> quiet w"
  show "holds (\<lambda>w. row_now s i {NotResolved} r w \<and> quiet w) (im_update (delete_marked i m)) (\<lambda>_. ?G) ?R ?R"
    unfolding im_update_def
    by (rule stmt_now) (auto intro: delete_now [OF assms] row_now_mono [OF delete_now [OF assms]])
  have pops: "holds ?G (im_bind (im_update (\<lambda>s. s\<lparr>is_refs := dict_pop i (is_refs s)\<rparr>)) (\<lambda>_. im_update (\<lambda>s. s\<lparr>is_vecs := dict_pop i (is_vecs s)\<rparr>)))
      (\<lambda>_. ?G) ?R ?R"
    unfolding im_update_def
    by (rule holds_bind [where Q = "\<lambda>_. ?G"]; rule stmt_now) (auto intro: pop_now row_now_mono [OF pop_now(1)] row_now_mono [OF pop_now(2)])
  have query: "holds ?G (im_query (\<lambda>s. map_of (is_rows s) i)) (\<lambda>x w. (row_now s i {Removed} r w \<and> x = None) \<and> quiet w) ?R ?R"
    unfolding im_query_def by (rule stmt_now) (auto simp: removed_row intro: row_now_mono)
  have rest: "holds (\<lambda>w. (row_now s i {Removed} r w \<and> row = None) \<and> quiet w)
      (if row \<noteq> None then im_val () else im_bind (im_update (\<lambda>s. s\<lparr>is_refs := dict_pop i (is_refs s)\<rparr>))
         (\<lambda>_. im_update (\<lambda>s. s\<lparr>is_vecs := dict_pop i (is_vecs s)\<rparr>))) (\<lambda>_ w. row_now s i {Removed} r w \<and> True \<and> quiet w) ?R ?R" for row
    using pops by (cases row) (simp_all add: holds_def)
  fix u :: unit
  show "holds ?G (im_bind (im_query (\<lambda>s. map_of (is_rows s) i)) (\<lambda>row. if row \<noteq> None then im_val ()
      else im_bind (im_update (\<lambda>s. s\<lparr>is_refs := dict_pop i (is_refs s)\<rparr>)) (\<lambda>_. im_update (\<lambda>s. s\<lparr>is_vecs := dict_pop i (is_vecs s)\<rparr>))))
      (\<lambda>_ w. row_now s i {Removed} r w \<and> True \<and> quiet w) ?R ?R"
    by (rule holds_bind [OF query rest])
qed

lemma remove_triple:
  assumes "map_of (is_rows s) i = Some r" and "marker_of r = Some m"
  shows "sweep_triple s i r NotResolved {NotResolved, Removed}
    (im_bind (delete_marked_row i m) (\<lambda>_. im_bind (im_query (\<lambda>s. map_of (is_rows s) i)) (\<lambda>now_row.
        if now_row \<noteq> None then im_raise else im_val Removed))) (\<lambda>v. v = Removed) Removed"
proof (rule holds_bind [OF delete_triple [OF assms]])
  let ?R = "\<lambda>w. row_now s i {NotResolved, Removed} r w \<and> quiet w"
  have query: "holds (\<lambda>w. row_now s i {Removed} r w \<and> quiet w) (im_query (\<lambda>s. map_of (is_rows s) i))
      (\<lambda>x w. (row_now s i {Removed} r w \<and> x = None) \<and> quiet w) ?R ?R"
    unfolding im_query_def by (rule stmt_now) (auto simp: removed_row intro: row_now_mono)
  have "holds (\<lambda>w. (row_now s i {Removed} r w \<and> x = None) \<and> quiet w) (if x \<noteq> None then im_raise else im_val Removed)
      (\<lambda>v w. row_now s i {Removed} r w \<and> v = Removed \<and> quiet w) ?R ?R" for x
    by (auto simp: holds_def im_val_def)
  from holds_bind [OF query this] show "holds (\<lambda>w. row_now s i {Removed} r w \<and> True \<and> quiet w)
      (im_bind (im_query (\<lambda>s. map_of (is_rows s) i)) (\<lambda>now_row. if now_row \<noteq> None then im_raise else im_val Removed))
      (\<lambda>v w. row_now s i {Removed} r w \<and> v = Removed \<and> quiet w) ?R ?R"
    by simp
qed

text \<open>The verdict of a row is what happened to it.  A row whose exception is caught is as it was, or already resolved.\<close>

definition resolution :: "int \<Rightarrow> import_store \<Rightarrow> swept" where
  "resolution i s = (if embedding_present i s then Completed else Removed)"

lemma resolve_row_result:
  assumes r: "map_of (is_rows s) i = Some r" "row_marker r = Some mk"
    and w: "row_now s i {NotResolved} r w" "quiet w" and run: "resolve_row i r mk w = (out, w')"
  shows "quiet w' \<and> (case out of Val v \<Rightarrow> v = resolution i s \<and> row_now s i {v} r w'
    | _ \<Rightarrow> row_now s i {NotResolved, resolution i s} r w')"
proof -
  let ?R = "\<lambda>w. row_now s i {NotResolved, resolution i s} r w \<and> quiet w"
  have present: "embedding_present i (iw_store v) = embedding_present i s" if "row_now s i {NotResolved} r v" for v
    using that by (simp add: row_now_def same_row_def embedding_present_def Let_def)
  have first: "holds (\<lambda>w. row_now s i {NotResolved} r w \<and> quiet w) (im_query (embedding_present i))
      (\<lambda>b w. (row_now s i {NotResolved} r w \<and> b = embedding_present i s) \<and> quiet w) ?R ?R"
    unfolding im_query_def by (rule stmt_now) (auto simp: present intro: row_now_mono)
  have mk: "marker_of r = Some m" if "mk = JStr m" for m
    using r(2) that by (auto simp: marker_of_def row_marker_def split: option.splits)
  have "holds (\<lambda>w. (row_now s i {NotResolved} r w \<and> b = embedding_present i s) \<and> quiet w)
      (if b then im_bind (im_update (strip_exact i r)) (\<lambda>_.
         im_bind (im_query (\<lambda>s. map_of (is_rows s) i)) (\<lambda>now_row. case now_row of
             None \<Rightarrow> im_raise
           | Some r' \<Rightarrow> if row_pending r' then im_raise else im_val Completed))
       else (case mk of
           JStr m \<Rightarrow>
             im_bind (delete_marked_row i m) (\<lambda>_.
             im_bind (im_query (\<lambda>s. map_of (is_rows s) i)) (\<lambda>now_row.
               if now_row \<noteq> None then im_raise else im_val Removed))
         | _ \<Rightarrow> im_raise)) (\<lambda>v w. row_now s i {resolution i s} r w \<and> v = resolution i s \<and> quiet w) ?R ?R" for b
  proof (cases "b = embedding_present i s")
    case True
    show ?thesis
    proof (cases b)
      case True
      then show ?thesis using \<open>b = embedding_present i s\<close> complete_triple [OF r(1)] by (simp add: resolution_def)
    next
      case False
      then have res: "resolution i s = Removed" using \<open>b = embedding_present i s\<close> by (simp add: resolution_def)
      have raise: "holds (\<lambda>w. row_now s i {NotResolved} r w \<and> quiet w) im_raise (\<lambda>v w. row_now s i {Removed} r w \<and> v = Removed \<and> quiet w) ?R ?R"
        by (auto simp: holds_def im_raise_def intro: row_now_mono)
      show ?thesis
      proof (cases "\<exists>m. mk = JStr m")
        case True
        then obtain m where m: "mk = JStr m" by blast
        from remove_triple [OF r(1) mk [OF m]] show ?thesis using False res \<open>b = embedding_present i s\<close> m by simp
      next
        case nostr: False
        then show ?thesis using raise False res \<open>b = embedding_present i s\<close> by (cases mk) simp_all
      qed
    qed
  qed (simp add: holds_def)
  from holdsD [OF holds_bind [OF first this], of w] w run show ?thesis
    by (cases out) (auto simp: resolve_row_def)
qed

section \<open>The loop\<close>

definition exempt :: "rat \<Rightarrow> rat \<Rightarrow> string list \<Rightarrow> import_row \<Rightarrow> bool" where
  "exempt older now live r \<longleftrightarrow> held_live live (the (row_marker r)) \<or> young older now (the (row_marker r))"

text \<open>What the sweep made of row \<open>i\<close> of \<open>s\<close> in \<open>t\<close>, under verdict \<open>v\<close>.\<close>

definition sweep_outcome :: "import_store \<Rightarrow> import_store \<Rightarrow> int \<Rightarrow> import_row \<Rightarrow> swept \<Rightarrow> bool" where
  "sweep_outcome s t i r v \<longleftrightarrow>
     (let completed = (map_of (is_rows t) i = Some (unmarked r) \<and> map_of (is_vecs t) i = map_of (is_vecs s) i \<and>
            map_of (is_refs t) i = map_of (is_refs s) i);
          removed = (map_of (is_rows t) i = None \<and> map_of (is_vecs t) i = None \<and> map_of (is_refs t) i = None) in
      case v of
        Completed \<Rightarrow> embedding_present i s \<and> completed
      | Removed \<Rightarrow> \<not> embedding_present i s \<and> removed
      | NotResolved \<Rightarrow> same_row t s i \<or> embedding_present i s \<and> completed \<or> \<not> embedding_present i s \<and> removed
      | _ \<Rightarrow> same_row t s i)"

lemma same_row_trans: "same_row t u i \<Longrightarrow> same_row u s i \<Longrightarrow> same_row t s i"
  by (simp add: same_row_def)

lemma outcome_same:
  assumes "same_row t' t i" and "sweep_outcome s t i r v" shows "sweep_outcome s t' i r v"
  using assms by (cases v) (auto simp: sweep_outcome_def same_row_def Let_def)

lemma outcome_base:
  assumes "same_row s' s i" and "sweep_outcome s' t i r v" shows "sweep_outcome s t i r v"
  using assms by (cases v) (auto simp: sweep_outcome_def same_row_def embedding_present_def Let_def)

lemma sweep_row_result:
  assumes "sweep_row older now live (i, r) w = (v, w')" and "quiet w" and "dict_wf (is_rows (iw_store w))"
    and "map_of (is_rows (iw_store w)) i = Some r" and "row_marker r \<noteq> None"
  shows "quiet w' \<and> dict_wf (is_rows (iw_store w')) \<and> (\<forall>j. j \<noteq> i \<longrightarrow> same_row (iw_store w') (iw_store w) j) \<and>
    sweep_outcome (iw_store w) (iw_store w') i r v \<and> (v \<in> {LeaseLive, Young} \<longleftrightarrow> exempt older now live r)"
proof (cases "exempt older now live r")
  case True
  then have "w' = w \<and> v \<in> {LeaseLive, Young}"
    using assms(1) by (auto simp: sweep_row_def exempt_def Let_def split: if_splits)
  then show ?thesis using True assms(2,3) by (auto simp: sweep_outcome_def same_row_def Let_def)
next
  case False
  obtain mk where mk: "row_marker r = Some mk" using assms(5) by blast
  obtain out u where run: "resolve_row i r mk w = (out, u)" by fastforce
  have res: "(v, w') = (case out of Val v \<Rightarrow> (v, u) | _ \<Rightarrow> (NotResolved, u))"
    using assms(1) False mk run by (simp add: sweep_row_def exempt_def split: run.splits)
  have now: "row_now (iw_store w) i {NotResolved} r w" using assms(3) by (simp add: row_now_def same_row_def)
  from resolve_row_result [OF assms(4) mk now assms(2) run]
  have "quiet u" "case out of Val v \<Rightarrow> v = resolution i (iw_store w) \<and> row_now (iw_store w) i {v} r u
    | _ \<Rightarrow> row_now (iw_store w) i {NotResolved, resolution i (iw_store w)} r u" by simp_all
  then show ?thesis using res False
    by (cases out) (auto simp: row_now_def resolution_def sweep_outcome_def Let_def split: if_splits)
qed

lemma sweep_rows_result:
  assumes "sweep_rows older now live irs w = (vs, w')" and "quiet w" and "dict_wf (is_rows (iw_store w))"
    and "distinct (map fst irs)" and "\<forall>(i, r) \<in> set irs. map_of (is_rows (iw_store w)) i = Some r \<and> row_marker r \<noteq> None"
  shows "map fst vs = map fst irs \<and> dict_wf (is_rows (iw_store w')) \<and> (\<forall>j. j \<notin> fst ` set irs \<longrightarrow> same_row (iw_store w') (iw_store w) j) \<and>
    (\<forall>k < length irs. sweep_outcome (iw_store w) (iw_store w') (fst (irs ! k)) (snd (irs ! k)) (snd (vs ! k)) \<and>
       (snd (vs ! k) \<in> {LeaseLive, Young} \<longleftrightarrow> exempt older now live (snd (irs ! k)))) \<and> quiet w'"
  using assms
proof (induction irs arbitrary: w vs w')
  case Nil
  then show ?case by (simp add: same_row_def)
next
  case (Cons ir irs)
  obtain i r where ir: "ir = (i, r)" by (cases ir)
  obtain v u where one: "sweep_row older now live (i, r) w = (v, u)" by fastforce
  obtain ws where rest: "sweep_rows older now live irs u = (ws, w')" and vs: "vs = (i, v) # ws"
    using Cons.prems(1) one ir by (auto split: prod.splits)
  have step: "quiet u" "dict_wf (is_rows (iw_store u))" "\<forall>j. j \<noteq> i \<longrightarrow> same_row (iw_store u) (iw_store w) j"
    "sweep_outcome (iw_store w) (iw_store u) i r v" "v \<in> {LeaseLive, Young} \<longleftrightarrow> exempt older now live r"
    using sweep_row_result [OF one Cons.prems(2,3)] Cons.prems(5) ir by auto
  have i: "i \<notin> fst ` set irs" using Cons.prems(4) ir by simp
  have "\<forall>(j, q) \<in> set irs. map_of (is_rows (iw_store u)) j = Some q \<and> row_marker q \<noteq> None"
    using Cons.prems(5) step(3) i by (fastforce simp: same_row_def)
  from Cons.IH [OF rest step(1,2) _ this] Cons.prems(4) have tail: "map fst ws = map fst irs" "dict_wf (is_rows (iw_store w'))"
    "\<forall>j. j \<notin> fst ` set irs \<longrightarrow> same_row (iw_store w') (iw_store u) j" "quiet w'"
    "\<forall>k < length irs. sweep_outcome (iw_store u) (iw_store w') (fst (irs ! k)) (snd (irs ! k)) (snd (ws ! k)) \<and>
       (snd (ws ! k) \<in> {LeaseLive, Young} \<longleftrightarrow> exempt older now live (snd (irs ! k)))"
    by auto
  have head: "sweep_outcome (iw_store w) (iw_store w') i r v" using outcome_same [OF _ step(4)] tail(3) i by blast
  have others: "sweep_outcome (iw_store w) (iw_store w') (fst (irs ! k)) (snd (irs ! k)) (snd (ws ! k))" if "k < length irs" for k
  proof -
    have "fst (irs ! k) \<noteq> i" using i that by force
    with step(3) have "same_row (iw_store u) (iw_store w) (fst (irs ! k))" by blast
    with outcome_base tail(5) that show ?thesis by blast
  qed
  have "\<forall>k < length (ir # irs). sweep_outcome (iw_store w) (iw_store w') (fst ((ir # irs) ! k)) (snd ((ir # irs) ! k)) (snd (vs ! k)) \<and>
       (snd (vs ! k) \<in> {LeaseLive, Young} \<longleftrightarrow> exempt older now live (snd ((ir # irs) ! k)))"
    using head others tail(5) step(5) by (auto simp: vs ir nth_Cons split: nat.split)
  moreover have "\<forall>j. j \<notin> fst ` set (ir # irs) \<longrightarrow> same_row (iw_store w') (iw_store w) j"
    using step(3) tail(3) ir by (auto intro: same_row_trans)
  ultimately show ?case using tail(1,2,4) by (simp add: vs ir)
qed


section \<open>Properties\<close>

lemma query_served:
  assumes "im_query f w = (Val x, w')" and "quiet w"
  shows "iw_io w \<noteq> [] \<and> x = f (si_env (hd (iw_io w)) (iw_store w)) \<and> quiet w' \<and>
    (\<exists>l. iw_store w' = (iw_store w)\<lparr>is_lease := l\<rparr>)"
proof (cases "iw_io w")
  case (Cons i rest)
  then have "si_env i (iw_store w) = (iw_store w)\<lparr>is_lease := is_lease (si_env i (iw_store w))\<rparr>"
    using assms(2) by (simp add: quiet_def lease_only_def)
  then show ?thesis using assms Cons
    by (auto simp: im_query_def im_stmt_def Let_def quiet_def split: fate.splits intro!: exI [of _ "is_lease (si_env i (iw_store w))"])
qed (use assms in \<open>simp add: im_query_def im_stmt_def\<close>)

lemma same_row_lease [simp]: "same_row (s\<lparr>is_lease := l\<rparr>) t i = same_row s t i" "same_row s (t\<lparr>is_lease := l\<rparr>) i = same_row s t i"
  by (simp_all add: same_row_def)

lemma outcome_lease [simp]: "sweep_outcome (s\<lparr>is_lease := l\<rparr>) t i r v = sweep_outcome s t i r v"
  by (cases v) (simp_all add: sweep_outcome_def embedding_present_def Let_def)

lemma last_lease:
  assumes "quiet w" shows "\<forall>i. same_row (iw_store (snd (im_update (on_lease f) w))) (iw_store w) i"
proof (cases "iw_io w")
  case (Cons i rest)
  then have "si_env i (iw_store w) = (iw_store w)\<lparr>is_lease := is_lease (si_env i (iw_store w))\<rparr>"
    using assms by (simp add: quiet_def lease_only_def)
  then have "\<forall>j. same_row (si_env i (iw_store w)) (iw_store w) j" by (metis same_row_def same_row_lease(1))
  then show ?thesis using Cons
    by (auto simp: im_update_def im_stmt_def on_lease_def same_row_def Let_def split: fate.splits)
qed (simp add: im_update_def im_stmt_def same_row_def)


definition ex_marked :: "string \<Rightarrow> import_row" where
  "ex_marked m = \<lparr>ir_content = ''new'', ir_meta = Some [(''type'', JStr ''todo''), (marker_key, JStr m)], ir_tags = ''[]'', ir_created = None\<rparr>"

definition ex_left :: import_store where
  "ex_left = \<lparr>is_rows = [(1, ex_marked ''dead:100:0''), (2, ex_marked ''dead:100:1''), (3, ex_marked ''live:100:0'')],
     is_vecs = [(1, JStr ''v'')], is_refs = [], is_lease = Some (''live'', 2800), is_seq = 3\<rparr>"

definition ex_sweep :: "fate list \<Rightarrow> import_world" where
  "ex_sweep fates = (ex_import fates)\<lparr>iw_store := ex_left\<rparr>"


end
