(* ===== verification/Spec2Isabelle.thy ===== *)
theory Spec2Isabelle
  imports Memora_Prelude Journal_Safety D1_Write Intent_Evidence Db_Routing Tool_Profile Rollback_Phases Lineage_Delete Lineage_Follow Lineage_View Compare_Quiet Corpus_Fresh Restore_Runs Import_Sweep
begin

text \<open>
  This development models memora, a memory server for language-model agents (Python, under \<open>src/memora/\<close>), and
  proves the properties its data depends on.  A memory is a row of a store; the store is a local SQLite file or
  a Cloudflare D1 database reached over HTTP, and a local store can be replicated to D1.  The parts modelled are
  those that decide whether a write may happen, what is known after it, who may reach which store, and whether
  two copies of a store agree.

  How the parts interact.  A request enters through the router (\<open>db_routing.py\<close>), which binds a named database,
  and the session guard (\<open>session_guard.py\<close>), which bounds the sessions; the tools it can call are those of the
  tool profile (\<open>tool_profile.py\<close>).  The binding selects a backend (\<open>storage.py\<close>, \<open>backends.py\<close>).  A statement
  for D1 is classified (\<open>sql_classify.py\<close>), passes the store's write gate (\<open>write_gate.py\<close>), is journaled as
  an intent (\<open>intent_journal.py\<close>) and only then sent; an intent whose outcome stays unknown is read back and
  closed by an operator (\<open>reconcile.py\<close>, \<open>admin.py\<close>).  The memories carry supersession edges and tombstones,
  and an import writes many of them row by row (\<open>storage.py\<close>).  The replicator (\<open>replicator.py\<close>) sends the
  changes of a local store to D1, the compare (\<open>compare.py\<close>) checks both sides beside it, the restore
  (\<open>local_primary.py\<close>) writes the reviewed rows of a snapshot back to D1 with the replicator's statements and
  rebuilds the local store, and the rollback (\<open>rollback.py\<close>) leads back.  Reads that need every memory share one
  snapshot of the store, the corpus cache (\<open>storage.py\<close>).

  Theories and code.

  \<^item> \<open>Memora_Prelude\<close>: Python's string predicates, ordered dictionaries, JSON values, de-duplication and
    chunking, with the collections \<open>text_simps\<close> and \<open>dict_simps\<close>.
  \<^item> \<open>Sql_Classify\<close>, \<open>Sql_Render\<close>, \<open>Sql_Effect\<close>: \<open>sql_classify.py\<close>.  The tokenizer, \<open>classify_statement\<close>,
    \<open>is_select_only\<close> and \<open>derive_effect\<close>; a printer shows that the class and the effect of a text depend on its
    tokens alone, and derived keys and values come from the parameters.
  \<^item> \<open>Write_Gate\<close>: \<open>write_gate.py\<close>.  The record \<open>gate\<close> and one step per method of the gate, which runs under
    one condition variable; a gate that reports frozen is quiet.
  \<^item> \<open>Intent_Journal\<close>, \<open>Journal_Safety\<close>: \<open>intent_journal.py\<close>.  The journal and its file with failing system
    calls and crashes; the contract is the locale \<open>write_ahead_log\<close>, interpreted on the journal.
  \<^item> \<open>D1_Write\<close>: \<open>D1Connection._execute_api\<close> of \<open>backends.py\<close>, which composes the classifier, the gate and the
    journal; nothing is sent before it is recorded.
  \<^item> \<open>Intent_Evidence\<close>: \<open>reconcile.py\<close>, \<open>accept_intent\<close> of \<open>admin.py\<close> and the SELECT-only reader of
    \<open>backends.py\<close>, on the journal and the effects of the theories above.
  \<^item> \<open>Db_Registry\<close>, \<open>Db_Routing\<close>, \<open>Session_Guard\<close>, \<open>Tool_Profile\<close>: credentials (\<open>secret_files.py\<close>), the registry
    of databases and its cache (\<open>storage.py\<close>, \<open>backends.py\<close>), the router, the guard with its admission window and
    reserved ceiling under every interleaving of requests, and the profiles with their start-up attestation.
  \<^item> \<open>Lineage_Store\<close>, \<open>Lineage_Links\<close>, \<open>Lineage_Walk\<close>, \<open>Retirement\<close>, \<open>Lineage_View\<close>, \<open>Lineage_Follow\<close>,
    \<open>Lineage_Delete\<close>: the supersession lineage of \<open>storage.py\<close>.  The cross-reference rows and their atomic merge
    (locale \<open>edge_store\<close>), the bounded walks, tombstones, the prefetched neighbourhood (locale \<open>prefetch\<close>), the
    follow modes, deletion and fork healing.
  \<^item> \<open>Import_Lease\<close>, \<open>Import_Write\<close>, \<open>Import_Sweep\<close>: the import on D1 (\<open>_ImportLease\<close>, \<open>_import_write_d1\<close>,
    \<open>sweep_import_markers\<close> of \<open>storage.py\<close>), statement by statement, each of which may be answered, commit with
    its reply lost, or not arrive.
  \<^item> \<open>Replica_Statements\<close>, \<open>Replica_Batch\<close>, \<open>Replica_Cycle\<close>: \<open>replicator.py\<close>.  The statements and their
    checker, a batch and its order, and the cycle with its in-flight marker; D1 is a parameter of which
    \<open>replica_laws\<close> states what SQL promises of the three statement shapes, and \<open>mem_exec\<close> is a database that has
    these laws.
  \<^item> \<open>Store_Compare\<close>, \<open>Compare_Quiet\<close>: \<open>compare.py\<close> and the paged reader of \<open>local_primary.py\<close>, composed with
    the replicator's steps: a clean report is equality, and the replicator's delay is never a difference.
  \<^item> \<open>Corpus_Cache\<close>, \<open>Corpus_Fresh\<close>: the corpus snapshot of \<open>storage.py\<close> (\<open>_load_corpus_snapshot\<close>,
    \<open>_corpus_base\<close>).  The paged load with its repair of missing vectors, the reading of the epoch before and after
    it, the retries, and the byte budget, while other clients change the store before every statement.  What is
    cached or served is the store's content at a moment of the call (locale \<open>stamped\<close>, interpreted on the epoch),
    each memory once and with its own vector, and the cache stays within its budget; a repair that is rolled back
    on a local SQLite store breaks this, as an example shows.
  \<^item> \<open>Restore_Conflicts\<close>, \<open>Restore_Apply\<close>, \<open>Restore_Exact\<close>, \<open>Restore_Complete\<close>, \<open>Restore_Runs\<close>:
    \<open>restore --from-r2\<close> of \<open>local_primary.py\<close>.  The groups in which a snapshot and D1 differ and the operator's
    choices, the check of dangling references, the statements and the delete guard, the run that checks, sends and
    re-reads each group, and the check of the fresh export.  The local store is rebuilt from the chosen rows only,
    and a restore that nobody disturbs completes; a row that moved between groups blocks it forever, and deletes in
    a table the group also inserts into pass the guard unseen.
  \<^item> \<open>Rollback_Phases\<close>: the state file and the phase runner of \<open>rollback.py\<close>, with overlapping and dying runs.

  Conventions.  A dictionary is an association list with distinct keys, an exception is \<^const>\<open>None\<close> or a
  constructor of a result type, and a mutable object is a record that is passed and returned.  What the outside
  answers (the operating system, the network, the clock, other clients) is an argument: one value per call, a
  record of answers per cycle, or a list of answers that a run consumes.  Concurrency is a step relation whose
  steps are the stretches the code runs without interruption, under its lock or between two awaits.  Code outside
  the repository (the MCP SDK, SHA-256, \<open>json.loads\<close>, the environment, D1) is a parameter.

  Bounds and fuel.  The lineage walks are bounded by the code itself (two hundred steps), and the walk theorems
  speak of the versions within that bound.  The import's retries and the read of pages end with the list of
  answers; a list that ends is a service that no longer answers.  The corpus load is retried as often as the code
  says, and its pages end because the other clients do and the ids grow; the restore's groups are a finite list.  The read-back of a marker is bounded by
  \<open>reconcile_limit\<close>, and the theorems on the replicator assume batches of at most that many rows, which the
  configuration's limit of a thousand gives.  Integers of the code are unbounded; floats are the rationals they
  denote, with rounding a parameter where the code compares floats.

  Not modelled.  The transports (HTTP, docker, boto3) and their retries; process and file-system tools (seeding,
  promotion, snapshots, cloud sync, images; of \<open>local_primary.py\<close> all but the paged reader and the restore); the request handlers of \<open>server.py\<close>, the HTTP API and the
  command line, which call the operations above; the filters of the searches over a corpus snapshot; the web views under \<open>graph/\<close>; embeddings, similarity search and
  the absorption of near-duplicates, which rest on vector models and language-model answers; the DDL and the
  triggers of \<open>schema.py\<close>, which SQLite runs (what they guarantee the replicator is \<open>local_writes\<close> in
  \<open>Replica_Cycle\<close>); the shadow and health jobs; the preparation of import entries and the transactional import on
  SQLite.  Messages of exceptions are shortened or left out where nothing reads them.
\<close>

end
